(* ===== verification/SC_Prelude.thy ===== *)
theory SC_Prelude
  imports Main "HOL-Library.Word" "HOL-Library.Multiset"
begin

text \<open>
  Shared vocabulary of the development: machine integers at their width, byte-addressed memory
  with little-endian loads and stores, the ways in which C code can stop without returning, the
  record of calls made to the lock library, and singly linked lists threaded through a store.

  \<^item> Pointers and \<^verbatim>\<open>u64\<close> values are \<open>64 word\<close>; NULL is \<open>0\<close>; \<^verbatim>\<open>MAP_FAILED\<close> is \<open>(void*)-1\<close>.
  \<^item> Memory is a function from byte addresses to bytes. \<open>load64\<close> and \<open>store64\<close> read and write a
    \<^verbatim>\<open>u64\<close> as x86-64 lays it out.
  \<^item> A failed \<^verbatim>\<open>assert()\<close>, a call of \<^verbatim>\<open>TODO()\<close>, \<^verbatim>\<open>exit()\<close>, the dereference of a pointer to no
    struct and a loop that does not end are values of \<open>trap\<close>; the number carried by an assert or
    a \<^verbatim>\<open>TODO()\<close> is its source line.
  \<^item> The lock library \<^verbatim>\<open>russ_locks\<close> is not part of the repository. The model records each call to
    it, in order, as a \<open>lock_ev\<close>, and interprets the record only through \<open>heldX\<close> and \<open>heldS\<close>.
\<close>

unbundle bit_operations_syntax

type_synonym u8 = "8 word"
type_synonym u16 = "16 word"
type_synonym u32 = "32 word"
type_synonym u64 = "64 word"
type_synonym memory = "u64 \<Rightarrow> u8"
type_synonym block = "u64 \<times> u64"

named_theorems mem_simps \<open>loads of stores\<close>
named_theorems ctl_simps \<open>control flow of the C code: asserts, calls, dereferences\<close>
named_theorems lock_simps \<open>the record of lock calls\<close>

section \<open>Definitions\<close>

subsection \<open>Ways to stop\<close>

datatype trap = AssertFail nat | Todo nat | Exit int | Segv | Diverge

type_synonym ('a, 's) res = "(trap + 'a) \<times> 's"

fun first_failed :: "(nat \<times> bool) list \<Rightarrow> nat option" where
  "first_failed [] = None"
| "first_failed ((l, b) # cs) = (if b then first_failed cs else Some l)"

definition guard :: "(nat \<times> bool) list \<Rightarrow> ('s \<Rightarrow> ('a, 's) res) \<Rightarrow> 's \<Rightarrow> ('a, 's) res" where
  "guard cs k s =
     (case first_failed cs of Some l \<Rightarrow> (Inl (AssertFail l), s) | None \<Rightarrow> k s)"

definition call :: "('s \<Rightarrow> ('a, 's) res) \<Rightarrow> ('a \<Rightarrow> 's \<Rightarrow> ('b, 's) res) \<Rightarrow> 's \<Rightarrow> ('b, 's) res" where
  "call f k s = (case f s of (Inl e, s') \<Rightarrow> (Inl e, s') | (Inr x, s') \<Rightarrow> k x s')"

definition deref :: "'o option \<Rightarrow> ('o \<Rightarrow> 's \<Rightarrow> ('a, 's) res) \<Rightarrow> 's \<Rightarrow> ('a, 's) res" where
  "deref p k s = (case p of None \<Rightarrow> (Inl Segv, s) | Some x \<Rightarrow> k x s)"

definition loops :: "'o option \<Rightarrow> ('o \<Rightarrow> 's \<Rightarrow> ('a, 's) res) \<Rightarrow> 's \<Rightarrow> ('a, 's) res" where
  "loops p k s = (case p of None \<Rightarrow> (Inl Diverge, s) | Some x \<Rightarrow> k x s)"

subsection \<open>Memory\<close>

definition mem_read :: "memory \<Rightarrow> u64 \<Rightarrow> nat \<Rightarrow> u8 list" where
  "mem_read m a n = map (\<lambda>i. m (a + of_nat i)) [0..<n]"

definition mem_write :: "memory \<Rightarrow> u64 \<Rightarrow> u8 list \<Rightarrow> memory" where
  "mem_write m a bs =
     (\<lambda>x. if unat a \<le> unat x \<and> unat x < unat a + length bs then bs ! (unat x - unat a) else m x)"

definition enc64 :: "u64 \<Rightarrow> u8 list" where
  "enc64 v = map (\<lambda>i. ucast (drop_bit (8 * i) v)) [0..<8]"

definition dec64 :: "u8 list \<Rightarrow> u64" where
  "dec64 bs = foldr (\<lambda>b acc. ucast b OR push_bit 8 acc) bs 0"

definition load64 :: "memory \<Rightarrow> u64 \<Rightarrow> u64" where
  "load64 m a = dec64 (mem_read m a 8)"

definition store64 :: "memory \<Rightarrow> u64 \<Rightarrow> u64 \<Rightarrow> memory" where
  "store64 m a v = mem_write m a (enc64 v)"

subsection \<open>Address ranges\<close>

text \<open>A block is a start address and a length in bytes; \<open>fits\<close> says it does not wrap around.\<close>

definition fits :: "block \<Rightarrow> bool" where
  "fits b \<longleftrightarrow> unat (fst b) + unat (snd b) < 2 ^ 64"

definition apart :: "block \<Rightarrow> block \<Rightarrow> bool" where
  "apart b c \<longleftrightarrow> unat (fst b) + unat (snd b) \<le> unat (fst c) \<or> unat (fst c) + unat (snd c) \<le> unat (fst b)"

definition inside :: "block \<Rightarrow> block \<Rightarrow> bool" where
  "inside b c \<longleftrightarrow> unat (fst c) \<le> unat (fst b) \<and> unat (fst b) + unat (snd b) \<le> unat (fst c) + unat (snd c)"

definition addrs :: "block \<Rightarrow> nat set" where
  "addrs b = {unat (fst b) ..< unat (fst b) + unat (snd b)}"

definition in_block :: "u64 \<Rightarrow> block \<Rightarrow> bool" where
  "in_block a b \<longleftrightarrow> unat (fst b) \<le> unat a \<and> unat a < unat (fst b) + unat (snd b)"

definition fill :: "memory \<Rightarrow> block \<Rightarrow> (u64 \<Rightarrow> u8) \<Rightarrow> memory" where
  "fill m b f = (\<lambda>x. if in_block x b then f x else m x)"

text \<open>Pairwise disjoint blocks, counted with multiplicity: no block occurs twice.\<close>

definition apart_all :: "block multiset \<Rightarrow> bool" where
  "apart_all M \<longleftrightarrow> (\<forall>x \<in># M. \<forall>y \<in># M - {#x#}. apart x y)"

subsection \<open>Lock calls\<close>

datatype lock_id = LRoot | LRegion u64 | LProc u64 | LStep u64 | LMalloc | LLocalList | LRegistry

datatype lock_ev = LkInit lock_id | LkExcl lock_id | UnExcl lock_id | LkShared lock_id
  | UnShared lock_id | Downgrade lock_id | LkSharedRec lock_id | UnSharedRec lock_id

text \<open>
  \<open>heldX tr l\<close> counts the exclusive holds of \<open>l\<close> outstanding after the calls of \<open>tr\<close>, and
  \<open>heldS\<close> the shared ones: a lock call adds a hold, the matching unlock removes one, a downgrade
  turns an exclusive hold into a shared one and an init forgets every hold.
\<close>

fun heldX_step :: "lock_id \<Rightarrow> lock_ev \<Rightarrow> int \<Rightarrow> int" where
  "heldX_step l (LkExcl k) n = (if k = l then n + 1 else n)"
| "heldX_step l (UnExcl k) n = (if k = l then n - 1 else n)"
| "heldX_step l (Downgrade k) n = (if k = l then n - 1 else n)"
| "heldX_step l (LkInit k) n = (if k = l then 0 else n)"
| "heldX_step l _ n = n"

fun heldS_step :: "lock_id \<Rightarrow> lock_ev \<Rightarrow> int \<Rightarrow> int" where
  "heldS_step l (LkShared k) n = (if k = l then n + 1 else n)"
| "heldS_step l (UnShared k) n = (if k = l then n - 1 else n)"
| "heldS_step l (LkSharedRec k) n = (if k = l then n + 1 else n)"
| "heldS_step l (UnSharedRec k) n = (if k = l then n - 1 else n)"
| "heldS_step l (Downgrade k) n = (if k = l then n + 1 else n)"
| "heldS_step l (LkInit k) n = (if k = l then 0 else n)"
| "heldS_step l _ n = n"

definition heldX :: "lock_ev list \<Rightarrow> lock_id \<Rightarrow> int" where
  "heldX tr l = fold (heldX_step l) tr 0"

definition heldS :: "lock_ev list \<Rightarrow> lock_id \<Rightarrow> int" where
  "heldS tr l = fold (heldS_step l) tr 0"

subsection \<open>Singly linked lists\<close>

text \<open>\<open>chain nxt p as q\<close>: following \<open>nxt\<close> from \<open>p\<close> visits the structs at \<open>as\<close> and arrives at \<open>q\<close>.\<close>

fun chain :: "(u64 \<Rightarrow> u64) \<Rightarrow> u64 \<Rightarrow> u64 list \<Rightarrow> u64 \<Rightarrow> bool" where
  "chain nxt p [] q = (p = q)"
| "chain nxt p (a # as) q = (p = a \<and> a \<noteq> 0 \<and> chain nxt (nxt a) as q)"

section \<open>Lemmas\<close>

subsection \<open>Control flow\<close>

lemma guard_Nil [ctl_simps, simp]: "guard [] k s = k s"
  by (simp add: guard_def)

lemma guard_Cons [ctl_simps, simp]:
  "guard ((l, b) # cs) k s = (if b then guard cs k s else (Inl (AssertFail l), s))"
  by (simp add: guard_def)

lemma guard_pass: "first_failed cs = None \<Longrightarrow> guard cs k s = k s"
  by (simp add: guard_def)

lemma guard_InrD: "guard cs k s = (Inr x, t) \<Longrightarrow> first_failed cs = None \<and> k s = (Inr x, t)"
  by (auto simp: guard_def split: option.splits)

lemma call_simps [ctl_simps, simp]:
  "f s = (Inr x, s') \<Longrightarrow> call f k s = k x s'"
  "f s = (Inl e, s') \<Longrightarrow> call f k s = (Inl e, s')"
  by (simp_all add: call_def)

lemma call_InrE:
  assumes "call f k s = (Inr y, t)"
  obtains x s' where "f s = (Inr x, s')" "k x s' = (Inr y, t)"
  using assms by (auto simp: call_def split: prod.splits sum.splits)

lemma deref_simps [ctl_simps, simp]:
  "deref (Some x) k s = k x s"
  "deref None k s = (Inl Segv, s)"
  by (simp_all add: deref_def)

lemma loops_simps [ctl_simps, simp]:
  "loops (Some x) k s = k x s"
  "loops None k s = (Inl Diverge, s)"
  by (simp_all add: loops_def)

subsection \<open>Memory and words\<close>


lemma length_enc64 [simp]: "length (enc64 v) = 8"
  by (simp add: enc64_def)

lemma byte_split: "ucast (ucast w :: u8) OR push_bit 8 (drop_bit 8 w) = (w :: u64)"
proof (rule bit_word_eqI)
  fix n
  show "bit (ucast (ucast w :: u8) OR push_bit 8 (drop_bit 8 w)) n \<longleftrightarrow> bit w n" if "n < LENGTH(64)"
    using that by (cases "n < 8") (auto simp: bit_simps)
qed

lemma dec64_bytes:
  "k \<le> 8 \<Longrightarrow> dec64 (map (\<lambda>i. ucast (drop_bit (8 * i) v)) [k..<8]) = drop_bit (8 * k) v"
proof (induction k rule: inc_induct)
  case base
  have "drop_bit 64 v = 0" by (rule bit_word_eqI) (simp add: bit_simps)
  then show ?case by (simp add: dec64_def)
next
  case (step k)
  have "drop_bit (8 * Suc k) v = drop_bit 8 (drop_bit (8 * k) v)"
    by (simp add: add.commute)
  then have "ucast (ucast (drop_bit (8 * k) v) :: u8) OR push_bit 8 (drop_bit (8 * Suc k) v) = drop_bit (8 * k) v"
    by (simp only: byte_split)
  with step show ?case
    by (simp add: upt_rec [of k] dec64_def)
qed

lemma dec64_enc64 [simp]: "dec64 (enc64 v) = v"
  using dec64_bytes [of 0 v] by (simp add: enc64_def)

lemma length_mem_read [simp]: "length (mem_read m a n) = n"
  by (simp add: mem_read_def)

lemma unat_of_nat_small: "i < 2 ^ 64 \<Longrightarrow> unat (of_nat i :: u64) = i"
  by (simp add: unat_of_nat take_bit_nat_eq_self_iff)

lemma unat_add_fits:
  fixes a :: u64
  assumes "unat a + i < 2 ^ 64" shows "unat (a + of_nat i) = unat a + i"
  using assms by (simp add: unat_word_ariths unat_of_nat_small)

lemma mem_read_write_same:
  assumes "unat a + length bs \<le> 2 ^ 64"
  shows "mem_read (mem_write m a bs) a (length bs) = bs"
  using assms by (intro nth_equalityI) (auto simp: mem_read_def mem_write_def unat_add_fits)

lemma mem_read_cong:
  assumes "\<And>i. i < n \<Longrightarrow> m (a + of_nat i) = m' (a + of_nat i)"
  shows "mem_read m a n = mem_read m' a n"
  using assms by (simp add: mem_read_def)

lemma mem_read_write_other:
  assumes "unat b + n \<le> unat a \<or> unat a + length bs \<le> unat b" and "unat b + n \<le> 2 ^ 64"
  shows "mem_read (mem_write m a bs) b n = mem_read m b n"
  using assms by (intro mem_read_cong) (auto simp: mem_write_def unat_add_fits)

lemma load64_store64 [mem_simps]:
  "unat a + 8 \<le> 2 ^ 64 \<Longrightarrow> load64 (store64 m a v) a = v"
  using mem_read_write_same [of a "enc64 v" m] by (simp add: load64_def store64_def)

lemma load64_store64_other [mem_simps]:
  "unat b + 8 \<le> unat a \<or> unat a + 8 \<le> unat b \<Longrightarrow> unat b + 8 \<le> 2 ^ 64 \<Longrightarrow>
   load64 (store64 m a v) b = load64 m b"
  by (simp add: load64_def store64_def mem_read_write_other)

lemma store64_outside: "\<not> (unat a \<le> unat x \<and> unat x < unat a + 8) \<Longrightarrow> store64 m a v x = m x"
  by (auto simp: store64_def mem_write_def)

lemma load64_cong:
  "(\<And>i. i < 8 \<Longrightarrow> m (a + of_nat i) = m' (a + of_nat i)) \<Longrightarrow> load64 m a = load64 m' a"
  by (simp add: load64_def mem_read_cong [of 8 m a m'])

subsection \<open>Ranges\<close>

lemma apart_sym: "apart b c \<longleftrightarrow> apart c b"
  by (auto simp: apart_def)

lemma symp_apart: "symp apart"
  by (rule sympI) (simp add: apart_sym)

lemma apart_inside: "apart b c \<Longrightarrow> inside b' b \<Longrightarrow> apart b' c"
  by (auto simp: apart_def inside_def)

lemma apart_inside2: "apart b c \<Longrightarrow> inside b' b \<Longrightarrow> inside c' c \<Longrightarrow> apart b' c'"
  by (auto simp: apart_def inside_def)

lemma inside_refl [simp]: "inside b b" by (simp add: inside_def)

lemma inside_trans: "inside a b \<Longrightarrow> inside b c \<Longrightarrow> inside a c"
  by (auto simp: inside_def)

lemma fits_inside: "fits c \<Longrightarrow> inside b c \<Longrightarrow> fits b"
  by (simp add: fits_def inside_def)

lemma addrs_apart: "0 < snd b \<Longrightarrow> 0 < snd c \<Longrightarrow> apart b c \<longleftrightarrow> addrs b \<inter> addrs c = {}"
  by (auto simp: apart_def addrs_def word_less_nat_alt)


lemma apart_all_empty [simp]: "apart_all {#}"
  by (simp add: apart_all_def)

lemma apart_all_add [simp]:
  "apart_all (add_mset x M) \<longleftrightarrow> apart_all M \<and> (\<forall>y \<in># M. apart x y)"
proof
  assume *: "apart_all (add_mset x M)"
  then have x: "\<forall>y \<in># M. apart x y" by (auto simp: apart_all_def)
  have "apart z y" if "z \<in># M" "y \<in># M - {#z#}" for z y
  proof -
    have "y \<in># add_mset x M - {#z#}" using that by (auto simp: in_diff_count split: if_splits)
    with * that show ?thesis by (auto simp: apart_all_def)
  qed
  with x show "apart_all M \<and> (\<forall>y \<in># M. apart x y)" by (auto simp: apart_all_def)
next
  assume *: "apart_all M \<and> (\<forall>y \<in># M. apart x y)"
  have "apart z y" if z: "z \<in># M" and y: "y \<in># add_mset x M - {#z#}" for z y
  proof (cases "y \<in># M - {#z#}")
    case True
    with * z show ?thesis by (auto simp: apart_all_def)
  next
    case False
    with y have "y = x" by (auto simp: in_diff_count split: if_splits)
    with * z show ?thesis by (metis apart_sym)
  qed
  with * show "apart_all (add_mset x M)" by (auto simp: apart_all_def)
qed

lemma apart_all_union:
  "apart_all (M + N) \<longleftrightarrow> apart_all M \<and> apart_all N \<and> (\<forall>x \<in># M. \<forall>y \<in># N. apart x y)"
  by (induction M) auto


lemma apart_all_split:
  assumes "apart_all (add_mset b M)" and "inside b1 b" and "inside b2 b" and "apart b1 b2"
  shows "apart_all (add_mset b1 (add_mset b2 M))"
  using assms by (auto intro: apart_inside)

lemma apart_all_shrink: "apart_all (add_mset b M) \<Longrightarrow> inside b' b \<Longrightarrow> apart_all (add_mset b' M)"
  by (auto intro: apart_inside)

lemma apart_all_sub: "apart_all N \<Longrightarrow> M \<subseteq># N \<Longrightarrow> apart_all M"
  by (metis apart_all_union subset_mset.add_diff_inverse)

subsection \<open>Linked lists\<close>

lemma chain_append: "chain f p (as @ bs) q \<longleftrightarrow> (\<exists>r. chain f p as r \<and> chain f r bs q)"
  by (induction as arbitrary: p) auto

lemma chain_cong: "(\<And>a. a \<in> set as \<Longrightarrow> f a = g a) \<Longrightarrow> chain f p as q = chain g p as q"
  by (induction as arbitrary: p) auto

lemma chain_nonnull: "chain f p as q \<Longrightarrow> 0 \<notin> set as"
  by (induction as arbitrary: p) auto

lemma chain_null [simp]: "chain f 0 as 0 \<longleftrightarrow> as = []"
  by (cases as) auto

lemma chain_hd: "chain f p as 0 \<Longrightarrow> p \<noteq> 0 \<Longrightarrow> as = p # tl as \<and> chain f (f p) (tl as) 0"
  by (cases as) auto

lemma chain_unique: "chain f p as 0 \<Longrightarrow> chain f p bs 0 \<Longrightarrow> as = bs"
proof (induction as arbitrary: p bs)
  case Nil
  then show ?case by (cases bs) auto
next
  case (Cons a as)
  then show ?case by (cases bs) auto
qed

lemma chain_distinct: "chain f p as 0 \<Longrightarrow> distinct as"
proof (induction as arbitrary: p)
  case Nil
  then show ?case by simp
next
  case (Cons a as)
  have "a \<notin> set as"
  proof
    assume "a \<in> set as"
    then obtain xs ys where as: "as = xs @ a # ys" by (auto simp: in_set_conv_decomp)
    with Cons.prems have "chain f a (a # as) 0" and "chain f a (a # ys) 0"
      by (auto simp: chain_append)
    then have "a # as = a # ys" by (rule chain_unique)
    with as show False by simp
  qed
  with Cons show ?case by auto
qed

text \<open>
  The interface of a store whose structs carry a \<^verbatim>\<open>next\<close> pointer: \<open>upd m a v\<close> stores \<open>v\<close> into the
  \<^verbatim>\<open>next\<close> field of the struct at \<open>a\<close>, \<open>ok m a\<close> says that a struct is there, and \<open>sep a b\<close> that
  the structs at \<open>a\<close> and \<open>b\<close> do not share bytes.
\<close>

locale linked_store =
  fixes nxt :: "'m \<Rightarrow> u64 \<Rightarrow> u64"
    and upd :: "'m \<Rightarrow> u64 \<Rightarrow> u64 \<Rightarrow> 'm"
    and ok :: "'m \<Rightarrow> u64 \<Rightarrow> bool"
    and sep :: "u64 \<Rightarrow> u64 \<Rightarrow> bool"
  assumes nxt_upd_same: "ok m a \<Longrightarrow> nxt (upd m a v) a = v"
    and nxt_upd_other: "ok m b \<Longrightarrow> sep a b \<Longrightarrow> nxt (upd m a v) b = nxt m b"
begin

lemma chain_upd_other:
  assumes "\<And>b. b \<in> set as \<Longrightarrow> ok m b \<and> sep a b"
  shows "chain (nxt (upd m a v)) p as q = chain (nxt m) p as q"
  using assms by (intro chain_cong) (simp add: nxt_upd_other)

lemma push_front:
  assumes "chain (nxt m) p as 0" and "a \<noteq> 0" and "ok m a"
    and "\<And>b. b \<in> set as \<Longrightarrow> ok m b \<and> sep a b"
  shows "chain (nxt (upd m a p)) a (a # as) 0"
  using assms by (simp add: nxt_upd_same chain_upd_other)

lemma append_last:
  assumes c: "chain (nxt m) p (as @ [t]) 0" and "ok m t"
    and "\<And>b. b \<in> set as \<Longrightarrow> ok m b \<and> sep t b"
    and r: "ok m r" "sep t r" "nxt m r = 0" "r \<noteq> 0"
  shows "chain (nxt (upd m t r)) p (as @ [t, r]) 0"
proof -
  from c have "chain (nxt m) p as t" "t \<noteq> 0" by (auto simp: chain_append)
  then have "chain (nxt (upd m t r)) p as t" using assms(3) by (simp add: chain_upd_other)
  with assms \<open>t \<noteq> 0\<close> show ?thesis by (auto simp: chain_append nxt_upd_same nxt_upd_other)
qed

lemma splice_after:
  assumes c: "chain (nxt m) p (as @ [t]) r" and "ok m t"
    and "\<And>b. b \<in> set as \<Longrightarrow> ok m b \<and> sep t b"
  shows "chain (nxt (upd m t q)) p (as @ [t]) q"
proof -
  from c have "chain (nxt m) p as t" "t \<noteq> 0" by (auto simp: chain_append)
  then have "chain (nxt (upd m t q)) p as t" using assms(3) by (simp add: chain_upd_other)
  with assms \<open>t \<noteq> 0\<close> show ?thesis by (auto simp: chain_append nxt_upd_same)
qed

lemma unlink:
  assumes c: "chain (nxt m) p (as @ t # a # bs) 0" and "ok m t"
    and "\<And>b. b \<in> set (as @ bs) \<Longrightarrow> ok m b \<and> sep t b"
  shows "chain (nxt (upd m t (nxt m a))) p (as @ t # bs) 0"
proof -
  from c have 1: "chain (nxt m) p (as @ [t]) a" and 2: "chain (nxt m) (nxt m a) bs 0"
    by (auto simp: chain_append)
  have "chain (nxt (upd m t (nxt m a))) p (as @ [t]) (nxt m a)"
    by (rule splice_after [OF 1 assms(2)]) (use assms(3) in auto)
  moreover have "chain (nxt (upd m t (nxt m a))) (nxt m a) bs 0"
    using 2 assms(3) by (simp add: chain_upd_other)
  ultimately show ?thesis by (auto simp: chain_append)
qed

end

subsection \<open>Lock record\<close>

lemma heldX_append [lock_simps]: "heldX (tr @ es) l = fold (heldX_step l) es (heldX tr l)"
  by (simp add: heldX_def)

lemma heldS_append [lock_simps]: "heldS (tr @ es) l = fold (heldS_step l) es (heldS tr l)"
  by (simp add: heldS_def)

lemma held_Nil [lock_simps, simp]: "heldX [] l = 0" "heldS [] l = 0"
  by (simp_all add: heldX_def heldS_def)

end
