(* ===== verification/SC_Control.thy ===== *)
theory SC_Control
  imports SC_Prelude
begin

text \<open>
  The control structs of a subcontext (\<^verbatim>\<open>trunk/subcontexts_control.h\<close>, \<^verbatim>\<open>trunk/subcontexts_local.h\<close>),
  the state the operations of the library work on, and the calls they make to the kernel and to the
  lock library.

  The embedded \<^verbatim>\<open>russ_lock\<close> of each struct has no field: the type is not in the repository, and
  its calls are recorded in \<open>lk\<close>. Because its size is unknown, the structs that embed a lock live in
  typed stores (\<open>regs\<close>, \<open>procs\<close>, \<open>steps\<close>), keyed by the address of the struct; the structs of the
  allocator consist of \<^verbatim>\<open>u64\<close> fields only and live in the bytes of \<open>mem\<close>.

  The state has a part shared by all processes of the subcontext (\<open>shared\<close>) and a part private to
  the process that runs the operation (the further fields of \<open>st\<close>). A subcontext has its pages at
  the same virtual addresses in every process, so its contents are one memory \<open>mem\<close>.
\<close>

section \<open>Constants\<close>

definition MAP_FAILED :: u64 where "MAP_FAILED = - 1"

definition PROT_NONE :: u32 where "PROT_NONE = 0"
definition PROT_READ :: u32 where "PROT_READ = 1"
definition PROT_WRITE :: u32 where "PROT_WRITE = 2"
definition PROT_EXEC :: u32 where "PROT_EXEC = 4"
definition MAP_SHARED :: u32 where "MAP_SHARED = 1"
definition MAP_PRIVATE :: u32 where "MAP_PRIVATE = 2"
definition MAP_FIXED :: u32 where "MAP_FIXED = 16"
definition MAP_ANONYMOUS :: u32 where "MAP_ANONYMOUS = 32"
definition MAP_NORESERVE :: u32 where "MAP_NORESERVE = 16384"

lemmas mman_defs = MAP_FAILED_def PROT_NONE_def PROT_READ_def PROT_WRITE_def PROT_EXEC_def
  MAP_SHARED_def MAP_PRIVATE_def MAP_FIXED_def MAP_ANONYMOUS_def MAP_NORESERVE_def

lemma unat_MAP_FAILED: "unat MAP_FAILED = 2 ^ 64 - 1"
  by (simp add: MAP_FAILED_def unat_eq_nat_uint uint_word_ariths)

text \<open>The value of a C comparison: an \<^verbatim>\<open>int\<close> that is 1 or 0.\<close>

definition c_bool :: "bool \<Rightarrow> u32" where
  "c_bool b = (if b then 1 else 0)"

definition SUBCONTEXTS_MAGIC :: "u8 \<Rightarrow> u8 \<Rightarrow> u32" where
  "SUBCONTEXTS_MAGIC type vers =
     push_bit 24 0x53 OR push_bit 16 0x43 OR push_bit 8 (ucast type) OR ucast vers"

definition SUBCONTEXTS_MAGIC_GET_TYPE :: "u32 \<Rightarrow> u32" where
  "SUBCONTEXTS_MAGIC_GET_TYPE val = drop_bit 8 val AND 0xff"

definition SUBCONTEXTS_MAGIC_GET_VERS :: "u32 \<Rightarrow> u32" where
  "SUBCONTEXTS_MAGIC_GET_VERS val = val AND 0xff"

definition SUBCONTEXTS_ROOT_MAGIC :: u32 where
  "SUBCONTEXTS_ROOT_MAGIC = SUBCONTEXTS_MAGIC 0x52 0"

definition SUBCONTEXTS_MALLOC_HEAD_MAGIC :: u64 where
  "SUBCONTEXTS_MALLOC_HEAD_MAGIC = ucast (SUBCONTEXTS_MAGIC 0x6d 1)"

definition SUBCONTEXTS_MALLOC_FOOT_MAGIC :: u64 where
  "SUBCONTEXTS_MALLOC_FOOT_MAGIC = ucast (SUBCONTEXTS_MAGIC 0x6d 2)"

definition SUBCONTEXTS_PROC_STATE_PREALLOC :: u32 where "SUBCONTEXTS_PROC_STATE_PREALLOC = 1"
definition SUBCONTEXTS_PROC_STATE_INIT :: u32 where "SUBCONTEXTS_PROC_STATE_INIT = 2"
definition SUBCONTEXTS_PROC_STATE_ALIVE :: u32 where "SUBCONTEXTS_PROC_STATE_ALIVE = 3"
definition SUBCONTEXTS_PROC_STATE_DEAD :: u32 where "SUBCONTEXTS_PROC_STATE_DEAD = 4"

definition SC_CLS_RESERVE_MEMORY :: u32 where "SC_CLS_RESERVE_MEMORY = 1"
definition SC_CLS_RESERVE_MEMORY_ABORT :: u32 where "SC_CLS_RESERVE_MEMORY_ABORT = 2"

section \<open>Structs\<close>

record sc =
  magic :: u32
  active_regions :: u64
  active_regionsTail :: u64
  reserved_regions :: u64
  pending_reservation :: u64
  unmapped_regions :: u64
  free_structs :: u64
  tmpfile_size :: u64
  proc_count :: u32
  proc_list :: u64
  proc_list_deadFlagPending :: bool
  prealloc_proc :: u64
  cleanupLog_lastSeqNum :: u64
  cleanupLog :: u64
  cleanupLog_tail :: u64
  malloc_md :: u64
  descriptive_name :: u64
  user_root :: u64

record sc_region =
  r_next :: u64
  r_vaddr :: u64
  r_len :: u64
  r_prot :: u8
  r_permaPin :: bool
  r_tmpfile_offset :: u64

record sc_process =
  p_next :: u64
  p_state :: u32
  p_pid :: u32

record sc_cleanupLogStep =
  c_seqNum :: u64
  c_next :: u64
  c_ack_targ :: u32
  c_ack_count :: u32
  c_op :: u32
  c_vaddr :: u64
  c_len :: u64

record sc_local =
  l_sc :: u64
  l_shm_file :: u32
  l_flushPoint :: u64
  l_tid :: u32
  l_recent_vaddr :: u64
  l_recent_len :: u64

section \<open>Kernel and lock library\<close>

datatype backing = FileBacked u32 u64 | Anonymous

record mapping =
  m_prot :: u32
  m_shared :: bool
  m_backing :: backing

type_synonym vmem = "u64 \<Rightarrow> mapping option"

record mmap_req =
  q_addr :: u64
  q_len :: u64
  q_prot :: u32
  q_flags :: u32
  q_fd :: u32
  q_off :: u64

text \<open>
  What the code obtains from outside the repository: the page size, the answer of
  \<^verbatim>\<open>russ_isLock_heldExclusive_byMe\<close> after a history of lock calls, the sizes of the structs that embed
  a \<^verbatim>\<open>russ_lock\<close>, whether \<^verbatim>\<open>ftruncate\<close> succeeds, and the address \<^verbatim>\<open>mmap\<close> returns in a given
  address space.
\<close>

record env =
  getpagesize :: u64
  isLock_heldExclusive_byMe :: "lock_ev list \<Rightarrow> lock_id \<Rightarrow> bool"
  sizeof_sc_process :: u64
  sizeof_sc_cleanupLogStep :: u64
  os_ftruncate :: "u32 \<Rightarrow> u64 \<Rightarrow> bool"
  os_mmap :: "vmem \<Rightarrow> mmap_req \<Rightarrow> u64"

section \<open>State\<close>

record shared =
  root_addr :: u64
  rt :: sc
  regs :: "u64 \<rightharpoonup> sc_region"
  procs :: "u64 \<rightharpoonup> sc_process"
  steps :: "u64 \<rightharpoonup> sc_cleanupLogStep"
  freeList :: u64
  mem :: memory
  file_len :: u64

record st = shared +
  pid :: u32
  locals :: "sc_local list"
  vmap :: vmem
  priv :: memory
  prev_vaddr :: u64
  curSc :: u64
  lk :: "lock_ev list"

definition log_lock :: "lock_ev \<Rightarrow> st \<Rightarrow> st" where
  "log_lock e s = s\<lparr>lk := lk s @ [e]\<rparr>"

abbreviation lock_init :: "lock_id \<Rightarrow> st \<Rightarrow> st" where
  "lock_init l \<equiv> log_lock (LkInit l)"
abbreviation lock_exclusive :: "lock_id \<Rightarrow> st \<Rightarrow> st" where
  "lock_exclusive l \<equiv> log_lock (LkExcl l)"
abbreviation unlock_exclusive :: "lock_id \<Rightarrow> st \<Rightarrow> st" where
  "unlock_exclusive l \<equiv> log_lock (UnExcl l)"
abbreviation lock_shared :: "lock_id \<Rightarrow> st \<Rightarrow> st" where
  "lock_shared l \<equiv> log_lock (LkShared l)"
abbreviation unlock_shared :: "lock_id \<Rightarrow> st \<Rightarrow> st" where
  "unlock_shared l \<equiv> log_lock (UnShared l)"

text \<open>Struct updates through the root pointer and through region, process and log pointers.\<close>

definition upd_rt :: "(sc \<Rightarrow> sc) \<Rightarrow> st \<Rightarrow> st" where
  "upd_rt f s = s\<lparr>rt := f (rt s)\<rparr>"

definition put_region :: "u64 \<Rightarrow> sc_region \<Rightarrow> st \<Rightarrow> st" where
  "put_region p r s = s\<lparr>regs := (regs s)(p \<mapsto> r)\<rparr>"

definition region_next :: "(u64 \<rightharpoonup> sc_region) \<Rightarrow> u64 \<Rightarrow> u64" where
  "region_next m a = (case m a of None \<Rightarrow> 0 | Some r \<Rightarrow> r_next r)"

definition region_set_next :: "(u64 \<rightharpoonup> sc_region) \<Rightarrow> u64 \<Rightarrow> u64 \<Rightarrow> (u64 \<rightharpoonup> sc_region)" where
  "region_set_next m a v = (case m a of None \<Rightarrow> m | Some r \<Rightarrow> m(a \<mapsto> r\<lparr>r_next := v\<rparr>))"

definition proc_next :: "(u64 \<rightharpoonup> sc_process) \<Rightarrow> u64 \<Rightarrow> u64" where
  "proc_next m a = (case m a of None \<Rightarrow> 0 | Some r \<Rightarrow> p_next r)"

definition proc_set_next :: "(u64 \<rightharpoonup> sc_process) \<Rightarrow> u64 \<Rightarrow> u64 \<Rightarrow> (u64 \<rightharpoonup> sc_process)" where
  "proc_set_next m a v = (case m a of None \<Rightarrow> m | Some r \<Rightarrow> m(a \<mapsto> r\<lparr>p_next := v\<rparr>))"

definition step_next :: "(u64 \<rightharpoonup> sc_cleanupLogStep) \<Rightarrow> u64 \<Rightarrow> u64" where
  "step_next m a = (case m a of None \<Rightarrow> 0 | Some r \<Rightarrow> c_next r)"

definition step_set_next :: "(u64 \<rightharpoonup> sc_cleanupLogStep) \<Rightarrow> u64 \<Rightarrow> u64 \<Rightarrow> (u64 \<rightharpoonup> sc_cleanupLogStep)" where
  "step_set_next m a v = (case m a of None \<Rightarrow> m | Some r \<Rightarrow> m(a \<mapsto> r\<lparr>c_next := v\<rparr>))"

text \<open>
  The system calls \<^verbatim>\<open>mmap\<close>, \<^verbatim>\<open>munmap\<close> and \<^verbatim>\<open>ftruncate\<close>: the kernel decides the outcome, the
  address space and the file length follow it.
\<close>

definition vm_map :: "vmem \<Rightarrow> u64 \<Rightarrow> mmap_req \<Rightarrow> vmem" where
  "vm_map vm r q = (\<lambda>a. if in_block a (r, q_len q)
     then Some \<lparr>m_prot = q_prot q, m_shared = (q_flags q AND MAP_SHARED \<noteq> 0),
                m_backing = (if q_flags q AND MAP_ANONYMOUS \<noteq> 0 then Anonymous
                             else FileBacked (q_fd q) (q_off q + (a - r)))\<rparr>
     else vm a)"

definition sys_mmap :: "env \<Rightarrow> mmap_req \<Rightarrow> st \<Rightarrow> u64 \<times> st" where
  "sys_mmap E q s =
     (let r = os_mmap E (vmap s) q in
      if r = MAP_FAILED then (r, s) else (r, s\<lparr>vmap := vm_map (vmap s) r q\<rparr>))"

definition sys_munmap :: "u64 \<Rightarrow> u64 \<Rightarrow> st \<Rightarrow> st" where
  "sys_munmap a n s = s\<lparr>vmap := (\<lambda>x. if in_block x (a, n) then None else vmap s x)\<rparr>"

definition sys_ftruncate :: "env \<Rightarrow> u32 \<Rightarrow> u64 \<Rightarrow> st \<Rightarrow> bool \<times> st" where
  "sys_ftruncate E fd n s =
     (if os_ftruncate E fd n then (True, s\<lparr>file_len := n\<rparr>) else (False, s))"

definition lookupScLocal :: "u64 \<Rightarrow> st \<Rightarrow> sc_local option \<times> st" where
  "lookupScLocal searchFor s =
     (let s = lock_shared LLocalList s;
          retval = find (\<lambda>l. l_sc l = searchFor) (locals s)
      in (retval, unlock_shared LLocalList s))"

section \<open>Lemmas\<close>

text \<open>Documented behaviour of the lock library that the code relies on: a lock that the caller took
  exclusively and did not release is reported as held.\<close>

definition lock_query_ok :: "env \<Rightarrow> bool" where
  "lock_query_ok E \<longleftrightarrow> (\<forall>tr l. 0 < heldX tr l \<longrightarrow> isLock_heldExclusive_byMe E tr l)"

text \<open>The page size is a positive multiple of 8 well below the address-space size.\<close>

definition page_ok :: "env \<Rightarrow> bool" where
  "page_ok E \<longleftrightarrow> 8 dvd unat (getpagesize E) \<and> 64 \<le> unat (getpagesize E) \<and> unat (getpagesize E) \<le> 2 ^ 30"

interpretation region_list: linked_store region_next region_set_next "\<lambda>m a. m a \<noteq> None" "\<lambda>a b. a \<noteq> b"
  by unfold_locales (auto simp: region_next_def region_set_next_def split: option.splits)

interpretation proc_list: linked_store proc_next proc_set_next "\<lambda>m a. m a \<noteq> None" "\<lambda>a b. a \<noteq> b"
  by unfold_locales (auto simp: proc_next_def proc_set_next_def split: option.splits)

interpretation step_list: linked_store step_next step_set_next "\<lambda>m a. m a \<noteq> None" "\<lambda>a b. a \<noteq> b"
  by unfold_locales (auto simp: step_next_def step_set_next_def split: option.splits)

lemma log_lock_simps [simp]:
  "rt (log_lock e s) = rt s" "regs (log_lock e s) = regs s" "procs (log_lock e s) = procs s"
  "steps (log_lock e s) = steps s" "freeList (log_lock e s) = freeList s" "mem (log_lock e s) = mem s"
  "file_len (log_lock e s) = file_len s" "root_addr (log_lock e s) = root_addr s"
  "locals (log_lock e s) = locals s" "vmap (log_lock e s) = vmap s" "pid (log_lock e s) = pid s"
  "priv (log_lock e s) = priv s" "prev_vaddr (log_lock e s) = prev_vaddr s"
  "curSc (log_lock e s) = curSc s" "lk (log_lock e s) = lk s @ [e]"
  by (simp_all add: log_lock_def)

lemma upd_rt_simps [simp]:
  "rt (upd_rt f s) = f (rt s)" "regs (upd_rt f s) = regs s" "procs (upd_rt f s) = procs s"
  "steps (upd_rt f s) = steps s" "freeList (upd_rt f s) = freeList s" "mem (upd_rt f s) = mem s"
  "file_len (upd_rt f s) = file_len s" "root_addr (upd_rt f s) = root_addr s"
  "locals (upd_rt f s) = locals s" "vmap (upd_rt f s) = vmap s" "pid (upd_rt f s) = pid s"
  "priv (upd_rt f s) = priv s" "prev_vaddr (upd_rt f s) = prev_vaddr s"
  "curSc (upd_rt f s) = curSc s" "lk (upd_rt f s) = lk s"
  by (simp_all add: upd_rt_def)

lemma put_region_simps [simp]:
  "rt (put_region p r s) = rt s" "regs (put_region p r s) = (regs s)(p \<mapsto> r)"
  "procs (put_region p r s) = procs s"
  "steps (put_region p r s) = steps s" "freeList (put_region p r s) = freeList s"
  "mem (put_region p r s) = mem s"
  "file_len (put_region p r s) = file_len s" "root_addr (put_region p r s) = root_addr s"
  "locals (put_region p r s) = locals s" "vmap (put_region p r s) = vmap s"
  "pid (put_region p r s) = pid s"
  "priv (put_region p r s) = priv s" "prev_vaddr (put_region p r s) = prev_vaddr s"
  "curSc (put_region p r s) = curSc s" "lk (put_region p r s) = lk s"
  by (simp_all add: put_region_def)

lemma sys_ftruncate_simps [simp]:
  "fst (sys_ftruncate E fd n s) \<longleftrightarrow> os_ftruncate E fd n"
  "os_ftruncate E fd n \<Longrightarrow> sys_ftruncate E fd n s = (True, s\<lparr>file_len := n\<rparr>)"
  "\<not> os_ftruncate E fd n \<Longrightarrow> sys_ftruncate E fd n s = (False, s)"
  by (simp_all add: sys_ftruncate_def)

lemma lookupScLocal_eq:
  "lookupScLocal a s = (find (\<lambda>l. l_sc l = a) (locals s),
     unlock_shared LLocalList (lock_shared LLocalList s))"
  by (simp add: lookupScLocal_def Let_def)

lemma magic_values [simp]:
  "SUBCONTEXTS_ROOT_MAGIC = 0x53435200"
  "SUBCONTEXTS_MALLOC_HEAD_MAGIC = 0x53436d01"
  "SUBCONTEXTS_MALLOC_FOOT_MAGIC = 0x53436d02"
  by (simp_all add: SUBCONTEXTS_ROOT_MAGIC_def SUBCONTEXTS_MALLOC_HEAD_MAGIC_def
      SUBCONTEXTS_MALLOC_FOOT_MAGIC_def SUBCONTEXTS_MAGIC_def)

end
