(* ===== verification/SC_Regions.thy ===== *)
theory SC_Regions
  imports SC_Control
begin

text \<open>
  Regions of a subcontext: the pool of region structs (\<^verbatim>\<open>sc_getFreeRegion\<close>), allocation of pages from
  the reserved address range (\<^verbatim>\<open>sc_mmap\<close>) and import of existing pages (\<^verbatim>\<open>sc_import\<close>,
  \<^verbatim>\<open>sc_import_protNone\<close>) of \<^verbatim>\<open>trunk/subcontexts_core.c\<close>.

  The invariant \<open>region_wf\<close> names the structs on the active, reserved and free lists: the lists are
  well formed and share no struct, active and reserved address ranges never overlap, and every
  active region that is backed by the temporary file owns its own pages of that file.
\<close>

section \<open>Definitions\<close>

definition sc_getFreeRegion :: "env \<Rightarrow> st \<Rightarrow> (u64, st) res" where
  "sc_getFreeRegion E s =
     guard [(1631, isLock_heldExclusive_byMe E (lk s) LRoot), (1634, free_structs (rt s) \<noteq> 0)] (\<lambda>s.
     deref (regs s (free_structs (rt s))) (\<lambda>f s.
       if r_next f = 0 then (Inl (Todo 1642), s)
       else
         let retval = free_structs (rt s);
             s = upd_rt (\<lambda>c. c\<lparr>free_structs := r_next f\<rparr>) s;
             s = put_region retval (f\<lparr>r_next := 0\<rparr>) s
         in (Inr retval, s)) s) s"

text \<open>
  The asserts of lines 1519 and 1520 are written \<^verbatim>\<open>prot == PROT_READ | PROT_WRITE || ...\<close> and
  \<^verbatim>\<open>flags == MAP_PRIVATE | MAP_ANONYMOUS\<close>; in C \<^verbatim>\<open>==\<close> binds tighter than \<^verbatim>\<open>|\<close>.
\<close>

definition sc_mmap_asserts ::
    "env \<Rightarrow> u64 \<Rightarrow> u64 \<Rightarrow> u32 \<Rightarrow> u32 \<Rightarrow> u32 \<Rightarrow> u32 \<Rightarrow> (nat \<times> bool) list" where
  "sc_mmap_asserts E addr len prot flags fd offset =
     [(1516, addr = 0),
      (1517, 0 < len),
      (1518, len mod getpagesize E = 0),
      (1519, c_bool (prot = PROT_READ) OR PROT_WRITE \<noteq> 0 \<or> prot = PROT_READ),
      (1520, c_bool (flags = MAP_PRIVATE) OR MAP_ANONYMOUS \<noteq> 0),
      (1521, fd = - 1),
      (1522, offset = 0)]"

text \<open>
  The pages come off the front of the first reserved region (lines 1583 to 1624). The file pages of
  the new region were added by \<^verbatim>\<open>ftruncate\<close>, so the region reads as zeros from now on, in whichever
  process its pages are touched.
\<close>

definition sc_mmap_carve :: "u64 \<Rightarrow> u64 \<Rightarrow> u32 \<Rightarrow> st \<Rightarrow> (u64, st) res" where
  "sc_mmap_carve region len prot s =
     guard [(1583, reserved_regions (rt s) \<noteq> 0)] (\<lambda>s.
     deref (regs s (reserved_regions (rt s))) (\<lambda>rsv s.
     guard [(1584, len \<le> r_len rsv)] (\<lambda>s.
       let retval = r_vaddr rsv;
           s = lock_init (LRegion region) s;
           s = put_region region \<lparr>r_next = 0, r_vaddr = retval, r_len = len, r_prot = ucast prot,
                 r_permaPin = False, r_tmpfile_offset = tmpfile_size (rt s) - len\<rparr> s;
           s = put_region (reserved_regions (rt s))
                 (rsv\<lparr>r_vaddr := r_vaddr rsv + len, r_len := r_len rsv - len\<rparr>) s
       in if r_len rsv - len = 0 then (Inl (Todo 1601), s)
          else
            let oldTail = active_regionsTail (rt s) in
            guard [(1608, oldTail \<noteq> 0)] (\<lambda>s.
            deref (regs s oldTail) (\<lambda>last_reg s.
              let s = lock_exclusive (LRegion oldTail) s;
                  s = put_region oldTail (last_reg\<lparr>r_next := region\<rparr>) s;
                  s = upd_rt (\<lambda>c. c\<lparr>active_regionsTail := region\<rparr>) s;
                  s = unlock_exclusive (LRegion oldTail) s;
                  s = s\<lparr>mem := fill (mem s) (retval, len) (\<lambda>_. 0)\<rparr>;
                  s = unlock_exclusive LRoot s
              in (Inr retval, s)) s) s) s) s) s"

text \<open>What \<^verbatim>\<open>sc_mmap\<close> does once its asserts have passed (lines 1525 to 1572).\<close>

definition sc_mmap_body :: "env \<Rightarrow> u64 \<Rightarrow> u32 \<Rightarrow> st \<Rightarrow> (u64, st) res" where
  "sc_mmap_body E len prot s =
     (let (curScLocal, s) = lookupScLocal (root_addr s) s in
      case curScLocal of
        None \<Rightarrow> (Inr MAP_FAILED, s)
      | Some l \<Rightarrow>
          let s = lock_exclusive LRoot s in
          if cleanupLog (rt s) \<noteq> 0 then (Inl (Todo 1542), s)
          else
            let s = upd_rt (\<lambda>c. c\<lparr>tmpfile_size := tmpfile_size c + len\<rparr>) s;
                (ok, s) = sys_ftruncate E (l_shm_file l) (tmpfile_size (rt s)) s
            in if \<not> ok then (Inr MAP_FAILED, unlock_exclusive LRoot s)
               else call (sc_getFreeRegion E) (\<lambda>region s.
                      if region = 0 then (Inr MAP_FAILED, unlock_exclusive LRoot s)
                      else sc_mmap_carve region len prot s) s)"

definition sc_mmap :: "env \<Rightarrow> u64 \<Rightarrow> u64 \<Rightarrow> u32 \<Rightarrow> u32 \<Rightarrow> u32 \<Rightarrow> u32 \<Rightarrow> st \<Rightarrow> (u64, st) res" where
  "sc_mmap E addr len prot flags fd offset =
     guard (sc_mmap_asserts E addr len prot flags fd offset) (sc_mmap_body E len prot)"

text \<open>
  The search of \<^verbatim>\<open>sc_import\<close> for an active region that overlaps the new range (lines 1857 to 1869):
  the result is the struct found, or NULL; the arithmetic is that of \<^verbatim>\<open>u64\<close>.
\<close>

definition ranges_collide :: "u64 \<Rightarrow> u64 \<Rightarrow> sc_region \<Rightarrow> bool" where
  "ranges_collide addr len cur \<longleftrightarrow> addr < r_vaddr cur + r_len cur \<and> addr + len > r_vaddr cur"

partial_function (option) import_scan ::
    "(u64 \<rightharpoonup> sc_region) \<Rightarrow> u64 \<Rightarrow> u64 \<Rightarrow> u64 \<Rightarrow> (trap + u64) option" where
  "import_scan m addr len cur =
     (if cur = 0 then Some (Inr 0)
      else case m cur of
        None \<Rightarrow> Some (Inl Segv)
      | Some r \<Rightarrow> if ranges_collide addr len r then Some (Inr cur)
                  else import_scan m addr len (r_next r))"

text \<open>Registration of the imported range and the copy of its pages (lines 1889 to 1967).\<close>

definition sc_import_copy :: "env \<Rightarrow> u64 \<Rightarrow> u64 \<Rightarrow> u32 \<Rightarrow> u64 \<Rightarrow> st \<Rightarrow> (int, st) res" where
  "sc_import_copy E addr len prot offset s =
     (let (myScLocal, s) = lookupScLocal (root_addr s) s in
      case myScLocal of
        None \<Rightarrow> (Inr 3, s)
      | Some l \<Rightarrow>
          let (ok, s) = sys_ftruncate E (l_shm_file l) (tmpfile_size (rt s)) s in
          if \<not> ok then (Inr 3, unlock_exclusive LRoot s)
          else
            let (buf, s) = sys_mmap E \<lparr>q_addr = 0, q_len = len, q_prot = PROT_READ OR PROT_WRITE,
                             q_flags = MAP_SHARED, q_fd = l_shm_file l, q_off = offset\<rparr> s
            in if buf = MAP_FAILED then (Inr 4, s)
               else
                 let s = s\<lparr>mem := fill (mem s) (addr, len) (priv s)\<rparr>;
                     s = sys_munmap buf len s;
                     (replaced, s) = sys_mmap E \<lparr>q_addr = addr, q_len = len, q_prot = prot,
                          q_flags = MAP_SHARED OR MAP_FIXED, q_fd = l_shm_file l, q_off = offset\<rparr> s
                 in if replaced \<noteq> addr then (Inr 5, s)
                    else (Inr 0, unlock_exclusive LRoot s))"

definition sc_import_post :: "env \<Rightarrow> u64 \<Rightarrow> u64 \<Rightarrow> u32 \<Rightarrow> u64 \<Rightarrow> st \<Rightarrow> (int, st) res" where
  "sc_import_post E addr len prot reg s =
     (let s = lock_init (LRegion reg) s;
          first = active_regions (rt s);
          oldTail = active_regionsTail (rt s);
          s = lock_exclusive (LRegion first) s
      in deref (regs s oldTail) (\<lambda>last_reg s.
           let s = put_region oldTail (last_reg\<lparr>r_next := reg\<rparr>) s;
               s = upd_rt (\<lambda>c. c\<lparr>active_regionsTail := reg\<rparr>) s;
               s = unlock_exclusive (LRegion first) s;
               offset = tmpfile_size (rt s);
               s = put_region reg \<lparr>r_next = 0, r_vaddr = addr, r_len = len, r_prot = ucast prot,
                     r_permaPin = False, r_tmpfile_offset = offset\<rparr> s;
               s = upd_rt (\<lambda>c. c\<lparr>tmpfile_size := tmpfile_size c + len\<rparr>) s
           in sc_import_copy E addr len prot offset s) s)"

definition sc_import :: "env \<Rightarrow> u64 \<Rightarrow> u64 \<Rightarrow> u32 \<Rightarrow> st \<Rightarrow> (int, st) res" where
  "sc_import E addr len prot s =
     guard [(1825, addr mod getpagesize E = 0), (1826, len mod getpagesize E = 0),
            (1828, prot = PROT_READ \<or> prot = (PROT_READ OR PROT_WRITE) \<or> prot = (PROT_READ OR PROT_EXEC))]
     (\<lambda>s.
       let s = lock_exclusive LRoot s in
       if proc_count (rt s) \<noteq> 1 then (Inr 1, unlock_exclusive LRoot s)
       else
         let first = active_regions (rt s);
             s = lock_shared (LRegion first) s
         in loops (import_scan (regs s) addr len first) (\<lambda>found s.
              case found of
                Inl e \<Rightarrow> (Inl e, s)
              | Inr cur \<Rightarrow>
                  if cur \<noteq> 0 then (Inr 1, unlock_shared (LRegion first) s)
                  else
                    let s = unlock_shared (LRegion first) s in
                    call (sc_getFreeRegion E) (\<lambda>reg s.
                      if reg = 0 then (Inr 2, unlock_exclusive LRoot s)
                      else sc_import_post E addr len prot reg s) s) s) s"

definition sc_import_protNone :: "env \<Rightarrow> u64 \<Rightarrow> u64 \<Rightarrow> st \<Rightarrow> (int, st) res" where
  "sc_import_protNone E addr len s =
     guard [(1979, addr mod getpagesize E = 0), (1980, len mod getpagesize E = 0)] (\<lambda>s.
       let s = lock_exclusive LRoot s in
       if proc_count (rt s) \<noteq> 1 then (Inr 1, unlock_exclusive LRoot s)
       else call (sc_getFreeRegion E) (\<lambda>reg s.
         if reg = 0 then (Inr 2, unlock_exclusive LRoot s)
         else
           let s = lock_init (LRegion reg) s;
               first = active_regions (rt s);
               s = lock_exclusive (LRegion first) s
           in deref (regs s first) (\<lambda>head_reg s.
                let s = put_region first (head_reg\<lparr>r_next := reg\<rparr>) s;
                    s = unlock_exclusive (LRegion first) s;
                    s = put_region reg \<lparr>r_next = r_next head_reg, r_vaddr = addr, r_len = len,
                          r_prot = ucast PROT_NONE, r_permaPin = False, r_tmpfile_offset = - 1\<rparr> s;
                    (replaced, s) = sys_mmap E \<lparr>q_addr = addr, q_len = len, q_prot = PROT_NONE,
                          q_flags = MAP_PRIVATE OR MAP_FIXED OR MAP_ANONYMOUS, q_fd = - 1, q_off = 0\<rparr> s
                in if replaced \<noteq> addr then (Inr 5, s)
                   else (Inr 0, unlock_exclusive LRoot s)) s) s) s"

subsection \<open>Invariant\<close>

definition region_range :: "(u64 \<rightharpoonup> sc_region) \<Rightarrow> u64 \<Rightarrow> block" where
  "region_range m p = (case m p of None \<Rightarrow> (0, 0) | Some r \<Rightarrow> (r_vaddr r, r_len r))"

definition range_ok :: "env \<Rightarrow> sc_region \<Rightarrow> bool" where
  "range_ok E r \<longleftrightarrow> r_vaddr r \<noteq> 0 \<and> 0 < r_len r \<and> fits (r_vaddr r, r_len r) \<and>
     unat (getpagesize E) dvd unat (r_vaddr r) \<and> unat (getpagesize E) dvd unat (r_len r)"

definition active_file_ok :: "env \<Rightarrow> u64 \<Rightarrow> sc_region \<Rightarrow> bool" where
  "active_file_ok E fsz r \<longleftrightarrow>
     (if r_prot r = 0 then r_tmpfile_offset r = - 1
      else unat (r_tmpfile_offset r) + unat (r_len r) \<le> unat fsz \<and>
           unat (getpagesize E) dvd unat (r_tmpfile_offset r))"

definition reserved_ok :: "sc_region \<Rightarrow> bool" where
  "reserved_ok r \<longleftrightarrow> r_prot r = 0 \<and> r_tmpfile_offset r = - 1"

text \<open>The ranges of the temporary file owned by the regions of a list.\<close>

definition file_ranges :: "(u64 \<rightharpoonup> sc_region) \<Rightarrow> u64 list \<Rightarrow> block list" where
  "file_ranges m ps =
     concat (map (\<lambda>p. case m p of None \<Rightarrow> []
        | Some r \<Rightarrow> if r_prot r = 0 then [] else [(r_tmpfile_offset r, r_len r)]) ps)"

definition region_lists :: "st \<Rightarrow> u64 list \<Rightarrow> u64 list \<Rightarrow> u64 list \<Rightarrow> bool" where
  "region_lists s act rsv fre \<longleftrightarrow>
     chain (region_next (regs s)) (active_regions (rt s)) act 0 \<and>
     act \<noteq> [] \<and> last act = active_regionsTail (rt s) \<and>
     chain (region_next (regs s)) (reserved_regions (rt s)) rsv 0 \<and>
     chain (region_next (regs s)) (free_structs (rt s)) fre 0 \<and>
     distinct (act @ rsv @ fre) \<and> set (act @ rsv @ fre) \<subseteq> dom (regs s)"

definition region_core :: "env \<Rightarrow> st \<Rightarrow> u64 list \<Rightarrow> u64 list \<Rightarrow> u64 list \<Rightarrow> bool" where
  "region_core E s act rsv fre \<longleftrightarrow> region_lists s act rsv fre \<and>
     list_all (\<lambda>p. range_ok E (the (regs s p))) (act @ rsv) \<and>
     apart_all (mset (map (region_range (regs s)) (act @ rsv)))"

definition region_files :: "env \<Rightarrow> st \<Rightarrow> u64 list \<Rightarrow> u64 list \<Rightarrow> bool" where
  "region_files E s act rsv \<longleftrightarrow>
     list_all (\<lambda>p. active_file_ok E (tmpfile_size (rt s)) (the (regs s p))) act \<and>
     list_all (\<lambda>p. reserved_ok (the (regs s p))) rsv \<and>
     apart_all (mset (file_ranges (regs s) act)) \<and>
     unat (getpagesize E) dvd unat (tmpfile_size (rt s))"

definition region_wf :: "env \<Rightarrow> st \<Rightarrow> u64 list \<Rightarrow> u64 list \<Rightarrow> u64 list \<Rightarrow> bool" where
  "region_wf E s act rsv fre \<longleftrightarrow> region_core E s act rsv fre \<and> region_files E s act rsv"

text \<open>The address ranges handed out so far, as a client of \<^verbatim>\<open>sc_mmap\<close> sees them.\<close>

definition active_inv :: "env \<Rightarrow> st \<Rightarrow> block multiset \<Rightarrow> bool" where
  "active_inv E s R \<longleftrightarrow> page_ok E \<and>
     (\<exists>act rsv fre. region_core E s act rsv fre \<and> R = mset (map (region_range (regs s)) act))"

text \<open>Closed form of the state after a successful \<^verbatim>\<open>sc_mmap\<close>.\<close>

definition mmap_done :: "u64 \<Rightarrow> u32 \<Rightarrow> st \<Rightarrow> st" where
  "mmap_done len prot s =
     (let f = free_structs (rt s); F = the (regs s f);
          q = reserved_regions (rt s); R = the (regs s q);
          t = active_regionsTail (rt s); T = the (regs s t);
          size = tmpfile_size (rt s) + len
      in s\<lparr>rt := (rt s)\<lparr>tmpfile_size := size, free_structs := r_next F, active_regionsTail := f\<rparr>,
           regs := (regs s)(f \<mapsto> \<lparr>r_next = 0, r_vaddr = r_vaddr R, r_len = len, r_prot = ucast prot,
                                 r_permaPin = False, r_tmpfile_offset = tmpfile_size (rt s)\<rparr>,
                            q \<mapsto> R\<lparr>r_vaddr := r_vaddr R + len, r_len := r_len R - len\<rparr>,
                            t \<mapsto> T\<lparr>r_next := f\<rparr>),
           mem := fill (mem s) (r_vaddr R, len) (\<lambda>_. 0),
           file_len := size,
           lk := lk s @ [LkShared LLocalList, UnShared LLocalList, LkExcl LRoot, LkInit (LRegion f),
                         LkExcl (LRegion t), UnExcl (LRegion t), UnExcl LRoot]\<rparr>)"

text \<open>The file system has room: extending the file never fails.\<close>

definition file_grows :: "env \<Rightarrow> bool" where
  "file_grows E \<longleftrightarrow> (\<forall>fd n. os_ftruncate E fd n)"

text \<open>What \<^verbatim>\<open>sc_import\<close> asks of the kernel to replace the pages in place.\<close>

definition import_req :: "u64 \<Rightarrow> u64 \<Rightarrow> u32 \<Rightarrow> u32 \<Rightarrow> u64 \<Rightarrow> mmap_req" where
  "import_req addr len prot fd offset = \<lparr>q_addr = addr, q_len = len, q_prot = prot,
     q_flags = MAP_SHARED OR MAP_FIXED, q_fd = fd, q_off = offset\<rparr>"

text \<open>The kernel grants the two mappings of an import, a scratch mapping anywhere and the one at the
  address that is asked for, whenever at most the addresses in \<open>D\<close> are in use.\<close>

definition import_granted :: "env \<Rightarrow> u64 set \<Rightarrow> u64 \<Rightarrow> u64 \<Rightarrow> u32 \<Rightarrow> u32 \<Rightarrow> u64 \<Rightarrow> bool" where
  "import_granted E D addr len prot fd offset \<longleftrightarrow>
     os_ftruncate E fd (offset + len) \<and>
     (\<forall>vm. dom vm \<subseteq> D \<longrightarrow> os_mmap E vm \<lparr>q_addr = 0, q_len = len, q_prot = PROT_READ OR PROT_WRITE,
             q_flags = MAP_SHARED, q_fd = fd, q_off = offset\<rparr> \<noteq> MAP_FAILED) \<and>
     (\<forall>vm. dom vm \<subseteq> D \<longrightarrow> os_mmap E vm (import_req addr len prot fd offset) = addr)"

definition import_regs :: "u64 \<Rightarrow> u64 \<Rightarrow> u32 \<Rightarrow> st \<Rightarrow> (u64 \<rightharpoonup> sc_region)" where
  "import_regs addr len prot s =
     (let f = free_structs (rt s); t = active_regionsTail (rt s)
      in (regs s)(t \<mapsto> (the (regs s t))\<lparr>r_next := f\<rparr>,
           f \<mapsto> \<lparr>r_next = 0, r_vaddr = addr, r_len = len, r_prot = ucast prot, r_permaPin = False,
                 r_tmpfile_offset = tmpfile_size (rt s)\<rparr>))"

definition import_rt :: "u64 \<Rightarrow> st \<Rightarrow> sc" where
  "import_rt len s = (rt s)\<lparr>tmpfile_size := tmpfile_size (rt s) + len,
     free_structs := r_next (the (regs s (free_structs (rt s)))), active_regionsTail := free_structs (rt s)\<rparr>"

text \<open>A client that asks for pages several times and collects the answers.\<close>

fun grab_all :: "(u64 \<Rightarrow> 's \<Rightarrow> (u64, 's) res) \<Rightarrow> u64 list \<Rightarrow> 's \<Rightarrow> (u64 list, 's) res" where
  "grab_all grab [] s = (Inr [], s)"
| "grab_all grab (n # ns) s =
     call (grab n) (\<lambda>p. call (grab_all grab ns) (\<lambda>ps s. (Inr (p # ps), s))) s"

text \<open>A small concrete subcontext, on which the hypotheses of the properties are evaluated.\<close>

definition demo_env :: env where
  "demo_env = \<lparr>getpagesize = 0x1000, isLock_heldExclusive_byMe = (\<lambda>tr l. 0 < heldX tr l),
     sizeof_sc_process = 0x40, sizeof_sc_cleanupLogStep = 0x40,
     os_ftruncate = (\<lambda>fd n. n < 0x40000000),
     os_mmap = (\<lambda>vm q. if q_flags q AND MAP_FIXED \<noteq> 0 then q_addr q else 0x700000)\<rparr>"

definition demo_region :: "u64 \<Rightarrow> u64 \<Rightarrow> u64 \<Rightarrow> u8 \<Rightarrow> u64 \<Rightarrow> sc_region" where
  "demo_region nx va n pr off = \<lparr>r_next = nx, r_vaddr = va, r_len = n, r_prot = pr, r_permaPin = False,
     r_tmpfile_offset = off\<rparr>"

definition demo_regs :: "u64 \<rightharpoonup> sc_region" where
  "demo_regs = [0x1100 \<mapsto> demo_region 0x1140 0x1000 0x1000 3 0,
                0x1140 \<mapsto> demo_region 0 0x2000 0x2000 3 0x1000,
                0x1180 \<mapsto> demo_region 0 0x100000 0x80000 0 (- 1),
                0x11c0 \<mapsto> demo_region 0x1200 0 0 0 0,
                0x1200 \<mapsto> demo_region 0x1240 0 0 0 0,
                0x1240 \<mapsto> demo_region 0 0 0 0 0]"

definition demo_root :: sc where
  "demo_root = \<lparr>magic = SUBCONTEXTS_ROOT_MAGIC, active_regions = 0x1100, active_regionsTail = 0x1140,
     reserved_regions = 0x1180, pending_reservation = 0, unmapped_regions = 0, free_structs = 0x11c0,
     tmpfile_size = 0x3000, proc_count = 1, proc_list = 0, proc_list_deadFlagPending = False,
     prealloc_proc = 0, cleanupLog_lastSeqNum = 0, cleanupLog = 0, cleanupLog_tail = 0,
     malloc_md = 0x10c0, descriptive_name = 0, user_root = 0\<rparr>"

definition demo_local :: sc_local where
  "demo_local = \<lparr>l_sc = 0x1000, l_shm_file = 5, l_flushPoint = 0, l_tid = 7, l_recent_vaddr = 0, l_recent_len = 0\<rparr>"

definition demo_st :: st where
  "demo_st = \<lparr>root_addr = 0x1000, rt = demo_root, regs = demo_regs, procs = Map.empty, steps = Map.empty,
     freeList = 0, mem = (\<lambda>_. 0), file_len = 0x3000, pid = 7, locals = [demo_local], vmap = Map.empty,
     priv = (\<lambda>a. ucast a), prev_vaddr = 0, curSc = 0x1000, lk = []\<rparr>"

section \<open>Page allocation\<close>

lemma region_next_upd [simp]:
  "region_next (m(p \<mapsto> r)) a = (if a = p then r_next r else region_next m a)"
  by (simp add: region_next_def)

lemma region_range_upd [simp]:
  "region_range (m(p \<mapsto> r)) a = (if a = p then (r_vaddr r, r_len r) else region_range m a)"
  by (simp add: region_range_def)

lemma getFreeRegion_eq:
  assumes "regs s (free_structs (rt s)) = Some f" "free_structs (rt s) \<noteq> 0" "r_next f \<noteq> 0"
    "isLock_heldExclusive_byMe E (lk s) LRoot"
  shows "sc_getFreeRegion E s =
     (Inr (free_structs (rt s)),
      put_region (free_structs (rt s)) (f\<lparr>r_next := 0\<rparr>) (upd_rt (\<lambda>c. c\<lparr>free_structs := r_next f\<rparr>) s))"
  using assms by (simp add: sc_getFreeRegion_def Let_def)

lemma getFreeRegion_InrD:
  assumes "sc_getFreeRegion E s = (Inr p, t)"
  shows "\<exists>f. regs s p = Some f \<and> p = free_structs (rt s) \<and> p \<noteq> 0 \<and> r_next f \<noteq> 0 \<and>
     t = put_region p (f\<lparr>r_next := 0\<rparr>) (upd_rt (\<lambda>c. c\<lparr>free_structs := r_next f\<rparr>) s)"
  using assms by (auto simp: sc_getFreeRegion_def Let_def deref_def split: if_splits option.splits)

lemma or_nonzero: "x OR 2 \<noteq> (0 :: u32)" "x OR 32 \<noteq> (0 :: u32)"
  by (auto simp: or_eq_0_iff)

lemma mmap_asserts_hold:
  "first_failed (sc_mmap_asserts E addr len prot flags fd offset) = None \<longleftrightarrow>
   addr = 0 \<and> 0 < len \<and> len mod getpagesize E = 0 \<and> fd = - 1 \<and> offset = 0"
  by (simp add: sc_mmap_asserts_def PROT_WRITE_def MAP_ANONYMOUS_def or_nonzero)

lemma carve_eq:
  assumes "regs s (reserved_regions (rt s)) = Some R" "reserved_regions (rt s) \<noteq> 0" "len < r_len R"
    and "regs s (active_regionsTail (rt s)) = Some T" "active_regionsTail (rt s) \<noteq> 0"
    and "region \<noteq> reserved_regions (rt s)" "region \<noteq> active_regionsTail (rt s)"
      "reserved_regions (rt s) \<noteq> active_regionsTail (rt s)"
  shows "sc_mmap_carve region len prot s =
    (Inr (r_vaddr R), 
     s\<lparr>rt := (rt s)\<lparr>active_regionsTail := region\<rparr>,
       regs := (regs s)(region \<mapsto> \<lparr>r_next = 0, r_vaddr = r_vaddr R, r_len = len, r_prot = ucast prot,
                                 r_permaPin = False, r_tmpfile_offset = tmpfile_size (rt s) - len\<rparr>,
                        reserved_regions (rt s) \<mapsto> R\<lparr>r_vaddr := r_vaddr R + len, r_len := r_len R - len\<rparr>,
                        active_regionsTail (rt s) \<mapsto> T\<lparr>r_next := region\<rparr>),
       mem := fill (mem s) (r_vaddr R, len) (\<lambda>_. 0),
       lk := lk s @ [LkInit (LRegion region), LkExcl (LRegion (active_regionsTail (rt s))),
                     UnExcl (LRegion (active_regionsTail (rt s))), UnExcl LRoot]\<rparr>)"
  using assms by (simp add: sc_mmap_carve_def Let_def less_imp_le upd_rt_def put_region_def log_lock_def)

lemma carve_InrD:
  assumes "sc_mmap_carve region len prot s = (Inr p, t)"
  shows "\<exists>R. regs s (reserved_regions (rt s)) = Some R \<and> reserved_regions (rt s) \<noteq> 0 \<and> len < r_len R"
  using assms
  by (auto simp: sc_mmap_carve_def Let_def deref_def le_less split: if_splits option.splits)

lemma sc_mmap_eq:
  assumes lists: "region_lists s act (q # rsv) (f # g # fre)"
    and "find (\<lambda>l. l_sc l = root_addr s) (locals s) = Some l"
    and "cleanupLog (rt s) = 0" and "os_ftruncate E (l_shm_file l) (tmpfile_size (rt s) + len)"
    and "lock_query_ok E" and "0 \<le> heldX (lk s) LRoot"
    and "0 < len" "len mod getpagesize E = 0" and "len < r_len (the (regs s q))"
  shows "sc_mmap E 0 len prot flags (- 1) 0 s = (Inr (r_vaddr (the (regs s q))), mmap_done len prot s)"
proof -
  from lists obtain T where T: "regs s (active_regionsTail (rt s)) = Some T" "active_regionsTail (rt s) \<in> set act"
    by (auto simp: region_lists_def) (metis domD last_in_set subsetD)
  from lists obtain F Q where F: "regs s f = Some F" "r_next F = g" "g \<noteq> 0" "f \<noteq> 0" "free_structs (rt s) = f"
    and Q: "regs s q = Some Q" "q \<noteq> 0" "reserved_regions (rt s) = q"
    by (auto simp: region_lists_def region_next_def)
  have d: "f \<noteq> q" "f \<noteq> active_regionsTail (rt s)" "q \<noteq> active_regionsTail (rt s)" "active_regionsTail (rt s) \<noteq> 0"
    using lists T(2) by (auto simp: region_lists_def dest: chain_nonnull)
  have held: "isLock_heldExclusive_byMe E (lk s @ [LkShared LLocalList, UnShared LLocalList, LkExcl LRoot]) LRoot"
    using assms(5,6) by (simp add: lock_query_ok_def lock_simps)
  define s1 where "s1 = upd_rt (\<lambda>c. c\<lparr>tmpfile_size := tmpfile_size c + len\<rparr>)
     (lock_exclusive LRoot (unlock_shared LLocalList (lock_shared LLocalList s)))\<lparr>file_len := tmpfile_size (rt s) + len\<rparr>"
  have get: "sc_getFreeRegion E s1 = (Inr f, put_region f (F\<lparr>r_next := 0\<rparr>) (upd_rt (\<lambda>c. c\<lparr>free_structs := g\<rparr>) s1))"
    using F held by (subst getFreeRegion_eq [of _ F]) (simp_all add: s1_def)
  have "sc_mmap_body E len prot s = (Inr (r_vaddr Q), mmap_done len prot s)"
    using assms(2-4) F Q T d assms(9) get
    by (simp add: sc_mmap_body_def lookupScLocal_eq Let_def flip: s1_def)
      (simp add: carve_eq [where R = Q and T = T] s1_def mmap_done_def Let_def upd_rt_def put_region_def log_lock_def)
  with Q assms show ?thesis
    by (simp add: sc_mmap_def guard_pass mmap_asserts_hold)
qed

lemma sc_mmap_InrD:
  assumes "sc_mmap E addr len prot flags fd offset s = (Inr p, s')" and "region_lists s act rsv fre"
  obtains (failed) z where "p = MAP_FAILED" "regs s' = regs s" "mem s' = mem s"
      "rt s' = (rt s)\<lparr>tmpfile_size := z\<rparr>" "freeList s' = freeList s"
      "locals s' = locals s" "root_addr s' = root_addr s" "file_grows E \<Longrightarrow> z = tmpfile_size (rt s)"
    | (mapped) q rsv' f g fre' where "rsv = q # rsv'" "fre = f # g # fre'" "p = r_vaddr (the (regs s q))"
      "s' = mmap_done len prot s" "0 < len" "len mod getpagesize E = 0" "len < r_len (the (regs s q))"
proof -
  from guard_InrD [OF assms(1) [unfolded sc_mmap_def]]
  have ff: "0 < len" "len mod getpagesize E = 0" and body: "sc_mmap_body E len prot s = (Inr p, s')"
    by (simp_all add: mmap_asserts_hold)
  let ?s0 = "unlock_shared LLocalList (lock_shared LLocalList s)"
  note run = body [unfolded sc_mmap_body_def lookupScLocal_eq Let_def]
  show thesis
  proof (cases "find (\<lambda>l. l_sc l = root_addr s) (locals s)")
    case None
    with run show thesis by (intro failed [of "tmpfile_size (rt s)"]) auto
  next
    case (Some l)
    show thesis
    proof (cases "os_ftruncate E (l_shm_file l) (tmpfile_size (rt s) + len)")
      case False
      with run Some show thesis by (intro failed [of "tmpfile_size (rt s) + len"]) (auto simp: Let_def file_grows_def split: if_splits)
    next
      case True
      let ?s1 = "upd_rt (\<lambda>c. c\<lparr>tmpfile_size := tmpfile_size c + len\<rparr>)
        (lock_exclusive LRoot ?s0)\<lparr>file_len := tmpfile_size (rt s) + len\<rparr>"
      from run Some True obtain r s2 where get: "sc_getFreeRegion E ?s1 = (Inr r, s2)"
        and rest: "(if r = 0 then (Inr MAP_FAILED, unlock_exclusive LRoot s2)
                    else sc_mmap_carve r len prot s2) = (Inr p, s')"
        by (auto simp: Let_def split: if_splits elim: call_InrE)
      from getFreeRegion_InrD [OF get] obtain F where F: "regs s r = Some F" "r = free_structs (rt s)" "r \<noteq> 0"
        "r_next F \<noteq> 0" and s2: "s2 = put_region r (F\<lparr>r_next := 0\<rparr>) (upd_rt (\<lambda>c. c\<lparr>free_structs := r_next F\<rparr>) ?s1)"
        by auto
      from F(3) rest have carve: "sc_mmap_carve r len prot s2 = (Inr p, s')" by simp
      from assms(2) F obtain g fre' where fre: "fre = r # g # fre'"
        by (cases fre; cases "tl fre") (auto simp: region_lists_def region_next_def)
      from carve_InrD [OF carve] obtain R where R: "regs s2 (reserved_regions (rt s)) = Some R"
        "reserved_regions (rt s) \<noteq> 0" "len < r_len R" by (auto simp: s2)
      from assms(2) R(2) obtain rsv' where rsv: "rsv = reserved_regions (rt s) # rsv'"
        by (cases rsv) (auto simp: region_lists_def)
      from assms(2) obtain T where T: "regs s (active_regionsTail (rt s)) = Some T"
        "active_regionsTail (rt s) \<in> set act"
        by (auto simp: region_lists_def) (metis domD last_in_set subsetD)
      have d: "r \<noteq> reserved_regions (rt s)" "r \<noteq> active_regionsTail (rt s)"
        "reserved_regions (rt s) \<noteq> active_regionsTail (rt s)" "active_regionsTail (rt s) \<noteq> 0"
        using assms(2) T(2) rsv fre by (auto simp: region_lists_def dest: chain_nonnull)
      have "sc_mmap_carve r len prot s2 = (Inr (r_vaddr R), mmap_done len prot s)"
        using R T d F by (subst carve_eq [where R = R and T = T])
          (simp_all add: s2 mmap_done_def Let_def upd_rt_def put_region_def log_lock_def)
      with carve R d F show thesis
        by (intro mapped [OF rsv fre]) (auto simp: s2 ff)
    qed
  qed
qed

lemma word_mod_dvd: "len mod p = 0 \<longleftrightarrow> unat p dvd unat (len :: u64)"
  by (metis dvd_eq_mod_eq_0 unat_eq_zero unat_mod)

lemma carve_words:
  fixes v l n :: u64
  assumes "fits (v, l)" and "n < l"
  shows "unat (v + n) = unat v + unat n" "unat (l - n) = unat l - unat n"
    "inside (v, n) (v, l)" "inside (v + n, l - n) (v, l)" "apart (v, n) (v + n, l - n)"
    "fits (v, n)" "fits (v + n, l - n)"
proof -
  have n: "unat n < unat l" using assms(2) by (simp add: word_less_nat_alt)
  with assms(1) show 1: "unat (v + n) = unat v + unat n"
    by (simp add: fits_def unat_word_ariths)
  from assms(2) show 2: "unat (l - n) = unat l - unat n"
    by (simp add: unat_sub less_imp_le)
  from n 1 2 assms(1) show "inside (v, n) (v, l)" "inside (v + n, l - n) (v, l)"
     "apart (v, n) (v + n, l - n)" "fits (v, n)" "fits (v + n, l - n)"
    by (auto simp: inside_def apart_def fits_def)
qed

lemma region_listsD:
  assumes "region_lists s act rsv fre"
  shows "\<exists>T. regs s (active_regionsTail (rt s)) = Some T \<and> (\<exists>as. act = as @ [active_regionsTail (rt s)])"
  using assms unfolding region_lists_def
  by (metis append_butlast_last_id domD in_set_conv_decomp set_append subsetD UnI1)

lemma mmap_done_simps:
  "rt (mmap_done len prot s) = (rt s)\<lparr>tmpfile_size := tmpfile_size (rt s) + len,
      free_structs := r_next (the (regs s (free_structs (rt s)))), active_regionsTail := free_structs (rt s)\<rparr>"
  "regs (mmap_done len prot s) = (let f = free_structs (rt s); q = reserved_regions (rt s); R = the (regs s q);
          t = active_regionsTail (rt s) in (regs s)(f \<mapsto> \<lparr>r_next = 0, r_vaddr = r_vaddr R, r_len = len, r_prot = ucast prot,
                                 r_permaPin = False, r_tmpfile_offset = tmpfile_size (rt s)\<rparr>,
                            q \<mapsto> R\<lparr>r_vaddr := r_vaddr R + len, r_len := r_len R - len\<rparr>,
                            t \<mapsto> (the (regs s t))\<lparr>r_next := f\<rparr>))"
  "mem (mmap_done len prot s) = fill (mem s) (r_vaddr (the (regs s (reserved_regions (rt s)))), len) (\<lambda>_. 0)"
  "freeList (mmap_done len prot s) = freeList s" "locals (mmap_done len prot s) = locals s"
  "root_addr (mmap_done len prot s) = root_addr s"
  by (simp_all add: mmap_done_def Let_def)

lemma mmap_done_lists:
  assumes "region_lists s act (q # rsv) (f # g # fre)"
  shows "region_lists (mmap_done len prot s) (act @ [f]) (q # rsv) (g # fre)"
proof -
  let ?t = "active_regionsTail (rt s)"
  from region_listsD [OF assms] obtain T as where T: "regs s ?t = Some T" and act: "act = as @ [?t]" by blast
  from assms obtain Q F where Q: "regs s q = Some Q" "reserved_regions (rt s) = q" 
    and F: "regs s f = Some F" "free_structs (rt s) = f" "r_next F = g" "f \<noteq> 0"
    by (auto simp: region_lists_def region_next_def)
  let ?n = "region_next (regs (mmap_done len prot s))"
  have n: "?n a = (if a = ?t then f else if a = f then 0 else region_next (regs s) a)" for a
    using Q assms act by (auto simp: mmap_done_simps Let_def region_next_def F region_lists_def)
  have d: "distinct (act @ (q # rsv) @ f # g # fre)" using assms by (simp add: region_lists_def)
  have c: "chain ?n p xs r = chain (region_next (regs s)) p xs r" if "f \<notin> set xs" "?t \<notin> set xs" for p xs r
    by (rule chain_cong) (use that in \<open>auto simp: n\<close>)
  have "chain ?n (active_regions (rt s)) (as @ [?t, f]) 0"
    using assms d act F by (auto simp: region_lists_def chain_append c n)
  moreover have "chain ?n q (q # rsv) 0" "chain ?n g (g # fre) 0"
    using assms d act Q F by (auto simp: region_lists_def c simp del: chain.simps) (auto simp: region_next_def)
  ultimately show ?thesis
    using assms d act Q F T by (auto simp: region_lists_def mmap_done_simps Let_def)
qed

lemma mmap_done_core:
  assumes core: "region_core E s act (q # rsv) (f # g # fre)"
    and len: "0 < len" "len mod getpagesize E = 0" "len < r_len (the (regs s q))"
  shows "region_core E (mmap_done len prot s) (act @ [f]) (q # rsv) (g # fre)"
proof -
  let ?t = "active_regionsTail (rt s)" and ?s = "mmap_done len prot s"
  from core have lists: "region_lists s act (q # rsv) (f # g # fre)" by (simp add: region_core_def)
  from region_listsD [OF lists] obtain T as where T: "regs s ?t = Some T" and act: "act = as @ [?t]" by blast
  from lists obtain Q where Q: "regs s q = Some Q" "reserved_regions (rt s) = q" and F: "free_structs (rt s) = f"
    by (auto simp: region_lists_def)
  have d: "distinct (act @ (q # rsv) @ f # g # fre)" using lists by (simp add: region_lists_def)
  have Qok: "range_ok E Q" using core Q by (simp add: region_core_def)
  note cw = carve_words [of "r_vaddr Q" "r_len Q" len]
  have fQ: "fits (r_vaddr Q, r_len Q)" "len < r_len Q" using Qok len Q by (auto simp: range_ok_def)
  have rng: "map (region_range (regs ?s)) (act @ rsv) = map (region_range (regs s)) (act @ rsv)"
    using d act T Q F by (auto simp: mmap_done_simps Let_def region_range_def)
  have ok: "list_all (\<lambda>p. range_ok E (the (regs ?s p))) (act @ rsv)"
    using core d act T Q F by (auto simp: region_core_def mmap_done_simps Let_def list_all_iff range_ok_def)
  have nz: "r_vaddr Q + len \<noteq> 0" "0 < r_len Q - len"
    using cw(1,2) [OF fQ] Qok fQ by (auto simp: range_ok_def word_less_nat_alt simp flip: unat_eq_zero)
  have new: "range_ok E (the (regs ?s f))" "range_ok E (the (regs ?s q))"
    "region_range (regs ?s) f = (r_vaddr Q, len)" "region_range (regs ?s) q = (r_vaddr Q + len, r_len Q - len)"
    using d act Q F Qok cw fQ len T nz
    by (auto simp: mmap_done_simps Let_def range_ok_def word_mod_dvd region_range_def)
  have "apart_all (add_mset (r_vaddr Q, r_len Q) (mset (map (region_range (regs s)) (act @ rsv))))"
    using core Q by (simp add: region_core_def region_range_def ac_simps)
  from apart_all_split [OF this cw(3-5)] fQ
  have "apart_all (mset (map (region_range (regs ?s)) ((act @ [f]) @ q # rsv)))"
    unfolding rng [symmetric] by (simp add: new ac_simps)
  with new ok mmap_done_lists [OF lists, of len prot] show ?thesis
    by (simp add: region_core_def)
qed

lemma file_ranges_mem:
  "b \<in> set (file_ranges m ps) \<longleftrightarrow>
   (\<exists>p r. p \<in> set ps \<and> m p = Some r \<and> r_prot r \<noteq> 0 \<and> b = (r_tmpfile_offset r, r_len r))"
  by (force simp: file_ranges_def split: option.splits if_splits)

lemma file_ranges_bound:
  assumes "region_files E s act rsv" and "b \<in> set (file_ranges (regs s) act)"
  shows "unat (fst b) + unat (snd b) \<le> unat (tmpfile_size (rt s))"
  using assms unfolding region_files_def file_ranges_mem list_all_iff active_file_ok_def
  by (metis fst_conv option.sel snd_conv)

lemma mmap_done_files:
  assumes core: "region_core E s act (q # rsv) (f # g # fre)" and files: "region_files E s act (q # rsv)"
    and len: "0 < len" "len mod getpagesize E = 0" "len < r_len (the (regs s q))"
    and prot: "ucast prot \<noteq> (0 :: u8)" and room: "unat (tmpfile_size (rt s)) + unat len < 2 ^ 64"
  shows "region_files E (mmap_done len prot s) (act @ [f]) (q # rsv)"
proof -
  let ?t = "active_regionsTail (rt s)" and ?s = "mmap_done len prot s"
  from core have lists: "region_lists s act (q # rsv) (f # g # fre)" by (simp add: region_core_def)
  from region_listsD [OF lists] obtain T as where T: "regs s ?t = Some T" and act: "act = as @ [?t]" by blast
  from lists obtain Q where Q: "regs s q = Some Q" "reserved_regions (rt s) = q" and F: "free_structs (rt s) = f"
    by (auto simp: region_lists_def)
  have d: "distinct (act @ (q # rsv) @ f # g # fre)" using lists by (simp add: region_lists_def)
  have size: "unat (tmpfile_size (rt s) + len) = unat (tmpfile_size (rt s)) + unat len"
    using room by (simp add: unat_word_ariths)
  have fr: "file_ranges (regs ?s) act = file_ranges (regs s) act"
    unfolding file_ranges_def using d act T Q F
    by (intro arg_cong [where f = concat] map_cong) (auto simp: mmap_done_simps Let_def split: option.splits)
  have new: "file_ranges (regs ?s) (act @ [f]) = file_ranges (regs s) act @ [(tmpfile_size (rt s), len)]"
    using d act Q F fr prot by (auto simp: file_ranges_def mmap_done_simps Let_def)
  have "apart_all (mset (file_ranges (regs ?s) (act @ [f])))"
    using files file_ranges_bound [OF files]
    by (auto simp: new region_files_def apart_def)
  moreover have "list_all (\<lambda>p. active_file_ok E (tmpfile_size (rt ?s)) (the (regs ?s p))) act"
    using files d act T Q F size
    by (fastforce simp: region_files_def mmap_done_simps Let_def list_all_iff active_file_ok_def split: if_splits)
  moreover have "list_all (\<lambda>p. reserved_ok (the (regs ?s p))) (q # rsv)"
    using files d act Q F by (auto simp: region_files_def mmap_done_simps Let_def list_all_iff reserved_ok_def)
  moreover have "active_file_ok E (tmpfile_size (rt ?s)) (the (regs ?s f))"
    using d act Q F T prot size files by (auto simp: mmap_done_simps Let_def active_file_ok_def region_files_def)
  moreover have "unat (getpagesize E) dvd unat (tmpfile_size (rt ?s))"
    using files len size by (simp add: mmap_done_simps region_files_def word_mod_dvd)
  ultimately show ?thesis by (simp add: region_files_def)
qed

section \<open>Interface of the page source\<close>

text \<open>
  The interface of a source of pages, as its client sees it: \<open>inv s R\<close> says that the pages handed
  out so far are exactly the ranges \<open>R\<close>.
\<close>

locale page_source =
  fixes grab :: "u64 \<Rightarrow> 's \<Rightarrow> (u64, 's) res"
    and inv :: "'s \<Rightarrow> block multiset \<Rightarrow> bool"
    and bytes :: "'s \<Rightarrow> memory"
  assumes ranges_apart: "inv s R \<Longrightarrow> apart_all R"
    and grab_fresh: "inv s R \<Longrightarrow> grab n s = (Inr p, s') \<Longrightarrow> p \<noteq> MAP_FAILED \<Longrightarrow>
       inv s' (add_mset (p, n) R) \<and> p \<noteq> 0 \<and> 0 < n \<and> fits (p, n) \<and> 8 dvd unat p \<and> 8 dvd unat n"
    and grab_frame: "inv s R \<Longrightarrow> grab n s = (Inr p, s') \<Longrightarrow> p \<noteq> MAP_FAILED \<Longrightarrow>
       \<not> in_block a (p, n) \<Longrightarrow> bytes s' a = bytes s a"
    and grab_failed: "inv s R \<Longrightarrow> grab n s = (Inr MAP_FAILED, s') \<Longrightarrow> inv s' R \<and> bytes s' = bytes s"
begin

lemma grab_apart:
  assumes "inv s R" and "grab n s = (Inr p, s')" and "p \<noteq> MAP_FAILED" and "b \<in># R"
  shows "apart (p, n) b"
  using ranges_apart [of s' "add_mset (p, n) R"] grab_fresh [OF assms(1-3)] assms(4) by simp

lemma grab_keeps_bytes:
  assumes "inv s R" and "grab n s = (Inr p, s')" and "b \<in># R" and "in_block a b"
  shows "bytes s' a = bytes s a"
proof (cases "p = MAP_FAILED")
  case True
  with assms grab_failed show ?thesis by simp
next
  case False
  have "\<not> in_block a (p, n)"
    using grab_apart [OF assms(1,2) False assms(3)] assms(4) by (auto simp: in_block_def apart_def)
  with grab_frame [OF assms(1,2) False] show ?thesis .
qed

lemma grab_twice_apart:
  assumes "inv s R" and "grab n s = (Inr p, s')" "p \<noteq> MAP_FAILED"
    and "grab k s' = (Inr q, s'')" "q \<noteq> MAP_FAILED"
  shows "apart (q, k) (p, n)"
  using grab_apart [of s' "add_mset (p, n) R" k q s''] grab_fresh [OF assms(1-3)] assms(4,5) by simp

end

lemma active_invI:
  "page_ok E \<Longrightarrow> region_core E s act rsv fre \<Longrightarrow> active_inv E s (mset (map (region_range (regs s)) act))"
  by (auto simp: active_inv_def)

lemma mapped_ranges:
  assumes "region_core E s act (q # rsv) (f # g # fre)"
  shows "mset (map (region_range (regs (mmap_done len prot s))) (act @ [f])) =
    add_mset (r_vaddr (the (regs s q)), len) (mset (map (region_range (regs s)) act))"
proof -
  let ?t = "active_regionsTail (rt s)" and ?s = "mmap_done len prot s"
  from assms have lists: "region_lists s act (q # rsv) (f # g # fre)" by (simp add: region_core_def)
  from region_listsD [OF lists] obtain T as where T: "regs s ?t = Some T" and act: "act = as @ [?t]" by blast
  have d: "distinct (act @ (q # rsv) @ f # g # fre)" using lists by (simp add: region_lists_def)
  have Q: "reserved_regions (rt s) = q" and F: "free_structs (rt s) = f"
    using lists by (auto simp: region_lists_def)
  have 1: "map (region_range (regs ?s)) act = map (region_range (regs s)) act"
    using d act T Q F by (auto simp: mmap_done_simps Let_def region_range_def)
  have 2: "region_range (regs ?s) f = (r_vaddr (the (regs s q)), len)"
    using d act Q F by (auto simp: mmap_done_simps Let_def region_range_def)
  show ?thesis unfolding map_append 1 by (simp add: 2)
qed

lemma page_dvd8: "page_ok E \<Longrightarrow> unat (getpagesize E) dvd n \<Longrightarrow> 8 dvd n"
  by (auto simp: page_ok_def intro: dvd_trans)

lemma region_core_failed:
  assumes "region_core E s act rsv fre" and "regs s' = regs s" and "rt s' = (rt s)\<lparr>tmpfile_size := z\<rparr>"
  shows "region_core E s' act rsv fre"
  using assms by (simp add: region_core_def region_lists_def)

interpretation mmap_pages: page_source
  "\<lambda>n. sc_mmap E 0 n prot flags (- 1) 0" "active_inv E" mem
proof
  fix s R assume "active_inv E s R"
  then show "apart_all R" by (auto simp: active_inv_def region_core_def apart_all_union)
next
  fix s R n p s'
  assume inv: "active_inv E s R" and run: "sc_mmap E 0 n prot flags (- 1) 0 s = (Inr p, s')" and p: "p \<noteq> MAP_FAILED"
  from inv obtain act rsv fre where core: "region_core E s act rsv fre" and pg: "page_ok E"
    and R: "R = mset (map (region_range (regs s)) act)" by (auto simp: active_inv_def)
  then have lists: "region_lists s act rsv fre" by (simp add: region_core_def)
  from run lists show "active_inv E s' (add_mset (p, n) R) \<and> p \<noteq> 0 \<and> 0 < n \<and> fits (p, n) \<and> 8 dvd unat p \<and> 8 dvd unat n"
  proof (cases rule: sc_mmap_InrD)
    case (mapped q rsv' f g fre')
    note core' = core [unfolded mapped(1,2)]
    have Q: "range_ok E (the (regs s q))" using core' by (simp add: region_core_def)
    from active_invI [OF pg mmap_done_core [OF core' mapped(5-7)], of prot]
    have "active_inv E s' (add_mset (p, n) R)"
      unfolding mapped_ranges [OF core'] by (simp only: mapped R)
    moreover have "fits (p, n)"
      using carve_words(6) [of p "r_len (the (regs s q))" n] Q mapped by (simp add: range_ok_def)
    ultimately show ?thesis using mapped Q pg by (auto simp: range_ok_def word_mod_dvd page_dvd8)
  qed (use p in simp)
next
  fix s R n p s' a
  assume "active_inv E s R" and run: "sc_mmap E 0 n prot flags (- 1) 0 s = (Inr p, s')" and p: "p \<noteq> MAP_FAILED"
    and a: "\<not> in_block a (p, n)"
  then obtain act rsv fre where lists: "region_lists s act rsv fre" by (auto simp: active_inv_def region_core_def)
  from run lists show "mem s' a = mem s a"
  proof (cases rule: sc_mmap_InrD)
    case (mapped q rsv' f g fre')
    have "reserved_regions (rt s) = q" using lists mapped by (simp add: region_lists_def)
    with mapped a show ?thesis by (simp add: mmap_done_simps fill_def)
  qed (use p in simp)
next
  fix s R n s'
  assume inv: "active_inv E s R" and run: "sc_mmap E 0 n prot flags (- 1) 0 s = (Inr MAP_FAILED, s')"
  then obtain act rsv fre where core: "region_core E s act rsv fre" and pg: "page_ok E" 
    and R: "R = mset (map (region_range (regs s)) act)" by (auto simp: active_inv_def)
  then have lists: "region_lists s act rsv fre" by (simp add: region_core_def)
  from run lists show "active_inv E s' R \<and> mem s' = mem s"
  proof (cases rule: sc_mmap_InrD)
    case (failed z)
    have "region_core E s' act rsv fre" by (rule region_core_failed [OF core failed(2,4)])
    with pg R failed show ?thesis by (auto simp: active_inv_def)
  next
    case (mapped q rsv' f g fre')
    have "range_ok E (the (regs s q))" using core mapped by (simp add: region_core_def)
    then have "unat (getpagesize E) dvd unat MAP_FAILED" by (simp add: range_ok_def mapped(3))
    with page_dvd8 [OF pg] have "8 dvd unat MAP_FAILED" by blast
    then show ?thesis by (simp add: unat_MAP_FAILED)
  qed
qed

section \<open>Import\<close>

lemma import_scan_chain:
  "chain (region_next m) p as 0 \<Longrightarrow> set as \<subseteq> dom m \<Longrightarrow>
   import_scan m addr len p =
     Some (Inr (case find (\<lambda>q. ranges_collide addr len (the (m q))) as of None \<Rightarrow> 0 | Some q \<Rightarrow> q))"
proof (induction as arbitrary: p)
  case Nil
  then show ?case by (subst import_scan.simps) simp
next
  case (Cons a as)
  then obtain r where "m a = Some r" by auto
  with Cons show ?case by (subst import_scan.simps) (auto simp: region_next_def)
qed

lemma ranges_collide_apart:
  assumes "fits (addr, len)" and "fits (r_vaddr r, r_len r)"
  shows "ranges_collide addr len r \<longleftrightarrow> \<not> apart (addr, len) (r_vaddr r, r_len r)"
  using assms by (auto simp: ranges_collide_def apart_def fits_def word_less_nat_alt unat_word_ariths)

lemma find_Some_mem: "find P xs = Some x \<Longrightarrow> x \<in> set xs"
  by (auto simp: find_Some_iff)

lemma import_collide:
  assumes "region_core E s act rsv fre" and "fits (addr, len)" and "p \<in> set act"
  shows "ranges_collide addr len (the (regs s p)) \<longleftrightarrow> \<not> apart (addr, len) (region_range (regs s) p)"
proof -
  from assms(1,3) obtain r where r: "regs s p = Some r" by (auto simp: region_core_def region_lists_def)
  with assms(1,3) have "fits (r_vaddr r, r_len r)"
    by (force simp: region_core_def list_all_iff range_ok_def)
  with assms(2) show ?thesis by (simp add: ranges_collide_apart r region_range_def)
qed

lemma import_scan_clear:
  assumes "region_core E s act rsv fre" and "fits (addr, len)"
  shows "import_scan (regs s) addr len (active_regions (rt s)) = Some (Inr 0) \<longleftrightarrow>
     (\<forall>p \<in> set act. apart (addr, len) (region_range (regs s) p))"
    (is "_ = ?clear")
proof -
  from assms(1) have c: "chain (region_next (regs s)) (active_regions (rt s)) act 0" and d: "set act \<subseteq> dom (regs s)"
    by (auto simp: region_core_def region_lists_def)
  let ?f = "find (\<lambda>q. ranges_collide addr len (the (regs s q))) act"
  have "import_scan (regs s) addr len (active_regions (rt s)) = Some (Inr 0) \<longleftrightarrow> ?f = None"
    using chain_nonnull [OF c]
    by (cases ?f) (auto simp: import_scan_chain [OF c d] dest: find_Some_mem)
  also have "\<dots> \<longleftrightarrow> ?clear" using import_collide [OF assms] by (auto simp: find_None_iff)
  finally show ?thesis .
qed

lemma dom_vm_map: "dom (vm_map vm a q) \<subseteq> dom vm \<union> {x. in_block x (a, q_len q)}"
  by (auto simp: vm_map_def split: if_splits)

lemma sc_import_copy_eq:
  assumes "find (\<lambda>l. l_sc l = root_addr s) (locals s) = Some l"
    and g: "import_granted E D addr len prot (l_shm_file l) offset" and "tmpfile_size (rt s) = offset + len"
    and "addr \<noteq> MAP_FAILED" and D: "dom (vmap s) \<subseteq> D"
  shows "\<exists>s'. sc_import_copy E addr len prot offset s = (Inr 0, s') \<and> regs s' = regs s \<and> rt s' = rt s \<and>
     mem s' = fill (mem s) (addr, len) (priv s) \<and> file_len s' = offset + len \<and>
     (\<forall>a. in_block a (addr, len) \<longrightarrow> vmap s' a =
        Some \<lparr>m_prot = prot, m_shared = True, m_backing = FileBacked (l_shm_file l) (offset + (a - addr))\<rparr>) \<and>
     lk s' = lk s @ [LkShared LLocalList, UnShared LLocalList, UnExcl LRoot] \<and>
     dom (vmap s') \<subseteq> D \<union> {x. in_block x (addr, len)}"
proof -
  let ?q = "\<lparr>q_addr = 0, q_len = len, q_prot = PROT_READ OR PROT_WRITE, q_flags = MAP_SHARED, q_fd = l_shm_file l, q_off = offset\<rparr>"
  define vm where "vm = (\<lambda>x. if in_block x (os_mmap E (vmap s) ?q, len) then None else vm_map (vmap s) (os_mmap E (vmap s) ?q) ?q x)"
  have v: "dom vm \<subseteq> D" using D by (auto simp: vm_def vm_map_def split: if_splits)
  have g': "os_mmap E (vmap s) ?q \<noteq> MAP_FAILED" "os_mmap E vm (import_req addr len prot (l_shm_file l) offset) = addr"
    "os_ftruncate E (l_shm_file l) (offset + len)" using g D v unfolding import_granted_def by blast+
  define s' where "s' = s\<lparr>file_len := offset + len, mem := fill (mem s) (addr, len) (priv s),
     vmap := vm_map vm addr (import_req addr len prot (l_shm_file l) offset), lk := lk s @ [LkShared LLocalList, UnShared LLocalList, UnExcl LRoot]\<rparr>"
  have "sc_import_copy E addr len prot offset s = (Inr 0, s')"
    using assms(1,3,4) g' [unfolded vm_def] unfolding s'_def vm_def
    by (simp add: sc_import_copy_def lookupScLocal_eq Let_def sys_mmap_def import_req_def sys_munmap_def sys_ftruncate_def log_lock_def cong: if_cong)
  moreover have "dom (vmap s') \<subseteq> D \<union> {x. in_block x (addr, len)}"
    unfolding s'_def using order_trans [OF dom_vm_map [of vm addr "import_req addr len prot (l_shm_file l) offset"]] v
    by (auto simp: import_req_def)
  ultimately show ?thesis by (intro exI [of _ s']) (simp add: s'_def vm_map_def import_req_def mman_defs)
qed

lemma sc_import_ok:
  assumes lists: "region_lists s act rsv (f # g # fre)"
    and clear: "import_scan (regs s) addr len (active_regions (rt s)) = Some (Inr 0)"
    and al: "addr mod getpagesize E = 0" "len mod getpagesize E = 0"
    and prot: "prot = PROT_READ \<or> prot = (PROT_READ OR PROT_WRITE) \<or> prot = (PROT_READ OR PROT_EXEC)"
    and one: "proc_count (rt s) = 1" and q: "lock_query_ok E" "0 \<le> heldX (lk s) LRoot"
    and l: "find (\<lambda>l. l_sc l = root_addr s) (locals s) = Some l"
    and g: "import_granted E D addr len prot (l_shm_file l) (tmpfile_size (rt s))" "addr \<noteq> MAP_FAILED" "dom (vmap s) \<subseteq> D"
  shows "\<exists>s'. sc_import E addr len prot s = (Inr 0, s') \<and>
     regs s' = import_regs addr len prot s \<and> rt s' = import_rt len s \<and>
     mem s' = fill (mem s) (addr, len) (priv s) \<and> file_len s' = tmpfile_size (rt s) + len \<and>
     (\<forall>a. in_block a (addr, len) \<longrightarrow> vmap s' a = Some \<lparr>m_prot = prot, m_shared = True,
        m_backing = FileBacked (l_shm_file l) (tmpfile_size (rt s) + (a - addr))\<rparr>) \<and>
     heldX (lk s') LRoot = heldX (lk s) LRoot \<and> dom (vmap s') \<subseteq> D \<union> {x. in_block x (addr, len)}"
proof -
  let ?a = "active_regions (rt s)" and ?t = "active_regionsTail (rt s)"
  from region_listsD [OF lists] obtain T where T: "regs s ?t = Some T" by blast
  from lists obtain F where F: "regs s f = Some F" "r_next F = g" "g \<noteq> 0" "f \<noteq> 0" "free_structs (rt s) = f"
    by (auto simp: region_lists_def region_next_def)
  have ft: "f \<noteq> ?t" using lists region_listsD [OF lists] by (auto simp: region_lists_def)
  define s1 where "s1 = unlock_shared (LRegion ?a) (lock_shared (LRegion ?a) (lock_exclusive LRoot s))"
  have held: "isLock_heldExclusive_byMe E (lk s1) LRoot"
    using q by (simp add: lock_query_ok_def lock_simps s1_def)
  define s2 where "s2 = put_region f (F\<lparr>r_next := 0\<rparr>) (upd_rt (\<lambda>c. c\<lparr>free_structs := g\<rparr>) s1)"
  have get: "sc_getFreeRegion E s1 = (Inr f, s2)"
    using F held by (subst getFreeRegion_eq [of _ F]) (simp_all add: s1_def s2_def)
  have run: "sc_import E addr len prot s = sc_import_post E addr len prot f s2"
    using al prot one clear get F by (auto simp: sc_import_def Let_def s1_def)
  define s3 where "s3 = upd_rt (\<lambda>c. c\<lparr>tmpfile_size := tmpfile_size c + len\<rparr>)
    (put_region f \<lparr>r_next = 0, r_vaddr = addr, r_len = len, r_prot = ucast prot,
                     r_permaPin = False, r_tmpfile_offset = tmpfile_size (rt s)\<rparr>
    (unlock_exclusive (LRegion ?a) (upd_rt (\<lambda>c. c\<lparr>active_regionsTail := f\<rparr>)
    (put_region ?t (T\<lparr>r_next := f\<rparr>) (lock_exclusive (LRegion ?a) (lock_init (LRegion f) s2))))))"
  have post: "sc_import_post E addr len prot f s2 = sc_import_copy E addr len prot (tmpfile_size (rt s)) s3"
    using T ft by (simp add: sc_import_post_def Let_def s3_def s2_def s1_def)
  have loc: "find (\<lambda>l. l_sc l = root_addr s3) (locals s3) = Some l" "tmpfile_size (rt s3) = tmpfile_size (rt s) + len"
    using l by (simp_all add: s1_def s2_def s3_def)
  have s3: "regs s3 = import_regs addr len prot s" "rt s3 = import_rt len s"
    "mem s3 = mem s" "priv s3 = priv s" "vmap s3 = vmap s"
    "lk s3 = lk s @ [LkExcl LRoot, LkShared (LRegion ?a), UnShared (LRegion ?a), LkInit (LRegion f),
      LkExcl (LRegion ?a), UnExcl (LRegion ?a)]"
    using F T ft by (simp_all add: s1_def s2_def s3_def import_regs_def import_rt_def Let_def fun_upd_twist)
  from sc_import_copy_eq [OF loc(1) g(1) loc(2) g(2) g(3) [folded s3(5)]] show ?thesis
    unfolding run post by (elim exE conjE) (intro exI conjI; simp add: s3 lock_simps)
qed

lemma import_lists:
  assumes "region_lists s act rsv (f # g # fre)" and "regs s' = import_regs addr len prot s" "rt s' = import_rt len s"
  shows "region_lists s' (act @ [f]) rsv (g # fre)"
proof -
  let ?t = "active_regionsTail (rt s)"
  from region_listsD [OF assms(1)] obtain T as where T: "regs s ?t = Some T" and act: "act = as @ [?t]" by blast
  from assms(1) obtain F where F: "regs s f = Some F" "free_structs (rt s) = f" "r_next F = g" "f \<noteq> 0"
    by (auto simp: region_lists_def region_next_def)
  let ?n = "region_next (regs s')"
  have d: "distinct (act @ rsv @ f # g # fre)" using assms(1) by (simp add: region_lists_def)
  have n: "?n a = (if a = f then 0 else if a = ?t then f else region_next (regs s) a)" for a
    using assms by (auto simp: import_regs_def Let_def F)
  have c: "chain ?n p xs r = chain (region_next (regs s)) p xs r" if "f \<notin> set xs" "?t \<notin> set xs" for p xs r
    by (rule chain_cong) (use that in \<open>auto simp: n\<close>)
  have "chain ?n (active_regions (rt s)) (as @ [?t, f]) 0"
    using assms(1) d act F by (auto simp: region_lists_def chain_append c n)
  moreover have "chain ?n (reserved_regions (rt s)) rsv 0" "chain ?n g (g # fre) 0"
    using assms(1) d act F by (auto simp: region_lists_def c simp del: chain.simps) (auto simp: region_next_def)
  ultimately show ?thesis
    using assms d act F T by (auto simp: region_lists_def import_regs_def import_rt_def Let_def)
qed

lemma import_wf:
  assumes wf: "region_wf E s act rsv (f # g # fre)" and s': "regs s' = import_regs addr len prot s" "rt s' = import_rt len s"
    and al: "addr mod getpagesize E = 0" "len mod getpagesize E = 0" "addr \<noteq> 0" "0 < len" "fits (addr, len)"
    and clear: "\<forall>p \<in> set (act @ rsv). apart (addr, len) (region_range (regs s) p)"
    and prot: "ucast prot \<noteq> (0 :: u8)" and room: "unat (tmpfile_size (rt s)) + unat len < 2 ^ 64"
  shows "region_wf E s' (act @ [f]) rsv (g # fre)"
proof -
  let ?t = "active_regionsTail (rt s)"
  from wf have core: "region_core E s act rsv (f # g # fre)" and lists: "region_lists s act rsv (f # g # fre)"
    and files: "region_files E s act rsv" by (auto simp: region_core_def region_wf_def)
  from region_listsD [OF lists] obtain T as where T: "regs s ?t = Some T" and act: "act = as @ [?t]" by blast
  from lists have F: "free_structs (rt s) = f" by (auto simp: region_lists_def)
  have d: "distinct (act @ rsv @ f # g # fre)" using lists by (simp add: region_lists_def)
  have old: "the (regs s' p) = (if p = ?t then T\<lparr>r_next := f\<rparr> else the (regs s p))" if "p \<in> set (act @ rsv)" for p
    using that d act T by (auto simp: s' import_regs_def Let_def F)
  have new: "regs s' f = Some \<lparr>r_next = 0, r_vaddr = addr, r_len = len, r_prot = ucast prot, r_permaPin = False,
                 r_tmpfile_offset = tmpfile_size (rt s)\<rparr>"
    using d act by (auto simp: s' import_regs_def Let_def F)
  have size: "unat (tmpfile_size (rt s')) = unat (tmpfile_size (rt s)) + unat len"
    using room by (simp add: s' import_rt_def unat_word_ariths)
  have rng: "map (region_range (regs s')) (act @ rsv) = map (region_range (regs s)) (act @ rsv)"
    using d act T by (auto simp: s' import_regs_def Let_def region_range_def F)
  have fr: "file_ranges (regs s') act = file_ranges (regs s) act"
    unfolding file_ranges_def using d act T F
    by (intro arg_cong [where f = concat] map_cong) (auto simp: s' import_regs_def Let_def split: option.splits)
  have fr2: "file_ranges (regs s') (act @ [f]) = file_ranges (regs s) act @ [(tmpfile_size (rt s), len)]"
    using fr prot new by (simp add: file_ranges_def)
  have "apart_all (add_mset (addr, len) (mset (map (region_range (regs s')) (act @ rsv))))"
    using core clear unfolding rng by (auto simp: region_core_def)
  then have "apart_all (mset (map (region_range (regs s')) ((act @ [f]) @ rsv)))"
    using new by (simp add: region_range_def ac_simps)
  moreover have "list_all (\<lambda>p. range_ok E (the (regs s' p))) (act @ rsv)"
    using core T act by (auto simp: region_core_def list_all_iff old range_ok_def)
  ultimately have "region_core E s' (act @ [f]) rsv (g # fre)"
    using import_lists [OF lists s'] new al by (simp add: region_core_def range_ok_def word_mod_dvd)
  moreover have "list_all (\<lambda>p. active_file_ok E (tmpfile_size (rt s')) (the (regs s' p))) act"
    using files size T act by (fastforce simp: region_files_def list_all_iff old active_file_ok_def split: if_splits)
  moreover have "list_all (\<lambda>p. reserved_ok (the (regs s' p))) rsv"
    using files act d by (auto simp: region_files_def list_all_iff old)
  moreover have "apart_all (mset (file_ranges (regs s') (act @ [f])))"
    using files file_ranges_bound [OF files] by (auto simp: fr2 region_files_def apart_def)
  ultimately show ?thesis
    using files prot size new al
    by (simp add: region_wf_def region_files_def active_file_ok_def word_mod_dvd)
qed

context page_source
begin

lemma grab_all_apart:
  assumes "inv s R" and "grab_all grab ns s = (Inr ps, s')" and "MAP_FAILED \<notin> set ps"
  shows "inv s' (mset (zip ps ns) + R) \<and> apart_all (mset (zip ps ns) + R) \<and>
     (\<forall>b \<in># R. \<forall>a. in_block a b \<longrightarrow> bytes s' a = bytes s a)"
  using assms
proof (induction ns arbitrary: s R ps)
  case Nil
  then show ?case by (auto intro: ranges_apart)
next
  case (Cons n ns)
  from Cons.prems(2) obtain p qs t where 1: "grab n s = (Inr p, t)" and 2: "grab_all grab ns t = (Inr qs, s')"
    and ps: "ps = p # qs" by (auto elim!: call_InrE)
  with Cons.prems have p: "p \<noteq> MAP_FAILED" "MAP_FAILED \<notin> set qs" by auto
  from grab_fresh [OF Cons.prems(1) 1 p(1)] have "inv t (add_mset (p, n) R)" by blast
  from Cons.IH [OF this 2 p(2)] have *: "inv s' (mset (zip qs ns) + add_mset (p, n) R)"
    and **: "\<forall>b \<in># add_mset (p, n) R. \<forall>a. in_block a b \<longrightarrow> bytes s' a = bytes t a" by auto
  have "bytes t a = bytes s a" if "b \<in># R" "in_block a b" for a b
    by (rule grab_keeps_bytes [OF Cons.prems(1) 1 that])
  with * ** show ?case by (auto simp: ps dest: ranges_apart)
qed

end

lemma page_ok_not_MAP_FAILED: "page_ok E \<Longrightarrow> unat (getpagesize E) dvd unat z \<Longrightarrow> z \<noteq> MAP_FAILED"
  using page_dvd8 [of E "unat z"] by (auto simp: unat_MAP_FAILED)

lemma active_file_ok_mono: "active_file_ok E z r \<Longrightarrow> unat z \<le> unat z' \<Longrightarrow> active_file_ok E z' r"
  by (auto simp: active_file_ok_def)

lemma mmap_done_lk:
  "heldX (lk (mmap_done len prot s)) LRoot = heldX (lk s) LRoot"
  "heldX (lk (mmap_done len prot s)) LMalloc = heldX (lk s) LMalloc"
  by (simp_all add: mmap_done_def Let_def lock_simps)

lemma carve_exhausted:
  assumes "regs s (reserved_regions (rt s)) = Some R" "reserved_regions (rt s) \<noteq> 0"
  shows "len = r_len R \<Longrightarrow> fst (sc_mmap_carve region len prot s) = Inl (Todo 1601)"
    "len > r_len R \<Longrightarrow> fst (sc_mmap_carve region len prot s) = Inl (AssertFail 1584)"
  using assms by (simp_all add: sc_mmap_carve_def Let_def flip: not_le)

lemma sc_mmap_to_carve:
  assumes lists: "region_lists s act (q # rsv) (f # g # fre)"
    and "find (\<lambda>l. l_sc l = root_addr s) (locals s) = Some l"
    and "cleanupLog (rt s) = 0" and "os_ftruncate E (l_shm_file l) (tmpfile_size (rt s) + len)"
    and "lock_query_ok E" and "0 \<le> heldX (lk s) LRoot" and "0 < len" "len mod getpagesize E = 0"
  shows "\<exists>s1. sc_mmap E 0 len prot flags (- 1) 0 s = sc_mmap_carve f len prot s1 \<and>
     regs s1 q = regs s q \<and> reserved_regions (rt s1) = q"
proof -
  from lists obtain F where F: "regs s f = Some F" "r_next F \<noteq> 0" "f \<noteq> 0" "free_structs (rt s) = f"
    and q: "reserved_regions (rt s) = q" "q \<noteq> f"
    by (auto simp: region_lists_def region_next_def)
  have held: "isLock_heldExclusive_byMe E (lk s @ [LkShared LLocalList, UnShared LLocalList, LkExcl LRoot]) LRoot"
    using assms(5,6) by (simp add: lock_query_ok_def lock_simps)
  show ?thesis
    using assms(2-4,7,8) F held q
    by (simp add: sc_mmap_def guard_pass mmap_asserts_hold sc_mmap_body_def lookupScLocal_eq Let_def)
      (subst call_simps(1), rule getFreeRegion_eq [where f = F], auto)
qed

lemma import_protNone_lists:
  assumes lists: "region_lists s (a # b # act) rsv (f # g # fre)" and A: "regs s a = Some A"
    and s': "regs s' = (regs s)(a \<mapsto> A\<lparr>r_next := f\<rparr>, f \<mapsto> R)" "r_next R = b"
       "rt s' = (rt s)\<lparr>free_structs := g\<rparr>"
  shows "region_lists s' (a # f # b # act) rsv (g # fre)"
proof -
  let ?n = "region_next (regs s')"
  have d: "distinct ((a # b # act) @ rsv @ f # g # fre)" using lists by (simp add: region_lists_def)
  have n: "?n x = (if x = f then b else if x = a then f else region_next (regs s) x)" for x
    using s' by auto
  have c: "chain ?n p xs r = chain (region_next (regs s)) p xs r" if "f \<notin> set xs" "a \<notin> set xs" for p xs r
    by (rule chain_cong) (use that in \<open>auto simp: n\<close>)
  have "chain ?n a (a # f # b # act) 0" "chain ?n (reserved_regions (rt s)) rsv 0" "chain ?n g (g # fre) 0"
    using lists d by (auto simp: region_lists_def c n)
  then show ?thesis using lists d s' by (auto simp: region_lists_def)
qed

lemma import_protNone_wf:
  assumes wf: "region_wf E s (a # b # act) rsv (f # g # fre)" and A: "regs s a = Some A"
    and s': "regs s' = (regs s)(a \<mapsto> A\<lparr>r_next := f\<rparr>, f \<mapsto> \<lparr>r_next = b, r_vaddr = addr, r_len = len,
          r_prot = 0, r_permaPin = False, r_tmpfile_offset = - 1\<rparr>)" "rt s' = (rt s)\<lparr>free_structs := g\<rparr>"
    and al: "addr mod getpagesize E = 0" "len mod getpagesize E = 0" "addr \<noteq> 0" "0 < len" "fits (addr, len)"
    and clear: "\<forall>p \<in> set ((a # b # act) @ rsv). apart (addr, len) (region_range (regs s) p)"
  shows "region_wf E s' (a # f # b # act) rsv (g # fre)"
proof -
  from wf have core: "region_core E s (a # b # act) rsv (f # g # fre)" and lists: "region_lists s (a # b # act) rsv (f # g # fre)"
    and files: "region_files E s (a # b # act) rsv" by (auto simp: region_core_def region_wf_def)
  have d: "distinct ((a # b # act) @ rsv @ f # g # fre)" using lists by (simp add: region_lists_def)
  let ?old = "(a # b # act) @ rsv"
  have old: "the (regs s' p) = (if p = a then A\<lparr>r_next := f\<rparr> else the (regs s p))" if "p \<in> set ?old" for p
    using that d A by (auto simp: s')
  have new: "regs s' f = Some \<lparr>r_next = b, r_vaddr = addr, r_len = len,
          r_prot = 0, r_permaPin = False, r_tmpfile_offset = - 1\<rparr>" by (simp add: s')
  have rng: "region_range (regs s') p = region_range (regs s) p" if "p \<in> set ?old" for p
    using that d A by (auto simp: s' region_range_def)
  have fr: "file_ranges (regs s') (a # b # act) = file_ranges (regs s) (a # b # act)"
    unfolding file_ranges_def using d A
    by (intro arg_cong [where f = concat] map_cong) (auto simp: s')
  have fr2: "mset (file_ranges (regs s') (a # f # b # act)) = mset (file_ranges (regs s) (a # b # act))"
    unfolding fr [symmetric] by (simp add: file_ranges_def new)
  have "mset (map (region_range (regs s')) ((a # f # b # act) @ rsv)) =
      add_mset (addr, len) (mset (map (region_range (regs s)) ?old))"
    using rng by (simp add: region_range_def [of _ f] new cong: map_cong)
  then have "apart_all (mset (map (region_range (regs s')) ((a # f # b # act) @ rsv)))"
    using core clear by (auto simp: region_core_def)
  moreover have "list_all (\<lambda>p. range_ok E (the (regs s' p))) (a # f # b # act @ rsv)"
    using core A new al by (auto simp: region_core_def list_all_iff old range_ok_def word_mod_dvd)
  moreover have "region_lists s' (a # f # b # act) rsv (g # fre)"
    by (rule import_protNone_lists [OF lists A s'(1)]) (simp_all add: s')
  moreover have "list_all (\<lambda>p. active_file_ok E (tmpfile_size (rt s')) (the (regs s' p))) (a # f # b # act)"
    using files A new by (auto simp: region_files_def list_all_iff old active_file_ok_def s'(2))
  moreover have "list_all (\<lambda>p. reserved_ok (the (regs s' p))) rsv"
    using files d by (auto simp: region_files_def list_all_iff old)
  ultimately show ?thesis
    using files by (simp add: region_wf_def region_core_def region_files_def fr2 s'(2))
qed

section \<open>A concrete subcontext\<close>

lemmas demo_defs = demo_st_def demo_root_def demo_regs_def demo_region_def demo_local_def

lemma demo_env_sel [simp]:
  "getpagesize demo_env = 0x1000" "isLock_heldExclusive_byMe demo_env tr l \<longleftrightarrow> 0 < heldX tr l"
  "os_ftruncate demo_env fd n \<longleftrightarrow> n < 0x40000000" "sizeof_sc_process demo_env = 0x40"
  "sizeof_sc_cleanupLogStep demo_env = 0x40"
  "os_mmap demo_env vm q = (if q_flags q AND MAP_FIXED \<noteq> 0 then q_addr q else 0x700000)"
  by (simp_all add: demo_env_def)

lemma demo_st_sel [simp]:
  "root_addr demo_st = 0x1000" "rt demo_st = demo_root" "regs demo_st = demo_regs"
  "procs demo_st = Map.empty" "steps demo_st = Map.empty" "freeList demo_st = 0" "mem demo_st = (\<lambda>_. 0)"
  "file_len demo_st = 0x3000" "pid demo_st = 7" "locals demo_st = [demo_local]" "lk demo_st = []"
  "vmap demo_st = Map.empty" "priv demo_st = (\<lambda>a. ucast a)"
  by (simp_all add: demo_st_def)

lemma demo_root_sel [simp]:
  "tmpfile_size demo_root = 0x3000" "cleanupLog demo_root = 0" "proc_count demo_root = 1"
  "reserved_regions demo_root = 0x1180" "active_regions demo_root = 0x1100"
  by (simp_all add: demo_root_def)

lemma demo_local_sel [simp]: "l_sc demo_local = 0x1000" "l_shm_file demo_local = 5"
  by (simp_all add: demo_local_def)

lemma demo_lists: "region_lists demo_st [0x1100, 0x1140] [0x1180] [0x11c0, 0x1200, 0x1240]"
  by (simp add: region_lists_def demo_defs region_next_def)

lemma demo_core: "region_core demo_env demo_st [0x1100, 0x1140] [0x1180] [0x11c0, 0x1200, 0x1240]"
  unfolding region_core_def
  by (intro conjI demo_lists)
    (simp_all add: demo_defs demo_env_def range_ok_def region_range_def fits_def apart_def)

lemma demo_files: "region_files demo_env demo_st [0x1100, 0x1140] [0x1180]"
  by (simp add: region_files_def demo_defs demo_env_def active_file_ok_def reserved_ok_def file_ranges_def apart_def)

lemma demo_wf: "region_wf demo_env demo_st [0x1100, 0x1140] [0x1180] [0x11c0, 0x1200, 0x1240]"
  by (simp add: region_wf_def demo_core demo_files)

lemma demo_env_ok: "lock_query_ok demo_env" "page_ok demo_env"
  by (simp_all add: lock_query_ok_def page_ok_def demo_env_def)

lemma demo_local_find: "find (\<lambda>l. l_sc l = root_addr demo_st) (locals demo_st) = Some demo_local"
  by (simp add: demo_defs)

section \<open>Properties\<close>

text \<open>C7: \<^verbatim>\<open>sc_mmap\<close> on a well-formed subcontext with a free struct to spare and a reserved region
  larger than the request returns the start of that reserved region. The new region is appended to
  the active list, overlaps no region that was active, its bytes read as zero, every other byte is
  unchanged, all region lists and file ranges stay well formed, and the root lock is released.\<close>

theorem sc_mmap_correct:
  assumes wf: "region_wf E s act (q # rsv) (f # g # fre)"
    and "find (\<lambda>l. l_sc l = root_addr s) (locals s) = Some l"
    and "cleanupLog (rt s) = 0" and "os_ftruncate E (l_shm_file l) (tmpfile_size (rt s) + len)"
    and "lock_query_ok E" and "0 \<le> heldX (lk s) LRoot"
    and "0 < len" "len mod getpagesize E = 0" and "len < r_len (the (regs s q))"
    and "ucast prot \<noteq> (0 :: u8)" and "unat (tmpfile_size (rt s)) + unat len < 2 ^ 64"
  shows "\<exists>s'. sc_mmap E 0 len prot flags (- 1) 0 s = (Inr (r_vaddr (the (regs s q))), s') \<and>
     region_wf E s' (act @ [f]) (q # rsv) (g # fre) \<and>
     region_range (regs s') f = (r_vaddr (the (regs s q)), len) \<and>
     (\<forall>p \<in> set act. apart (region_range (regs s') f) (region_range (regs s) p)) \<and>
     mem s' = fill (mem s) (region_range (regs s') f) (\<lambda>_. 0) \<and>
     file_len s' = tmpfile_size (rt s') \<and> heldX (lk s') LRoot = heldX (lk s) LRoot"
proof -
  from wf have core: "region_core E s act (q # rsv) (f # g # fre)" and files: "region_files E s act (q # rsv)"
    and lists: "region_lists s act (q # rsv) (f # g # fre)"
    by (auto simp: region_wf_def region_core_def)
  let ?s = "mmap_done len prot s"
  have core': "region_core E ?s (act @ [f]) (q # rsv) (g # fre)"
    by (rule mmap_done_core [OF core]) fact+
  have wf': "region_wf E ?s (act @ [f]) (q # rsv) (g # fre)"
    using core' mmap_done_files [OF core files] assms by (simp add: region_wf_def)
  have "apart_all (mset (map (region_range (regs ?s)) (act @ [f])))"
    using core' by (auto simp: region_core_def apart_all_union)
  then have ap: "\<forall>p \<in> set act. apart (r_vaddr (the (regs s q)), len) (region_range (regs s) p)"
    unfolding mapped_ranges [OF core] by auto
  have qf: "reserved_regions (rt s) = q" "free_structs (rt s) = f" "f \<noteq> q" "f \<noteq> active_regionsTail (rt s)"
    using lists region_listsD [OF lists] by (auto simp: region_lists_def)
  then have rng: "region_range (regs ?s) f = (r_vaddr (the (regs s q)), len)"
    by (simp add: mmap_done_simps Let_def)
  show ?thesis
    using sc_mmap_eq [OF lists assms(2-9)] wf' ap rng qf
    by (simp add: mmap_done_simps mmap_done_lk mmap_done_def [of len prot s, THEN arg_cong, of file_len] Let_def)
qed

theorem sc_mmap_correct_witness:
  "\<exists>s'. sc_mmap demo_env 0 0x2000 3 34 (- 1) 0 demo_st = (Inr 0x100000, s') \<and>
     region_wf demo_env s' [0x1100, 0x1140, 0x11c0] [0x1180] [0x1200, 0x1240] \<and>
     region_range (regs s') 0x11c0 = (0x100000, 0x2000)"
proof -
  have "r_vaddr (the (demo_regs 0x1180)) = 0x100000" "r_len (the (demo_regs 0x1180)) = 0x80000"
    by (simp_all add: demo_defs)
  then show ?thesis
    using sc_mmap_correct [OF demo_wf demo_local_find _ _ demo_env_ok(1), of "0x2000" 3 34] by auto
qed

text \<open>C22: The regions returned by any sequence of successful \<^verbatim>\<open>sc_mmap\<close> calls are pairwise disjoint
  and disjoint from all regions active before, and no byte of a region active before changes.\<close>

theorem sc_mmap_sequence_apart:
  assumes "active_inv E s R"
    and "grab_all (\<lambda>n. sc_mmap E 0 n prot flags (- 1) 0) ns s = (Inr ps, s')" and "MAP_FAILED \<notin> set ps"
  shows "active_inv E s' (mset (zip ps ns) + R) \<and> apart_all (mset (zip ps ns) + R) \<and>
     (\<forall>b \<in># R. \<forall>a. in_block a b \<longrightarrow> mem s' a = mem s a)"
  by (rule mmap_pages.grab_all_apart [OF assms])

lemma demo_active: "active_inv demo_env demo_st {#(0x1000, 0x1000), (0x2000, 0x2000)#}"
  using active_invI [OF demo_env_ok(2) demo_core] by (simp add: demo_regs_def demo_region_def)

theorem sc_mmap_sequence_apart_witness:
  "\<exists>s'. grab_all (\<lambda>n. sc_mmap demo_env 0 n 3 34 (- 1) 0) [0x1000, 0x3000] demo_st =
     (Inr [0x100000, 0x101000], s') \<and>
     apart_all {#(0x100000, 0x1000), (0x101000, 0x3000), (0x1000, 0x1000), (0x2000, 0x2000)#}"
proof -
  let ?g = "\<lambda>n. sc_mmap demo_env 0 n 3 34 (- 1) 0"
  let ?s = "mmap_done 0x1000 3 demo_st" and ?t = "mmap_done 0x3000 3 (mmap_done 0x1000 3 demo_st)"
  have 1: "?g 0x1000 demo_st = (Inr 0x100000, ?s)"
    using sc_mmap_eq [OF demo_lists demo_local_find _ _ demo_env_ok(1)]
    by (simp add: demo_regs_def demo_region_def)
  have q: "r_vaddr (the (regs ?s 0x1180)) = 0x101000" "r_len (the (regs ?s 0x1180)) = 0x7f000"
    by (simp_all add: mmap_done_simps Let_def demo_root_def demo_regs_def demo_region_def)
  have 2: "?g 0x3000 ?s = (Inr 0x101000, ?t)"
    using sc_mmap_eq [where s = "mmap_done 0x1000 3 demo_st" and l = demo_local, OF mmap_done_lists [OF demo_lists] _ _ _ demo_env_ok(1)]
    by (simp add: q mmap_done_lk) (simp add: mmap_done_simps demo_root_def)
  have run: "grab_all ?g [0x1000, 0x3000] demo_st = (Inr [0x100000, 0x101000], ?t)"
    by (simp add: 1 2)
  from sc_mmap_sequence_apart [OF demo_active run] run show ?thesis
    by (simp add: MAP_FAILED_def apart_sym)
qed

text \<open>What the unfinished branches of \<^verbatim>\<open>sc_mmap\<close> do: it stops at the \<^verbatim>\<open>TODO()\<close> of line 1601 when
  the request uses up the first reserved region exactly, fails the assert of line 1584 when the
  request is larger, and stops at the \<^verbatim>\<open>TODO()\<close> of line 1642 when only one free region struct is left.
  It never returns overlapping or short pages.\<close>

theorem sc_mmap_exhausted:
  assumes lists: "region_lists s act (q # rsv) (f # fre)"
    and loc: "find (\<lambda>l. l_sc l = root_addr s) (locals s) = Some l"
    and "cleanupLog (rt s) = 0" and "os_ftruncate E (l_shm_file l) (tmpfile_size (rt s) + len)"
    and "lock_query_ok E" and "0 \<le> heldX (lk s) LRoot" and "0 < len" "len mod getpagesize E = 0"
  shows "fst (sc_mmap E 0 len prot flags (- 1) 0 s) =
    (if fre = [] then Inl (Todo 1642)
     else if len > r_len (the (regs s q)) then Inl (AssertFail 1584)
     else if len = r_len (the (regs s q)) then Inl (Todo 1601)
     else Inr (r_vaddr (the (regs s q))))"
proof (cases fre)
  case Nil
  with lists obtain F where F: "regs s f = Some F" "r_next F = 0" "f \<noteq> 0" "free_structs (rt s) = f"
    by (auto simp: region_lists_def region_next_def)
  have held: "isLock_heldExclusive_byMe E (lk s @ [LkShared LLocalList, UnShared LLocalList, LkExcl LRoot]) LRoot"
    using assms(5,6) by (simp add: lock_query_ok_def lock_simps)
  show ?thesis
    using assms(3,4,7,8) F held Nil loc
    by (simp add: sc_mmap_def guard_pass mmap_asserts_hold sc_mmap_body_def lookupScLocal_eq Let_def
        sc_getFreeRegion_def call_def)
next
  case (Cons g fre')
  note lists' = lists [unfolded Cons]
  from lists obtain Q where Q: "regs s q = Some Q" "q \<noteq> 0" by (auto simp: region_lists_def)
  from sc_mmap_to_carve [OF lists' assms(2-8)] obtain s1 where
    run: "sc_mmap E 0 len prot flags (- 1) 0 s = sc_mmap_carve f len prot s1"
    and s1: "regs s1 q = Some Q" "reserved_regions (rt s1) = q" using Q by auto
  consider "len > r_len Q" | "len = r_len Q" | "len < r_len Q" by force
  then show ?thesis
  proof cases
    case 3
    then show ?thesis using sc_mmap_eq [OF lists' assms(2-8)] Q Cons by auto
  qed (use run s1 Q Cons in \<open>auto simp: carve_exhausted\<close>)
qed

theorem sc_mmap_exhausted_witness:
  "fst (sc_mmap demo_env 0 0x80000 3 34 (- 1) 0 demo_st) = Inl (Todo 1601)"
  using sc_mmap_exhausted [OF demo_lists demo_local_find _ _ demo_env_ok(1), of "0x80000" 3 34]
  by (simp add: demo_regs_def demo_region_def)

text \<open>When \<^verbatim>\<open>ftruncate\<close> fails, \<^verbatim>\<open>sc_mmap\<close> reports \<^verbatim>\<open>MAP_FAILED\<close>, releases the root lock and
  leaves every region as it was, but \<^verbatim>\<open>tmpfile_size\<close> keeps the growth that did not happen: it no
  longer agrees with the length of the file.\<close>

theorem sc_mmap_ftruncate_fails:
  assumes "region_wf E s act rsv fre" and "find (\<lambda>l. l_sc l = root_addr s) (locals s) = Some l"
    and "cleanupLog (rt s) = 0" and "\<not> os_ftruncate E (l_shm_file l) (tmpfile_size (rt s) + len)"
    and "0 < len" "len mod getpagesize E = 0" and "unat (tmpfile_size (rt s)) + unat len < 2 ^ 64"
  shows "\<exists>s'. sc_mmap E 0 len prot flags (- 1) 0 s = (Inr MAP_FAILED, s') \<and>
     region_wf E s' act rsv fre \<and> heldX (lk s') LRoot = heldX (lk s) LRoot \<and> mem s' = mem s \<and>
     file_len s' = file_len s \<and> tmpfile_size (rt s') = tmpfile_size (rt s) + len"
proof -
  define s' where "s' = unlock_exclusive LRoot (upd_rt (\<lambda>c. c\<lparr>tmpfile_size := tmpfile_size c + len\<rparr>)
     (lock_exclusive LRoot (unlock_shared LLocalList (lock_shared LLocalList s))))"
  have run: "sc_mmap E 0 len prot flags (- 1) 0 s = (Inr MAP_FAILED, s')"
    using assms(2-6)
    by (simp add: sc_mmap_def guard_pass mmap_asserts_hold sc_mmap_body_def lookupScLocal_eq Let_def s'_def)
  have size: "unat (tmpfile_size (rt s) + len) = unat (tmpfile_size (rt s)) + unat len"
    using assms(7) by (simp add: unat_word_ariths)
  have "region_core E s' act rsv fre"
    by (rule region_core_failed [of _ s _ _ _ _ "tmpfile_size (rt s) + len"])
      (use assms(1) in \<open>simp_all add: s'_def region_wf_def\<close>)
  moreover have "region_files E s' act rsv"
    using assms(1,6) size
    by (auto simp: s'_def region_wf_def region_files_def list_all_iff word_mod_dvd 
        intro: active_file_ok_mono [of E "tmpfile_size (rt s)"])
  ultimately show ?thesis using run by (simp add: region_wf_def) (simp add: s'_def lock_simps)
qed

theorem sc_mmap_ftruncate_fails_witness:
  "\<exists>s'. sc_mmap demo_env 0 0x40000000 3 34 (- 1) 0 demo_st = (Inr MAP_FAILED, s') \<and>
     file_len s' = 0x3000 \<and> tmpfile_size (rt s') = 0x40003000"
  using sc_mmap_ftruncate_fails [OF demo_wf demo_local_find, of "0x40000000" 3 34] by auto

text \<open>The asserts of lines 1519 and 1520 do not restrict \<^verbatim>\<open>prot\<close> and \<^verbatim>\<open>flags\<close>. In particular a
  request for \<^verbatim>\<open>PROT_NONE\<close> succeeds and leaves an active region with \<^verbatim>\<open>prot\<close> 0 whose
  \<^verbatim>\<open>tmpfile_offset\<close> is not -1, which the rule stated for \<^verbatim>\<open>struct sc_region\<close> excludes.\<close>

theorem sc_mmap_protNone_accepted:
  assumes wf: "region_wf E s act (q # rsv) (f # g # fre)" and pg: "page_ok E"
    and "find (\<lambda>l. l_sc l = root_addr s) (locals s) = Some l"
    and "cleanupLog (rt s) = 0" and "os_ftruncate E (l_shm_file l) (tmpfile_size (rt s) + len)"
    and "lock_query_ok E" and "0 \<le> heldX (lk s) LRoot"
    and "0 < len" "len mod getpagesize E = 0" and "len < r_len (the (regs s q))"
  shows "\<exists>s'. sc_mmap E 0 len PROT_NONE flags (- 1) 0 s = (Inr (r_vaddr (the (regs s q))), s') \<and>
     region_core E s' (act @ [f]) (q # rsv) (g # fre) \<and> \<not> region_files E s' (act @ [f]) (q # rsv)"
proof -
  from wf have core: "region_core E s act (q # rsv) (f # g # fre)" and files: "region_files E s act (q # rsv)"
    and lists: "region_lists s act (q # rsv) (f # g # fre)"
    by (auto simp: region_wf_def region_core_def)
  have "tmpfile_size (rt s) \<noteq> MAP_FAILED"
    using page_ok_not_MAP_FAILED [OF pg] files by (simp add: region_files_def)
  moreover have "reserved_regions (rt s) = q" "free_structs (rt s) = f" "f \<noteq> q" "f \<noteq> active_regionsTail (rt s)"
    using lists region_listsD [OF lists] by (auto simp: region_lists_def)
  ultimately have "\<not> active_file_ok E z (the (regs (mmap_done len PROT_NONE s) f))" for z
    by (simp add: mmap_done_simps Let_def active_file_ok_def mman_defs)
  then show ?thesis
    using sc_mmap_eq [OF lists assms(3-10)] mmap_done_core [OF core assms(8-10)]
    by (simp add: region_files_def)
qed

theorem sc_mmap_protNone_accepted_witness:
  "\<exists>s'. sc_mmap demo_env 0 0x1000 PROT_NONE 0 (- 1) 0 demo_st = (Inr 0x100000, s') \<and>
     \<not> region_files demo_env s' [0x1100, 0x1140, 0x11c0] [0x1180]"
  using sc_mmap_protNone_accepted [OF demo_wf demo_env_ok(2) demo_local_find _ _ demo_env_ok(1), of "0x1000" 0]
  by (auto simp: demo_regs_def demo_region_def)

text \<open>The duplicate check of \<^verbatim>\<open>sc_import\<close> ends on every well-formed active list and finds nothing
  exactly when the new range is disjoint from every active region; the 64-bit comparisons it makes
  are exact for ranges that do not wrap around.\<close>

theorem sc_import_scan_exact:
  assumes "region_core E s act rsv fre" and "fits (addr, len)"
  shows "\<exists>p. import_scan (regs s) addr len (active_regions (rt s)) = Some (Inr p) \<and>
     (p = 0 \<longleftrightarrow> (\<forall>q \<in> set act. apart (addr, len) (region_range (regs s) q))) \<and>
     (p \<noteq> 0 \<longrightarrow> p \<in> set act \<and> \<not> apart (addr, len) (region_range (regs s) p))"
proof -
  from assms(1) have c: "chain (region_next (regs s)) (active_regions (rt s)) act 0" and d: "set act \<subseteq> dom (regs s)"
    by (auto simp: region_core_def region_lists_def)
  from import_scan_clear [OF assms] import_scan_chain [OF c d, of addr len] show ?thesis
    by (auto simp: import_collide [OF assms] dest: find_Some_mem split: option.splits)
      (auto simp: find_Some_iff import_collide [OF assms])
qed

theorem sc_import_scan_exact_witness:
  "\<exists>p. import_scan demo_regs 0x3000 0x1000 0x1100 = Some (Inr p) \<and> p \<noteq> 0"
  using sc_import_scan_exact [OF demo_core, of "0x3000" "0x1000"]
  by (auto simp: fits_def demo_regs_def demo_region_def apart_def)

lemma sc_import_works:
  assumes wf: "region_wf E s act rsv (f # g # fre)"
    and al: "addr mod getpagesize E = 0" "len mod getpagesize E = 0" "addr \<noteq> 0" "0 < len" "fits (addr, len)"
    and prot: "prot = PROT_READ \<or> prot = (PROT_READ OR PROT_WRITE) \<or> prot = (PROT_READ OR PROT_EXEC)"
    and clear: "\<forall>p \<in> set (act @ rsv). apart (addr, len) (region_range (regs s) p)"
    and "proc_count (rt s) = 1" and "lock_query_ok E" "0 \<le> heldX (lk s) LRoot"
    and "find (\<lambda>l. l_sc l = root_addr s) (locals s) = Some l"
    and g: "import_granted E D addr len prot (l_shm_file l) (tmpfile_size (rt s))" "dom (vmap s) \<subseteq> D"
    and "unat (tmpfile_size (rt s)) + unat len < 2 ^ 64"
  shows "\<exists>s'. sc_import E addr len prot s = (Inr 0, s') \<and>
     region_wf E s' (act @ [f]) rsv (g # fre) \<and> region_range (regs s') f = (addr, len) \<and>
     mem s' = fill (mem s) (addr, len) (priv s) \<and>
     (\<forall>a. in_block a (addr, len) \<longrightarrow> vmap s' a = Some \<lparr>m_prot = prot, m_shared = True,
        m_backing = FileBacked (l_shm_file l) (r_tmpfile_offset (the (regs s' f)) + (a - addr))\<rparr>) \<and>
     file_len s' = tmpfile_size (rt s') \<and> heldX (lk s') LRoot = heldX (lk s) LRoot \<and> rt s' = import_rt len s \<and>
     (\<forall>p. p \<noteq> f \<longrightarrow> region_range (regs s') p = region_range (regs s) p) \<and> dom (vmap s') \<subseteq> D \<union> {x. in_block x (addr, len)}"
proof -
  from wf have core: "region_core E s act rsv (f # g # fre)" and lists: "region_lists s act rsv (f # g # fre)"
    by (auto simp: region_wf_def region_core_def)
  have nf: "addr \<noteq> MAP_FAILED" using al by (auto simp: fits_def unat_MAP_FAILED word_less_nat_alt)
  have "import_scan (regs s) addr len (active_regions (rt s)) = Some (Inr 0)"
    using import_scan_clear [OF core al(5)] clear by simp
  from sc_import_ok [OF lists this al(1,2) prot assms(9-12) g(1) nf g(2)] obtain s' where
    run: "sc_import E addr len prot s = (Inr 0, s')" and s': "regs s' = import_regs addr len prot s"
      "rt s' = import_rt len s" and rest: "mem s' = fill (mem s) (addr, len) (priv s)"
      "file_len s' = tmpfile_size (rt s) + len" "heldX (lk s') LRoot = heldX (lk s) LRoot"
      "\<forall>a. in_block a (addr, len) \<longrightarrow> vmap s' a = Some \<lparr>m_prot = prot, m_shared = True,
        m_backing = FileBacked (l_shm_file l) (tmpfile_size (rt s) + (a - addr))\<rparr>" "dom (vmap s') \<subseteq> D \<union> {x. in_block x (addr, len)}" by blast
  have "ucast prot \<noteq> (0 :: u8)" using prot by (auto simp: mman_defs)
  from import_wf [OF wf s' al clear this assms(15)] have "region_wf E s' (act @ [f]) rsv (g # fre)" .
  moreover have "regs s' f = Some \<lparr>r_next = 0, r_vaddr = addr, r_len = len, r_prot = ucast prot, r_permaPin = False,
                 r_tmpfile_offset = tmpfile_size (rt s)\<rparr>"
    using lists by (auto simp: s' import_regs_def Let_def region_lists_def)
  moreover have "region_range (regs s') p = region_range (regs s) p" if "p \<noteq> f" for p
  proof -
    from region_listsD [OF lists] obtain T where "regs s (active_regionsTail (rt s)) = Some T" by blast
    then show ?thesis using that lists by (auto simp: s' import_regs_def Let_def region_range_def region_lists_def)
  qed
  ultimately show ?thesis using run rest by (simp add: region_range_def) (simp add: s' import_rt_def)
qed

text \<open>C18: \<^verbatim>\<open>sc_import\<close> of pages disjoint from every region of a single-process subcontext returns 0
  and makes them a region at the end of the active list with file pages of its own: the subcontext
  now holds the bytes the process had there, the process has the file mapped over them with the
  requested protection, the invariant is kept and the root lock released.\<close>

theorem sc_import_correct:
  assumes wf: "region_wf E s act rsv (f # g # fre)"
    and al: "addr mod getpagesize E = 0" "len mod getpagesize E = 0" "addr \<noteq> 0" "0 < len" "fits (addr, len)"
    and prot: "prot = PROT_READ \<or> prot = (PROT_READ OR PROT_WRITE) \<or> prot = (PROT_READ OR PROT_EXEC)"
    and clear: "\<forall>p \<in> set (act @ rsv). apart (addr, len) (region_range (regs s) p)"
    and "proc_count (rt s) = 1" and "lock_query_ok E" "0 \<le> heldX (lk s) LRoot"
    and "find (\<lambda>l. l_sc l = root_addr s) (locals s) = Some l"
    and g: "import_granted E (dom (vmap s)) addr len prot (l_shm_file l) (tmpfile_size (rt s))"
    and room: "unat (tmpfile_size (rt s)) + unat len < 2 ^ 64"
  shows "\<exists>s'. sc_import E addr len prot s = (Inr 0, s') \<and>
     region_wf E s' (act @ [f]) rsv (g # fre) \<and> region_range (regs s') f = (addr, len) \<and>
     mem s' = fill (mem s) (addr, len) (priv s) \<and>
     (\<forall>a. in_block a (addr, len) \<longrightarrow> vmap s' a = Some \<lparr>m_prot = prot, m_shared = True,
        m_backing = FileBacked (l_shm_file l) (r_tmpfile_offset (the (regs s' f)) + (a - addr))\<rparr>) \<and>
     file_len s' = tmpfile_size (rt s') \<and> heldX (lk s') LRoot = heldX (lk s) LRoot"
  using sc_import_works [OF assms(1-12) g order_refl room] by blast

theorem sc_import_correct_witness:
  "\<exists>s'. sc_import demo_env 0x5000 0x1000 PROT_READ demo_st = (Inr 0, s') \<and> mem s' 0x5007 = 7 \<and> mem s' 0x6007 = 0 \<and>
     vmap s' 0x5007 = Some \<lparr>m_prot = 1, m_shared = True, m_backing = FileBacked 5 0x3007\<rparr>"
proof -
  have clear: "\<forall>p \<in> set ([0x1100, 0x1140] @ [0x1180]). apart (0x5000, 0x1000) (region_range (regs demo_st) p)"
    by (simp add: demo_regs_def demo_region_def apart_def)
  have granted: "import_granted demo_env (dom (vmap demo_st)) 0x5000 0x1000 PROT_READ (l_shm_file demo_local) (tmpfile_size (rt demo_st))"
    by (simp add: import_granted_def import_req_def mman_defs)
  obtain s' where run: "sc_import demo_env 0x5000 0x1000 PROT_READ demo_st = (Inr 0, s')"
    and m: "mem s' = fill (mem demo_st) (0x5000, 0x1000) (priv demo_st)"
    and vm: "\<forall>a. in_block a (0x5000, 0x1000) \<longrightarrow> vmap s' a = Some \<lparr>m_prot = PROT_READ, m_shared = True,
        m_backing = FileBacked (l_shm_file demo_local) (r_tmpfile_offset (the (regs s' 0x11c0)) + (a - 0x5000))\<rparr>"
    and wf: "region_wf demo_env s' ([0x1100, 0x1140] @ [0x11c0]) [0x1180] [0x1200, 0x1240]"
    using sc_import_correct [OF demo_wf _ _ _ _ _ _ clear _ demo_env_ok(1) _ demo_local_find granted]
    by (auto simp: fits_def)
  have "r_tmpfile_offset (the (regs s' 0x11c0)) = 0x3000"
    using run sc_import_ok [OF demo_lists, where l = demo_local and E = demo_env and addr = "0x5000" and len = "0x1000" and prot = PROT_READ]
      import_scan_clear [OF demo_core, of "0x5000" "0x1000"] clear granted demo_env_ok demo_local_find order_refl [of "dom (vmap demo_st)"]
    by (auto simp: fits_def MAP_FAILED_def import_regs_def demo_root_def Let_def)
  then show ?thesis using run vm by (simp add: m fill_def in_block_def PROT_READ_def)
qed

text \<open>When the range to import overlaps an active region, \<^verbatim>\<open>sc_import\<close> reports 1 and changes
  nothing but the locks: it releases the list lock and returns with the root lock still held.\<close>

theorem sc_import_duplicate_keeps_lock:
  assumes "region_core E s act rsv fre"
    and "addr mod getpagesize E = 0" "len mod getpagesize E = 0" "fits (addr, len)"
    and "prot = PROT_READ \<or> prot = (PROT_READ OR PROT_WRITE) \<or> prot = (PROT_READ OR PROT_EXEC)"
    and "proc_count (rt s) = 1"
    and "p \<in> set act" "\<not> apart (addr, len) (region_range (regs s) p)"
  shows "\<exists>tr. sc_import E addr len prot s = (Inr 1, s\<lparr>lk := lk s @ tr\<rparr>) \<and>
     heldX (lk s @ tr) LRoot = heldX (lk s) LRoot + 1 \<and>
     (\<forall>q. heldS (lk s @ tr) (LRegion q) = heldS (lk s) (LRegion q))"
proof -
  from assms(1) have c: "chain (region_next (regs s)) (active_regions (rt s)) act 0" and d: "set act \<subseteq> dom (regs s)"
    by (auto simp: region_core_def region_lists_def)
  let ?a = "active_regions (rt s)"
  have "import_scan (regs s) addr len ?a \<noteq> Some (Inr 0)"
    using import_scan_clear [OF assms(1,4)] assms(7,8) by auto
  then obtain r where r: "import_scan (regs s) addr len ?a = Some (Inr r)" "r \<noteq> 0"
    using import_scan_chain [OF c d] by auto
  have "sc_import E addr len prot s =
    (Inr 1, s\<lparr>lk := lk s @ [LkExcl LRoot, LkShared (LRegion ?a), UnShared (LRegion ?a)]\<rparr>)"
    using assms r by (auto simp: sc_import_def Let_def log_lock_def)
  then show ?thesis
    by (intro exI [where x = "[LkExcl LRoot, LkShared (LRegion ?a), UnShared (LRegion ?a)]"])
      (simp add: lock_simps)
qed

theorem sc_import_duplicate_keeps_lock_witness:
  "\<exists>tr. sc_import demo_env 0x2000 0x1000 PROT_READ demo_st = (Inr 1, demo_st\<lparr>lk := tr\<rparr>) \<and> heldX tr LRoot = 1"
  using sc_import_duplicate_keeps_lock [OF demo_core, of "0x2000" "0x1000" PROT_READ "0x1140"]
  by (auto simp: fits_def demo_regs_def demo_region_def apart_def)

lemma sc_import_protNone_works:
  assumes wf: "region_wf E s (a # act) rsv (f # g # fre)"
    and al: "addr mod getpagesize E = 0" "len mod getpagesize E = 0" "addr \<noteq> 0" "0 < len" "fits (addr, len)"
    and clear: "\<forall>p \<in> set ((a # act) @ rsv). apart (addr, len) (region_range (regs s) p)"
    and "proc_count (rt s) = 1" and q: "lock_query_ok E" "0 \<le> heldX (lk s) LRoot"
    and map: "\<And>vm. os_mmap E vm \<lparr>q_addr = addr, q_len = len, q_prot = PROT_NONE,
        q_flags = MAP_PRIVATE OR MAP_FIXED OR MAP_ANONYMOUS, q_fd = - 1, q_off = 0\<rparr> = addr"
  shows "\<exists>s'. sc_import_protNone E addr len s = (Inr 0, s') \<and> region_range (regs s') f = (addr, len) \<and>
     heldX (lk s') LRoot = heldX (lk s) LRoot \<and> mem s' = mem s \<and> rt s' = (rt s)\<lparr>free_structs := g\<rparr> \<and>
     (\<forall>p. p \<noteq> f \<longrightarrow> region_range (regs s') p = region_range (regs s) p) \<and>
     chain (region_next (regs s')) (active_regions (rt s')) (a # f # act) 0 \<and> dom (vmap s') \<subseteq> dom (vmap s) \<union> {x. in_block x (addr, len)} \<and>
     (if act = [] then active_regionsTail (rt s') = a else region_wf E s' (a # f # act) rsv (g # fre))"
proof -
  from wf have lists: "region_lists s (a # act) rsv (f # g # fre)" by (auto simp: region_wf_def region_core_def)
  then obtain A F where A: "regs s a = Some A" "active_regions (rt s) = a"
    and F: "regs s f = Some F" "r_next F = g" "f \<noteq> 0" "g \<noteq> 0" "free_structs (rt s) = f" "f \<noteq> a"
    and c: "chain (region_next (regs s)) (r_next A) act 0" "f \<notin> set act" "a \<notin> set act" "a \<noteq> 0"
    by (auto simp: region_lists_def region_next_def)
  have nf: "addr \<noteq> MAP_FAILED" using al by (auto simp: fits_def unat_MAP_FAILED word_less_nat_alt)
  let ?s1 = "put_region f (F\<lparr>r_next := 0\<rparr>) (upd_rt (\<lambda>c. c\<lparr>free_structs := g\<rparr>) (lock_exclusive LRoot s))"
  have get: "sc_getFreeRegion E (lock_exclusive LRoot s) = (Inr f, ?s1)"
    using F q by (subst getFreeRegion_eq [of _ F]) (simp_all add: lock_query_ok_def lock_simps)
  obtain s' where run: "sc_import_protNone E addr len s = (Inr 0, s')"
    and regs': "regs s' = (regs s)(a \<mapsto> A\<lparr>r_next := f\<rparr>, f \<mapsto> \<lparr>r_next = r_next A, r_vaddr = addr, r_len = len,
          r_prot = 0, r_permaPin = False, r_tmpfile_offset = - 1\<rparr>)"
    and rt': "rt s' = (rt s)\<lparr>free_structs := g\<rparr>" and mem': "mem s' = mem s"
    and lk': "lk s' = lk s @ [LkExcl LRoot, LkInit (LRegion f), LkExcl (LRegion a), UnExcl (LRegion a), UnExcl LRoot]"
    and vmap': "vmap s' = vm_map (vmap s) addr \<lparr>q_addr = addr, q_len = len, q_prot = PROT_NONE,
        q_flags = MAP_PRIVATE OR MAP_FIXED OR MAP_ANONYMOUS, q_fd = - 1, q_off = 0\<rparr>"
    using al(1,2) assms(8) get A F nf map
    by (simp add: sc_import_protNone_def Let_def sys_mmap_def fun_upd_twist) (simp add: PROT_NONE_def)
  have vm': "dom (vmap s') \<subseteq> dom (vmap s) \<union> {x. in_block x (addr, len)}"
    unfolding vmap' using dom_vm_map by fastforce
  have "chain (region_next (regs s')) (r_next A) act 0"
    using c by (subst chain_cong [where g = "region_next (regs s)"]) (auto simp: regs')
  then have ch: "chain (region_next (regs s')) (active_regions (rt s')) (a # f # act) 0"
    using A F c by (simp add: regs' rt')
  have old: "\<forall>p. p \<noteq> f \<longrightarrow> region_range (regs s') p = region_range (regs s) p" using A by (simp add: regs' region_range_def)
  show ?thesis
  proof (cases act)
    case Nil
    then have "active_regionsTail (rt s) = a" using lists by (auto simp: region_lists_def)
    then show ?thesis using run ch mem' lk' old vm' Nil by (auto simp: regs' rt' lock_simps)
  next
    case (Cons b act')
    then have "r_next A = b" using c by simp
    with import_protNone_wf [OF wf [unfolded Cons] A(1) _ rt' al clear [unfolded Cons]] regs'
    have "region_wf E s' (a # f # b # act') rsv (g # fre)" by simp
    with run ch mem' lk' rt' old vm' Cons show ?thesis by (auto simp: regs' lock_simps)
  qed
qed

text \<open>C38: \<^verbatim>\<open>sc_import_protNone\<close> inserts its region as the second of the active list, keeps the
  invariant and releases the root lock, provided the active list has at least two regions; on a list
  of one region the new region becomes the last one but \<^verbatim>\<open>active_regionsTail\<close> still names the old one.\<close>

theorem sc_import_protNone_correct:
  assumes wf: "region_wf E s (a # act) rsv (f # g # fre)"
    and al: "addr mod getpagesize E = 0" "len mod getpagesize E = 0" "addr \<noteq> 0" "0 < len" "fits (addr, len)"
    and clear: "\<forall>p \<in> set ((a # act) @ rsv). apart (addr, len) (region_range (regs s) p)"
    and "proc_count (rt s) = 1" and q: "lock_query_ok E" "0 \<le> heldX (lk s) LRoot"
    and map: "\<And>vm. os_mmap E vm \<lparr>q_addr = addr, q_len = len, q_prot = PROT_NONE,
        q_flags = MAP_PRIVATE OR MAP_FIXED OR MAP_ANONYMOUS, q_fd = - 1, q_off = 0\<rparr> = addr"
  shows "\<exists>s'. sc_import_protNone E addr len s = (Inr 0, s') \<and> region_range (regs s') f = (addr, len) \<and>
     heldX (lk s') LRoot = heldX (lk s) LRoot \<and> mem s' = mem s \<and>
     chain (region_next (regs s')) (active_regions (rt s')) (a # f # act) 0 \<and>
     (if act = [] then active_regionsTail (rt s') = a else region_wf E s' (a # f # act) rsv (g # fre))"
  using sc_import_protNone_works [OF assms] by blast

theorem sc_import_protNone_correct_witness:
  "\<exists>s'. sc_import_protNone demo_env 0x5000 0x1000 demo_st = (Inr 0, s') \<and>
     region_wf demo_env s' [0x1100, 0x11c0, 0x1140] [0x1180] [0x1200, 0x1240]"
proof -
  have clear: "\<forall>p \<in> set ((0x1100 # [0x1140]) @ [0x1180]). apart (0x5000, 0x1000) (region_range (regs demo_st) p)"
    by (simp add: demo_regs_def demo_region_def apart_def)
  show ?thesis
    using sc_import_protNone_correct [OF demo_wf _ _ _ _ _ clear _ demo_env_ok(1)]
    by (auto simp: fits_def mman_defs)
qed

end
