(* ===== verification/SC_Malloc.thy ===== *)
theory SC_Malloc
  imports SC_Regions
begin

text \<open>
  The allocator of a subcontext: \<^verbatim>\<open>sc_malloc\<close> and \<^verbatim>\<open>sc_free\<close> of \<^verbatim>\<open>trunk/subcontexts_core.c\<close>, on the
  bytes of the shared memory.

  A free buffer starts with a \<^verbatim>\<open>sc_malloc_listNode\<close> (\<^verbatim>\<open>len\<close> at offset 0, \<^verbatim>\<open>next\<close> at 8, \<^verbatim>\<open>pages\<close> at
  16); an allocated one starts with a \<^verbatim>\<open>sc_malloc_header\<close> (\<^verbatim>\<open>len\<close> at 0, \<^verbatim>\<open>magic\<close> at 8) and ends with a
  \<^verbatim>\<open>sc_malloc_footer\<close> (one \<^verbatim>\<open>magic\<close>). \<open>heap_wf m fl ns live\<close> says that the free list \<open>fl\<close> visits the
  nodes \<open>ns\<close> and that their buffers and the allocated buffers \<open>live\<close> are aligned, intact and pairwise
  disjoint; \<open>malloc_inv\<close> adds that they all lie in pages obtained from \<^verbatim>\<open>sc_mmap\<close>.
\<close>

section \<open>Definitions\<close>

definition sizeof_listNode :: u64 where "sizeof_listNode = 24"

definition sizeof_header :: u64 where "sizeof_header = 16"

definition sizeof_footer :: u64 where "sizeof_footer = 8"

definition node_len :: "memory \<Rightarrow> u64 \<Rightarrow> u64" where "node_len m a = load64 m a"

definition node_next :: "memory \<Rightarrow> u64 \<Rightarrow> u64" where "node_next m a = load64 m (a + 8)"

definition node_pages :: "memory \<Rightarrow> u64 \<Rightarrow> u64" where "node_pages m a = load64 m (a + 16)"

definition set_len :: "u64 \<Rightarrow> u64 \<Rightarrow> memory \<Rightarrow> memory" where "set_len a v m = store64 m a v"

definition set_next :: "u64 \<Rightarrow> u64 \<Rightarrow> memory \<Rightarrow> memory" where "set_next a v m = store64 m (a + 8) v"

definition set_pages :: "u64 \<Rightarrow> u64 \<Rightarrow> memory \<Rightarrow> memory" where "set_pages a v m = store64 m (a + 16) v"

definition set_mem :: "(memory \<Rightarrow> memory) \<Rightarrow> st \<Rightarrow> st" where
  "set_mem f s = s\<lparr>mem := f (mem s)\<rparr>"

text \<open>\<^verbatim>\<open>pPrev\<close> points either at \<^verbatim>\<open>malloc_md->freeList\<close> or at the \<^verbatim>\<open>next\<close> field of a list node.\<close>

datatype slot = FreeListHead | NextField u64

definition read_slot :: "slot \<Rightarrow> st \<Rightarrow> u64" where
  "read_slot p s = (case p of FreeListHead \<Rightarrow> freeList s | NextField a \<Rightarrow> node_next (mem s) a)"

definition write_slot :: "slot \<Rightarrow> u64 \<Rightarrow> st \<Rightarrow> st" where
  "write_slot p v s =
     (case p of FreeListHead \<Rightarrow> s\<lparr>freeList := v\<rparr> | NextField a \<Rightarrow> set_mem (set_next a v) s)"

definition malloc_alloc_size :: "u64 \<Rightarrow> u64" where
  "malloc_alloc_size sz = (sizeof_header + sz + 7) div 8 * 8 + sizeof_footer"

definition malloc_split_size :: "u64 \<Rightarrow> u64" where
  "malloc_split_size alloc_size = alloc_size + sizeof_listNode"

definition malloc_fits :: "u64 \<Rightarrow> u64 \<Rightarrow> memory \<Rightarrow> u64 \<Rightarrow> bool" where
  "malloc_fits alloc_size split_size m cur \<longleftrightarrow>
     node_len m cur \<ge> split_size \<or> node_len m cur \<ge> alloc_size \<and> node_pages m cur = 0"

partial_function (option) malloc_scan ::
    "u64 \<Rightarrow> u64 \<Rightarrow> memory \<Rightarrow> slot \<Rightarrow> u64 \<Rightarrow> (slot \<times> u64) option" where
  "malloc_scan alloc_size split_size m pPrev cur =
     (if cur = 0 then Some (pPrev, 0)
      else if malloc_fits alloc_size split_size m cur then Some (pPrev, cur)
      else malloc_scan alloc_size split_size m (NextField cur) (node_next m cur))"

definition malloc_mmap_size :: "env \<Rightarrow> u64 \<Rightarrow> u64" where
  "malloc_mmap_size E split_size = (split_size + (getpagesize E - 1)) div getpagesize E * getpagesize E"

text \<open>New pages become the first node of the free list (lines 1300 to 1342).\<close>

definition malloc_grow :: "env \<Rightarrow> u64 \<Rightarrow> st \<Rightarrow> (u64, st) res" where
  "malloc_grow E split_size =
     (let mmap_size = malloc_mmap_size E split_size in
      call (sc_mmap E 0 mmap_size (PROT_READ OR PROT_WRITE) (MAP_PRIVATE OR MAP_ANONYMOUS) (- 1) 0)
        (\<lambda>buf s.
          if buf = MAP_FAILED then (Inr 0, s)
          else
            let s = set_mem (set_len buf mmap_size) s;
                s = set_mem (set_pages buf (mmap_size div getpagesize E)) s;
                s = set_mem (set_next buf (freeList s)) s
            in (Inr buf, s\<lparr>freeList := buf\<rparr>)))"

text \<open>
  Both splits of \<^verbatim>\<open>sc_malloc\<close> (lines 1364 to 1372 and 1396 to 1404) perform the same stores, at
  distance \<open>k\<close> from \<^verbatim>\<open>cur\<close>.
\<close>

definition split_at :: "u64 \<Rightarrow> u64 \<Rightarrow> memory \<Rightarrow> memory" where
  "split_at k cur m =
     (let nxt = cur + k;
          m = set_len nxt (node_len m cur - k) m;
          m = set_len cur k m;
          m = set_next nxt (node_next m cur) m;
          m = set_next cur nxt m
      in set_pages nxt 0 m)"

definition malloc_split_pages :: "u64 \<Rightarrow> slot \<Rightarrow> u64 \<Rightarrow> st \<Rightarrow> (slot \<times> u64, st) res" where
  "malloc_split_pages split_size pPrev cur s =
     (if node_pages (mem s) cur \<noteq> 0 then
        guard [(1362, node_len (mem s) cur \<ge> split_size)] (\<lambda>s.
          (Inr (NextField cur, cur + sizeof_listNode), set_mem (split_at sizeof_listNode cur) s)) s
      else (Inr (pPrev, cur), s))"

definition malloc_split_tail :: "u64 \<Rightarrow> u64 \<Rightarrow> u64 \<Rightarrow> st \<Rightarrow> st" where
  "malloc_split_tail alloc_size split_size cur s =
     (if node_len (mem s) cur \<ge> split_size then set_mem (split_at alloc_size cur) s else s)"

text \<open>The buffer leaves the free list and gets its header and footer (lines 1421 to 1436).\<close>

definition malloc_take :: "slot \<Rightarrow> u64 \<Rightarrow> st \<Rightarrow> (u64, st) res" where
  "malloc_take pPrev cur s =
     (let alloc_size = node_len (mem s) cur in
      guard [(1422, alloc_size mod 8 = 0)] (\<lambda>s.
        let s = write_slot pPrev (node_next (mem s) cur) s;
            foot = cur + alloc_size - sizeof_footer;
            s = set_mem (\<lambda>m. store64 m cur alloc_size) s;
            s = set_mem (\<lambda>m. store64 m (cur + 8) SUBCONTEXTS_MALLOC_HEAD_MAGIC) s;
            s = set_mem (\<lambda>m. store64 m foot SUBCONTEXTS_MALLOC_FOOT_MAGIC) s
        in (Inr (cur + sizeof_header), unlock_exclusive LMalloc s)) s)"

definition malloc_carve :: "u64 \<Rightarrow> u64 \<Rightarrow> slot \<Rightarrow> u64 \<Rightarrow> st \<Rightarrow> (u64, st) res" where
  "malloc_carve alloc_size split_size pPrev cur s =
     guard [(1350, read_slot pPrev s = cur), (1351, node_len (mem s) cur \<ge> alloc_size)]
       (call (malloc_split_pages split_size pPrev cur) (\<lambda>(pPrev, cur) s.
          guard [(1383, read_slot pPrev s = cur), (1384, node_pages (mem s) cur = 0),
                 (1385, node_len (mem s) cur \<ge> alloc_size)] (\<lambda>s.
            let s = malloc_split_tail alloc_size split_size cur s in
            guard [(1406, read_slot pPrev s = cur), (1407, node_pages (mem s) cur = 0),
                   (1408, node_len (mem s) cur \<ge> alloc_size), (1409, node_len (mem s) cur < split_size)]
              (malloc_take pPrev cur) s) s)) s"

definition sc_malloc :: "env \<Rightarrow> u64 \<Rightarrow> st \<Rightarrow> (u64, st) res" where
  "sc_malloc E sz =
     guard [(1232, 0 \<le> sint sz)] (\<lambda>s.
       let s = lock_exclusive LMalloc s;
           alloc_size = malloc_alloc_size sz
       in guard [(1262, alloc_size mod 8 = 0)] (\<lambda>s.
            let split_size = malloc_split_size alloc_size in
            loops (malloc_scan alloc_size split_size (mem s) FreeListHead (freeList s)) (\<lambda>(pPrev, cur) s.
              if cur = 0 then
                call (malloc_grow E split_size) (\<lambda>buf s.
                  if buf = 0 then (Inr 0, unlock_exclusive LMalloc s)
                  else malloc_carve alloc_size split_size FreeListHead buf s) s
              else malloc_carve alloc_size split_size pPrev cur s) s) s)"

definition sc_free :: "u64 \<Rightarrow> st \<Rightarrow> (unit, st) res" where
  "sc_free buf =
     guard [(1441, buf mod 8 = 0)] (\<lambda>s.
       let head_p = buf - sizeof_header;
           foot = head_p + load64 (mem s) head_p - sizeof_footer
       in if load64 (mem s) (head_p + 8) \<noteq> SUBCONTEXTS_MALLOC_HEAD_MAGIC \<or>
             load64 (mem s) foot \<noteq> SUBCONTEXTS_MALLOC_FOOT_MAGIC
          then (Inl (Exit 3), s)
          else
            let len = load64 (mem s) head_p;
                s = set_mem (set_len head_p len) s;
                s = set_mem (set_pages head_p 0) s;
                s = lock_exclusive LMalloc s;
                s = set_mem (set_next head_p (freeList s)) s;
                s = s\<lparr>freeList := head_p\<rparr>
            in (Inr (), unlock_exclusive LMalloc s))"

subsection \<open>Invariant\<close>

definition blk :: "memory \<Rightarrow> u64 \<Rightarrow> block" where
  "blk m a = (a, node_len m a)"

definition block_ok :: "block \<Rightarrow> bool" where
  "block_ok b \<longleftrightarrow> fst b \<noteq> 0 \<and> 8 dvd unat (fst b) \<and> 8 dvd unat (snd b) \<and> 24 \<le> unat (snd b) \<and> fits b"

text \<open>Header and footer of an allocated buffer are as \<^verbatim>\<open>sc_malloc\<close> wrote them.\<close>

definition intact :: "memory \<Rightarrow> block \<Rightarrow> bool" where
  "intact m b \<longleftrightarrow> load64 m (fst b) = snd b \<and> load64 m (fst b + 8) = SUBCONTEXTS_MALLOC_HEAD_MAGIC \<and>
     load64 m (fst b + snd b - sizeof_footer) = SUBCONTEXTS_MALLOC_FOOT_MAGIC"

definition heap_wf :: "memory \<Rightarrow> u64 \<Rightarrow> u64 list \<Rightarrow> block multiset \<Rightarrow> bool" where
  "heap_wf m fl ns live \<longleftrightarrow> chain (node_next m) fl ns 0 \<and> (\<forall>a \<in> set ns. block_ok (blk m a)) \<and>
     (\<forall>b \<in># live. block_ok b \<and> intact m b) \<and> apart_all (mset (map (blk m) ns) + live)"

definition malloc_inv :: "env \<Rightarrow> st \<Rightarrow> u64 list \<Rightarrow> block multiset \<Rightarrow> block multiset \<Rightarrow> bool" where
  "malloc_inv E s ns live R \<longleftrightarrow> active_inv E s R \<and> heap_wf (mem s) (freeList s) ns live \<and>
     (\<forall>b \<in># mset (map (blk (mem s)) ns) + live. \<exists>r \<in># R. inside b r)"

text \<open>\<open>m'\<close> differs from \<open>m\<close> at most inside \<open>b\<close>.\<close>

definition same_outside :: "block \<Rightarrow> memory \<Rightarrow> memory \<Rightarrow> bool" where
  "same_outside b m m' \<longleftrightarrow> (\<forall>x. \<not> in_block x b \<longrightarrow> m' x = m x)"

text \<open>The stores of the allocator to one list node, all inside its 24 bytes.\<close>

definition node_at :: "u64 \<Rightarrow> bool" where
  "node_at a \<longleftrightarrow> unat a + 24 < 2 ^ 64"

definition slot_of :: "u64 list \<Rightarrow> slot" where
  "slot_of xs = (if xs = [] then FreeListHead else NextField (last xs))"

definition covered :: "block multiset \<Rightarrow> block multiset \<Rightarrow> bool" where
  "covered N M \<longleftrightarrow> (\<forall>b \<in># N. \<exists>c \<in># M. inside b c)"

definition untouched :: "block multiset \<Rightarrow> memory \<Rightarrow> memory \<Rightarrow> bool" where
  "untouched M m m' \<longleftrightarrow> (\<forall>x. (\<forall>b \<in># M. \<not> in_block x b) \<longrightarrow> m' x = m x)"

definition free_blocks :: "st \<Rightarrow> u64 list \<Rightarrow> block multiset" where
  "free_blocks s ns = mset (map (blk (mem s)) ns)"

abbreviation malloc_pages :: "env \<Rightarrow> u64 \<Rightarrow> st \<Rightarrow> (u64, st) res" where
  "malloc_pages E n \<equiv> sc_mmap E 0 n (PROT_READ OR PROT_WRITE) (MAP_PRIVATE OR MAP_ANONYMOUS) (- 1) 0"

text \<open>Outcome of \<^verbatim>\<open>sc_malloc\<close>: the three ways it can end.\<close>

definition malloc_new :: "env \<Rightarrow> u64 \<Rightarrow> st \<Rightarrow> block multiset \<Rightarrow> block multiset \<Rightarrow> u64 \<Rightarrow> st \<Rightarrow> bool" where
  "malloc_new E sz s live R p s' \<longleftrightarrow> (\<exists>ns' b R'. p = fst b + 16 \<and> p \<noteq> 0 \<and>
     malloc_inv E s' ns' (add_mset b live) R' \<and> R \<subseteq># R' \<and>
     unat sz + 24 \<le> unat (snd b) \<and> unat (snd b) < unat (malloc_alloc_size sz) + 24 \<and>
     (\<forall>c \<in># live. \<forall>x. in_block x c \<longrightarrow> mem s' x = mem s x) \<and>
     heldX (lk s') LMalloc = heldX (lk s) LMalloc)"

text \<open>\<open>m'\<close> has the bytes of \<open>m\<close> in every block of \<open>L\<close>.\<close>

definition same_in :: "block multiset \<Rightarrow> memory \<Rightarrow> memory \<Rightarrow> bool" where
  "same_in L m m' \<longleftrightarrow> (\<forall>b \<in># L. \<forall>x. in_block x b \<longrightarrow> m' x = m x)"

definition payload :: "block \<Rightarrow> block" where
  "payload b = (fst b + 16, snd b - 24)"

definition usable :: "st \<Rightarrow> u64 \<Rightarrow> u64" where
  "usable s p = load64 (mem s) (p - 16) - 24"

definition alloc_inv :: "env \<Rightarrow> st \<Rightarrow> block multiset \<Rightarrow> bool" where
  "alloc_inv E s L \<longleftrightarrow> (\<exists>ns live R. malloc_inv E s ns live R \<and> L = image_mset payload live)"

inductive heap_run :: "(u64 \<Rightarrow> 's \<Rightarrow> (u64, 's) res) \<Rightarrow> (u64 \<Rightarrow> 's \<Rightarrow> (unit, 's) res) \<Rightarrow> ('s \<Rightarrow> u64 \<Rightarrow> u64) \<Rightarrow>
    ('s \<Rightarrow> memory) \<Rightarrow> (memory \<Rightarrow> 's \<Rightarrow> 's) \<Rightarrow> 's \<Rightarrow> block multiset \<Rightarrow> 's \<Rightarrow> block multiset \<Rightarrow> bool"
  for alloc release us bytes put s L where
  start: "heap_run alloc release us bytes put s L s L"
| alloc: "heap_run alloc release us bytes put s L t M \<Longrightarrow> alloc n t = (Inr p, u) \<Longrightarrow> p \<noteq> 0 \<Longrightarrow>
    heap_run alloc release us bytes put s L u (add_mset (p, us u p) M)"
| alloc_null: "heap_run alloc release us bytes put s L t M \<Longrightarrow> alloc n t = (Inr 0, u) \<Longrightarrow>
    heap_run alloc release us bytes put s L u M"
| release: "heap_run alloc release us bytes put s L t (add_mset b M) \<Longrightarrow> release (fst b) t = (Inr (), u) \<Longrightarrow>
    heap_run alloc release us bytes put s L u M"
| overwrite: "heap_run alloc release us bytes put s L t M \<Longrightarrow> b \<in># M \<Longrightarrow> same_outside b (bytes t) m \<Longrightarrow>
    heap_run alloc release us bytes put s L (put m t) M"

text \<open>The reserved region has room for what \<^verbatim>\<open>sc_malloc\<close> asks for when no free buffer fits.\<close>

definition malloc_room :: "env \<Rightarrow> st \<Rightarrow> u64 \<Rightarrow> bool" where
  "malloc_room E s n \<longleftrightarrow> lock_query_ok E \<and> 0 \<le> heldX (lk s) LRoot \<and> cleanupLog (rt s) = 0 \<and>
     (\<exists>l. find (\<lambda>l. l_sc l = root_addr s) (locals s) = Some l \<and>
          os_ftruncate E (l_shm_file l) (tmpfile_size (rt s) + n)) \<and>
     (\<exists>act q rsv f g fre. region_core E s act (q # rsv) (f # g # fre) \<and> n < r_len (the (regs s q)))"

section \<open>Memory of the heap\<close>

lemmas sizeofs [simp] = sizeof_listNode_def sizeof_header_def sizeof_footer_def

lemma unat_off: "unat (a :: u64) + unat k < 2 ^ 64 \<Longrightarrow> unat (a + k) = unat a + unat k"
  by (simp add: unat_word_ariths)

lemma same_in_refl [simp]: "same_in L m m"
  by (simp add: same_in_def)

lemma same_in_mono: "same_in M m m' \<Longrightarrow> L \<subseteq># M \<Longrightarrow> same_in L m m'"
  by (auto simp: same_in_def dest: mset_subset_eqD)

lemma same_in_trans: "same_in L m m' \<Longrightarrow> same_in L m' m'' \<Longrightarrow> same_in L m m''"
  by (simp add: same_in_def)

lemma same_outside_refl [simp]: "same_outside b m m"
  by (simp add: same_outside_def)

lemma same_outside_trans: "same_outside b m m' \<Longrightarrow> same_outside b m' m'' \<Longrightarrow> same_outside b m m''"
  by (simp add: same_outside_def)

lemma same_outside_inside: "same_outside c m m' \<Longrightarrow> inside c b \<Longrightarrow> same_outside b m m'"
  by (auto simp: same_outside_def in_block_def inside_def)

lemma same_outside_store:
  "unat a + 8 < 2 ^ 64 \<Longrightarrow> inside (a, 8) b \<Longrightarrow> same_outside b m (store64 m a v)"
  unfolding same_outside_def
  by (auto simp: in_block_def inside_def intro!: store64_outside)

lemma load64_frame:
  assumes "same_outside b m m'" and "apart (a, 8) b" and "unat a + 8 \<le> 2 ^ 64"
  shows "load64 m' a = load64 m a"
proof (rule load64_cong)
  fix i :: nat assume "i < 8"
  then have "unat (a + of_nat i) = unat a + i" using assms(3) by (simp add: unat_add_fits)
  with assms \<open>i < 8\<close> show "m' (a + of_nat i) = m (a + of_nat i)"
    by (auto simp: same_outside_def in_block_def apart_def)
qed

lemma block_ok_field:
  assumes "block_ok b" and "unat k + 8 \<le> unat (snd b)"
  shows "unat (fst b + k) = unat (fst b) + unat k" "inside (fst b + k, 8) b" "unat (fst b + k) + 8 < 2 ^ 64"
  using assms by (auto simp: block_ok_def fits_def inside_def unat_off)

lemma block_ok_fields:
  assumes "block_ok b"
  shows "unat (fst b + 8) = unat (fst b) + 8" "unat (fst b + 16) = unat (fst b) + 16"
    "unat (fst b) + 24 \<le> unat (fst b) + unat (snd b)" "unat (fst b) + unat (snd b) < 2 ^ 64"
  using assms block_ok_field [of b 8] block_ok_field [of b 16] by (auto simp: block_ok_def fits_def)

lemma footer_addr:
  assumes "block_ok b"
  shows "unat (fst b + snd b - 8) = unat (fst b) + unat (snd b) - 8"
proof -
  have "unat (fst b + snd b) = unat (fst b) + unat (snd b)"
    using assms by (intro unat_off) (simp add: block_ok_def fits_def)
  then show ?thesis using assms by (subst unat_sub) (auto simp: word_le_nat_alt block_ok_def)
qed

lemma node_frame:
  assumes "block_ok (blk m a)" and "same_outside c m m'" and "apart (blk m a) c"
  shows "node_len m' a = node_len m a" "node_next m' a = node_next m a" "node_pages m' a = node_pages m a"
    "blk m' a = blk m a"
proof -
  note f = block_ok_fields [OF assms(1), unfolded blk_def fst_conv snd_conv]
  have ap: "apart (x, 8) c" if "unat a \<le> unat x" "unat x \<le> unat a + 16" for x
    using that f assms(3) by (auto simp: apart_def blk_def)
  show 1: "node_len m' a = node_len m a" unfolding node_len_def
    by (rule load64_frame [OF assms(2) ap]) (use f in auto)
  show "node_next m' a = node_next m a" unfolding node_next_def
    by (rule load64_frame [OF assms(2) ap]) (use f in auto)
  show "node_pages m' a = node_pages m a" unfolding node_pages_def
    by (rule load64_frame [OF assms(2) ap]) (use f in auto)
  show "blk m' a = blk m a" by (simp add: blk_def 1)
qed

lemma intact_frame:
  assumes "block_ok b" and "same_outside c m m'" and "apart b c"
  shows "intact m' b = intact m b"
proof -
  note f = block_ok_fields [OF assms(1)] footer_addr [OF assms(1)]
  have ap: "apart (x, 8) c" if "unat (fst b) \<le> unat x" "unat x + 8 \<le> unat (fst b) + unat (snd b)" for x
    using that assms(3) by (auto simp: apart_def)
  have "load64 m' (fst b) = load64 m (fst b)" "load64 m' (fst b + 8) = load64 m (fst b + 8)"
    "load64 m' (fst b + snd b - 8) = load64 m (fst b + snd b - 8)"
    by (rule load64_frame [OF assms(2) ap]; use f in simp)+
  then show ?thesis by (simp add: intact_def)
qed

lemma node_addr:
  "node_at a \<Longrightarrow> unat (a + 8) = unat a + 8" "node_at a \<Longrightarrow> unat (a + 16) = unat a + 16"
  by (simp_all add: node_at_def unat_off)

lemma node_at_block: "block_ok b \<Longrightarrow> node_at (fst b)"
  using block_ok_fields [of b] by (simp add: node_at_def)

lemma node_fields [simp]:
  assumes "node_at a"
  shows "node_len (set_len a v m) a = v" "node_next (set_len a v m) a = node_next m a"
    "node_pages (set_len a v m) a = node_pages m a"
    "node_len (set_next a v m) a = node_len m a" "node_next (set_next a v m) a = v"
    "node_pages (set_next a v m) a = node_pages m a"
    "node_len (set_pages a v m) a = node_len m a" "node_next (set_pages a v m) a = node_next m a"
    "node_pages (set_pages a v m) a = v"
  using assms node_addr [OF assms]
  by (simp_all add: node_len_def node_next_def node_pages_def set_len_def set_next_def set_pages_def
      mem_simps node_at_def)

lemma node_fields_other:
  assumes "node_at a" "node_at b" "apart (a, 24) (b, 24)"
  shows "node_len (set_len a v m) b = node_len m b" "node_next (set_len a v m) b = node_next m b"
    "node_pages (set_len a v m) b = node_pages m b"
    "node_len (set_next a v m) b = node_len m b" "node_next (set_next a v m) b = node_next m b"
    "node_pages (set_next a v m) b = node_pages m b"
    "node_len (set_pages a v m) b = node_len m b" "node_next (set_pages a v m) b = node_next m b"
    "node_pages (set_pages a v m) b = node_pages m b"
  using assms node_addr [OF assms(1)] node_addr [OF assms(2)]
  by (auto simp: node_len_def node_next_def node_pages_def set_len_def set_next_def set_pages_def
      node_at_def apart_def intro!: load64_store64_other)

lemma set_outside:
  assumes "node_at a" "inside (a, 24) b"
  shows "same_outside b m (set_len a v m)" "same_outside b m (set_next a v m)" "same_outside b m (set_pages a v m)"
  using assms node_addr [OF assms(1)]
  by (auto simp: set_len_def set_next_def set_pages_def node_at_def inside_def intro!: same_outside_store)

interpretation free_list: linked_store node_next "\<lambda>m a v. set_next a v m" "\<lambda>m a. node_at a"
    "\<lambda>a b. node_at a \<and> node_at b \<and> apart (a, 24) (b, 24)"
  by unfold_locales (auto simp: node_fields_other)

section \<open>Heap transformations\<close>

lemma heap_wf_blocks:
  assumes "heap_wf m fl (xs @ a # ys) live"
  shows "block_ok (blk m a)" "a \<noteq> 0"
    "\<And>x. x \<in> set (xs @ ys) \<Longrightarrow> block_ok (blk m x) \<and> apart (blk m x) (blk m a)"
    "\<And>b. b \<in># live \<Longrightarrow> block_ok b \<and> apart b (blk m a)"
proof -
  from assms have ok: "\<forall>x \<in> set (xs @ a # ys). block_ok (blk m x)" and lv: "\<forall>b \<in># live. block_ok b"
    and ap: "apart_all (add_mset (blk m a) (mset (map (blk m) (xs @ ys)) + live))"
    by (auto simp: heap_wf_def)
  from ok show "block_ok (blk m a)" "a \<noteq> 0" by (auto simp: block_ok_def blk_def)
  from ap [unfolded apart_all_add]
  have ap: "\<forall>y \<in># mset (map (blk m) (xs @ ys)) + live. apart (blk m a) y" ..
  show "block_ok (blk m x) \<and> apart (blk m x) (blk m a)" if "x \<in> set (xs @ ys)" for x
    using that ok ap by (auto simp: apart_sym [of _ "blk m a"])
  show "block_ok b \<and> apart b (blk m a)" if "b \<in># live" for b
    using that lv ap by (auto simp: apart_sym [of _ "blk m a"])
qed

text \<open>A change confined to the buffer of one free node: the other nodes and the allocated buffers
  are as before.\<close>

lemma heap_frame:
  assumes wf: "heap_wf m fl (xs @ a # ys) live" and same: "same_outside (blk m a) m m'"
  shows "\<And>x. x \<in> set (xs @ ys) \<Longrightarrow> blk m' x = blk m x"
    "\<And>x. x \<in> set (xs @ ys) \<Longrightarrow> node_next m' x = node_next m x"
    "\<And>x. x \<in> set (xs @ ys) \<Longrightarrow> node_pages m' x = node_pages m x"
    "\<And>b. b \<in># live \<Longrightarrow> intact m' b = intact m b"
  using heap_wf_blocks [OF wf] node_frame [OF _ same] intact_frame [OF _ same] by blast+

lemma chain_frame:
  assumes "chain (node_next m) p xs q" and "\<And>x. x \<in> set xs \<Longrightarrow> node_next m' x = node_next m x"
  shows "chain (node_next m') p xs q"
  using assms chain_cong [of xs "node_next m'" "node_next m"] by blast

lemma split_at_fields:
  assumes ok: "block_ok (a, n)" and n: "node_len m a = n" and k: "24 \<le> unat k" "unat k + 24 \<le> unat n"
  shows "node_len (split_at k a m) a = k" "node_next (split_at k a m) a = a + k"
    "node_pages (split_at k a m) a = node_pages m a"
    "node_len (split_at k a m) (a + k) = n - k" "node_next (split_at k a m) (a + k) = node_next m a"
    "node_pages (split_at k a m) (a + k) = 0" "same_outside (a, n) m (split_at k a m)"
proof -
  have ak: "unat (a + k) = unat a + unat k" using ok k by (auto simp: block_ok_def fits_def unat_off)
  have at: "node_at a" "node_at (a + k)" using ok k ak by (auto simp: node_at_def block_ok_def fits_def)
  have ap: "apart (a, 24) (a + k, 24)" "apart (a + k, 24) (a, 24)" using k ak by (auto simp: apart_def)
  have ins: "inside (a, 24) (a, n)" "inside (a + k, 24) (a, n)" using ok k ak by (auto simp: inside_def block_ok_def)
  note other = node_fields_other [OF at(1) at(2) ap(1)] node_fields_other [OF at(2) at(1) ap(2)]
  show "node_len (split_at k a m) a = k" "node_next (split_at k a m) a = a + k"
    "node_pages (split_at k a m) a = node_pages m a"
    "node_len (split_at k a m) (a + k) = n - k" "node_next (split_at k a m) (a + k) = node_next m a"
    "node_pages (split_at k a m) (a + k) = 0"
    by (simp_all add: split_at_def Let_def other at n)
  note out = set_outside [OF at(1) ins(1)] set_outside [OF at(2) ins(2)]
  show "same_outside (a, n) m (split_at k a m)"
    unfolding split_at_def Let_def
    by (intro same_outside_trans [OF out(4) same_outside_trans [OF out(1) same_outside_trans [OF out(5)
       same_outside_trans [OF out(2) out(6)]]]])
qed

lemma split_block_ok:
  assumes "block_ok (a, n)" and "24 \<le> unat k" "unat k + 24 \<le> unat n" "8 dvd unat k"
  shows "block_ok (a, k)" "block_ok (a + k, n - k)" "apart (a, k) (a + k, n - k)"
    "inside (a, k) (a, n)" "inside (a + k, n - k) (a, n)"
proof -
  have 1: "unat (a + k) = unat a + unat k" using assms by (auto simp: block_ok_def fits_def unat_off)
  have 2: "unat (n - k) = unat n - unat k" using assms by (simp add: unat_sub word_le_nat_alt)
  have "a + k \<noteq> 0" using 1 assms by (metis add_is_0 not_numeral_le_zero unat_0)
  with 1 2 assms show "block_ok (a, k)" "block_ok (a + k, n - k)" "apart (a, k) (a + k, n - k)"
    "inside (a, k) (a, n)" "inside (a + k, n - k) (a, n)"
    by (auto simp: block_ok_def fits_def apart_def inside_def)
qed

lemma heap_split:
  assumes wf: "heap_wf m fl (xs @ a # ys) live" and k: "24 \<le> unat k" "unat k + 24 \<le> unat (node_len m a)" "8 dvd unat k"
  shows "heap_wf (split_at k a m) fl (xs @ a # (a + k) # ys) live"
proof -
  let ?m = "split_at k a m" and ?n = "node_len m a"
  note B = heap_wf_blocks [OF wf]
  have ok: "block_ok (a, ?n)" using B(1) by (simp add: blk_def)
  note F = split_at_fields [OF ok refl k(1,2)] and S = split_block_ok [OF ok k]
  have same: "same_outside (blk m a) m ?m" using F(7) by (simp add: blk_def)
  note fr = heap_frame [OF wf same]
  have blks: "map (blk ?m) (xs @ ys) = map (blk m) (xs @ ys)" using fr(1) by (intro map_cong) auto
  have new: "blk ?m a = (a, k)" "blk ?m (a + k) = (a + k, ?n - k)" by (simp_all add: blk_def F)
  from wf have c: "chain (node_next m) fl xs a" "chain (node_next m) (node_next m a) ys 0"
    by (auto simp: heap_wf_def chain_append)
  have "chain (node_next ?m) fl xs a" "chain (node_next ?m) (node_next m a) ys 0"
    using fr(2) by (auto intro: chain_frame [OF c(1)] chain_frame [OF c(2)])
  then have ch: "chain (node_next ?m) fl (xs @ a # (a + k) # ys) 0"
    using F B(2) S(2) by (auto simp: chain_append block_ok_def)
  have "apart_all (add_mset (a, ?n) (mset (map (blk m) (xs @ ys)) + live))"
    using wf by (simp add: heap_wf_def blk_def)
  from apart_all_split [OF this S(4,5,3)]
  have "apart_all (mset (map (blk ?m) (xs @ a # (a + k) # ys)) + live)"
    unfolding blks [symmetric] by (simp add: new)
  moreover have "\<forall>x \<in> set (xs @ a # (a + k) # ys). block_ok (blk ?m x)"
    using S B(3) fr(1) new by auto
  moreover have "\<forall>b \<in># live. block_ok b \<and> intact ?m b" using wf fr(4) by (auto simp: heap_wf_def)
  ultimately show ?thesis using ch by (simp add: heap_wf_def)
qed

text \<open>A buffer that is disjoint from everything becomes the first free node.\<close>

lemma heap_push:
  assumes wf: "heap_wf m fl ns live" and ok: "block_ok b"
    and ap: "\<And>x. x \<in> set ns \<Longrightarrow> apart (blk m x) b" "\<And>c. c \<in># live \<Longrightarrow> apart c b"
    and same: "same_outside b m m'"
    and new: "node_len m' (fst b) = snd b" "node_next m' (fst b) = fl"
  shows "heap_wf m' (fst b) (fst b # ns) live"
proof -
  have okn: "\<And>x. x \<in> set ns \<Longrightarrow> block_ok (blk m x)" and okl: "\<And>c. c \<in># live \<Longrightarrow> block_ok c \<and> intact m c"
    using wf by (auto simp: heap_wf_def)
  have blks: "blk m' x = blk m x" "node_next m' x = node_next m x" if "x \<in> set ns" for x
    using node_frame [OF okn [OF that] same ap(1) [OF that]] by auto
  have b: "blk m' (fst b) = b" by (simp add: blk_def new)
  have "chain (node_next m') fl ns 0"
    using wf blks by (auto simp: heap_wf_def intro: chain_frame)
  moreover have "image_mset (blk m') (mset ns) = image_mset (blk m) (mset ns)"
    using blks by (intro image_mset_cong) auto
  then have "apart_all (mset (map (blk m') (fst b # ns)) + live)"
    using wf ap by (auto simp: heap_wf_def b apart_sym [of b])
  moreover have "\<forall>c \<in># live. block_ok c \<and> intact m' c"
    using okl ap intact_frame [OF _ same] by blast
  ultimately show ?thesis
    using ok new okn blks by (auto simp: heap_wf_def b block_ok_def)
qed

text \<open>The node at \<open>a\<close> leaves the list; its buffer becomes an allocated one.\<close>

lemma heap_take:
  assumes wf: "heap_wf m fl (xs @ a # ys) live"
    and ch: "chain (node_next m') fl' (xs @ ys) 0"
    and eq: "\<And>x. x \<in> set (xs @ ys) \<Longrightarrow> blk m' x = blk m x"
    and lv: "\<And>b. b \<in># live \<Longrightarrow> intact m' b" and new: "intact m' (blk m a)"
  shows "heap_wf m' fl' (xs @ ys) (add_mset (blk m a) live)"
proof -
  have "image_mset (blk m') (mset (xs @ ys)) = image_mset (blk m) (mset (xs @ ys))"
    using eq by (intro image_mset_cong) auto
  then have "mset (map (blk m') (xs @ ys)) + add_mset (blk m a) live = mset (map (blk m) (xs @ a # ys)) + live"
    by simp
  with wf have "apart_all (mset (map (blk m') (xs @ ys)) + add_mset (blk m a) live)"
    by (simp only: heap_wf_def)
  with heap_wf_blocks [OF wf] assms show ?thesis by (auto simp: heap_wf_def)
qed

section \<open>The search of the free list\<close>

lemma covered_refl [simp]: "covered M M"
  by (auto simp: covered_def intro: inside_refl)

lemma covered_trans: "covered N M \<Longrightarrow> covered M L \<Longrightarrow> covered N L"
  unfolding covered_def by (meson inside_trans)

lemma covered_sub: "N \<subseteq># M \<Longrightarrow> covered N M"
  unfolding covered_def by (meson inside_refl mset_subset_eqD)

lemma in_block_inside: "in_block x b \<Longrightarrow> inside b c \<Longrightarrow> in_block x c"
  by (auto simp: in_block_def inside_def)

lemma untouched_refl [simp]: "untouched M m m"
  by (simp add: untouched_def)

lemma untouched_trans:
  "untouched M m m' \<Longrightarrow> untouched N m' m'' \<Longrightarrow> covered N M \<Longrightarrow> untouched M m m''"
  unfolding untouched_def covered_def using in_block_inside by fastforce

lemma untouched_block: "b \<in># M \<Longrightarrow> same_outside b m m' \<Longrightarrow> untouched M m m'"
  by (auto simp: untouched_def same_outside_def)

lemma malloc_scan_none:
  assumes "chain (node_next m) p ns 0" and "\<forall>a \<in> set ns. \<not> malloc_fits al sp m a"
  shows "\<exists>sl'. malloc_scan al sp m sl p = Some (sl', 0)"
  using assms
proof (induction ns arbitrary: p sl)
  case Nil
  then show ?case by (subst malloc_scan.simps) simp
next
  case (Cons a ns)
  then show ?case by (subst malloc_scan.simps) simp
qed

lemma malloc_scan_found:
  assumes "chain (node_next m) p (xs @ a # ys) 0" and "\<forall>x \<in> set xs. \<not> malloc_fits al sp m x"
    and "malloc_fits al sp m a"
  shows "malloc_scan al sp m sl p = Some (if xs = [] then sl else slot_of xs, a)"
  using assms
proof (induction xs arbitrary: p sl)
  case Nil
  then show ?case by (subst malloc_scan.simps) simp
next
  case (Cons x xs)
  then show ?case by (subst malloc_scan.simps) (auto simp: slot_of_def)
qed

lemma read_slot_chain:
  assumes "chain (node_next (mem s)) (freeList s) (xs @ a # ys) 0"
  shows "read_slot (slot_of xs) s = a"
proof (cases xs rule: rev_cases)
  case Nil
  with assms show ?thesis by (simp add: slot_of_def read_slot_def)
next
  case (snoc ys z)
  with assms show ?thesis by (auto simp: slot_of_def read_slot_def chain_append)
qed

section \<open>Carving an allocation out of a free buffer\<close>

lemma set_mem_simps [simp]:
  "mem (set_mem f s) = f (mem s)" "freeList (set_mem f s) = freeList s" "lk (set_mem f s) = lk s"
  by (simp_all add: set_mem_def)

lemma heap_split_state:
  assumes wf: "heap_wf (mem s) (freeList s) (xs @ a # ys) live"
    and k: "24 \<le> unat k" "unat k + 24 \<le> unat (node_len (mem s) a)" "8 dvd unat k"
  shows "heap_wf (mem (set_mem (split_at k a) s)) (freeList s) (xs @ a # (a + k) # ys) live"
    "node_len (split_at k a (mem s)) a = k" "node_pages (split_at k a (mem s)) a = node_pages (mem s) a"
    "node_len (split_at k a (mem s)) (a + k) = node_len (mem s) a - k" "node_pages (split_at k a (mem s)) (a + k) = 0"
    "inside (blk (split_at k a (mem s)) a) (blk (mem s) a)" "inside (blk (split_at k a (mem s)) (a + k)) (blk (mem s) a)"
    "covered (free_blocks (set_mem (split_at k a) s) (xs @ a # (a + k) # ys)) (free_blocks s (xs @ a # ys))"
    "untouched (free_blocks s (xs @ a # ys)) (mem s) (split_at k a (mem s))"
proof -
  let ?m = "split_at k a (mem s)"
  have ok: "block_ok (a, node_len (mem s) a)" using heap_wf_blocks(1) [OF wf] by (simp add: blk_def)
  note F = split_at_fields [OF ok refl k(1,2)] and S = split_block_ok [OF ok k]
  show "heap_wf (mem (set_mem (split_at k a) s)) (freeList s) (xs @ a # (a + k) # ys) live"
    using heap_split [OF wf k] by simp
  show "node_len ?m a = k" "node_pages ?m a = node_pages (mem s) a"
    "node_len ?m (a + k) = node_len (mem s) a - k" "node_pages ?m (a + k) = 0" by (simp_all add: F)
  show ins: "inside (blk ?m a) (blk (mem s) a)" "inside (blk ?m (a + k)) (blk (mem s) a)"
    using S by (simp_all add: blk_def F)
  have same: "same_outside (blk (mem s) a) (mem s) ?m" using F(7) by (simp add: blk_def)
  show "untouched (free_blocks s (xs @ a # ys)) (mem s) ?m"
    by (rule untouched_block [OF _ same]) (simp add: free_blocks_def)
  show "covered (free_blocks (set_mem (split_at k a) s) (xs @ a # (a + k) # ys)) (free_blocks s (xs @ a # ys))"
  proof -
    have *: "\<exists>y \<in> set (xs @ a # ys). inside (blk ?m x) (blk (mem s) y)" if "x \<in> set (xs @ a # (a + k) # ys)" for x
    proof (cases "x \<in> set (xs @ ys)")
      case True
      with heap_frame(1) [OF wf same True] show ?thesis by (intro bexI [of _ x]) auto
    next
      case False
      with that have "x = a \<or> x = a + k" by auto
      with ins show ?thesis by (intro bexI [of _ a]) auto
    qed
    show ?thesis unfolding covered_def
    proof
      fix b assume "b \<in># free_blocks (set_mem (split_at k a) s) (xs @ a # (a + k) # ys)"
      then obtain x where "x \<in> set (xs @ a # (a + k) # ys)" "b = blk ?m x" by (auto simp: free_blocks_def)
      with * [of x] show "\<exists>c \<in># free_blocks s (xs @ a # ys). inside b c" by (auto simp: free_blocks_def)
    qed
  qed
qed

lemma header_footer:
  fixes m :: memory
  assumes "block_ok (a, n)"
  defines "m' \<equiv> store64 (store64 (store64 m a n) (a + 8) SUBCONTEXTS_MALLOC_HEAD_MAGIC)
      (a + n - 8) SUBCONTEXTS_MALLOC_FOOT_MAGIC"
  shows "intact m' (a, n)" "same_outside (a, n) m m'"
proof -
  note f = block_ok_fields [OF assms(1), unfolded fst_conv snd_conv] footer_addr [OF assms(1), unfolded fst_conv snd_conv]
  show "intact m' (a, n)"
    using f unfolding intact_def m'_def fst_conv snd_conv sizeofs
    by (intro conjI) (simp_all add: load64_store64 load64_store64_other)
  have st: "same_outside (a, n) m1 (store64 m1 x v)" if "x = a \<or> x = a + 8 \<or> x = a + n - 8" for m1 x v
    by (rule same_outside_store) (use that f in \<open>auto simp: inside_def\<close>)
  show "same_outside (a, n) m m'"
    unfolding m'_def by (rule same_outside_trans [OF st same_outside_trans [OF st st]]) auto
qed

lemma unlink_slot:
  fixes s :: st
  assumes wf: "heap_wf (mem s) (freeList s) (xs @ a # ys) live"
  defines "s' \<equiv> write_slot (slot_of xs) (node_next (mem s) a) s"
  shows "chain (node_next (mem s')) (freeList s') (xs @ ys) 0"
    "\<And>x. x \<in> set (xs @ a # ys) \<Longrightarrow> blk (mem s') x = blk (mem s) x"
    "\<And>b. b \<in># live \<Longrightarrow> intact (mem s') b"
    "untouched (free_blocks s xs) (mem s) (mem s')" "s' = s\<lparr>mem := mem s', freeList := freeList s'\<rparr>"
proof -
  have c: "chain (node_next (mem s)) (freeList s) (xs @ a # ys) 0" using wf by (simp add: heap_wf_def)
  have lv: "\<And>b. b \<in># live \<Longrightarrow> intact (mem s) b" using wf by (simp add: heap_wf_def)
  have "chain (node_next (mem s')) (freeList s') (xs @ ys) 0 \<and>
    (\<forall>x \<in> set (xs @ a # ys). blk (mem s') x = blk (mem s) x) \<and> (\<forall>b \<in># live. intact (mem s') b) \<and>
    untouched (free_blocks s xs) (mem s) (mem s')"
  proof (cases xs rule: rev_cases)
    case Nil
    with c lv show ?thesis by (simp add: s'_def slot_of_def write_slot_def)
  next
    case (snoc zs t)
    have s': "mem s' = set_next t (node_next (mem s) a) (mem s)" "freeList s' = freeList s"
      using snoc by (simp_all add: s'_def slot_of_def write_slot_def)
    have wft: "heap_wf (mem s) (freeList s) (zs @ t # a # ys) live" using wf snoc by simp
    note B = heap_wf_blocks [OF wft]
    have t: "node_at t" "inside (t, 24) (blk (mem s) t)"
      using node_at_block [OF B(1)] B(1) by (auto simp: blk_def block_ok_def inside_def)
    have same: "same_outside (blk (mem s) t) (mem s) (mem s')"
      unfolding s' by (rule set_outside [OF t])
    have sep: "node_at b \<and> node_at t \<and> apart (t, 24) (b, 24)" if "b \<in> set (zs @ a # ys)" for b
    proof -
      from B(3) [OF that] have "block_ok (blk (mem s) b)" and ap: "apart (blk (mem s) b) (blk (mem s) t)" by auto
      then have "node_at b" "inside (b, 24) (blk (mem s) b)"
        using node_at_block [of "blk (mem s) b"] by (auto simp: blk_def block_ok_def inside_def)
      then show ?thesis using t apart_inside2 [OF ap] by (simp add: apart_sym)
    qed
    have "chain (node_next (mem s')) (freeList s') (zs @ t # ys) 0"
      unfolding s' by (rule free_list.unlink) (use c snoc sep t in auto)
    moreover have "blk (mem s') t = blk (mem s) t" using t by (simp add: blk_def s')
    ultimately show ?thesis
      using heap_frame(1,4) [OF wft same] lv untouched_block [OF _ same] snoc
      by (auto simp: free_blocks_def)
  qed
  then show "chain (node_next (mem s')) (freeList s') (xs @ ys) 0"
    "\<And>x. x \<in> set (xs @ a # ys) \<Longrightarrow> blk (mem s') x = blk (mem s) x"
    "\<And>b. b \<in># live \<Longrightarrow> intact (mem s') b"
    "untouched (free_blocks s xs) (mem s) (mem s')" by blast+
  show "s' = s\<lparr>mem := mem s', freeList := freeList s'\<rparr>"
    by (auto simp: s'_def slot_of_def write_slot_def set_mem_def)
qed

lemma malloc_take_ok:
  assumes wf: "heap_wf (mem s) (freeList s) (xs @ a # ys) live"
  shows "\<exists>s'. malloc_take (slot_of xs) a s = (Inr (a + 16), s') \<and>
     heap_wf (mem s') (freeList s') (xs @ ys) (add_mset (blk (mem s) a) live) \<and>
     (\<forall>x \<in> set (xs @ ys). blk (mem s') x = blk (mem s) x) \<and>
     untouched (free_blocks s (xs @ a # ys)) (mem s) (mem s') \<and>
     s' = s\<lparr>mem := mem s', freeList := freeList s', lk := lk s @ [UnExcl LMalloc]\<rparr>"
proof -
  let ?n = "node_len (mem s) a"
  define s1 where "s1 = write_slot (slot_of xs) (node_next (mem s) a) s"
  define m2 where "m2 = store64 (store64 (store64 (mem s1) a ?n) (a + 8) SUBCONTEXTS_MALLOC_HEAD_MAGIC)
      (a + ?n - 8) SUBCONTEXTS_MALLOC_FOOT_MAGIC"
  define s' where "s' = unlock_exclusive LMalloc (s1\<lparr>mem := m2\<rparr>)"
  note U = unlink_slot [OF wf, folded s1_def] and B = heap_wf_blocks [OF wf]
  have ok: "block_ok (a, ?n)" using B(1) by (simp add: blk_def)
  have "?n mod 8 = 0" using ok by (simp add: block_ok_def word_mod_dvd)
  then have run: "malloc_take (slot_of xs) a s = (Inr (a + 16), s')"
    by (simp add: malloc_take_def Let_def s'_def m2_def s1_def set_mem_def)
  have HF: "intact m2 (blk (mem s) a)" "same_outside (blk (mem s) a) (mem s1) m2"
    using header_footer [OF ok, of "mem s1"] by (simp_all add: m2_def blk_def)
  have fr: "blk m2 x = blk (mem s) x" "node_next m2 x = node_next (mem s1) x" if "x \<in> set (xs @ ys)" for x
  proof -
    have x: "blk (mem s1) x = blk (mem s) x" using U(2) that by auto
    with B(3) [OF that] have "block_ok (blk (mem s1) x)" "apart (blk (mem s1) x) (blk (mem s) a)" by auto
    from node_frame [OF this(1) HF(2) this(2)] x show "blk m2 x = blk (mem s) x" "node_next m2 x = node_next (mem s1) x"
      by auto
  qed
  have "heap_wf m2 (freeList s1) (xs @ ys) (add_mset (blk (mem s) a) live)"
  proof (rule heap_take [OF wf])
    show "chain (node_next m2) (freeList s1) (xs @ ys) 0" by (rule chain_frame [OF U(1)]) (rule fr)
    show "intact m2 b" if "b \<in># live" for b
      using intact_frame [OF _ HF(2)] B(4) [OF that] U(3) [OF that] by blast
  qed (use fr HF in auto)
  moreover have "untouched (free_blocks s (xs @ a # ys)) (mem s) m2"
    by (rule untouched_trans [of _ _ "mem s1" "free_blocks s (xs @ a # ys)"])
      (use U(4) HF(2) in \<open>auto simp: free_blocks_def untouched_def same_outside_def\<close>)
  moreover have "s' = s\<lparr>mem := m2, freeList := freeList s1, lk := lk s @ [UnExcl LMalloc]\<rparr>"
  proof -
    from U(5) obtain m f where "s1 = s\<lparr>mem := m, freeList := f\<rparr>" by blast
    then show ?thesis by (simp add: s'_def log_lock_def)
  qed
  ultimately show ?thesis using run fr(1) by auto
qed

lemma malloc_split_pages_ok:
  assumes wf: "heap_wf (mem s) (freeList s) (xs @ a # ys) live" and fit: "malloc_fits al (al + 24) (mem s) a"
    and al: "24 \<le> unat al" "unat al + 24 < 2 ^ 64"
  shows "\<exists>xs' a' m'. malloc_split_pages (al + 24) (slot_of xs) a s = (Inr (slot_of xs', a'), s\<lparr>mem := m'\<rparr>) \<and>
     heap_wf m' (freeList s) (xs' @ a' # ys) live \<and> node_pages m' a' = 0 \<and> al \<le> node_len m' a' \<and>
     inside (blk m' a') (blk (mem s) a) \<and>
     covered (free_blocks (s\<lparr>mem := m'\<rparr>) (xs' @ a' # ys)) (free_blocks s (xs @ a # ys)) \<and>
     untouched (free_blocks s (xs @ a # ys)) (mem s) m'"
proof (cases "node_pages (mem s) a = 0")
  case True
  have "al \<le> al + 24" using al by (simp add: word_le_nat_alt unat_off)
  with True fit have "al \<le> node_len (mem s) a" by (auto simp: malloc_fits_def)
  with True wf show ?thesis
    by (intro exI [of _ xs] exI [of _ a] exI [of _ "mem s"]) (auto simp: malloc_split_pages_def)
next
  case False
  with fit have ge: "al + 24 \<le> node_len (mem s) a" by (auto simp: malloc_fits_def)
  then have ge': "unat al + 24 \<le> unat (node_len (mem s) a)" using al by (simp add: word_le_nat_alt unat_off)
  have k: "24 \<le> unat (24 :: u64)" "unat (24 :: u64) + 24 \<le> unat (node_len (mem s) a)" "8 dvd unat (24 :: u64)"
    using ge' al by auto
  note H = heap_split_state [OF wf k]
  have "al \<le> node_len (mem s) a - 24"
    using ge' by (simp add: word_le_nat_alt) (subst unat_sub, auto simp: word_le_nat_alt)
  with H False ge show ?thesis
    by (intro exI [of _ "xs @ [a]"] exI [of _ "a + 24"] exI [of _ "split_at 24 a (mem s)"])
      (auto simp: malloc_split_pages_def slot_of_def set_mem_def)
qed

lemma malloc_split_tail_ok:
  assumes wf: "heap_wf (mem s) (freeList s) (xs @ a # ys) live" and pg: "node_pages (mem s) a = 0"
    and len: "al \<le> node_len (mem s) a" and al: "24 \<le> unat al" "unat al + 48 < 2 ^ 64" "8 dvd unat al"
  shows "\<exists>ys' m'. malloc_split_tail al (al + 24) a s = s\<lparr>mem := m'\<rparr> \<and>
     heap_wf m' (freeList s) (xs @ a # ys') live \<and> node_pages m' a = 0 \<and> al \<le> node_len m' a \<and>
     node_len m' a < al + 24 \<and> inside (blk m' a) (blk (mem s) a) \<and>
     covered (free_blocks (s\<lparr>mem := m'\<rparr>) (xs @ a # ys')) (free_blocks s (xs @ a # ys)) \<and>
     untouched (free_blocks s (xs @ a # ys)) (mem s) m'"
proof (cases "al + 24 \<le> node_len (mem s) a")
  case True
  then have k: "unat al + 24 \<le> unat (node_len (mem s) a)" using al by (simp add: word_le_nat_alt unat_off)
  note H = heap_split_state [OF wf al(1) k al(3)]
  have "al < al + 24" using al by (simp add: word_less_nat_alt unat_off)
  with H pg True show ?thesis
    by (intro exI [of _ "(a + al) # ys"] exI [of _ "split_at al a (mem s)"])
      (auto simp: malloc_split_tail_def set_mem_def)
next
  case False
  with wf pg len show ?thesis
    by (intro exI [of _ ys] exI [of _ "mem s"]) (auto simp: malloc_split_tail_def)
qed

lemma malloc_carve_ok:
  assumes wf: "heap_wf (mem s) (freeList s) (xs @ a # ys) live" and fit: "malloc_fits al (al + 24) (mem s) a"
    and al: "24 \<le> unat al" "unat al + 48 < 2 ^ 64" "8 dvd unat al"
  shows "\<exists>s' ns' b. malloc_carve al (al + 24) (slot_of xs) a s = (Inr (fst b + 16), s') \<and>
     heap_wf (mem s') (freeList s') ns' (add_mset b live) \<and> al \<le> snd b \<and> snd b < al + 24 \<and>
     inside b (blk (mem s) a) \<and> covered (free_blocks s' ns') (free_blocks s (xs @ a # ys)) \<and>
     untouched (free_blocks s (xs @ a # ys)) (mem s) (mem s') \<and>
     s' = s\<lparr>mem := mem s', freeList := freeList s', lk := lk s @ [UnExcl LMalloc]\<rparr>"
proof -
  have len: "al \<le> node_len (mem s) a"
    using fit al by (auto simp: malloc_fits_def word_le_nat_alt unat_off)
  have al2: "unat al + 24 < 2 ^ 64" using al by simp
  from malloc_split_pages_ok [OF wf fit al(1) al2] obtain xs1 a1 m1 where
    run1: "malloc_split_pages (al + 24) (slot_of xs) a s = (Inr (slot_of xs1, a1), s\<lparr>mem := m1\<rparr>)"
    and wf1: "heap_wf m1 (freeList s) (xs1 @ a1 # ys) live" and pg1: "node_pages m1 a1 = 0" "al \<le> node_len m1 a1"
    and i1: "inside (blk m1 a1) (blk (mem s) a)"
    and c1: "covered (free_blocks (s\<lparr>mem := m1\<rparr>) (xs1 @ a1 # ys)) (free_blocks s (xs @ a # ys))"
    and u1: "untouched (free_blocks s (xs @ a # ys)) (mem s) m1" by blast
  let ?s1 = "s\<lparr>mem := m1\<rparr>"
  from malloc_split_tail_ok [of ?s1, simplified, OF wf1 pg1 al(1) _ al(3)] al(2) obtain ys2 m2 where
    run2: "malloc_split_tail al (al + 24) a1 ?s1 = s\<lparr>mem := m2\<rparr>"
    and wf2: "heap_wf m2 (freeList s) (xs1 @ a1 # ys2) live" and pg2: "node_pages m2 a1 = 0" "al \<le> node_len m2 a1"
      "node_len m2 a1 < al + 24" and i2: "inside (blk m2 a1) (blk m1 a1)"
    and c2: "covered (free_blocks (s\<lparr>mem := m2\<rparr>) (xs1 @ a1 # ys2)) (free_blocks ?s1 (xs1 @ a1 # ys))"
    and u2: "untouched (free_blocks ?s1 (xs1 @ a1 # ys)) m1 m2" by auto
  let ?s2 = "s\<lparr>mem := m2\<rparr>"
  from malloc_take_ok [of ?s2, simplified, OF wf2] obtain s' where
    run3: "malloc_take (slot_of xs1) a1 ?s2 = (Inr (a1 + 16), s')"
    and wf3: "heap_wf (mem s') (freeList s') (xs1 @ ys2) (add_mset (blk m2 a1) live)"
    and b3: "\<forall>x \<in> set (xs1 @ ys2). blk (mem s') x = blk m2 x"
    and u3: "untouched (free_blocks ?s2 (xs1 @ a1 # ys2)) m2 (mem s')"
    and s': "s' = s\<lparr>mem := mem s', freeList := freeList s', lk := lk s @ [UnExcl LMalloc]\<rparr>" by auto
  have r: "read_slot (slot_of xs) s = a" "read_slot (slot_of xs1) ?s1 = a1" "read_slot (slot_of xs1) ?s2 = a1"
    using wf wf1 wf2 by (auto simp: heap_wf_def intro!: read_slot_chain)
  have run: "malloc_carve al (al + 24) (slot_of xs) a s = (Inr (a1 + 16), s')"
    using len pg1 pg2 run1 run2 run3 r by (simp add: malloc_carve_def Let_def)
  have "free_blocks s' (xs1 @ ys2) = free_blocks ?s2 (xs1 @ ys2)"
    using b3 unfolding free_blocks_def mset_map by (intro image_mset_cong) auto
  then have c3: "covered (free_blocks s' (xs1 @ ys2)) (free_blocks ?s2 (xs1 @ a1 # ys2))"
    by (auto intro!: covered_sub simp: free_blocks_def)
  have c21: "covered (free_blocks ?s2 (xs1 @ a1 # ys2)) (free_blocks s (xs @ a # ys))"
    by (rule covered_trans [OF c2 c1])
  have "untouched (free_blocks s (xs @ a # ys)) (mem s) (mem s')"
    by (rule untouched_trans [OF untouched_trans [OF u1 u2 c1] u3 c21])
  moreover have "covered (free_blocks s' (xs1 @ ys2)) (free_blocks s (xs @ a # ys))"
    by (rule covered_trans [OF c3 c21])
  moreover have "inside (blk m2 a1) (blk (mem s) a)" by (rule inside_trans [OF i2 i1])
  ultimately show ?thesis
    using run wf3 pg2 s' by (intro exI [of _ s'] exI [of _ "xs1 @ ys2"] exI [of _ "blk m2 a1"]) (simp add: blk_def)
qed

section \<open>Sizes\<close>

lemma sint_nonneg_unat: "0 \<le> sint (x :: u64) \<longleftrightarrow> unat x < 2 ^ 63"
proof -
  have "sint x = signed_take_bit 63 (uint x)" by (simp add: sint_uint)
  then have "0 \<le> sint x \<longleftrightarrow> even (uint x div 2 ^ 63)"
    by (simp add: signed_take_bit_nonnegative_iff bit_iff_odd)
  also have "\<dots> \<longleftrightarrow> uint x < 2 ^ 63"
  proof (cases "uint x < 2 ^ 63")
    case False
    have "uint x div 2 ^ 63 = 1"
      using False uint_lt2p [of x] by (intro int_div_pos_eq [where r = "uint x - 2 ^ 63"]) simp_all
    with False show ?thesis by simp
  next
    case True
    then have "uint x div 2 ^ 63 = 0" by (intro div_pos_pos_trivial) simp_all
    with True show ?thesis by simp
  qed
  also have "\<dots> \<longleftrightarrow> unat x < 2 ^ 63"
    unfolding uint_nat using of_nat_less_iff [of "unat x" "2 ^ 63", where 'a = int]
    by (simp only: of_nat_power of_nat_numeral)
  finally show ?thesis .
qed

lemma alloc_size_value:
  assumes "0 \<le> sint sz"
  shows "unat (malloc_alloc_size sz) = (unat sz + 23) div 8 * 8 + 8"
proof -
  have b: "unat sz < 2 ^ 63" using assms by (simp add: sint_nonneg_unat)
  have 1: "unat (16 + sz + 7) = unat sz + 23" using b by (simp add: unat_word_ariths)
  have 2: "(unat sz + 23) div 8 * 8 \<le> unat sz + 23" by simp
  show ?thesis using b 1 2
    by (simp add: malloc_alloc_size_def unat_word_ariths unat_div)
qed

lemma alloc_size_bounds:
  assumes "0 \<le> sint sz"
  defines "al \<equiv> malloc_alloc_size sz"
  shows "unat sz + 24 \<le> unat al" "unat al \<le> unat sz + 31" "8 dvd unat al" "24 \<le> unat al" "unat al + 48 < 2 ^ 64"
    "al mod 8 = 0"
  using alloc_size_value [OF assms(1)] assms by (auto simp: sint_nonneg_unat word_mod_dvd)

lemma mmap_size_value:
  assumes "page_ok E" and "unat sp + 2 ^ 31 < 2 ^ 64" and "0 < unat sp"
  defines "n \<equiv> malloc_mmap_size E sp"
  shows "unat sp \<le> unat n" "unat (getpagesize E) dvd unat n" "unat n < unat sp + unat (getpagesize E)" "0 < n"
proof -
  let ?p = "unat (getpagesize E)"
  have p: "0 < ?p" "?p \<le> 2 ^ 30" using assms by (auto simp: page_ok_def)
  have "unat (getpagesize E - 1) = ?p - 1" using p by (subst unat_sub) (auto simp: word_le_nat_alt)
  then have 1: "unat (sp + (getpagesize E - 1)) = unat sp + (?p - 1)" using p assms by (subst unat_off) auto
  have le: "(unat sp + (?p - 1)) div ?p * ?p \<le> unat sp + (?p - 1)" by simp
  have "(unat sp + (?p - 1)) div ?p * ?p < 2 ^ 64" 
    by (rule le_less_trans [OF le]) (use p assms(2) in simp)
  then have n: "unat n = (unat sp + (?p - 1)) div ?p * ?p"
    using 1 unat_mult_lem [of "(sp + (getpagesize E - 1)) div getpagesize E" "getpagesize E"]
    by (simp add: n_def malloc_mmap_size_def unat_div)
  have "(unat sp + (?p - 1)) mod ?p < ?p" using p by simp
  then have "unat sp \<le> unat n" using n div_mult_mod_eq [of "unat sp + (?p - 1)" ?p] by linarith
  then show "unat sp \<le> unat n" .
  with assms(3) show "0 < n" by (simp only: word_less_nat_alt) simp
  show "?p dvd unat n" unfolding n by simp
  have "unat n \<le> unat sp + (?p - 1)" unfolding n by (rule le)
  with p(1) show "unat n < unat sp + ?p" by linarith
qed

section \<open>Allocation and release on the whole state\<close>

lemma active_inv_cong: "regs s' = regs s \<Longrightarrow> rt s' = rt s \<Longrightarrow> active_inv E s' R = active_inv E s R"
  by (simp add: active_inv_def region_core_def region_lists_def)

lemma malloc_inv_cong:
  "regs s' = regs s \<Longrightarrow> rt s' = rt s \<Longrightarrow> mem s' = mem s \<Longrightarrow> freeList s' = freeList s \<Longrightarrow>
   malloc_inv E s' ns live R = malloc_inv E s ns live R"
  by (simp add: malloc_inv_def active_inv_cong [of s' s])

lemma sc_mmap_freeList:
  assumes "active_inv E s R" and "sc_mmap E addr n prot flags fd off s = (Inr p, s')"
  shows "freeList s' = freeList s"
proof -
  from assms(1) obtain act rsv fre where "region_lists s act rsv fre" by (auto simp: active_inv_def region_core_def)
  with assms(2) show ?thesis by (cases rule: sc_mmap_InrD) (simp_all add: mmap_done_simps)
qed

lemma malloc_inv_apart:
  assumes "malloc_inv E s ns live R" and "\<forall>r \<in># R. apart c r"
  shows "\<And>x. x \<in> set ns \<Longrightarrow> apart (blk (mem s) x) c" "\<And>b. b \<in># live \<Longrightarrow> apart b c"
proof -
  have "apart b c" if "b \<in># mset (map (blk (mem s)) ns) + live" for b
  proof -
    from assms(1) that obtain r where "r \<in># R" "inside b r" unfolding malloc_inv_def by blast
    with assms(2) show ?thesis using apart_inside [of r c b] by (auto simp: apart_sym)
  qed
  then show "\<And>x. x \<in> set ns \<Longrightarrow> apart (blk (mem s) x) c" "\<And>b. b \<in># live \<Longrightarrow> apart b c" by auto
qed

lemma malloc_grow_ok:
  assumes inv: "malloc_inv E s ns live R" and run: "malloc_pages E (malloc_mmap_size E sp) s = (Inr buf, s1)"
    and nf: "buf \<noteq> MAP_FAILED" and sp: "24 \<le> unat sp" "unat sp + 2 ^ 31 < 2 ^ 64"
  defines "n \<equiv> malloc_mmap_size E sp"
  shows "\<exists>s'. malloc_grow E sp s = (Inr buf, s') \<and> buf \<noteq> 0 \<and>
     malloc_inv E s' (buf # ns) live (add_mset (buf, n) R) \<and> node_len (mem s') buf = n \<and> sp \<le> n \<and>
     freeList s' = buf \<and> lk s' = lk s1 \<and>
     (\<forall>x \<in> set ns. blk (mem s') x = blk (mem s) x) \<and> same_outside (buf, n) (mem s) (mem s')"
proof -
  from inv have act: "active_inv E s R" and pg: "page_ok E" by (auto simp: malloc_inv_def active_inv_def)
  note G = mmap_pages.grab_fresh [OF act run nf, folded n_def]
  have n: "unat sp \<le> unat n" using mmap_size_value [OF pg sp(2)] sp(1) by (auto simp: n_def)
  then have ok: "block_ok (buf, n)" using G sp by (auto simp: block_ok_def)
  define s' where "s' = s1\<lparr>mem := set_next buf (freeList s1)
     (set_pages buf (n div getpagesize E) (set_len buf n (mem s1))), freeList := buf\<rparr>"
  have go: "malloc_grow E sp s = (Inr buf, s')"
    using run nf by (simp add: malloc_grow_def Let_def s'_def n_def set_mem_def)
  have fl: "freeList s1 = freeList s" by (rule sc_mmap_freeList [OF act run])
  have out: "same_outside (buf, n) (mem s) (mem s1)"
    using mmap_pages.grab_frame [OF act run nf] by (simp add: same_outside_def n_def)
  have at: "node_at buf" "inside (buf, 24) (buf, n)"
    using node_at_block [OF ok] ok by (auto simp: block_ok_def inside_def)
  have same: "same_outside (buf, n) (mem s) (mem s')"
    by (simp add: s'_def) (rule same_outside_trans [OF out same_outside_trans [OF set_outside(1) same_outside_trans
       [OF set_outside(3) set_outside(2)]]], (rule at)+)
  have "\<forall>r \<in># R. apart (buf, n) r" using mmap_pages.grab_apart [OF act run nf] by (auto simp: n_def)
  note ap = malloc_inv_apart [OF inv this]
  have new: "node_len (mem s') buf = n" "node_next (mem s') buf = freeList s"
    using at fl by (simp_all add: s'_def)
  have wf: "heap_wf (mem s) (freeList s) ns live" using inv by (simp add: malloc_inv_def)
  have wf': "heap_wf (mem s') buf (buf # ns) live"
    using heap_push [OF wf ok ap same] new by simp
  have bl: "blk (mem s') x = blk (mem s) x" if "x \<in> set ns" for x
    using wf that by (intro node_frame(4) [OF _ same ap(1)]) (auto simp: heap_wf_def)
  have cov: "\<forall>b \<in># mset (map (blk (mem s')) (buf # ns)) + live. \<exists>r \<in># add_mset (buf, n) R. inside b r"
    using inv new bl by (auto simp: malloc_inv_def blk_def [of _ buf])
  have "active_inv E s' (add_mset (buf, n) R)"
    using G active_inv_cong [of s' s1] by (simp add: s'_def)
  with wf' cov have "malloc_inv E s' (buf # ns) live (add_mset (buf, n) R)"
    by (simp add: malloc_inv_def s'_def)
  with go G new n bl same show ?thesis by (auto simp: word_le_nat_alt s'_def)
qed

lemma carve_inv:
  assumes inv: "malloc_inv E s (xs @ a # ys) live R" and fit: "malloc_fits al (al + 24) (mem s) a"
    and al: "24 \<le> unat al" "unat al + 48 < 2 ^ 64" "8 dvd unat al"
  shows "\<exists>s' ns' b. malloc_carve al (al + 24) (slot_of xs) a s = (Inr (fst b + 16), s') \<and>
     malloc_inv E s' ns' (add_mset b live) R \<and> al \<le> snd b \<and> snd b < al + 24 \<and> inside b (blk (mem s) a) \<and>
     untouched (free_blocks s (xs @ a # ys)) (mem s) (mem s') \<and> lk s' = lk s @ [UnExcl LMalloc]"
proof -
  from inv have wf: "heap_wf (mem s) (freeList s) (xs @ a # ys) live" by (simp add: malloc_inv_def)
  from malloc_carve_ok [OF wf fit al] obtain s' ns' b where
    run: "malloc_carve al (al + 24) (slot_of xs) a s = (Inr (fst b + 16), s')"
    and wf': "heap_wf (mem s') (freeList s') ns' (add_mset b live)" and b: "al \<le> snd b" "snd b < al + 24"
      "inside b (blk (mem s) a)" and c: "covered (free_blocks s' ns') (free_blocks s (xs @ a # ys))"
    and u: "untouched (free_blocks s (xs @ a # ys)) (mem s) (mem s')"
    and s': "s' = s\<lparr>mem := mem s', freeList := freeList s', lk := lk s @ [UnExcl LMalloc]\<rparr>" by blast
  have R: "\<forall>c \<in># free_blocks s (xs @ a # ys) + live. \<exists>r \<in># R. inside c r"
    using inv by (simp add: malloc_inv_def free_blocks_def)
  then have "\<exists>r \<in># R. inside b' r" if "b' \<in># free_blocks s' ns'" for b'
    using c that unfolding covered_def by (meson inside_trans union_iff)
  moreover have "\<exists>r \<in># R. inside b r"
    using R b(3) inside_trans [OF b(3)] by (auto simp: free_blocks_def)
  ultimately have "\<forall>c \<in># free_blocks s' ns' + add_mset b live. \<exists>r \<in># R. inside c r"
    using R by auto
  moreover have eqs: "regs s' = regs s" "rt s' = rt s" "lk s' = lk s @ [UnExcl LMalloc]" by (subst s', simp)+
  ultimately have "malloc_inv E s' ns' (add_mset b live) R"
    using wf' inv active_inv_cong [of s' s] by (simp add: malloc_inv_def free_blocks_def)
  with run b u eqs show ?thesis by blast
qed

lemma untouched_live:
  assumes "malloc_inv E s ns live R" and "untouched (free_blocks s ns) (mem s) m'" and "b \<in># live" and "in_block x b"
  shows "m' x = mem s x"
proof -
  have "\<not> in_block x c" if "c \<in># free_blocks s ns" for c
  proof -
    have "apart c b"
      using assms(1,3) that by (auto simp: malloc_inv_def heap_wf_def apart_all_union free_blocks_def)
    with assms(4) show ?thesis by (auto simp: in_block_def apart_def)
  qed
  with assms(2) show ?thesis by (simp add: untouched_def)
qed

lemma carve_new:
  assumes inv: "malloc_inv E s (xs @ a # ys) live R" and sz: "0 \<le> sint sz"
    and fit: "malloc_fits (malloc_alloc_size sz) (malloc_alloc_size sz + 24) (mem s) a"
    and held: "heldX (lk s) LMalloc = heldX (lk s0) LMalloc + 1" and sub: "R0 \<subseteq># R"
    and same: "\<forall>c \<in># live. \<forall>x. in_block x c \<longrightarrow> mem s x = mem s0 x"
  shows "\<exists>p s'. malloc_carve (malloc_alloc_size sz) (malloc_alloc_size sz + 24) (slot_of xs) a s = (Inr p, s') \<and>
     malloc_new E sz s0 live R0 p s'"
proof -
  let ?al = "malloc_alloc_size sz"
  note A = alloc_size_bounds [OF sz]
  from carve_inv [OF inv fit A(4,5,3)] obtain s' ns' b where
    run: "malloc_carve ?al (?al + 24) (slot_of xs) a s = (Inr (fst b + 16), s')"
    and inv': "malloc_inv E s' ns' (add_mset b live) R" and b: "?al \<le> snd b" "snd b < ?al + 24"
    and u: "untouched (free_blocks s (xs @ a # ys)) (mem s) (mem s')" and lk': "lk s' = lk s @ [UnExcl LMalloc]"
    by blast
  have ok: "block_ok b" using inv' by (auto simp: malloc_inv_def heap_wf_def)
  then have "fst b + 16 \<noteq> 0"
    using block_ok_fields(2) [OF ok] by (metis add_is_0 unat_0 zero_neq_numeral)
  moreover have "unat (?al + 24) = unat ?al + 24" using A(5) by (simp add: unat_off)
  moreover have "\<forall>c \<in># live. \<forall>x. in_block x c \<longrightarrow> mem s' x = mem s0 x"
    using untouched_live [OF inv u] same by auto
  ultimately have "malloc_new E sz s0 live R0 (fst b + 16) s'"
    using inv' b A(1) lk' held sub unfolding malloc_new_def
    by (intro exI [of _ ns'] exI [of _ b] exI [of _ R]) (auto simp: word_le_nat_alt word_less_nat_alt lock_simps)
  with run show ?thesis by blast
qed

lemma carve_heldX:
  assumes "sc_mmap_carve region n prot s = (Inr p, s')"
  shows "heldX (lk s') LMalloc = heldX (lk s) LMalloc"
  using assms by (auto simp: sc_mmap_carve_def Let_def deref_def lock_simps split: if_splits option.splits)

lemma sc_mmap_heldX:
  assumes "sc_mmap E addr n prot flags fd off s = (Inr p, s')"
  shows "heldX (lk s') LMalloc = heldX (lk s) LMalloc"
proof -
  from guard_InrD [OF assms [unfolded sc_mmap_def]] have "sc_mmap_body E n prot s = (Inr p, s')" by blast
  then show ?thesis
    by (auto simp: sc_mmap_body_def lookupScLocal_eq Let_def sys_ftruncate_def lock_simps
        split: option.splits if_splits elim!: call_InrE dest!: getFreeRegion_InrD carve_heldX)
qed

lemma malloc_first_fit:
  "(\<forall>a \<in> set ns. \<not> P a) \<or> (\<exists>xs a ys. ns = xs @ a # ys \<and> (\<forall>x \<in> set xs. \<not> P x) \<and> P a)"
  by (metis split_list_first_prop)

lemma sc_malloc_fit:
  assumes inv: "malloc_inv E s ns live R" and sz: "0 \<le> sint sz"
    and fit: "\<exists>a \<in> set ns. malloc_fits (malloc_alloc_size sz) (malloc_alloc_size sz + 24) (mem s) a"
  shows "\<exists>p s'. sc_malloc E sz s = (Inr p, s') \<and> malloc_new E sz s live R p s'"
proof -
  let ?al = "malloc_alloc_size sz" and ?s = "lock_exclusive LMalloc s"
  from malloc_first_fit [of ns "malloc_fits ?al (?al + 24) (mem s)"] fit obtain xs a ys
    where ns: "ns = xs @ a # ys" and no: "\<forall>x \<in> set xs. \<not> malloc_fits ?al (?al + 24) (mem s) x"
      and yes: "malloc_fits ?al (?al + 24) (mem s) a" by blast
  from inv have c: "chain (node_next (mem s)) (freeList s) (xs @ a # ys) 0" and a0: "a \<noteq> 0"
    using heap_wf_blocks(2) [of "mem s" "freeList s" xs a ys live] by (auto simp: malloc_inv_def heap_wf_def ns)
  have scan: "malloc_scan ?al (?al + 24) (mem s) FreeListHead (freeList s) = Some (slot_of xs, a)"
    using malloc_scan_found [OF c no yes, of FreeListHead] by (auto simp: slot_of_def)
  have inv': "malloc_inv E ?s (xs @ a # ys) live R" using inv malloc_inv_cong [of ?s s] by (simp add: ns)
  from carve_new [OF inv' sz, of s R] yes obtain p s' where
    "malloc_carve ?al (?al + 24) (slot_of xs) a ?s = (Inr p, s')" "malloc_new E sz s live R p s'"
    by (auto simp: lock_simps)
  then show ?thesis
    using sz a0 scan alloc_size_bounds(6) [OF sz] by (simp add: sc_malloc_def Let_def malloc_split_size_def)
qed

lemma sc_malloc_nofit:
  assumes inv: "malloc_inv E s ns live R" and sz: "0 \<le> sint sz"
    and no: "\<forall>a \<in> set ns. \<not> malloc_fits (malloc_alloc_size sz) (malloc_alloc_size sz + 24) (mem s) a"
  defines "r \<equiv> malloc_pages E (malloc_mmap_size E (malloc_alloc_size sz + 24)) (lock_exclusive LMalloc s)"
  shows "fst r = Inl e \<Longrightarrow> sc_malloc E sz s = r"
    and "fst r = Inr MAP_FAILED \<Longrightarrow> sc_malloc E sz s = (Inr 0, unlock_exclusive LMalloc (snd r)) \<and>
       malloc_inv E (snd r) ns live R \<and> mem (snd r) = mem s \<and>
       heldX (lk (snd r)) LMalloc = heldX (lk s) LMalloc + 1"
    and "fst r = Inr buf \<Longrightarrow> buf \<noteq> MAP_FAILED \<Longrightarrow>
       \<exists>p s'. sc_malloc E sz s = (Inr p, s') \<and> malloc_new E sz s live R p s'"
proof -
  let ?al = "malloc_alloc_size sz" and ?s = "lock_exclusive LMalloc s"
  note A = alloc_size_bounds [OF sz]
  from inv have "chain (node_next (mem s)) (freeList s) ns 0" by (simp add: malloc_inv_def heap_wf_def)
  from malloc_scan_none [OF this no] obtain sl where
    scan: "malloc_scan ?al (?al + 24) (mem s) FreeListHead (freeList s) = Some (sl, 0)" by blast
  have top: "sc_malloc E sz s = call (malloc_grow E (?al + 24)) (\<lambda>buf s.
      if buf = 0 then (Inr 0, unlock_exclusive LMalloc s) else malloc_carve ?al (?al + 24) FreeListHead buf s) ?s"
    using sz scan A(6) by (simp add: sc_malloc_def Let_def malloc_split_size_def)
  have inv': "malloc_inv E ?s ns live R" using inv malloc_inv_cong [of ?s s] by simp
  then have act: "active_inv E ?s R" by (simp add: malloc_inv_def)
  have r: "r = malloc_pages E (malloc_mmap_size E (?al + 24)) ?s" by (simp add: r_def)
  show "sc_malloc E sz s = r" if "fst r = Inl e" for e
    using that unfolding top r by (cases r) (simp add: r malloc_grow_def Let_def call_def)
  show "sc_malloc E sz s = (Inr 0, unlock_exclusive LMalloc (snd r)) \<and>
       malloc_inv E (snd r) ns live R \<and> mem (snd r) = mem s \<and>
       heldX (lk (snd r)) LMalloc = heldX (lk s) LMalloc + 1" if bad: "fst r = Inr MAP_FAILED"
  proof -
    obtain s1 where r1: "malloc_pages E (malloc_mmap_size E (?al + 24)) ?s = (Inr MAP_FAILED, s1)" "snd r = s1"
      using bad unfolding r by (metis prod.collapse)
    from mmap_pages.grab_failed [OF act r1(1)] sc_mmap_freeList [OF act r1(1)]
    have s1: "active_inv E s1 R" "mem s1 = mem s" "freeList s1 = freeList s" by auto
    with inv have "malloc_inv E s1 ns live R" by (simp add: malloc_inv_def)
    with s1 sc_mmap_heldX [OF r1(1)] show ?thesis
      unfolding top by (simp add: r1 malloc_grow_def Let_def lock_simps)
  qed
  show "\<exists>p s'. sc_malloc E sz s = (Inr p, s') \<and> malloc_new E sz s live R p s'"
    if good: "fst r = Inr buf" and nf: "buf \<noteq> MAP_FAILED"
  proof -
    let ?n = "malloc_mmap_size E (?al + 24)"
    obtain s1 where r1: "malloc_pages E ?n ?s = (Inr buf, s1)" "snd r = s1"
      using good unfolding r by (metis prod.collapse)
    have sp: "24 \<le> unat (?al + 24)" "unat (?al + 24) + 2 ^ 31 < 2 ^ 64"
      using A sz by (auto simp: unat_off sint_nonneg_unat)
    from malloc_grow_ok [OF inv' r1(1) nf sp] obtain s2 where
      go: "malloc_grow E (?al + 24) ?s = (Inr buf, s2)" "buf \<noteq> 0"
      and inv2: "malloc_inv E s2 (buf # ns) live (add_mset (buf, ?n) R)"
      and len: "node_len (mem s2) buf = ?n" "?al + 24 \<le> ?n" and lk2: "lk s2 = lk s1"
      and same: "same_outside (buf, ?n) (mem s) (mem s2)" by auto
    have fit: "malloc_fits ?al (?al + 24) (mem s2) buf" by (simp add: malloc_fits_def len)
    have "\<forall>r \<in># R. apart (buf, ?n) r" using mmap_pages.grab_apart [OF act r1(1) nf] by auto
    from malloc_inv_apart(2) [OF inv' this] same
    have "\<forall>c \<in># live. \<forall>x. in_block x c \<longrightarrow> mem s2 x = mem s x"
      by (fastforce simp: same_outside_def in_block_def apart_def)
    moreover have "heldX (lk s2) LMalloc = heldX (lk s) LMalloc + 1"
      using sc_mmap_heldX [OF r1(1)] by (simp add: lk2 lock_simps)
    moreover have "malloc_inv E s2 ([] @ buf # ns) live (add_mset (buf, ?n) R)" using inv2 by simp
    ultimately obtain p s' where
      "malloc_carve ?al (?al + 24) FreeListHead buf s2 = (Inr p, s')" "malloc_new E sz s live R p s'"
      using carve_new [of E s2 "[]" buf ns live "add_mset (buf, ?n) R" sz s R] sz fit by (auto simp: slot_of_def)
    with go show ?thesis unfolding top by simp
  qed
qed

lemma apart_not_in: "apart c b \<Longrightarrow> in_block x c \<Longrightarrow> \<not> in_block x b"
  by (auto simp: apart_def in_block_def)

lemma heap_wf_live:
  assumes "heap_wf m fl ns (add_mset b live)"
  shows "block_ok b" "intact m b" "heap_wf m fl ns live"
    "\<And>x. x \<in> set ns \<Longrightarrow> apart (blk m x) b" "\<And>c. c \<in># live \<Longrightarrow> apart c b"
  using assms by (auto simp: heap_wf_def apart_sym [of b])

lemma sc_free_ok:
  assumes inv: "malloc_inv E s ns (add_mset b live) R"
  shows "\<exists>s'. sc_free (fst b + 16) s = (Inr (), s') \<and> malloc_inv E s' (fst b # ns) live R \<and>
     same_outside b (mem s) (mem s') \<and> lk s' = lk s @ [LkExcl LMalloc, UnExcl LMalloc]"
proof -
  let ?a = "fst b"
  from inv have wf: "heap_wf (mem s) (freeList s) ns (add_mset b live)" by (simp add: malloc_inv_def)
  note L = heap_wf_live [OF wf]
  have al: "(?a + 16) mod 8 = 0" using L(1) block_ok_fields(2) [OF L(1)] by (simp add: word_mod_dvd block_ok_def)
  define m' where "m' = set_next ?a (freeList s) (set_pages ?a 0 (set_len ?a (snd b) (mem s)))"
  define s' where "s' = s\<lparr>mem := m', freeList := ?a, lk := lk s @ [LkExcl LMalloc, UnExcl LMalloc]\<rparr>"
  have run: "sc_free (?a + 16) s = (Inr (), s')"
    using al L(2) by (simp add: sc_free_def Let_def intact_def s'_def m'_def set_mem_def log_lock_def)
  have at: "node_at ?a" "inside (?a, 24) b" using node_at_block [OF L(1)] L(1) by (auto simp: block_ok_def inside_def)
  have same: "same_outside b (mem s) m'" unfolding m'_def
    by (rule same_outside_trans [OF set_outside(1) [OF at] same_outside_trans [OF set_outside(3) [OF at] set_outside(2) [OF at]]])
  have new: "node_len m' ?a = snd b" "node_next m' ?a = freeList s" using at by (simp_all add: m'_def)
  have wf': "heap_wf m' ?a (?a # ns) live" by (rule heap_push [OF L(3,1,4,5) same new])
  have bl: "blk m' x = blk (mem s) x" if "x \<in> set ns" for x
    using L(3) that by (intro node_frame(4) [OF _ same L(4)]) (auto simp: heap_wf_def)
  have "blk m' ?a = b" by (simp add: blk_def new)
  then have "\<forall>c \<in># mset (map (blk m') (?a # ns)) + live. \<exists>r \<in># R. inside c r"
    using inv bl by (auto simp: malloc_inv_def)
  then have "malloc_inv E s' (?a # ns) live R"
    using wf' inv active_inv_cong [of s' s] by (simp add: malloc_inv_def s'_def)
  with run same show ?thesis by (simp add: s'_def)
qed

lemma bit_dec64:
  "bit (dec64 bs) n \<longleftrightarrow> n < 64 \<and> n div 8 < length bs \<and> bit (bs ! (n div 8)) (n mod 8)"
proof (induction bs arbitrary: n)
  case Nil
  then show ?case by (simp add: dec64_def)
next
  case (Cons b bs)
  have e: "dec64 (b # bs) = ucast b OR push_bit 8 (dec64 bs)" by (simp add: dec64_def)
  show ?case
  proof (cases "n < 8")
    case True
    then show ?thesis unfolding e by (auto simp: bit_simps)
  next
    case False
    then have "n div 8 = Suc ((n - 8) div 8)" "n mod 8 = (n - 8) mod 8"
      by (simp_all add: le_div_geq le_mod_geq)
    with False show ?thesis unfolding e by (auto simp: bit_simps Cons.IH dest: bit_imp_le_length)
  qed
qed

lemma dec64_inj:
  assumes "dec64 xs = dec64 ys" "length xs = 8" "length ys = 8"
  shows "xs = ys"
proof (rule nth_equalityI)
  fix i assume i: "i < length xs"
  show "xs ! i = ys ! i"
  proof (rule bit_word_eqI)
    fix n assume "n < LENGTH(8)"
    then have n: "(8 * i + n) div 8 = i" "(8 * i + n) mod 8 = n" "8 * i + n < 64" using i assms(2) by auto
    show "bit (xs ! i) n \<longleftrightarrow> bit (ys ! i) n"
      using bit_dec64 [of xs "8 * i + n"] bit_dec64 [of ys "8 * i + n"] assms i n by simp
  qed
qed (use assms in simp)

lemma load64_differs:
  assumes "load64 m' a = load64 m a" and "i < 8"
  shows "m' (a + of_nat i) = m (a + of_nat i)"
proof -
  have "mem_read m' a 8 = mem_read m a 8" using assms(1) by (intro dec64_inj) (simp_all add: load64_def)
  then have "mem_read m' a 8 ! i = mem_read m a 8 ! i" by simp
  with assms(2) show ?thesis by (simp add: mem_read_def)
qed

section \<open>Interface of the allocator\<close>

text \<open>
  What a client of an allocator relies on. \<open>inv s L\<close> says that the usable parts of the live buffers
  are exactly the blocks \<open>L\<close>; \<open>us s p\<close> is the usable size of the buffer at \<open>p\<close>.
\<close>

locale allocator =
  fixes alloc :: "u64 \<Rightarrow> 's \<Rightarrow> (u64, 's) res"
    and release :: "u64 \<Rightarrow> 's \<Rightarrow> (unit, 's) res"
    and us :: "'s \<Rightarrow> u64 \<Rightarrow> u64"
    and bytes :: "'s \<Rightarrow> memory"
    and put :: "memory \<Rightarrow> 's \<Rightarrow> 's"
    and inv :: "'s \<Rightarrow> block multiset \<Rightarrow> bool"
  assumes live_apart: "inv s L \<Longrightarrow> apart_all L"
    and live_fits: "inv s L \<Longrightarrow> b \<in># L \<Longrightarrow> fits b \<and> fst b \<noteq> 0"
    and alloc_ok: "inv s L \<Longrightarrow> alloc n s = (Inr p, s') \<Longrightarrow> p \<noteq> 0 \<Longrightarrow>
        inv s' (add_mset (p, us s' p) L) \<and> n \<le> us s' p"
    and alloc_failed: "inv s L \<Longrightarrow> alloc n s = (Inr 0, s') \<Longrightarrow> inv s' L"
    and alloc_frame: "inv s L \<Longrightarrow> alloc n s = (Inr p, s') \<Longrightarrow> b \<in># L \<Longrightarrow> in_block x b \<Longrightarrow> bytes s' x = bytes s x"
    and release_ok: "inv s (add_mset b L) \<Longrightarrow> \<exists>s'. release (fst b) s = (Inr (), s') \<and> inv s' L \<and>
        (\<forall>c \<in># L. \<forall>x. in_block x c \<longrightarrow> bytes s' x = bytes s x)"
    and put_ok: "inv s L \<Longrightarrow> b \<in># L \<Longrightarrow> same_outside b (bytes s) m \<Longrightarrow> inv (put m s) L"
    and bytes_put: "bytes (put m s) = m"

begin

lemma alloc_apart:
  assumes "inv s L" "alloc n s = (Inr p, s')" "p \<noteq> 0" "b \<in># L"
  shows "apart (p, us s' p) b"
  using live_apart [of s' "add_mset (p, us s' p) L"] alloc_ok [OF assms(1-3)] assms(4) by simp

lemma alloc_release:
  assumes "inv s L" "alloc n s = (Inr p, s')" "p \<noteq> 0"
  shows "\<exists>s''. release p s' = (Inr (), s'') \<and> inv s'' L"
  using alloc_ok [OF assms] release_ok [of s' "(p, us s' p)" L] by auto

lemma alloc_keeps:
  assumes "inv t (K + M)" "alloc n t = (Inr p, u)" "\<forall>c \<in># K. \<forall>x. in_block x c \<longrightarrow> bytes t x = bytes s x"
  shows "\<forall>c \<in># K. \<forall>x. in_block x c \<longrightarrow> bytes u x = bytes s x"
proof (intro ballI allI impI)
  fix c x assume c: "c \<in># K" "in_block x c"
  then have "bytes u x = bytes t x" by (intro alloc_frame [OF assms(1,2), of c]) simp_all
  with c assms(3) show "bytes u x = bytes s x" by simp
qed

lemma run_keeps:
  assumes "heap_run alloc release us bytes put s L t M" and "inv s (K + L)"
  shows "inv t (K + M) \<and> (\<forall>c \<in># K. \<forall>x. in_block x c \<longrightarrow> bytes t x = bytes s x)"
  using assms
proof (induction rule: heap_run.induct)
  case (alloc t M n p u)
  then have IH: "inv t (K + M)" "\<forall>c \<in># K. \<forall>x. in_block x c \<longrightarrow> bytes t x = bytes s x" by auto
  from alloc_ok [OF IH(1) alloc(2,3)] alloc_keeps [OF IH(1) alloc(2) IH(2)] show ?case by simp
next
  case (alloc_null t M n u)
  then have IH: "inv t (K + M)" "\<forall>c \<in># K. \<forall>x. in_block x c \<longrightarrow> bytes t x = bytes s x" by auto
  from alloc_failed [OF IH(1) alloc_null(2)] alloc_keeps [OF IH(1) alloc_null(2) IH(2)] show ?case by simp
next
  case (release t b M u)
  then have IH: "inv t (add_mset b (K + M))" "\<forall>c \<in># K. \<forall>x. in_block x c \<longrightarrow> bytes t x = bytes s x" by auto
  from release_ok [OF IH(1)] release(2) IH(2) show ?case by (auto simp: ball_Un)
next
  case (overwrite t M b m)
  then have IH: "inv t (K + M)" "\<forall>c \<in># K. \<forall>x. in_block x c \<longrightarrow> bytes t x = bytes s x" by auto
  have "apart c b" if "c \<in># K" for c
    using live_apart [OF IH(1)] that overwrite(2) by (auto simp: apart_all_union)
  then have "m x = bytes t x" if "c \<in># K" "in_block x c" for c x
    using that overwrite(3) apart_not_in [of c b x] by (simp add: same_outside_def)
  with IH put_ok [OF IH(1) _ overwrite(3)] overwrite(2) show ?case by (auto simp: bytes_put)
qed auto

end

lemma payload_inside: "block_ok b \<Longrightarrow> inside (payload b) b"
proof -
  assume ok: "block_ok b"
  have "unat (snd b - 24) = unat (snd b) - 24" using ok by (subst unat_sub) (auto simp: block_ok_def word_le_nat_alt)
  with block_ok_fields [OF ok] show ?thesis by (auto simp: inside_def payload_def)
qed

lemma apart_all_image:
  assumes "apart_all M" and "\<And>b. b \<in># M \<Longrightarrow> inside (f b) b"
  shows "apart_all (image_mset f M)"
  using assms by (induction M) (auto intro: apart_inside2)

lemma sc_malloc_InrD:
  assumes run: "sc_malloc E sz s = (Inr p, s')" and inv: "malloc_inv E s ns live R"
  obtains (null) "p = 0" "malloc_inv E s' ns live R" "mem s' = mem s" "heldX (lk s') LMalloc = heldX (lk s) LMalloc"
    | (fresh) "malloc_new E sz s live R p s'"
proof -
  from guard_InrD [OF run [unfolded sc_malloc_def]] have sz: "0 \<le> sint sz" by (auto split: if_splits)
  let ?al = "malloc_alloc_size sz"
  show thesis
  proof (cases "\<exists>a \<in> set ns. malloc_fits ?al (?al + 24) (mem s) a")
    case True
    from sc_malloc_fit [OF inv sz True] run fresh show thesis by auto
  next
    case False
    then have no: "\<forall>a \<in> set ns. \<not> malloc_fits ?al (?al + 24) (mem s) a" by blast
    note N = sc_malloc_nofit [OF inv sz no]
    let ?r = "malloc_pages E (malloc_mmap_size E (?al + 24)) (lock_exclusive LMalloc s)"
    consider e where "fst ?r = Inl e" | "fst ?r = Inr MAP_FAILED" | buf where "fst ?r = Inr buf" "buf \<noteq> MAP_FAILED"
      by (cases "fst ?r") auto
    then show thesis
    proof cases
      case 1
      with N(1) [OF 1] run show thesis by (metis Inl_Inr_False fst_conv)
    next
      case 2
      from N(2) [OF 2] run have "p = 0" "s' = unlock_exclusive LMalloc (snd ?r)" by auto
      with N(2) [OF 2] malloc_inv_cong [of s' "snd ?r"] show thesis by (intro null) (auto simp: lock_simps)
    next
      case 3
      from N(3) [OF 3] run fresh show thesis by auto
    qed
  qed
qed

lemma payload_facts:
  assumes "malloc_inv E s ns live R" and "b \<in># live"
  shows "block_ok b" "intact (mem s) b" "inside (payload b) b" "usable s (fst b + 16) = snd b - 24"
    "fst b + 16 \<noteq> 0"
proof -
  from assms show ok: "block_ok b" and i: "intact (mem s) b" by (auto simp: malloc_inv_def heap_wf_def)
  from ok show "inside (payload b) b" by (rule payload_inside)
  from i show "usable s (fst b + 16) = snd b - 24" by (simp add: usable_def intact_def)
  from block_ok_fields(2) [OF ok] show "fst b + 16 \<noteq> 0"
    by (metis add_is_0 unat_0 zero_neq_numeral)
qed

lemma heap_write:
  assumes inv: "malloc_inv E s ns live R" and b: "b \<in># live" and same: "same_outside (payload b) (mem s) m"
  shows "malloc_inv E (s\<lparr>mem := m\<rparr>) ns live R"
proof -
  note P = payload_facts [OF inv b]
  from inv have wf: "heap_wf (mem s) (freeList s) ns live" by (simp add: malloc_inv_def)
  obtain rest where live: "live = add_mset b rest" using b by (metis multi_member_split)
  note L = heap_wf_live [OF wf [unfolded live]]
  have ap: "apart c (payload b)" if "apart c b" for c
    using apart_inside [of b c "payload b"] P(3) that by (simp add: apart_sym [of c])
  have bl: "blk m x = blk (mem s) x" "node_next m x = node_next (mem s) x" if "x \<in> set ns" for x
    using L(3) that ap [OF L(4) [OF that]] by (auto simp: heap_wf_def intro: node_frame [OF _ same])
  have "intact m c" if "c \<in># rest" for c
    using L(3) that intact_frame [OF _ same ap [OF L(5) [OF that]]] by (auto simp: heap_wf_def)
  moreover have "intact m b"
  proof -
    note f = block_ok_fields [OF P(1)] footer_addr [OF P(1)]
    have u: "unat (snd b - 24) = unat (snd b) - 24"
      using P(1) by (subst unat_sub) (auto simp: block_ok_def word_le_nat_alt)
    have "load64 m (fst b) = load64 (mem s) (fst b)" "load64 m (fst b + 8) = load64 (mem s) (fst b + 8)"
      "load64 m (fst b + snd b - 8) = load64 (mem s) (fst b + snd b - 8)"
      by (rule load64_frame [OF same]; use f u in \<open>simp add: apart_def payload_def\<close>)+
    with P(2) show ?thesis by (simp add: intact_def)
  qed
  moreover have "chain (node_next m) (freeList s) ns 0"
    using wf bl by (auto simp: heap_wf_def intro: chain_frame)
  moreover have "image_mset (blk m) (mset ns) = image_mset (blk (mem s)) (mset ns)"
    using bl by (intro image_mset_cong) auto
  ultimately have "heap_wf m (freeList s) ns live"
    using wf bl by (auto simp: heap_wf_def live)
  moreover have "\<forall>c \<in># mset (map (blk m) ns) + live. \<exists>r \<in># R. inside c r"
    using inv bl by (auto simp: malloc_inv_def)
  ultimately show ?thesis using inv active_inv_cong [of "s\<lparr>mem := m\<rparr>" s] by (simp add: malloc_inv_def)
qed

interpretation sc_heap: allocator "sc_malloc E" sc_free usable mem "\<lambda>m s. s\<lparr>mem := m\<rparr>" "alloc_inv E"
proof
  fix s L assume "alloc_inv E s L"
  then obtain ns live R where inv: "malloc_inv E s ns live R" and L: "L = image_mset payload live"
    by (auto simp: alloc_inv_def)
  have "apart_all live" using inv by (auto simp: malloc_inv_def heap_wf_def apart_all_union)
  with payload_facts(3) [OF inv] show "apart_all L" unfolding L by (intro apart_all_image) auto
next
  fix s L b assume "alloc_inv E s L" "b \<in># L"
  then obtain ns live R c where inv: "malloc_inv E s ns live R" and c: "c \<in># live" "b = payload c"
    by (auto simp: alloc_inv_def)
  from payload_facts [OF inv c(1)] c(2) show "fits b \<and> fst b \<noteq> 0"
    by (auto simp: block_ok_def intro: fits_inside simp: payload_def)
next
  fix s L n p s' assume "alloc_inv E s L" and run: "sc_malloc E n s = (Inr p, s')" and p: "p \<noteq> 0"
  then obtain ns live R where inv: "malloc_inv E s ns live R" and L: "L = image_mset payload live"
    by (auto simp: alloc_inv_def)
  from run inv show "alloc_inv E s' (add_mset (p, usable s' p) L) \<and> n \<le> usable s' p"
  proof (cases rule: sc_malloc_InrD)
    case fresh
    then obtain ns' b R' where b: "p = fst b + 16" "malloc_inv E s' ns' (add_mset b live) R'"
      "unat n + 24 \<le> unat (snd b)" unfolding malloc_new_def by blast
    have us: "usable s' p = snd b - 24" using payload_facts(4) [OF b(2), of b] b(1) by simp
    have "unat (snd b - 24) = unat (snd b) - 24" using b(3) by (subst unat_sub) (auto simp: word_le_nat_alt)
    then have "n \<le> usable s' p" using b(3) us by (simp add: word_le_nat_alt)
    moreover have "add_mset (p, usable s' p) L = image_mset payload (add_mset b live)"
      using us by (simp add: L b(1) payload_def)
    ultimately show ?thesis using b(2) unfolding alloc_inv_def by blast
  qed (use p in simp)
next
  fix s L n s' assume "alloc_inv E s L" and run: "sc_malloc E n s = (Inr 0, s')"
  then obtain ns live R where inv: "malloc_inv E s ns live R" and L: "L = image_mset payload live"
    by (auto simp: alloc_inv_def)
  from run inv show "alloc_inv E s' L"
    by (cases rule: sc_malloc_InrD) (use L in \<open>auto simp: alloc_inv_def malloc_new_def\<close>)
next
  fix s L n p s' b x assume "alloc_inv E s L" and run: "sc_malloc E n s = (Inr p, s')" and b: "b \<in># L" and x: "in_block x b"
  then obtain ns live R c where inv: "malloc_inv E s ns live R" and c: "c \<in># live" "b = payload c"
    by (auto simp: alloc_inv_def)
  have "in_block x c" using x c payload_facts(3) [OF inv c(1)] by (auto intro: in_block_inside)
  with run inv show "mem s' x = mem s x" using c
    by (cases rule: sc_malloc_InrD) (auto simp: malloc_new_def)
next
  fix s b L assume "alloc_inv E s (add_mset b L)"
  then obtain ns live0 R where inv0: "malloc_inv E s ns live0 R" and L0: "image_mset payload live0 = add_mset b L"
    by (auto simp: alloc_inv_def)
  from msed_map_invR [OF L0] obtain c live where live: "live0 = add_mset c live" "payload c = b" "image_mset payload live = L"
    by auto
  note inv = inv0 [unfolded live]
  from sc_free_ok [OF inv] obtain s' where run: "sc_free (fst c + 16) s = (Inr (), s')"
    and inv': "malloc_inv E s' (fst c # ns) live R" and same: "same_outside c (mem s) (mem s')" by blast
  have "mem s' x = mem s x" if "d \<in># L" "in_block x d" for d x
  proof -
    from that live obtain e where e: "e \<in># live" "d = payload e" by auto
    have "in_block x e" using that e payload_facts(3) [OF inv, of e] by (auto intro: in_block_inside)
    moreover have "apart e c" using inv e(1) by (auto simp: malloc_inv_def dest: heap_wf_live(5))
    ultimately have "\<not> in_block x c" by (auto simp: in_block_def apart_def)
    with same show ?thesis by (simp add: same_outside_def)
  qed
  moreover have "alloc_inv E s' L" using inv' live(3) unfolding alloc_inv_def by blast
  moreover have "fst b = fst c + 16" using live(2) by (auto simp: payload_def)
  ultimately show "\<exists>s'. sc_free (fst b) s = (Inr (), s') \<and> alloc_inv E s' L \<and>
      (\<forall>c \<in># L. \<forall>x. in_block x c \<longrightarrow> mem s' x = mem s x)"
    using run by metis
next
  fix s L b m assume "alloc_inv E s L" "b \<in># L" "same_outside b (mem s) m"
  then show "alloc_inv E (s\<lparr>mem := m\<rparr>) L" using heap_write by (auto simp: alloc_inv_def) blast
qed simp

lemma malloc_room_mmap:
  assumes "malloc_room E s n" and pg: "page_ok E" and n: "0 < n" "unat (getpagesize E) dvd unat n"
  shows "\<exists>p s'. malloc_pages E n (lock_exclusive LMalloc s) = (Inr p, s') \<and> p \<noteq> MAP_FAILED"
proof -
  from assms(1) obtain l act q rsv f g fre where l: "find (\<lambda>l. l_sc l = root_addr s) (locals s) = Some l"
    and tr: "os_ftruncate E (l_shm_file l) (tmpfile_size (rt s) + n)"
    and core: "region_core E s act (q # rsv) (f # g # fre)" and len: "n < r_len (the (regs s q))"
    and lq: "lock_query_ok E" "0 \<le> heldX (lk s) LRoot" "cleanupLog (rt s) = 0"
    unfolding malloc_room_def by blast
  let ?s = "lock_exclusive LMalloc s"
  have lists: "region_lists ?s act (q # rsv) (f # g # fre)"
    using core by (simp add: region_core_def region_lists_def)
  have "malloc_pages E n ?s = (Inr (r_vaddr (the (regs ?s q))), mmap_done n (PROT_READ OR PROT_WRITE) ?s)"
    by (rule sc_mmap_eq [OF lists, where l = l]) (use l tr len lq n in \<open>simp_all add: lock_simps word_mod_dvd\<close>)
  moreover have "r_vaddr (the (regs ?s q)) \<noteq> MAP_FAILED"
    using core page_ok_not_MAP_FAILED [OF pg] by (auto simp: region_core_def range_ok_def)
  ultimately show ?thesis by blast
qed

section \<open>Properties\<close>

lemma demo_heap: "malloc_inv demo_env demo_st [] {#} {#(0x1000, 0x1000), (0x2000, 0x2000)#}"
  using demo_active by (simp add: malloc_inv_def heap_wf_def)

lemma malloc_new_nonnull: "malloc_new E sz s live R p s' \<Longrightarrow> p \<noteq> 0"
  by (auto simp: malloc_new_def)

lemma sc_malloc_enough:
  assumes inv: "malloc_inv E s ns live R" and sz: "0 \<le> sint sz"
    and "(\<exists>a \<in> set ns. malloc_fits (malloc_alloc_size sz) (malloc_alloc_size sz + 24) (mem s) a) \<or>
         malloc_room E s (malloc_mmap_size E (malloc_alloc_size sz + 24))"
  shows "\<exists>p s'. sc_malloc E sz s = (Inr p, s') \<and> malloc_new E sz s live R p s'"
proof (cases "\<exists>a \<in> set ns. malloc_fits (malloc_alloc_size sz) (malloc_alloc_size sz + 24) (mem s) a")
  case True
  then show ?thesis by (rule sc_malloc_fit [OF inv sz])
next
  case False
  let ?n = "malloc_mmap_size E (malloc_alloc_size sz + 24)"
  from False assms(3) have room: "malloc_room E s ?n" by blast
  have pg: "page_ok E" using inv by (simp add: malloc_inv_def active_inv_def)
  have "unat (malloc_alloc_size sz + 24) + 2 ^ 31 < 2 ^ 64" "0 < unat (malloc_alloc_size sz + 24)"
    using alloc_size_bounds [OF sz] sz by (auto simp: unat_off sint_nonneg_unat)
  from malloc_room_mmap [OF room pg] mmap_size_value [OF pg this] obtain p s1 where
    r: "malloc_pages E ?n (lock_exclusive LMalloc s) = (Inr p, s1)" "p \<noteq> MAP_FAILED" by blast
  show ?thesis by (rule sc_malloc_nofit(3) [OF inv sz]) (use False r in auto)
qed

lemma demo_room: "malloc_room demo_env demo_st (malloc_mmap_size demo_env (malloc_split_size (malloc_alloc_size 100)))"
  unfolding malloc_room_def
  by (intro conjI exI [of _ demo_local] exI [of _ "[0x1100, 0x1140]"] exI [of _ "0x1180"] exI [of _ "[]"]
      exI [of _ "0x11c0"] exI [of _ "0x1200"] exI [of _ "[0x1240]"] demo_core demo_env_ok demo_local_find)
    (simp_all add: demo_regs_def demo_region_def malloc_mmap_size_def malloc_split_size_def malloc_alloc_size_def)

lemma demo_malloc:
  "\<exists>p s'. sc_malloc demo_env 100 demo_st = (Inr p, s') \<and> p \<noteq> 0 \<and>
     malloc_new demo_env 100 demo_st {#} {#(0x1000, 0x1000), (0x2000, 0x2000)#} p s'"
proof -
  have "0 \<le> sint (100 :: u64)" by (simp add: sint_nonneg_unat)
  from sc_malloc_enough [OF demo_heap this] demo_room show ?thesis
    unfolding malloc_split_size_def sizeof_listNode_def using malloc_new_nonnull by blast
qed

lemma demo_mmap_page: "fst (malloc_pages demo_env 0x1000 (lock_exclusive LMalloc demo_st)) = Inr 0x100000"
proof -
  have "region_lists (lock_exclusive LMalloc demo_st) [0x1100, 0x1140] [0x1180] [0x11c0, 0x1200, 0x1240]"
    using demo_lists by (simp add: region_lists_def)
  from sc_mmap_eq [OF this, where l = demo_local] show ?thesis
    using demo_env_ok(1) by (simp add: heldX_def demo_regs_def demo_region_def)
qed

text \<open>C34: The size arithmetic of \<^verbatim>\<open>sc_malloc\<close> does not wrap for any size that passes its assert: the
  buffer size is a multiple of 8 with room for the header, the request and the footer and less than
  8 bytes of slack, and the number of bytes asked of \<^verbatim>\<open>sc_mmap\<close> is a whole number of pages that
  holds the buffer and one more list node.\<close>

theorem sc_malloc_sizes:
  assumes "0 \<le> sint sz" and "page_ok E"
  shows "unat sz + 24 \<le> unat (malloc_alloc_size sz) \<and> unat (malloc_alloc_size sz) < unat sz + 32 \<and>
     8 dvd unat (malloc_alloc_size sz) \<and>
     unat (malloc_split_size (malloc_alloc_size sz)) = unat (malloc_alloc_size sz) + 24 \<and>
     malloc_split_size (malloc_alloc_size sz) \<le> malloc_mmap_size E (malloc_split_size (malloc_alloc_size sz)) \<and>
     unat (getpagesize E) dvd unat (malloc_mmap_size E (malloc_split_size (malloc_alloc_size sz)))"
proof -
  note A = alloc_size_bounds [OF assms(1)]
  have sp: "unat (malloc_split_size (malloc_alloc_size sz)) = unat (malloc_alloc_size sz) + 24"
    using A(5) by (simp add: malloc_split_size_def unat_off)
  have "unat (malloc_split_size (malloc_alloc_size sz)) + 2 ^ 31 < 2 ^ 64"
    using A(2) assms(1) by (simp add: sp sint_nonneg_unat)
  from mmap_size_value [OF assms(2) this] show ?thesis using A sp by (simp add: word_le_nat_alt)
qed

theorem sc_malloc_sizes_witness:
  "unat (malloc_alloc_size 100) < 132 \<and> 8 dvd unat (malloc_alloc_size 100)"
  using sc_malloc_sizes [of 100 demo_env] by (simp add: demo_env_ok sint_nonneg_unat)

text \<open>C5: When \<^verbatim>\<open>sc_malloc\<close> returns a buffer on a well-formed heap, the heap is well formed again with
  that buffer added to the allocated ones: it is 8-aligned, has intact header and footer, holds at
  least the requested size, and shares no byte with a free or allocated buffer. No byte of an
  allocated buffer changes. When it returns NULL, the heap is as before. Either way the allocator's
  lock is released.\<close>

theorem sc_malloc_correct:
  assumes "malloc_inv E s ns live R" and "sc_malloc E sz s = (Inr p, s')"
  shows "heldX (lk s') LMalloc = heldX (lk s) LMalloc \<and>
     (if p = 0 then malloc_inv E s' ns live R \<and> mem s' = mem s
      else \<exists>ns' b R'. p = fst b + 16 \<and> malloc_inv E s' ns' (add_mset b live) R' \<and> R \<subseteq># R' \<and>
             block_ok b \<and> intact (mem s') b \<and> unat sz + 24 \<le> unat (snd b) \<and>
             (\<forall>c \<in># live. apart b c) \<and> (\<forall>x \<in> set ns'. apart b (blk (mem s') x)) \<and>
             (\<forall>c \<in># live. \<forall>x. in_block x c \<longrightarrow> mem s' x = mem s x))"
  using assms(2,1)
proof (cases rule: sc_malloc_InrD)
  case fresh
  then obtain ns' b R' where b: "p = fst b + 16" "p \<noteq> 0" "malloc_inv E s' ns' (add_mset b live) R'" "R \<subseteq># R'"
    "unat sz + 24 \<le> unat (snd b)" "\<forall>c \<in># live. \<forall>x. in_block x c \<longrightarrow> mem s' x = mem s x"
    "heldX (lk s') LMalloc = heldX (lk s) LMalloc" unfolding malloc_new_def by blast
  from b(3) have "heap_wf (mem s') (freeList s') ns' (add_mset b live)" by (simp add: malloc_inv_def)
  note L = heap_wf_live [OF this]
  have "\<forall>c \<in># live. apart b c" "\<forall>x \<in> set ns'. apart b (blk (mem s') x)"
    using L(4,5) by (auto simp: apart_sym [of b])
  with b L(1,2) show ?thesis unfolding if_not_P [OF b(2)] by blast
qed simp

theorem sc_malloc_correct_witness:
  "\<exists>p s' b. sc_malloc demo_env 100 demo_st = (Inr p, s') \<and> p \<noteq> 0 \<and> p = fst b + 16 \<and> intact (mem s') b \<and>
     100 + 24 \<le> unat (snd b)"
proof -
  from demo_malloc obtain p s' where run: "sc_malloc demo_env 100 demo_st = (Inr p, s')" and "p \<noteq> 0" by blast
  with sc_malloc_correct [OF demo_heap run] show ?thesis by auto
qed

text \<open>C23: \<^verbatim>\<open>sc_malloc\<close> returns a buffer whenever a free buffer fits or the first reserved region has
  room for the pages it asks for; in particular its search of the free list ends and none of its
  asserts fails.\<close>

theorem sc_malloc_returns:
  assumes "malloc_inv E s ns live R" and "0 \<le> sint sz"
    and "(\<exists>a \<in> set ns. malloc_fits (malloc_alloc_size sz) (malloc_split_size (malloc_alloc_size sz)) (mem s) a) \<or>
         malloc_room E s (malloc_mmap_size E (malloc_split_size (malloc_alloc_size sz)))"
  shows "\<exists>p s'. sc_malloc E sz s = (Inr p, s') \<and> p \<noteq> 0"
  using sc_malloc_enough [OF assms(1,2)] assms(3) by (auto simp: malloc_new_def malloc_split_size_def)

theorem sc_malloc_returns_witness: "\<exists>p s'. sc_malloc demo_env 100 demo_st = (Inr p, s') \<and> p \<noteq> 0"
  using sc_malloc_returns [OF demo_heap, of 100] demo_room by (simp add: sint_nonneg_unat)

text \<open>C33: The only ways in which \<^verbatim>\<open>sc_malloc\<close> can fail to return on a well-formed heap are a negative
  size and a failure inside \<^verbatim>\<open>sc_mmap\<close>: no assert of its own after the first can fail, and no loop
  runs forever.\<close>

theorem sc_malloc_only_fails_in_sc_mmap:
  assumes "malloc_inv E s ns live R" and "fst (sc_malloc E sz s) = Inl e"
  shows "(sint sz < 0 \<and> e = AssertFail 1232) \<or>
     fst (sc_mmap E 0 (malloc_mmap_size E (malloc_split_size (malloc_alloc_size sz))) (PROT_READ OR PROT_WRITE)
       (MAP_PRIVATE OR MAP_ANONYMOUS) (- 1) 0 (lock_exclusive LMalloc s)) = Inl e"
proof (cases "0 \<le> sint sz")
  case False
  with assms(2) show ?thesis by (simp add: sc_malloc_def)
next
  case True
  let ?al = "malloc_alloc_size sz"
  have nofit: "\<forall>a \<in> set ns. \<not> malloc_fits ?al (?al + 24) (mem s) a"
    using sc_malloc_fit [OF assms(1) True] assms(2) by fastforce
  let ?r = "malloc_pages E (malloc_mmap_size E (?al + 24)) (lock_exclusive LMalloc s)"
  note N = sc_malloc_nofit [OF assms(1) True nofit]
  show ?thesis
  proof (cases "fst ?r")
    case (Inl d)
    with N(1) [OF Inl] assms(2) show ?thesis by (simp add: malloc_split_size_def)
  next
    case (Inr buf)
    with N(2) N(3) [OF Inr] assms(2) show ?thesis by (cases "buf = MAP_FAILED") auto
  qed
qed

theorem sc_malloc_only_fails_in_sc_mmap_witness:
  "fst (sc_malloc demo_env (- 1) demo_st) = Inl (AssertFail 1232)"
proof -
  obtain e where e: "fst (sc_malloc demo_env (- 1) demo_st) = Inl e" by (simp add: sc_malloc_def)
  moreover have "fst (sc_mmap demo_env 0 (malloc_mmap_size demo_env (malloc_split_size (malloc_alloc_size (- 1))))
     (PROT_READ OR PROT_WRITE) (MAP_PRIVATE OR MAP_ANONYMOUS) (- 1) 0 (lock_exclusive LMalloc demo_st)) = Inr 0x100000"
    using demo_mmap_page by (simp add: malloc_mmap_size_def malloc_split_size_def malloc_alloc_size_def)
  ultimately show ?thesis using sc_malloc_only_fails_in_sc_mmap [OF demo_heap e] by auto
qed

text \<open>C20: \<^verbatim>\<open>sc_free\<close> of an allocated buffer always succeeds: the buffer becomes the first free one, the
  heap stays well formed, no byte outside the buffer changes and the lock is released.\<close>

theorem sc_free_correct:
  assumes "malloc_inv E s ns (add_mset b live) R"
  shows "\<exists>s'. sc_free (fst b + 16) s = (Inr (), s') \<and> malloc_inv E s' (fst b # ns) live R \<and>
     blk (mem s') (fst b) = b \<and> (\<forall>x. \<not> in_block x b \<longrightarrow> mem s' x = mem s x) \<and>
     heldX (lk s') LMalloc = heldX (lk s) LMalloc"
proof -
  from sc_free_ok [OF assms] obtain s' where run: "sc_free (fst b + 16) s = (Inr (), s')"
    and inv: "malloc_inv E s' (fst b # ns) live R" and same: "same_outside b (mem s) (mem s')"
    and lk': "lk s' = lk s @ [LkExcl LMalloc, UnExcl LMalloc]" by blast
  have "intact (mem s) b" using payload_facts(2) [OF assms, of b] by simp
  with run have "blk (mem s') (fst b) = b"
    using node_at_block [of b] payload_facts(1) [OF assms, of b]
    by (auto simp: sc_free_def Let_def blk_def intact_def set_mem_def log_lock_def split: if_splits)
  with run inv same lk' show ?thesis by (auto simp: same_outside_def lock_simps)
qed

theorem sc_free_correct_witness:
  "\<exists>p s' s''. sc_malloc demo_env 100 demo_st = (Inr p, s') \<and> p \<noteq> 0 \<and> sc_free p s' = (Inr (), s'')"
proof -
  from demo_malloc obtain p s' where run: "sc_malloc demo_env 100 demo_st = (Inr p, s')" and p: "p \<noteq> 0"
    and "malloc_new demo_env 100 demo_st {#} {#(0x1000, 0x1000), (0x2000, 0x2000)#} p s'" by blast
  then obtain ns b R where b: "p = fst b + 16" "malloc_inv demo_env s' ns (add_mset b {#}) R"
    unfolding malloc_new_def by blast
  from sc_free_correct [OF b(2)] run p b(1) show ?thesis by blast
qed

text \<open>C24: A client that writes past the end of its buffer is caught when the buffer is freed: if any of
  the eight bytes after the usable part has changed and the header has not, \<^verbatim>\<open>sc_free\<close> exits with
  status 3 and the free list is untouched.\<close>

theorem sc_free_detects_overflow:
  assumes "malloc_inv E s ns (add_mset b live) R"
    and "\<forall>i < 16. m (fst b + of_nat i) = mem s (fst b + of_nat i)"
    and "i < 8" and "m (fst b + snd b - 8 + of_nat i) \<noteq> mem s (fst b + snd b - 8 + of_nat i)"
  shows "sc_free (fst b + 16) (s\<lparr>mem := m\<rparr>) = (Inl (Exit 3), s\<lparr>mem := m\<rparr>)"
proof -
  have i: "intact (mem s) b" and ok: "block_ok b" using payload_facts [OF assms(1), of b] by auto
  have "m (fst b + 8 + of_nat k) = mem s (fst b + 8 + of_nat k)" if "k < 8" for k
    using assms(2) [rule_format, of "k + 8"] that by (simp add: ac_simps)
  then have h: "load64 m (fst b) = load64 (mem s) (fst b)" "load64 m (fst b + 8) = load64 (mem s) (fst b + 8)"
    using assms(2) by (auto intro!: load64_cong)
  have "load64 m (fst b + snd b - 8) \<noteq> load64 (mem s) (fst b + snd b - 8)"
    using load64_differs [OF _ assms(3)] assms(4) by blast
  moreover have "(fst b + 16) mod 8 = 0"
    using ok block_ok_fields(2) [OF ok] by (simp add: word_mod_dvd block_ok_def)
  ultimately show ?thesis using i h by (simp add: sc_free_def Let_def intact_def)
qed

theorem sc_free_detects_overflow_witness:
  "\<exists>p s' a. sc_malloc demo_env 100 demo_st = (Inr p, s') \<and> p \<noteq> 0 \<and>
     fst (sc_free p (s'\<lparr>mem := (mem s')(a := mem s' a + 1)\<rparr>)) = Inl (Exit 3)"
proof -
  from demo_malloc obtain p s' where run: "sc_malloc demo_env 100 demo_st = (Inr p, s')" and p: "p \<noteq> 0"
    and "malloc_new demo_env 100 demo_st {#} {#(0x1000, 0x1000), (0x2000, 0x2000)#} p s'" by blast
  then obtain ns b R where b: "p = fst b + 16" "malloc_inv demo_env s' ns (add_mset b {#}) R"
    unfolding malloc_new_def by blast
  let ?a = "fst b + snd b - 8" and ?m = "(mem s')(fst b + snd b - 8 := mem s' (fst b + snd b - 8) + 1)"
  have ok: "block_ok b" using payload_facts [OF b(2), of b] by auto
  have "fst b + of_nat i \<noteq> ?a" if "i < 16" for i
  proof -
    have "unat (fst b + of_nat i) = unat (fst b) + i"
      using that block_ok_fields [OF ok] by (intro unat_add_fits) simp
    moreover have "unat ?a = unat (fst b) + unat (snd b) - 8" by (rule footer_addr [OF ok])
    ultimately have "unat (fst b + of_nat i) < unat ?a" using that block_ok_fields(3) [OF ok] by linarith
    then show ?thesis by (metis less_irrefl)
  qed
  then have "fst (sc_free p (s'\<lparr>mem := ?m\<rparr>)) = Inl (Exit 3)"
    using sc_free_detects_overflow [OF b(2), of ?m 0] by (simp add: b(1))
  with run p show ?thesis by blast
qed

text \<open>C6: Across any sequence of allocations, frees and writes to other buffers, the heap stays well
  formed and every byte of every buffer that is neither freed nor written keeps its value.\<close>

theorem sc_heap_keeps_buffers:
  assumes "alloc_inv E s (K + L)"
    and "heap_run (sc_malloc E) sc_free usable mem (\<lambda>m s. s\<lparr>mem := m\<rparr>) s L t M"
  shows "alloc_inv E t (K + M) \<and> apart_all (K + M) \<and>
     (\<forall>c \<in># K. \<forall>x. in_block x c \<longrightarrow> mem t x = mem s x)"
  using sc_heap.run_keeps [OF assms(2,1)] sc_heap.live_apart by blast

theorem sc_heap_keeps_buffers_witness:
  "\<exists>p t u m. sc_malloc demo_env 100 demo_st = (Inr p, t) \<and> m p = 42 \<and>
     sc_free p (t\<lparr>mem := m\<rparr>) = (Inr (), u) \<and> alloc_inv demo_env u ({#} + {#})"
proof -
  from demo_malloc obtain p t where run: "sc_malloc demo_env 100 demo_st = (Inr p, t)" and p: "p \<noteq> 0" by blast
  let ?R = "heap_run (sc_malloc demo_env) sc_free usable mem (\<lambda>m s. s\<lparr>mem := m\<rparr>) demo_st {#}"
  let ?m = "(mem t)(p := 42)" and ?b = "(p, usable t p)"
  have inv: "alloc_inv demo_env demo_st {#}" using demo_heap by (auto simp: alloc_inv_def)
  have us: "alloc_inv demo_env t {#?b#}" "100 \<le> usable t p" using sc_heap.alloc_ok [OF inv run p] by auto
  have 1: "?R t {#?b#}"
    by (rule heap_run.alloc [where t = demo_st and n = 100]) (simp_all add: heap_run.start run p)
  have w: "same_outside ?b (mem t) ?m"
    using us(2) by (auto simp: same_outside_def in_block_def word_le_nat_alt)
  have 2: "?R (t\<lparr>mem := ?m\<rparr>) {#?b#}" by (rule heap_run.overwrite [OF 1 _ w]) simp
  from sc_heap.put_ok [OF us(1) _ w] obtain u where free: "sc_free p (t\<lparr>mem := ?m\<rparr>) = (Inr (), u)"
    using sc_heap.release_ok [of demo_env "t\<lparr>mem := ?m\<rparr>" ?b "{#}"] by auto
  have 3: "?R u {#}" by (rule heap_run.release [of _ _ _ _ _ _ _ _ ?b, OF 2]) (simp add: free)
  have inv0: "alloc_inv demo_env demo_st ({#} + {#})" using inv by simp
  from sc_heap_keeps_buffers [OF inv0 3] run free show ?thesis
    by (intro exI [of _ p] exI [of _ t] exI [of _ u] exI [of _ ?m]) simp
qed

end
