(* ===== verification/SC_Process.thy ===== *)
theory SC_Process
  imports SC_Malloc
begin

text \<open>
  The process list of a subcontext: the struct a process prepares for its successor
  (\<^verbatim>\<open>scInit_setup_procListEntry\<close>) and what a dying process does (\<^verbatim>\<open>sc_killLocalProc\<close>, called by
  \<^verbatim>\<open>sc_signal_handler_INT\<close> and by the fault handler) of \<^verbatim>\<open>trunk/subcontexts_core.c\<close>.

  A process may have several subcontexts mapped. The model has the shared memory of one of them; the
  entries of \<open>locals\<close> for the others are passed over by \<open>kill_all\<close>.
\<close>

section \<open>Definitions\<close>

definition put_proc :: "u64 \<Rightarrow> sc_process \<Rightarrow> st \<Rightarrow> st" where
  "put_proc p r s = s\<lparr>procs := (procs s)(p \<mapsto> r)\<rparr>"

definition scInit_setup_procListEntry :: "env \<Rightarrow> st \<Rightarrow> (int, st) res" where
  "scInit_setup_procListEntry E =
     call (sc_malloc E (sizeof_sc_process E)) (\<lambda>nextProc s.
       if nextProc = 0 then (Inl (Todo 763), s)
       else
         let s = lock_init (LProc nextProc) s;
             s = put_proc nextProc \<lparr>p_next = 0, p_state = SUBCONTEXTS_PROC_STATE_PREALLOC, p_pid = 0\<rparr> s;
             s = lock_exclusive LRoot s
         in guard [(774, prealloc_proc (rt s) = 0)] (\<lambda>s.
              let s = upd_rt (\<lambda>c. c\<lparr>prealloc_proc := nextProc\<rparr>) s
              in (Inr 0, unlock_exclusive LRoot s)) s)"

text \<open>\<^verbatim>\<open>prevProc\<close> points at \<^verbatim>\<open>proc_list\<close> of the root struct or at the \<^verbatim>\<open>next\<close> field of a process struct.\<close>

datatype pslot = ProcListHead | ProcNext u64

definition write_pslot :: "pslot \<Rightarrow> u64 \<Rightarrow> st \<Rightarrow> st" where
  "write_pslot p v s =
     (case p of ProcListHead \<Rightarrow> upd_rt (\<lambda>c. c\<lparr>proc_list := v\<rparr>) s
              | ProcNext a \<Rightarrow> s\<lparr>procs := proc_set_next (procs s) a v\<rparr>)"

text \<open>The walk of lines 1158 to 1174: the lock held at its end, the pointer that leads to the struct
  found, and the struct itself or NULL.\<close>

partial_function (option) kill_walk ::
    "(u64 \<rightharpoonup> sc_process) \<Rightarrow> u32 \<Rightarrow> lock_id \<Rightarrow> pslot \<Rightarrow> u64 \<Rightarrow> lock_ev list \<Rightarrow>
     ((trap + lock_id \<times> pslot \<times> u64) \<times> lock_ev list) option" where
  "kill_walk m myPid prevLock prevProc curProc tr =
     (if curProc = 0 then Some (Inr (prevLock, prevProc, 0), tr)
      else case m curProc of
        None \<Rightarrow> Some (Inl Segv, tr)
      | Some r \<Rightarrow>
          if p_pid r = myPid
          then Some (Inr (LProc curProc, prevProc, curProc), tr @ [LkExcl (LProc curProc), UnExcl prevLock])
          else kill_walk m myPid (LProc curProc) (ProcNext curProc) (p_next r)
                 (tr @ [LkExcl (LProc curProc), UnExcl prevLock]))"

text \<open>
  The body of the loop of \<^verbatim>\<open>sc_killLocalProc\<close> for one subcontext (lines 1131 to 1184). While cleanup
  log entries are outstanding it waits for the background thread of its own process; the thread
  itself makes no progress there, which is the value \<open>Diverge\<close>.
\<close>

definition kill_one :: "sc_local \<Rightarrow> st \<Rightarrow> (unit, st) res" where
  "kill_one l s =
     (let s = lock_exclusive LRoot s in
      if l_flushPoint l \<noteq> cleanupLog_lastSeqNum (rt s) then
        guard [(1139, l_flushPoint l < cleanupLog_lastSeqNum (rt s))] (\<lambda>s. (Inl Diverge, s)) s
      else
        let s = upd_rt (\<lambda>c. c\<lparr>proc_count := proc_count c - 1\<rparr>) s in
        loops (kill_walk (procs s) (pid s) LRoot ProcListHead (proc_list (rt s)) []) (\<lambda>(found, tr) s.
          let s = s\<lparr>lk := lk s @ tr\<rparr> in
          case found of
            Inl e \<Rightarrow> (Inl e, s)
          | Inr (prevLock, prevProc, curProc) \<Rightarrow>
              if curProc = 0 then (Inr (), unlock_exclusive prevLock s)
              else
                deref (procs s curProc) (\<lambda>r s.
                  let s = write_pslot prevProc (p_next r) s;
                      s = unlock_exclusive prevLock s
                  in call (sc_free curProc) (\<lambda>_ s.
                       (Inr (), s\<lparr>procs := (procs s)(curProc := None)\<rparr>)) s) s) s)"

fun kill_all :: "sc_local list \<Rightarrow> st \<Rightarrow> (unit, st) res" where
  "kill_all [] s = (Inl (Exit (- 1)), s)"
| "kill_all (l # ls) s =
     (if l_sc l = root_addr s then call (kill_one l) (\<lambda>_. kill_all ls) s else kill_all ls s)"

definition sc_killLocalProc :: "st \<Rightarrow> (unit, st) res" where
  "sc_killLocalProc s = kill_all (locals s) (lock_shared LLocalList s)"

definition SIGINT :: u32 where "SIGINT = 2"

definition sc_signal_handler_INT :: "u32 \<Rightarrow> u32 \<Rightarrow> st \<Rightarrow> (unit, st) res" where
  "sc_signal_handler_INT signum si_signo =
     guard [(1089, signum = SIGINT), (1090, si_signo = SIGINT)] sc_killLocalProc"

text \<open>The process list visits the structs \<open>ps\<close>.\<close>

definition proc_chain :: "st \<Rightarrow> u64 list \<Rightarrow> bool" where
  "proc_chain s ps \<longleftrightarrow> chain (proc_next (procs s)) (proc_list (rt s)) ps 0 \<and> set ps \<subseteq> dom (procs s)"

definition walk_pid :: "(u64 \<rightharpoonup> sc_process) \<Rightarrow> u64 \<Rightarrow> u32" where
  "walk_pid m a = p_pid (the (m a))"

definition pslot_of :: "pslot \<Rightarrow> u64 list \<Rightarrow> pslot" where
  "pslot_of p xs = (if xs = [] then p else ProcNext (last xs))"

definition plock_of :: "lock_id \<Rightarrow> u64 list \<Rightarrow> lock_id" where
  "plock_of k xs = (if xs = [] then k else LProc (last xs))"

text \<open>\<open>keeps s s'\<close>: what the allocator and the page source leave alone. Of the root struct they change
  only the fields that \<open>rt_rest\<close> masks.\<close>

definition rt_rest :: "sc \<Rightarrow> sc" where
  "rt_rest c = c\<lparr>tmpfile_size := 0, free_structs := 0, active_regionsTail := 0\<rparr>"

definition keeps :: "st \<Rightarrow> st \<Rightarrow> bool" where
  "keeps s s' \<longleftrightarrow> procs s' = procs s \<and> steps s' = steps s \<and> locals s' = locals s \<and> root_addr s' = root_addr s \<and>
     vmap s' = vmap s \<and> pid s' = pid s \<and> priv s' = priv s \<and> prev_vaddr s' = prev_vaddr s \<and> curSc s' = curSc s \<and>
     rt_rest (rt s') = rt_rest (rt s) \<and>
     heldX (lk s') LRoot = heldX (lk s) LRoot \<and> heldX (lk s') LMalloc = heldX (lk s) LMalloc"

definition mem_only :: "st \<Rightarrow> st \<Rightarrow> bool" where
  "mem_only s s' \<longleftrightarrow> (\<exists>m f. s' = s\<lparr>mem := m, freeList := f\<rparr>)"

text \<open>A subcontext with one allocated buffer, which holds the process struct of process 7; the struct of
  process 9 follows it on the list.\<close>

definition demo_live_st :: st where
  "demo_live_st = demo_st\<lparr>mem := store64 (store64 (store64 (\<lambda>_. 0) 0x2000 64) (0x2000 + 8) SUBCONTEXTS_MALLOC_HEAD_MAGIC)
      (0x2000 + 64 - 8) SUBCONTEXTS_MALLOC_FOOT_MAGIC\<rparr>"

definition demo_proc_st :: st where
  "demo_proc_st = demo_live_st\<lparr>
     procs := [0x2010 \<mapsto> \<lparr>p_next = 0x9000, p_state = SUBCONTEXTS_PROC_STATE_ALIVE, p_pid = 7\<rparr>,
               0x9000 \<mapsto> \<lparr>p_next = 0, p_state = SUBCONTEXTS_PROC_STATE_ALIVE, p_pid = 9\<rparr>],
     rt := demo_root\<lparr>proc_list := 0x2010, proc_count := 2\<rparr>\<rparr>"

section \<open>Lemmas\<close>

lemma put_proc_simps [simp]:
  "rt (put_proc p r s) = rt s" "procs (put_proc p r s) = (procs s)(p \<mapsto> r)" "regs (put_proc p r s) = regs s"
  "mem (put_proc p r s) = mem s" "freeList (put_proc p r s) = freeList s" "lk (put_proc p r s) = lk s"
  by (simp_all add: put_proc_def)

lemma proc_next_Some: "m a = Some r \<Longrightarrow> proc_next m a = p_next r"
  by (simp add: proc_next_def)

lemma kill_walk_found:
  assumes "chain (proc_next m) p (xs @ a # ys) 0" and "set (xs @ [a]) \<subseteq> dom m"
    and "\<forall>x \<in> set xs. walk_pid m x \<noteq> me" and "walk_pid m a = me"
  shows "\<exists>tr'. kill_walk m me k sl p tr = Some (Inr (LProc a, pslot_of sl xs, a), tr @ tr') \<and>
     (\<forall>base l. heldX (base @ tr') l = heldX base l + (if l = LProc a then 1 else 0) - (if l = k then 1 else 0))"
  using assms
proof (induction xs arbitrary: p k sl tr)
  case Nil
  then obtain r where "m a = Some r" by auto
  with Nil show ?case
    by (subst kill_walk.simps) (auto simp: walk_pid_def pslot_of_def lock_simps)
next
  case (Cons x xs)
  then obtain r where r: "m x = Some r" by auto
  have c: "chain (proc_next m) (p_next r) (xs @ a # ys) 0" "p = x" "x \<noteq> 0"
    using Cons.prems(1) r by (auto simp: proc_next_Some)
  from Cons.IH [OF c(1), of "LProc x" "ProcNext x" "tr @ [LkExcl (LProc x), UnExcl k]"] Cons.prems(2-4)
  obtain tr' where IH: "kill_walk m me (LProc x) (ProcNext x) (p_next r) (tr @ [LkExcl (LProc x), UnExcl k]) =
      Some (Inr (LProc a, pslot_of (ProcNext x) xs, a), (tr @ [LkExcl (LProc x), UnExcl k]) @ tr')"
    and held: "\<And>base l. heldX (base @ tr') l = heldX base l + (if l = LProc a then 1 else 0) - (if l = LProc x then 1 else 0)"
    by auto
  have "p_pid r \<noteq> me" using Cons.prems(3) r by (auto simp: walk_pid_def)
  then have "kill_walk m me k sl p tr = Some (Inr (LProc a, pslot_of sl (x # xs), a), tr @ ([LkExcl (LProc x), UnExcl k] @ tr'))"
    using c r IH by (subst kill_walk.simps) (simp add: pslot_of_def)
  moreover have "heldX (base @ [LkExcl (LProc x), UnExcl k] @ tr') l =
      heldX base l + (if l = LProc a then 1 else 0) - (if l = k then 1 else 0)" for base l
    using held [of "base @ [LkExcl (LProc x), UnExcl k]" l] by (auto simp: lock_simps)
  ultimately show ?case by blast
qed

lemma kill_walk_missing:
  assumes "chain (proc_next m) p xs 0" and "set xs \<subseteq> dom m" and "\<forall>x \<in> set xs. walk_pid m x \<noteq> me"
  shows "\<exists>tr'. kill_walk m me k sl p tr = Some (Inr (plock_of k xs, pslot_of sl xs, 0), tr @ tr') \<and>
     (\<forall>base l. heldX (base @ tr') l = heldX base l + (if l = plock_of k xs then 1 else 0) - (if l = k then 1 else 0))"
  using assms
proof (induction xs arbitrary: p k sl tr)
  case Nil
  then show ?case by (subst kill_walk.simps) (auto simp: plock_of_def pslot_of_def)
next
  case (Cons x xs)
  then obtain r where r: "m x = Some r" by auto
  have c: "chain (proc_next m) (p_next r) xs 0" "p = x" "x \<noteq> 0"
    using Cons.prems(1) r by (auto simp: proc_next_Some)
  from Cons.IH [OF c(1), of "LProc x" "ProcNext x" "tr @ [LkExcl (LProc x), UnExcl k]"] Cons.prems(2,3)
  obtain tr' where IH: "kill_walk m me (LProc x) (ProcNext x) (p_next r) (tr @ [LkExcl (LProc x), UnExcl k]) =
      Some (Inr (plock_of (LProc x) xs, pslot_of (ProcNext x) xs, 0), (tr @ [LkExcl (LProc x), UnExcl k]) @ tr')"
    and held: "\<And>base l. heldX (base @ tr') l = heldX base l + (if l = plock_of (LProc x) xs then 1 else 0) - (if l = LProc x then 1 else 0)"
    by auto
  have "p_pid r \<noteq> me" using Cons.prems(3) r by (auto simp: walk_pid_def)
  then have "kill_walk m me k sl p tr = Some (Inr (plock_of k (x # xs), pslot_of sl (x # xs), 0), tr @ ([LkExcl (LProc x), UnExcl k] @ tr'))"
    using c r IH by (subst kill_walk.simps) (simp add: pslot_of_def plock_of_def)
  moreover have "heldX (base @ [LkExcl (LProc x), UnExcl k] @ tr') l =
      heldX base l + (if l = plock_of k (x # xs) then 1 else 0) - (if l = k then 1 else 0)" for base l
    using held [of "base @ [LkExcl (LProc x), UnExcl k]" l] by (auto simp: lock_simps plock_of_def)
  ultimately show ?case by blast
qed

lemma write_pslot_simps [simp]:
  "regs (write_pslot p v s) = regs s" "mem (write_pslot p v s) = mem s" "freeList (write_pslot p v s) = freeList s"
  "lk (write_pslot p v s) = lk s" "locals (write_pslot p v s) = locals s" "root_addr (write_pslot p v s) = root_addr s"
  by (simp_all add: write_pslot_def split: pslot.split)

lemma active_inv_rt:
  assumes "regs s' = regs s" and "active_regions (rt s') = active_regions (rt s)"
    "active_regionsTail (rt s') = active_regionsTail (rt s)" "reserved_regions (rt s') = reserved_regions (rt s)"
    "free_structs (rt s') = free_structs (rt s)"
  shows "active_inv E s' R = active_inv E s R"
  using assms by (simp add: active_inv_def region_core_def region_lists_def)

lemma alloc_inv_rt:
  assumes "regs s' = regs s" and "active_regions (rt s') = active_regions (rt s)"
    "active_regionsTail (rt s') = active_regionsTail (rt s)" "reserved_regions (rt s') = reserved_regions (rt s)"
    "free_structs (rt s') = free_structs (rt s)" and "mem s' = mem s" "freeList s' = freeList s"
  shows "alloc_inv E s' L = alloc_inv E s L"
  using assms active_inv_rt [OF assms(1-5)] by (simp add: alloc_inv_def malloc_inv_def)

lemma write_pslot_rt:
  "active_regions (rt (write_pslot p v s)) = active_regions (rt s)"
  "active_regionsTail (rt (write_pslot p v s)) = active_regionsTail (rt s)"
  "reserved_regions (rt (write_pslot p v s)) = reserved_regions (rt s)"
  "free_structs (rt (write_pslot p v s)) = free_structs (rt s)"
  "proc_count (rt (write_pslot p v s)) = proc_count (rt s)"
  by (simp_all add: write_pslot_def split: pslot.split)

lemma walk_pid_upd: "walk_pid (m(a := v)) x = (if x = a then p_pid (the v) else walk_pid m x)"
  by (simp add: walk_pid_def)

lemma write_pslot_walk: "walk_pid (procs (write_pslot p v s)) x = walk_pid (procs s) x"
  by (auto simp: write_pslot_def walk_pid_def proc_set_next_def split: pslot.split option.split)

text \<open>Taking the struct at \<open>a\<close> out of the list.\<close>

lemma unlink_pslot:
  assumes "proc_chain s (xs @ a # ys)" and r: "procs s a = Some r"
  shows "proc_chain (write_pslot (pslot_of ProcListHead xs) (p_next r) s) (xs @ ys)"
    "dom (procs (write_pslot (pslot_of ProcListHead xs) (p_next r) s)) = dom (procs s)"
proof -
  have c: "chain (proc_next (procs s)) (proc_list (rt s)) (xs @ a # ys) 0" and d: "set (xs @ a # ys) \<subseteq> dom (procs s)"
    using assms(1) by (auto simp: proc_chain_def)
  have n: "proc_next (procs s) a = p_next r" by (simp add: proc_next_def r)
  let ?s = "write_pslot (pslot_of ProcListHead xs) (p_next r) s"
  have *: "chain (proc_next (procs ?s)) (proc_list (rt ?s)) (xs @ ys) 0 \<and> dom (procs ?s) = dom (procs s)"
  proof (cases xs rule: rev_cases)
    case Nil
    with c n show ?thesis by (simp add: pslot_of_def write_pslot_def)
  next
    case (snoc zs t)
    have "distinct (zs @ t # a # ys)" using chain_distinct [OF c] snoc by simp
    then have "chain (proc_next (proc_set_next (procs s) t (proc_next (procs s) a))) (proc_list (rt s)) (zs @ t # ys) 0"
      using c d snoc by (intro proc_list.unlink) auto
    moreover have "dom (proc_set_next (procs s) t v) = dom (procs s)" for v
      using d snoc by (auto simp: proc_set_next_def split: option.splits)
    ultimately show ?thesis using snoc by (simp add: pslot_of_def write_pslot_def n)
  qed
  then show "proc_chain ?s (xs @ ys)" using d by (auto simp: proc_chain_def)
  from * show "dom (procs ?s) = dom (procs s)" ..
qed

lemma proc_chain_forget:
  assumes "proc_chain s ps" and "a \<notin> set ps" and "procs s' = (procs s)(a := None)" "proc_list (rt s') = proc_list (rt s)"
  shows "proc_chain s' ps"
proof -
  have "chain (proc_next (procs s')) (proc_list (rt s)) ps 0 = chain (proc_next (procs s)) (proc_list (rt s)) ps 0"
    using assms(2,3) by (intro chain_cong) (auto simp: proc_next_def)
  with assms show ?thesis by (auto simp: proc_chain_def)
qed

lemma sc_free_frame:
  assumes "sc_free p s = (Inr u, s')"
  shows "rt s' = rt s" "procs s' = procs s" "regs s' = regs s" "steps s' = steps s"
    "locals s' = locals s" "root_addr s' = root_addr s" "vmap s' = vmap s" "pid s' = pid s"
    "\<And>l. l \<noteq> LMalloc \<Longrightarrow> heldX (lk s') l = heldX (lk s) l"
    "heldX (lk s') LMalloc = heldX (lk s) LMalloc"
  using assms by (auto simp: sc_free_def Let_def set_mem_def lock_simps split: if_splits)

lemma kill_one_found:
  assumes pc: "proc_chain s (xs @ a # ys)" and me: "walk_pid (procs s) a = pid s" "\<forall>x \<in> set xs. walk_pid (procs s) x \<noteq> pid s"
    and fl: "l_flushPoint l = cleanupLog_lastSeqNum (rt s)" and inv: "alloc_inv E s (add_mset (a, n) L)"
  shows "\<exists>s'. kill_one l s = (Inr (), s') \<and> proc_chain s' (xs @ ys) \<and> procs s' a = None \<and>
     proc_count (rt s') = proc_count (rt s) - 1 \<and> alloc_inv E s' L \<and> locals s' = locals s \<and>
     root_addr s' = root_addr s \<and> vmap s' = vmap s \<and> regs s' = regs s \<and> steps s' = steps s \<and>
     (\<forall>x. x \<noteq> a \<longrightarrow> walk_pid (procs s') x = walk_pid (procs s) x \<and> (x \<in> dom (procs s') \<longleftrightarrow> x \<in> dom (procs s))) \<and>
     same_in L (mem s) (mem s') \<and>
     rt s' = (rt s)\<lparr>proc_count := proc_count (rt s) - 1, proc_list := proc_list (rt s')\<rparr> \<and>
     (\<forall>k. heldX (lk s') k = heldX (lk s) k)"
proof -
  have c: "chain (proc_next (procs s)) (proc_list (rt s)) (xs @ a # ys) 0" and d: "set (xs @ a # ys) \<subseteq> dom (procs s)"
    using pc by (auto simp: proc_chain_def)
  then obtain r where r: "procs s a = Some r" and a0: "a \<noteq> 0" by (auto dest: chain_nonnull)
  define s1 where "s1 = upd_rt (\<lambda>c. c\<lparr>proc_count := proc_count c - 1\<rparr>) (lock_exclusive LRoot s)"
  from kill_walk_found [OF c, of "pid s" LRoot ProcListHead "[]"] me d obtain tr where
    walk: "kill_walk (procs s) (pid s) LRoot ProcListHead (proc_list (rt s)) [] =
       Some (Inr (LProc a, pslot_of ProcListHead xs, a), tr)"
    and held: "\<And>base l. heldX (base @ tr) l = heldX base l + (if l = LProc a then 1 else 0) - (if l = LRoot then 1 else 0)"
    by auto
  define s2 where "s2 = s1\<lparr>lk := lk s1 @ tr\<rparr>"
  define s3 where "s3 = unlock_exclusive (LProc a) (write_pslot (pslot_of ProcListHead xs) (p_next r) s2)"
  have pc2: "proc_chain s2 (xs @ a # ys)" using pc by (simp add: proc_chain_def s1_def s2_def)
  have r2: "procs s2 a = Some r" using r by (simp add: s1_def s2_def)
  note U = unlink_pslot [OF pc2 r2]
  have "alloc_inv E s3 (add_mset (a, n) L) = alloc_inv E s (add_mset (a, n) L)"
    by (rule alloc_inv_rt) (simp_all add: s1_def s2_def s3_def write_pslot_rt)
  with inv have "alloc_inv E s3 (add_mset (a, n) L)" by simp
  from sc_heap.release_ok [OF this] obtain s4 where free: "sc_free a s3 = (Inr (), s4)" and inv4: "alloc_inv E s4 L"
    and same4: "same_in L (mem s3) (mem s4)" by (auto simp: same_in_def)
  note F = sc_free_frame [OF free]
  define s' where "s' = s4\<lparr>procs := (procs s4)(a := None)\<rparr>"
  have "kill_one l s = (Inr (), s')"
    using fl walk a0 r2 free by (simp add: kill_one_def Let_def s'_def s1_def s2_def s3_def)
  moreover have "a \<notin> set (xs @ ys)" using chain_distinct [OF c] by auto
  then have "proc_chain s' (xs @ ys)"
    by (intro proc_chain_forget [OF U(1), of a]) (simp_all add: s'_def F(1,2) s3_def)
  moreover have "alloc_inv E s' L" using inv4 alloc_inv_rt [of s' s4] by (simp add: s'_def)
  moreover have "heldX (lk s') k = heldX (lk s) k" for k
  proof -
    have lk3: "lk s3 = ((lk s @ [LkExcl LRoot]) @ tr) @ [UnExcl (LProc a)]"
      by (simp add: s3_def s2_def s1_def)
    have "heldX (lk s3) k = heldX ((lk s @ [LkExcl LRoot]) @ tr) k - (if k = LProc a then 1 else 0)"
      unfolding lk3 by (subst heldX_append) simp
    also have "\<dots> = heldX (lk s @ [LkExcl LRoot]) k - (if k = LRoot then 1 else 0)"
      unfolding held by simp
    also have "\<dots> = heldX (lk s) k" by (subst heldX_append) simp
    finally have "heldX (lk s3) k = heldX (lk s) k" .
    moreover have "heldX (lk s') k = heldX (lk s3) k"
      using F(9,10) by (cases "k = LMalloc") (simp_all add: s'_def)
    ultimately show ?thesis by simp
  qed
  moreover have "same_in L (mem s) (mem s')"
    using same4 by (simp add: s'_def s3_def s2_def s1_def write_pslot_rt)
  moreover have "rt s4 = rt s3" "locals s' = locals s" "root_addr s' = root_addr s" "vmap s' = vmap s" "regs s' = regs s"
      "steps s' = steps s"
    by (simp_all add: s'_def F(1-8) s3_def s2_def s1_def write_pslot_def split: pslot.split)
  moreover have "rt s' = (rt s)\<lparr>proc_count := proc_count (rt s) - 1, proc_list := proc_list (rt s')\<rparr>"
    by (simp add: s'_def F(1) s3_def s2_def s1_def write_pslot_def split: pslot.split)
  moreover have "walk_pid (procs s') x = walk_pid (procs s) x \<and> (x \<in> dom (procs s') \<longleftrightarrow> x \<in> dom (procs s))" if "x \<noteq> a" for x
    using that U(2) by (auto simp: s'_def F(2) s3_def s2_def s1_def write_pslot_walk walk_pid_upd)
  ultimately show ?thesis by (auto simp: s'_def s3_def write_pslot_rt) (auto simp: s2_def s1_def)
qed

lemma keeps_refl [simp]: "keeps s s"
  by (simp add: keeps_def)

lemma keeps_trans: "keeps s t \<Longrightarrow> keeps t u \<Longrightarrow> keeps s u"
  by (simp add: keeps_def)

lemma keeps_rt:
  assumes "keeps s s'"
  shows "proc_list (rt s') = proc_list (rt s)" "proc_count (rt s') = proc_count (rt s)"
    "prealloc_proc (rt s') = prealloc_proc (rt s)" "pending_reservation (rt s') = pending_reservation (rt s)"
    "cleanupLog (rt s') = cleanupLog (rt s)" "cleanupLog_tail (rt s') = cleanupLog_tail (rt s)"
    "cleanupLog_lastSeqNum (rt s') = cleanupLog_lastSeqNum (rt s)"
    "reserved_regions (rt s') = reserved_regions (rt s)" "active_regions (rt s') = active_regions (rt s)"
proof -
  have e: "rt_rest (rt s') = rt_rest (rt s)" using assms by (simp add: keeps_def)
  show "proc_list (rt s') = proc_list (rt s)" "proc_count (rt s') = proc_count (rt s)"
    "prealloc_proc (rt s') = prealloc_proc (rt s)" "pending_reservation (rt s') = pending_reservation (rt s)"
    "cleanupLog (rt s') = cleanupLog (rt s)" "cleanupLog_tail (rt s') = cleanupLog_tail (rt s)"
    "cleanupLog_lastSeqNum (rt s') = cleanupLog_lastSeqNum (rt s)"
    "reserved_regions (rt s') = reserved_regions (rt s)" "active_regions (rt s') = active_regions (rt s)"
    using e [THEN arg_cong, of proc_list] e [THEN arg_cong, of proc_count] e [THEN arg_cong, of prealloc_proc]
      e [THEN arg_cong, of pending_reservation] e [THEN arg_cong, of cleanupLog] e [THEN arg_cong, of cleanupLog_tail]
      e [THEN arg_cong, of cleanupLog_lastSeqNum] e [THEN arg_cong, of reserved_regions] e [THEN arg_cong, of active_regions]
    by (simp_all add: rt_rest_def)
qed

lemma sc_mmap_carve_keeps:
  assumes "sc_mmap_carve region n prot s = (Inr p, s')"
  shows "procs s' = procs s \<and> steps s' = steps s \<and> locals s' = locals s \<and> root_addr s' = root_addr s \<and>
     vmap s' = vmap s \<and> pid s' = pid s \<and> priv s' = priv s \<and> prev_vaddr s' = prev_vaddr s \<and> curSc s' = curSc s \<and>
     rt s' = (rt s)\<lparr>active_regionsTail := region\<rparr> \<and>
     heldX (lk s') LRoot = heldX (lk s) LRoot - 1 \<and> heldX (lk s') LMalloc = heldX (lk s) LMalloc"
  using assms by (auto simp: sc_mmap_carve_def Let_def deref_def lock_simps split: if_splits option.splits)

lemma sc_mmap_keeps:
  assumes "sc_mmap E addr n prot flags fd off s = (Inr p, s')"
  shows "keeps s s'"
proof -
  from guard_InrD [OF assms [unfolded sc_mmap_def]] have b: "sc_mmap_body E n prot s = (Inr p, s')" by blast
  show ?thesis
    using b
    by (auto simp: sc_mmap_body_def lookupScLocal_eq Let_def sys_ftruncate_def lock_simps keeps_def rt_rest_def
        split: option.splits if_splits elim!: call_InrE dest!: getFreeRegion_InrD sc_mmap_carve_keeps)
qed

lemma mem_only_simps [simp]: "mem_only s s" "mem_only s (set_mem f s)" "mem_only s (write_slot p v s)"
  "mem_only s (malloc_split_tail al sp a s)"
proof -
  show r: "mem_only s s" unfolding mem_only_def by (intro exI [of _ "mem s"] exI [of _ "freeList s"]) simp
  show m: "mem_only s (set_mem f s)" for f
    unfolding mem_only_def set_mem_def by (intro exI [of _ "f (mem s)"] exI [of _ "freeList s"]) simp
  show "mem_only s (write_slot p v s)"
  proof (cases p)
    case FreeListHead
    then show ?thesis unfolding mem_only_def write_slot_def by (intro exI [of _ "mem s"] exI [of _ v]) simp
  next
    case (NextField a)
    then show ?thesis using m by (simp add: write_slot_def)
  qed
  show "mem_only s (malloc_split_tail al sp a s)" using r m by (simp add: malloc_split_tail_def)
qed

lemma mem_only_trans: "mem_only s t \<Longrightarrow> mem_only t u \<Longrightarrow> mem_only s u"
  by (auto simp: mem_only_def) (intro exI, rule refl)

lemma mem_only_keeps: "mem_only s s' \<Longrightarrow> keeps s s'"
  by (auto simp: mem_only_def keeps_def)

lemma malloc_take_mem:
  assumes "malloc_take pv a s = (Inr p, s')"
  shows "\<exists>t. mem_only s t \<and> s' = unlock_exclusive LMalloc t"
proof -
  let ?n = "node_len (mem s) a"
  let ?t = "set_mem (\<lambda>m. store64 m (a + ?n - sizeof_footer) SUBCONTEXTS_MALLOC_FOOT_MAGIC)
    (set_mem (\<lambda>m. store64 m (a + 8) SUBCONTEXTS_MALLOC_HEAD_MAGIC) (set_mem (\<lambda>m. store64 m a ?n)
     (write_slot pv (node_next (mem s) a) s)))"
  have "mem_only s ?t" by (meson mem_only_simps mem_only_trans)
  moreover have "s' = unlock_exclusive LMalloc ?t"
    using assms by (auto simp: malloc_take_def Let_def split: if_splits)
  ultimately show ?thesis by blast
qed

lemma malloc_carve_mem:
  assumes "malloc_carve al sp pv a s = (Inr p, s')"
  shows "\<exists>t. mem_only s t \<and> s' = unlock_exclusive LMalloc t"
proof -
  from guard_InrD [OF assms [unfolded malloc_carve_def]] obtain pv1 a1 s1 where
    sp: "malloc_split_pages sp pv a s = (Inr (pv1, a1), s1)"
    and rest: "guard [(1383, read_slot pv1 s1 = a1), (1384, node_pages (mem s1) a1 = 0),
                 (1385, node_len (mem s1) a1 \<ge> al)] (\<lambda>s.
            let s = malloc_split_tail al sp a1 s in
            guard [(1406, read_slot pv1 s = a1), (1407, node_pages (mem s) a1 = 0),
                   (1408, node_len (mem s) a1 \<ge> al), (1409, node_len (mem s) a1 < sp)]
              (malloc_take pv1 a1) s) s1 = (Inr p, s')"
    by (auto elim!: call_InrE split: prod.splits)
  have "mem_only s s1" using sp by (auto simp: malloc_split_pages_def split: if_splits)
  moreover have "mem_only s1 (malloc_split_tail al sp a1 s1)" by simp
  moreover from guard_InrD [OF rest] have "malloc_take pv1 a1 (malloc_split_tail al sp a1 s1) = (Inr p, s')"
    unfolding Let_def by (elim conjE) (drule guard_InrD, elim conjE)
  ultimately show ?thesis using malloc_take_mem mem_only_trans by metis
qed

lemma sc_malloc_keeps:
  assumes "sc_malloc E sz s = (Inr p, s')"
  shows "keeps s s'"
proof -
  have lk: "keeps s (unlock_exclusive LMalloc t)" if "keeps (lock_exclusive LMalloc s) t" for t
    using that by (auto simp: keeps_def lock_simps)
  from guard_InrD [OF assms [unfolded sc_malloc_def]] obtain pv a where
    "(if a = 0 then call (malloc_grow E (malloc_split_size (malloc_alloc_size sz))) (\<lambda>buf s.
          if buf = 0 then (Inr 0, unlock_exclusive LMalloc s)
          else malloc_carve (malloc_alloc_size sz) (malloc_split_size (malloc_alloc_size sz)) FreeListHead buf s)
          (lock_exclusive LMalloc s)
      else malloc_carve (malloc_alloc_size sz) (malloc_split_size (malloc_alloc_size sz)) pv a
          (lock_exclusive LMalloc s)) = (Inr p, s')"
    by (auto simp: Let_def loops_def split: if_splits option.splits)
  then show ?thesis
  proof (cases "a = 0")
    case False
    with \<open>(if a = 0 then _ else _) = _\<close> show ?thesis using malloc_carve_mem mem_only_keeps lk by metis
  next
    case True
    with \<open>(if a = 0 then _ else _) = _\<close> obtain buf s1 where
      grow: "malloc_grow E (malloc_split_size (malloc_alloc_size sz)) (lock_exclusive LMalloc s) = (Inr buf, s1)"
      and rest: "(if buf = 0 then (Inr 0, unlock_exclusive LMalloc s1)
          else malloc_carve (malloc_alloc_size sz) (malloc_split_size (malloc_alloc_size sz)) FreeListHead buf s1) = (Inr p, s')"
      by (auto elim: call_InrE)
    have k1: "keeps (lock_exclusive LMalloc s) s1"
      using grow unfolding malloc_grow_def Let_def
      by (auto elim!: call_InrE dest!: sc_mmap_keeps split: if_splits simp: keeps_def set_mem_def)
    show ?thesis
    proof (cases "buf = 0")
      case False
      with rest have "malloc_carve (malloc_alloc_size sz) (malloc_split_size (malloc_alloc_size sz))
        FreeListHead buf s1 = (Inr p, s')" by simp
      from malloc_carve_mem [OF this] obtain t where "mem_only s1 t" "s' = unlock_exclusive LMalloc t" by blast
      with k1 show ?thesis by (auto intro: lk keeps_trans mem_only_keeps)
    qed (use rest lk k1 in auto)
  qed
qed

section \<open>Properties\<close>

lemma demo_live: "alloc_inv demo_env demo_live_st {#(0x2010, 40)#}"
proof -
  have ok: "block_ok (0x2000, 64)" by (simp add: block_ok_def fits_def)
  have "heap_wf (mem demo_live_st) 0 [] {#(0x2000, 64)#}"
    using ok header_footer(1) [OF ok, of "\<lambda>_. 0"] by (simp add: heap_wf_def demo_live_st_def)
  moreover have "active_inv demo_env demo_live_st {#(0x1000, 0x1000), (0x2000, 0x2000)#}"
    using demo_active active_inv_cong [of demo_live_st demo_st] by (simp add: demo_live_st_def)
  ultimately have "malloc_inv demo_env demo_live_st [] {#(0x2000, 64)#} {#(0x1000, 0x1000), (0x2000, 0x2000)#}"
    by (simp add: malloc_inv_def demo_live_st_def inside_def)
  then show ?thesis unfolding alloc_inv_def
    by (intro exI [of _ "[]"] exI [of _ "{#(0x2000, 64)#}"] exI [of _ "{#(0x1000, 0x1000), (0x2000, 0x2000)#}"])
      (simp add: payload_def)
qed

lemma demo_proc: "alloc_inv demo_env demo_proc_st {#(0x2010, 40)#}" "proc_chain demo_proc_st [0x2010, 0x9000]"
  using demo_live alloc_inv_rt [of demo_proc_st demo_live_st]
  by (simp_all add: demo_proc_st_def demo_live_st_def proc_chain_def proc_next_def)

text \<open>C21: A process that shuts down after it has flushed its cleanup log exits with status -1, after it
  has unlinked exactly its own struct from the process list, decremented \<^verbatim>\<open>proc_count\<close> and freed the
  struct. Every exclusive lock it took is released; only the local list lock stays held, in shared
  mode, as its comment says.\<close>

theorem sc_killLocalProc_correct:
  assumes "locals s = [l]" "l_sc l = root_addr s" and "l_flushPoint l = cleanupLog_lastSeqNum (rt s)"
    and "proc_chain s (xs @ a # ys)" and "walk_pid (procs s) a = pid s" "\<forall>x \<in> set xs. walk_pid (procs s) x \<noteq> pid s"
    and "alloc_inv E s (add_mset (a, n) L)"
  shows "\<exists>s'. sc_killLocalProc s = (Inl (Exit (- 1)), s') \<and> proc_chain s' (xs @ ys) \<and> procs s' a = None \<and>
     proc_count (rt s') = proc_count (rt s) - 1 \<and> alloc_inv E s' L \<and>
     (\<forall>k. heldX (lk s') k = heldX (lk s) k)"
proof -
  let ?s = "lock_shared LLocalList s"
  have "alloc_inv E ?s (add_mset (a, n) L)" using assms(7) alloc_inv_rt [of ?s s] by simp
  moreover have "proc_chain ?s (xs @ a # ys)" using assms(4) by (simp add: proc_chain_def)
  ultimately obtain s' where run: "kill_one l ?s = (Inr (), s')" and s': "proc_chain s' (xs @ ys)" "procs s' a = None"
    "proc_count (rt s') = proc_count (rt s) - 1" "alloc_inv E s' L" "\<forall>k. heldX (lk s') k = heldX (lk ?s) k"
    using kill_one_found [of ?s xs a ys l E n L] assms by auto
  have "sc_killLocalProc s = (Inl (Exit (- 1)), s')"
    using assms(1,2) run by (simp add: sc_killLocalProc_def)
  with s' show ?thesis by (auto simp: lock_simps)
qed

theorem sc_killLocalProc_correct_witness:
  "\<exists>s'. sc_killLocalProc demo_proc_st = (Inl (Exit (- 1)), s') \<and> proc_chain s' [0x9000] \<and>
     proc_count (rt s') = 1 \<and> heldX (lk s') LRoot = 0"
  using sc_killLocalProc_correct [of demo_proc_st demo_local "[]" "0x2010" "[0x9000]" demo_env 40 "{#}"] demo_proc
  by (auto simp: demo_proc_st_def demo_live_st_def walk_pid_def demo_root_def demo_local_def)

text \<open>When the process has no struct on the list, \<^verbatim>\<open>sc_killLocalProc\<close> leaves the list alone but still
  decrements \<^verbatim>\<open>proc_count\<close>; its exclusive locks are released.\<close>

theorem sc_killLocalProc_missing:
  assumes "locals s = [l]" "l_sc l = root_addr s" and "l_flushPoint l = cleanupLog_lastSeqNum (rt s)"
    and "proc_chain s ps" and "\<forall>x \<in> set ps. walk_pid (procs s) x \<noteq> pid s"
  shows "\<exists>s'. sc_killLocalProc s = (Inl (Exit (- 1)), s') \<and> procs s' = procs s \<and>
     rt s' = (rt s)\<lparr>proc_count := proc_count (rt s) - 1\<rparr> \<and> (\<forall>k. heldX (lk s') k = heldX (lk s) k)"
proof -
  have c: "chain (proc_next (procs s)) (proc_list (rt s)) ps 0" "set ps \<subseteq> dom (procs s)"
    using assms(4) by (auto simp: proc_chain_def)
  from kill_walk_missing [OF c assms(5), of LRoot ProcListHead "[]"] obtain tr where
    walk: "kill_walk (procs s) (pid s) LRoot ProcListHead (proc_list (rt s)) [] =
       Some (Inr (plock_of LRoot ps, pslot_of ProcListHead ps, 0), tr)"
    and held: "\<And>base l. heldX (base @ tr) l = heldX base l + (if l = plock_of LRoot ps then 1 else 0) - (if l = LRoot then 1 else 0)"
    by auto
  let ?base = "lk s @ [LkShared LLocalList, LkExcl LRoot]"
  define s' where "s' = s\<lparr>rt := (rt s)\<lparr>proc_count := proc_count (rt s) - 1\<rparr>, lk := (?base @ tr) @ [UnExcl (plock_of LRoot ps)]\<rparr>"
  have "sc_killLocalProc s = (Inl (Exit (- 1)), s')"
    using assms(1-3) walk by (simp add: sc_killLocalProc_def kill_one_def Let_def s'_def log_lock_def upd_rt_def)
  moreover have "heldX (lk s') k = heldX (lk s) k" for k
  proof -
    have lk': "lk s' = (?base @ tr) @ [UnExcl (plock_of LRoot ps)]" by (simp add: s'_def)
    have "heldX (lk s') k = heldX (?base @ tr) k - (if k = plock_of LRoot ps then 1 else 0)"
      unfolding lk' by (subst heldX_append) simp
    also have "\<dots> = heldX ?base k - (if k = LRoot then 1 else 0)" unfolding held by simp
    also have "\<dots> = heldX (lk s) k" by (subst heldX_append) simp
    finally show ?thesis .
  qed
  ultimately show ?thesis by (simp add: s'_def)
qed

theorem sc_killLocalProc_missing_witness:
  "\<exists>s'. sc_killLocalProc demo_st = (Inl (Exit (- 1)), s') \<and> proc_count (rt s') = 0"
  using sc_killLocalProc_missing [of demo_st demo_local "[]"]
  by (auto simp: proc_chain_def demo_root_def demo_local_def)

text \<open>\<^verbatim>\<open>scInit_setup_procListEntry\<close> leaves, as \<^verbatim>\<open>prealloc_proc\<close>, a fresh process struct in the
  preallocated state, in a buffer of its own that holds the struct; the process list is unchanged
  and the root lock released.\<close>

theorem scInit_setup_procListEntry_correct:
  assumes "alloc_inv E s L" and "prealloc_proc (rt s) = 0"
    and "scInit_setup_procListEntry E s = (Inr rc, s')"
  shows "rc = 0 \<and> (\<exists>p n. prealloc_proc (rt s') = p \<and> p \<noteq> 0 \<and> sizeof_sc_process E \<le> n \<and>
     alloc_inv E s' (add_mset (p, n) L) \<and>
     procs s' = (procs s)(p \<mapsto> \<lparr>p_next = 0, p_state = SUBCONTEXTS_PROC_STATE_PREALLOC, p_pid = 0\<rparr>) \<and>
     proc_list (rt s') = proc_list (rt s) \<and> heldX (lk s') LRoot = heldX (lk s) LRoot)"
proof -
  from assms(3) obtain p s1 where run: "sc_malloc E (sizeof_sc_process E) s = (Inr p, s1)"
    and rest: "(if p = 0 then (Inl (Todo 763), s1)
       else
         let s = lock_init (LProc p) s1;
             s = put_proc p \<lparr>p_next = 0, p_state = SUBCONTEXTS_PROC_STATE_PREALLOC, p_pid = 0\<rparr> s;
             s = lock_exclusive LRoot s
         in guard [(774, prealloc_proc (rt s) = 0)] (\<lambda>s.
              let s = upd_rt (\<lambda>c. c\<lparr>prealloc_proc := p\<rparr>) s
              in (Inr 0, unlock_exclusive LRoot s)) s) = (Inr rc, s')"
    unfolding scInit_setup_procListEntry_def by (auto elim: call_InrE)
  note k = sc_malloc_keeps [OF run]
  from rest have p: "p \<noteq> 0" by auto
  from sc_heap.alloc_ok [OF assms(1) run p] have inv: "alloc_inv E s1 (add_mset (p, usable s1 p) L)"
    "sizeof_sc_process E \<le> usable s1 p" by auto
  have s': "rc = 0" "s' = unlock_exclusive LRoot (upd_rt (\<lambda>c. c\<lparr>prealloc_proc := p\<rparr>) (lock_exclusive LRoot
     (put_proc p \<lparr>p_next = 0, p_state = SUBCONTEXTS_PROC_STATE_PREALLOC, p_pid = 0\<rparr> (lock_init (LProc p) s1))))"
    using rest p by (auto simp: Let_def split: if_splits)
  have "alloc_inv E s' (add_mset (p, usable s1 p) L)"
    using inv(1) alloc_inv_rt [of s' s1] by (simp add: s')
  with p inv k keeps_rt [OF k] s' show ?thesis by (auto simp: keeps_def lock_simps)
qed

theorem scInit_setup_procListEntry_correct_witness:
  "\<exists>s'. scInit_setup_procListEntry demo_env demo_st = (Inr 0, s') \<and> prealloc_proc (rt s') \<noteq> 0"
proof -
  have inv: "alloc_inv demo_env demo_st {#}" using demo_heap by (auto simp: alloc_inv_def)
  have room: "malloc_room demo_env demo_st (malloc_mmap_size demo_env (malloc_alloc_size 0x40 + 24))"
    using demo_room by (simp add: malloc_mmap_size_def malloc_split_size_def malloc_alloc_size_def)
  obtain p t where run: "sc_malloc demo_env 0x40 demo_st = (Inr p, t)" "p \<noteq> 0"
    using sc_malloc_enough [OF demo_heap, of "0x40"] room malloc_new_nonnull by (fastforce simp: sint_nonneg_unat)
  have "prealloc_proc (rt t) = 0" using keeps_rt [OF sc_malloc_keeps [OF run(1)]] by (simp add: demo_root_def)
  then obtain s' where "scInit_setup_procListEntry demo_env demo_st = (Inr 0, s')"
    using run by (simp add: scInit_setup_procListEntry_def Let_def)
  with scInit_setup_procListEntry_correct [OF inv _ this] show ?thesis by (auto simp: demo_root_def)
qed

end
