(* ===== verification/SC_Cleanup.thy ===== *)
theory SC_Cleanup
  imports SC_Process
begin

text \<open>
  The cleanup log: proposing a new reserved region (\<^verbatim>\<open>sc_postNewReservation\<close>) and the background
  thread that every process runs to act on the entries of the log (\<^verbatim>\<open>sc_backgroundThread\<close>,
  \<^verbatim>\<open>sc_handleCleanupLogStep\<close>) of \<^verbatim>\<open>trunk/subcontexts_core.c\<close>.

  One turn of the thread's loop is \<open>bg_turn\<close>: find the first entry that the process has not handled
  (\<open>bg_find\<close>), handle and acknowledge it and all that follow (\<open>bg_drain\<close>), and, if this process was
  the last to acknowledge the first entry of the log, retire the entries that everybody has
  acknowledged (\<open>bg_cleanup\<close>). The futex calls only wait and wake; they have no counterpart here.
\<close>

section \<open>Definitions\<close>

definition my_local :: "st \<Rightarrow> sc_local option" where
  "my_local s = find (\<lambda>l. l_sc l = root_addr s) (locals s)"

definition upd_local :: "(sc_local \<Rightarrow> sc_local) \<Rightarrow> st \<Rightarrow> st" where
  "upd_local f s = s\<lparr>locals := map (\<lambda>l. if l_sc l = root_addr s then f l else l) (locals s)\<rparr>"

definition put_step :: "u64 \<Rightarrow> sc_cleanupLogStep \<Rightarrow> st \<Rightarrow> st" where
  "put_step p c s = s\<lparr>steps := (steps s)(p \<mapsto> c)\<rparr>"

definition reserve_req :: "u64 \<Rightarrow> u64 \<Rightarrow> mmap_req" where
  "reserve_req vaddr len = \<lparr>q_addr = vaddr, q_len = len, q_prot = PROT_NONE,
     q_flags = MAP_PRIVATE OR MAP_ANONYMOUS, q_fd = - 1, q_off = 0\<rparr>"

definition sc_handleCleanupLogStep :: "env \<Rightarrow> u64 \<Rightarrow> st \<Rightarrow> (unit, st) res" where
  "sc_handleCleanupLogStep E step s =
     deref (steps s step) (\<lambda>c s.
       if c_op c = SC_CLS_RESERVE_MEMORY then
         if c_len c = 0 then (Inr (), s)
         else
           let (map_p, s) = sys_mmap E (reserve_req (c_vaddr c) (c_len c)) s in
           if map_p = c_vaddr c then
             (Inr (), upd_local (\<lambda>l. l\<lparr>l_recent_vaddr := c_vaddr c, l_recent_len := c_len c\<rparr>) s)
           else
             let s = (if map_p = MAP_FAILED then s else sys_munmap map_p (c_len c) s)
             in (Inl (Todo 2487), s)
       else if c_op c = SC_CLS_RESERVE_MEMORY_ABORT then (Inl (Todo 2492), s)
       else sc_killLocalProc (unlock_shared (LStep step) s)) s"

text \<open>The hops under shared locks of lines 2234 to 2244 and the last one, under an exclusive lock, of
  lines 2246 to 2255.\<close>

fun bg_hops :: "nat \<Rightarrow> u64 \<Rightarrow> st \<Rightarrow> (u64, st) res" where
  "bg_hops 0 curStep s = (Inr curStep, s)"
| "bg_hops (Suc hops) curStep s =
     deref (steps s curStep) (\<lambda>c s.
       guard [(2237, c_next c \<noteq> 0)] (\<lambda>s.
       deref (steps s (c_next c)) (\<lambda>d s.
       guard [(2238, c_seqNum d = c_seqNum c + 1)] (\<lambda>s.
         let s = lock_shared (LStep (c_next c)) s;
             s = unlock_shared (LStep curStep) s
         in bg_hops hops (c_next c) s) s) s) s) s"

definition bg_last_hop :: "u64 \<Rightarrow> u64 \<Rightarrow> st \<Rightarrow> (u64, st) res" where
  "bg_last_hop flushPoint curStep s =
     deref (steps s curStep) (\<lambda>c s.
       guard [(2246, c_seqNum c = flushPoint), (2249, c_next c \<noteq> 0)] (\<lambda>s.
       deref (steps s (c_next c)) (\<lambda>d s.
       guard [(2250, c_seqNum d = c_seqNum c + 1)] (\<lambda>s.
         let s = lock_exclusive (LStep (c_next c)) s;
             s = unlock_shared (LStep curStep) s
         in (Inr (c_next c), s)) s) s) s) s"

text \<open>Leapfrogging from the first entry, which is locked exclusively, to the one wanted (lines 2224 to
  2256).\<close>

definition bg_leap :: "u64 \<Rightarrow> u64 \<Rightarrow> u64 \<Rightarrow> st \<Rightarrow> (u64, st) res" where
  "bg_leap flushPoint seqNum firstStep s =
     (if seqNum < flushPoint + 1 then
        let s = log_lock (Downgrade (LStep firstStep)) s in
        call (bg_hops (unat (flushPoint - seqNum)) firstStep) (bg_last_hop flushPoint) s
      else (Inr firstStep, s))"

text \<open>Lines 2168 to 2258. The result is the entry to start with, or NULL when the wakeup was for
  nothing.\<close>

definition bg_find :: "env \<Rightarrow> st \<Rightarrow> (u64, st) res" where
  "bg_find E s =
     (let s = lock_shared LRoot s in
      deref (my_local s) (\<lambda>l s.
        if cleanupLog_lastSeqNum (rt s) = l_flushPoint l then (Inr 0, unlock_shared LRoot s)
        else
          guard [(2187, l_flushPoint l < cleanupLog_lastSeqNum (rt s)), (2188, cleanupLog (rt s) \<noteq> 0)] (\<lambda>s.
            let firstStep = cleanupLog (rt s);
                s = lock_exclusive (LStep firstStep) s;
                s = unlock_shared LRoot s
            in deref (steps s firstStep) (\<lambda>c s.
                 guard [(2223, c_seqNum c \<le> l_flushPoint l + 1)]
                 (call (bg_leap (l_flushPoint l) (c_seqNum c) firstStep)
                  (\<lambda>curStep s. deref (steps s curStep) (\<lambda>d.
                     guard [(2257, isLock_heldExclusive_byMe E (lk s) (LStep curStep)),
                            (2258, c_seqNum d = l_flushPoint l + 1)] (\<lambda>s. (Inr curStep, s))) s)) s) s) s) s)"

text \<open>Acknowledging one entry and moving on to the next (lines 2276 to 2311): the result is
  \<^verbatim>\<open>needListCleanup\<close> and the next entry or NULL.\<close>

definition bg_ack :: "u64 \<Rightarrow> bool \<Rightarrow> u64 \<Rightarrow> st \<Rightarrow> (bool \<times> u64, st) res" where
  "bg_ack firstStep needListCleanup curStep s =
     deref (steps s curStep) (\<lambda>c.
       guard [(2281, sint (c_ack_count c) < sint (c_ack_targ c))] (\<lambda>s.
         let s = put_step curStep (c\<lparr>c_ack_count := c_ack_count c + 1\<rparr>) s;
             needListCleanup = (needListCleanup \<or> curStep = firstStep \<and> c_ack_count c + 1 = c_ack_targ c)
         in deref (my_local s) (\<lambda>l.
              guard [(2291, c_seqNum c = l_flushPoint l + 1)] (\<lambda>s.
                let s = upd_local (\<lambda>l. l\<lparr>l_flushPoint := l_flushPoint l + 1\<rparr>) s in
                if c_next c = 0 then (Inr (needListCleanup, 0), unlock_exclusive (LStep curStep) s)
                else
                  let s = lock_exclusive (LStep (c_next c)) s;
                      s = unlock_exclusive (LStep curStep) s
                  in (Inr (needListCleanup, c_next c), s))) s)) s"

partial_function (option) bg_drain ::
    "env \<Rightarrow> u64 \<Rightarrow> bool \<Rightarrow> u64 \<Rightarrow> st \<Rightarrow> ((bool, st) res) option" where
  "bg_drain E firstStep needListCleanup curStep s =
     (case sc_handleCleanupLogStep E curStep s of
        (Inl e, s) \<Rightarrow> Some (Inl e, s)
      | (Inr _, s) \<Rightarrow>
          (case bg_ack firstStep needListCleanup curStep s of
             (Inl e, s) \<Rightarrow> Some (Inl e, s)
           | (Inr (needListCleanup, nxt), s) \<Rightarrow>
               if nxt = 0 then Some (Inr needListCleanup, s)
               else bg_drain E firstStep needListCleanup nxt s))"

text \<open>The action that completes an entry (lines 2365 to 2397).\<close>

definition bg_retire :: "sc_cleanupLogStep \<Rightarrow> st \<Rightarrow> (unit, st) res" where
  "bg_retire c s =
     (if c_op c = SC_CLS_RESERVE_MEMORY then
        let pending = pending_reservation (rt s);
            s = upd_rt (\<lambda>c. c\<lparr>pending_reservation := 0\<rparr>) s
        in deref (regs s pending) (\<lambda>r.
             guard [(2372, r_vaddr r = c_vaddr c)] (\<lambda>s.
               if r_len r \<noteq> 0 then
                 guard [(2377, r_len r = c_len c)] (\<lambda>s.
                   let s = put_region pending (r\<lparr>r_next := reserved_regions (rt s)\<rparr>) s
                   in (Inr (), upd_rt (\<lambda>c. c\<lparr>reserved_regions := pending\<rparr>) s)) s
               else (Inl (Todo 2387), s))) s
      else if c_op c = SC_CLS_RESERVE_MEMORY_ABORT then (Inr (), s)
      else (Inl (AssertFail 2396), s))"

definition free_step :: "u64 \<Rightarrow> st \<Rightarrow> (unit, st) res" where
  "free_step p = call (sc_free p) (\<lambda>_ s. (Inr (), s\<lparr>steps := (steps s)(p := None)\<rparr>))"

text \<open>One turn of the loop of lines 2353 to 2440; the result tells whether the loop goes on.\<close>

definition bg_clean_one :: "st \<Rightarrow> (bool, st) res" where
  "bg_clean_one s =
     (let cur = cleanupLog (rt s) in
      deref (steps s cur) (\<lambda>c.
        call (bg_retire c) (\<lambda>_ s.
          if c_next c = 0 then
            let s = upd_rt (\<lambda>r. r\<lparr>cleanupLog := 0, cleanupLog_tail := 0\<rparr>) s;
                s = unlock_exclusive (LStep cur) s
            in call (free_step cur) (\<lambda>_ s. (Inr False, s)) s
          else
            let nxt = c_next c;
                s = lock_exclusive (LStep nxt) s;
                s = upd_rt (\<lambda>r. r\<lparr>cleanupLog := nxt\<rparr>) s;
                s = unlock_exclusive (LStep cur) s
            in call (free_step cur) (\<lambda>_ s.
                 deref (steps s nxt) (\<lambda>d.
                   guard [(2431, sint (c_ack_count d) \<le> sint (c_ack_targ d))] (\<lambda>s.
                     if sint (c_ack_count d) < sint (c_ack_targ d)
                     then (Inr False, unlock_exclusive (LStep nxt) s)
                     else (Inr True, s))) s) s)) s)"

partial_function (option) bg_clean :: "st \<Rightarrow> ((unit, st) res) option" where
  "bg_clean s =
     (case bg_clean_one s of
        (Inl e, s) \<Rightarrow> Some (Inl e, s)
      | (Inr again, s) \<Rightarrow> if again then bg_clean s else Some (Inr (), s))"

definition bg_cleanup :: "st \<Rightarrow> (unit, st) res" where
  "bg_cleanup s =
     (let s = lock_exclusive LRoot s in
      guard [(2341, cleanupLog (rt s) \<noteq> 0), (2342, cleanupLog_tail (rt s) \<noteq> 0)] (\<lambda>s.
        let s = lock_exclusive (LStep (cleanupLog (rt s))) s in
        deref (steps s (cleanupLog (rt s))) (\<lambda>c.
          guard [(2346, c_ack_count c = c_ack_targ c)] (\<lambda>s.
            loops (bg_clean s) (\<lambda>(r, s') _.
              case r of Inl e \<Rightarrow> (Inl e, s') | Inr _ \<Rightarrow> (Inr (), unlock_exclusive LRoot s')) s)) s) s)"

text \<open>The first part of a turn, up to the decision on \<^verbatim>\<open>needListCleanup\<close>, and the whole turn.\<close>

definition bg_flush :: "env \<Rightarrow> st \<Rightarrow> (bool, st) res" where
  "bg_flush E =
     call (bg_find E) (\<lambda>curStep s.
       if curStep = 0 then (Inr False, s)
       else loops (bg_drain E (cleanupLog (rt s)) False curStep s) (\<lambda>r _. r) s)"

definition bg_turn :: "env \<Rightarrow> st \<Rightarrow> (unit, st) res" where
  "bg_turn E =
     call (bg_flush E) (\<lambda>needListCleanup s. if needListCleanup then bg_cleanup s else (Inr (), s))"

text \<open>\<^verbatim>\<open>sc_postNewReservation\<close>, from the mapping of the new range on (lines 2545 to 2654).\<close>

definition post_fill :: "u64 \<Rightarrow> u64 \<Rightarrow> u64 \<Rightarrow> u64 \<Rightarrow> st \<Rightarrow> (int, st) res" where
  "post_fill rng len newReg newStep s =
     (let s = lock_init (LRegion newReg) s;
          s = put_region newReg \<lparr>r_next = 0, r_vaddr = rng, r_len = len, r_prot = ucast PROT_NONE,
                r_permaPin = False, r_tmpfile_offset = - 1\<rparr> s;
          s = upd_rt (\<lambda>c. c\<lparr>pending_reservation := newReg\<rparr>) s;
          s = lock_init (LStep newStep) s;
          s = upd_rt (\<lambda>c. c\<lparr>cleanupLog_lastSeqNum := cleanupLog_lastSeqNum c + 1\<rparr>) s;
          seqNum = cleanupLog_lastSeqNum (rt s);
          s = put_step newStep \<lparr>c_seqNum = seqNum, c_next = 0, c_ack_targ = proc_count (rt s), c_ack_count = 1,
                c_op = SC_CLS_RESERVE_MEMORY, c_vaddr = rng, c_len = len\<rparr> s;
          link = (if cleanupLog (rt s) = 0 then
              guard [(2588, cleanupLog_tail (rt s) = 0)] (\<lambda>s.
                (Inr (), upd_rt (\<lambda>c. c\<lparr>cleanupLog := newStep, cleanupLog_tail := newStep\<rparr>) s))
            else
              guard [(2595, cleanupLog_tail (rt s) \<noteq> 0)] (\<lambda>s.
                let oldTail = cleanupLog_tail (rt s) in
                deref (steps s oldTail) (\<lambda>t s.
                  let s = lock_exclusive (LStep oldTail) s;
                      s = put_step oldTail (t\<lparr>c_next := newStep\<rparr>) s;
                      s = unlock_exclusive (LStep oldTail) s
                  in (Inr (), upd_rt (\<lambda>c. c\<lparr>cleanupLog_tail := newStep\<rparr>) s)) s))
      in call link (\<lambda>_ s.
           deref (my_local s) (\<lambda>l.
             guard [(2622, cleanupLog_lastSeqNum (rt s) = seqNum), (2623, seqNum = l_flushPoint l + 1)] (\<lambda>s.
               (Inr 0, upd_local (\<lambda>l. l\<lparr>l_flushPoint := l_flushPoint l + 1\<rparr>) s))) s) s)"

definition sc_postNewReservation :: "env \<Rightarrow> u64 \<Rightarrow> st \<Rightarrow> (int, st) res" where
  "sc_postNewReservation E pages s =
     guard [(2508, isLock_heldExclusive_byMe E (lk s) LRoot), (2509, pending_reservation (rt s) = 0),
            (2511, 0 < pages), (2514, 1 < sint (proc_count (rt s)))] (\<lambda>s.
       deref (my_local s) (\<lambda>l s.
         if l_flushPoint l \<noteq> cleanupLog_lastSeqNum (rt s) then (Inl (Todo 2526), s)
         else
           call (sc_getFreeRegion E) (\<lambda>newReg s.
             if newReg = 0 then (Inr 1, s)
             else
               call (sc_malloc E (sizeof_sc_cleanupLogStep E)) (\<lambda>newStep s.
                 if newStep = 0 then (Inr 2, s)
                 else
                   let (rng, s) = sys_mmap E (reserve_req 0 (pages * getpagesize E)) s in
                   if rng = MAP_FAILED then call (sc_free newStep) (\<lambda>_ s. (Inl (Todo 2554), s)) s
                   else post_fill rng (pages * getpagesize E) newReg newStep s) s) s) s) s"

text \<open>The log visits the entries \<open>cs\<close>, whose sequence numbers count up to \<^verbatim>\<open>cleanupLog_lastSeqNum\<close>.\<close>

definition step_seq :: "st \<Rightarrow> u64 \<Rightarrow> nat" where
  "step_seq s a = unat (c_seqNum (the (steps s a)))"

definition log_chain :: "st \<Rightarrow> u64 list \<Rightarrow> bool" where
  "log_chain s cs \<longleftrightarrow> chain (step_next (steps s)) (cleanupLog (rt s)) cs 0 \<and> set cs \<subseteq> dom (steps s) \<and>
     cleanupLog_tail (rt s) = (if cs = [] then 0 else last cs) \<and>
     (\<forall>i < length cs. step_seq s (cs ! i) + length cs = unat (cleanupLog_lastSeqNum (rt s)) + Suc i)"

text \<open>What a record of lock calls changes: \<open>shift tr dx ds\<close> adds \<open>dx\<close> to the exclusive and \<open>ds\<close> to
  the shared holds.\<close>

definition shift :: "lock_ev list \<Rightarrow> (lock_id \<Rightarrow> int) \<Rightarrow> (lock_id \<Rightarrow> int) \<Rightarrow> bool" where
  "shift tr dx ds \<longleftrightarrow> (\<forall>base l. heldX (base @ tr) l = heldX base l + dx l \<and> heldS (base @ tr) l = heldS base l + ds l)"

definition acked :: "sc_cleanupLogStep \<Rightarrow> sc_cleanupLogStep" where
  "acked c = c\<lparr>c_ack_count := c_ack_count c + 1\<rparr>"

text \<open>The kernel maps the range that the entry proposes where it is asked for, in the address space
  \<open>vm\<close>; and the same for each of a list of entries in turn.\<close>

definition reserve_granted :: "env \<Rightarrow> vmem \<Rightarrow> sc_cleanupLogStep \<Rightarrow> bool" where
  "reserve_granted E vm c \<longleftrightarrow> c_op c = SC_CLS_RESERVE_MEMORY \<and>
     (c_len c = 0 \<or> c_vaddr c \<noteq> MAP_FAILED \<and> os_mmap E vm (reserve_req (c_vaddr c) (c_len c)) = c_vaddr c)"

definition reserve_vm :: "vmem \<Rightarrow> sc_cleanupLogStep \<Rightarrow> vmem" where
  "reserve_vm vm c = (if c_len c = 0 then vm else vm_map vm (c_vaddr c) (reserve_req (c_vaddr c) (c_len c)))"

fun all_granted :: "env \<Rightarrow> vmem \<Rightarrow> sc_cleanupLogStep list \<Rightarrow> bool" where
  "all_granted E vm [] = True"
| "all_granted E vm (c # cs) \<longleftrightarrow> reserve_granted E vm c \<and> all_granted E (reserve_vm vm c) cs"

definition step_range :: "sc_cleanupLogStep \<Rightarrow> block" where
  "step_range c = (c_vaddr c, c_len c)"

text \<open>The entries from \<open>cur\<close> on are well formed and not yet acknowledged by everybody.\<close>

definition drainable :: "st \<Rightarrow> u64 \<Rightarrow> u64 list \<Rightarrow> u64 \<Rightarrow> bool" where
  "drainable s cur ds f \<longleftrightarrow> chain (step_next (steps s)) cur ds 0 \<and> ds \<noteq> [] \<and> set ds \<subseteq> dom (steps s) \<and>
     (\<forall>d \<in> set ds. sint (c_ack_count (the (steps s d))) < sint (c_ack_targ (the (steps s d)))) \<and>
     (\<forall>i < length ds. c_seqNum (the (steps s (ds ! i))) = f + 1 + of_nat i)"

text \<open>What flushing the entries \<open>ds\<close> leaves behind.\<close>

definition blocked_page :: mapping where
  "blocked_page = \<lparr>m_prot = PROT_NONE, m_shared = False, m_backing = Anonymous\<rparr>"

definition drained :: "st \<Rightarrow> u64 list \<Rightarrow> st \<Rightarrow> bool" where
  "drained s ds s' \<longleftrightarrow> rt s' = rt s \<and> regs s' = regs s \<and> procs s' = procs s \<and> mem s' = mem s \<and>
     freeList s' = freeList s \<and> root_addr s' = root_addr s \<and> pid s' = pid s \<and> map l_sc (locals s') = map l_sc (locals s) \<and>
     steps s' = (\<lambda>a. if a \<in> set ds then map_option acked (steps s a) else steps s a) \<and>
     (\<forall>d \<in> set ds. \<forall>x. in_block x (step_range (the (steps s d))) \<longrightarrow> vmap s' x \<noteq> None) \<and>
     (\<forall>x. vmap s x \<noteq> None \<longrightarrow> vmap s' x \<noteq> None) \<and> map l_shm_file (locals s') = map l_shm_file (locals s) \<and>
     (\<forall>x. vmap s' x = (if \<exists>d \<in> set ds. in_block x (step_range (the (steps s d))) then Some blocked_page else vmap s x)) \<and>
     map_option l_flushPoint (my_local s') = map_option (\<lambda>l. l_flushPoint l + of_nat (length ds)) (my_local s)"

text \<open>How the region lists grow: an active region stays as it is but for its link, a new one is taken from a
  reserved range, and reserved ranges shrink.\<close>

definition unlinked :: "sc_region \<Rightarrow> sc_region" where
  "unlinked r = r\<lparr>r_next := 0\<rparr>"

definition grown :: "(u64 \<rightharpoonup> sc_region) \<Rightarrow> u64 list \<Rightarrow> u64 list \<Rightarrow> (u64 \<rightharpoonup> sc_region) \<Rightarrow> u64 list \<Rightarrow> u64 list \<Rightarrow> bool" where
  "grown m act rsv m' act' rsv' \<longleftrightarrow>
     set act \<subseteq> set act' \<and> (\<forall>p \<in> set act. map_option unlinked (m' p) = map_option unlinked (m p)) \<and>
     (\<forall>p \<in> set act' - set act. \<exists>r \<in> set rsv. inside (region_range m' p) (region_range m r)) \<and>
     (\<forall>p \<in> set rsv'. p \<in> set rsv \<and> r_prot (the (m' p)) = r_prot (the (m p)) \<and>
        inside (region_range m' p) (region_range m p))"

text \<open>The active regions have pages of the file of their own, which fill it.\<close>

definition file_block :: "(u64 \<rightharpoonup> sc_region) \<Rightarrow> u64 \<Rightarrow> block" where
  "file_block m p = (r_tmpfile_offset (the (m p)), r_len (the (m p)))"

definition laid :: "st \<Rightarrow> u64 list \<Rightarrow> bool" where
  "laid s act \<longleftrightarrow> unat (tmpfile_size (rt s)) = (\<Sum>p \<in> set act. unat (snd (file_block (regs s) p))) \<and>
     (\<forall>p \<in> set act. unat (fst (file_block (regs s) p)) + unat (snd (file_block (regs s) p)) \<le> unat (tmpfile_size (rt s))) \<and>
     (\<forall>p \<in> set act. \<forall>q \<in> set act. p \<noteq> q \<longrightarrow> apart (file_block (regs s) p) (file_block (regs s) q))"

text \<open>How the region lists move: no struct appears or disappears, structs outside the lists are left
  alone, active ranges stay what they are, and every range lies inside an old one.\<close>

definition regions_move :: "env \<Rightarrow> st \<Rightarrow> u64 list \<Rightarrow> u64 list \<Rightarrow> u64 list \<Rightarrow> st \<Rightarrow> u64 list \<Rightarrow> u64 list \<Rightarrow> u64 list \<Rightarrow> bool" where
  "regions_move E s act rsv fre s' act' rsv' fre' \<longleftrightarrow>
     set (act' @ rsv' @ fre') = set (act @ rsv @ fre) \<and>
     (\<forall>q. q \<notin> set (act @ rsv @ fre) \<longrightarrow> regs s' q = regs s q) \<and>
     (\<forall>q \<in> set act. region_range (regs s') q = region_range (regs s) q) \<and> grown (regs s) act rsv (regs s') act' rsv' \<and>
     (\<forall>q \<in> set (act' @ rsv'). \<exists>r \<in> set (act @ rsv). inside (region_range (regs s') q) (region_range (regs s) r)) \<and>
     (file_grows E \<longrightarrow> laid s act \<longrightarrow> laid s' act')"

text \<open>The heap sees of the regions only the active ranges.\<close>

definition heap_in :: "st \<Rightarrow> u64 list \<Rightarrow> block multiset \<Rightarrow> bool" where
  "heap_in s act L \<longleftrightarrow> (\<exists>ns live. heap_wf (mem s) (freeList s) ns live \<and> L = image_mset payload live \<and>
     (\<forall>b \<in># mset (map (blk (mem s)) ns) + live. \<exists>p \<in> set act. inside b (region_range (regs s) p)))"

text \<open>
  Documented behaviour of the kernel: pages are a power of two in size; a mapping of length 0 is
  refused; a mapping requested without \<^verbatim>\<open>MAP_FIXED\<close> is page aligned, does not wrap around and covers
  only addresses that were not mapped.
\<close>

definition kernel_ok :: "env \<Rightarrow> bool" where
  "kernel_ok E \<longleftrightarrow> unat (getpagesize E) dvd 2 ^ 64 \<and>
     (\<forall>vm q. os_mmap E vm q \<noteq> MAP_FAILED \<longrightarrow> 0 < q_len q) \<and>
     (\<forall>vm q. os_mmap E vm q \<noteq> MAP_FAILED \<longrightarrow> q_flags q AND MAP_FIXED = 0 \<longrightarrow>
        os_mmap E vm q \<noteq> 0 \<and> fits (os_mmap E vm q, q_len q) \<and> unat (getpagesize E) dvd unat (os_mmap E vm q) \<and>
        (\<forall>x. in_block x (os_mmap E vm q, q_len q) \<longrightarrow> vm x = None))"

text \<open>The struct at \<open>q\<close> describes a range that is on no list yet.\<close>

definition pending_ok :: "env \<Rightarrow> st \<Rightarrow> u64 list \<Rightarrow> u64 list \<Rightarrow> u64 list \<Rightarrow> u64 \<Rightarrow> bool" where
  "pending_ok E s act rsv fre q \<longleftrightarrow> q \<noteq> 0 \<and> q \<notin> set (act @ rsv @ fre) \<and> q \<in> dom (regs s) \<and> range_ok E (the (regs s q)) \<and>
     (\<forall>p \<in> set (act @ rsv). apart (region_range (regs s) q) (region_range (regs s) p))"

definition all_mapped :: "st \<Rightarrow> u64 list \<Rightarrow> vmem \<Rightarrow> bool" where
  "all_mapped s ps vm \<longleftrightarrow> (\<forall>p \<in> set ps. \<forall>x. in_block x (region_range (regs s) p) \<longrightarrow> vm x \<noteq> None)"

definition post_rt :: "u64 \<Rightarrow> u64 \<Rightarrow> sc \<Rightarrow> sc" where
  "post_rt q c r = r\<lparr>pending_reservation := q, cleanupLog_lastSeqNum := cleanupLog_lastSeqNum r + 1,
     cleanupLog := c, cleanupLog_tail := c\<rparr>"

definition pending_region :: "u64 \<Rightarrow> u64 \<Rightarrow> sc_region" where
  "pending_region a n = \<lparr>r_next = 0, r_vaddr = a, r_len = n, r_prot = 0, r_permaPin = False, r_tmpfile_offset = - 1\<rparr>"

definition new_step :: "st \<Rightarrow> u64 \<Rightarrow> u64 \<Rightarrow> sc_cleanupLogStep" where
  "new_step s a n = \<lparr>c_seqNum = cleanupLog_lastSeqNum (rt s) + 1, c_next = 0, c_ack_targ = proc_count (rt s),
     c_ack_count = 1, c_op = SC_CLS_RESERVE_MEMORY, c_vaddr = a, c_len = n\<rparr>"

definition covers :: "st \<Rightarrow> u64 list \<Rightarrow> st \<Rightarrow> u64 list \<Rightarrow> bool" where
  "covers s ps s' ps' \<longleftrightarrow>
     (\<forall>q \<in> set ps'. \<exists>r \<in> set ps. inside (region_range (regs s') q) (region_range (regs s) r))"

text \<open>What a successful \<^verbatim>\<open>sc_postNewReservation\<close> leaves behind when the log was empty: the new range
  \<open>(a, n)\<close> is pending in the struct \<open>q\<close> and proposed by the only entry \<open>c\<close> of the log.\<close>

definition posted :: "env \<Rightarrow> st \<Rightarrow> u64 list \<Rightarrow> u64 list \<Rightarrow> block multiset \<Rightarrow> st \<Rightarrow> u64 \<Rightarrow> u64 \<Rightarrow> u64 \<Rightarrow> u64 \<Rightarrow> bool" where
  "posted E s act rsv L s' q c a n \<longleftrightarrow>
     (\<exists>act' rsv' fre'. region_core E s' act' rsv' fre' \<and> pending_ok E s' act' rsv' fre' q \<and>
        covers s (act @ rsv) s' (act' @ rsv') \<and> grown (regs s) act rsv (regs s') act' rsv' \<and>
        (file_grows E \<longrightarrow> laid s act \<longrightarrow> laid s' act')) \<and>
     pending_reservation (rt s') = q \<and> regs s' q = Some (pending_region a n) \<and>
     c \<noteq> 0 \<and> cleanupLog (rt s') = c \<and> cleanupLog_tail (rt s') = c \<and>
     cleanupLog_lastSeqNum (rt s') = cleanupLog_lastSeqNum (rt s) + 1 \<and>
     steps s' = (steps s)(c \<mapsto> new_step s a n) \<and> (\<exists>k. alloc_inv E s' (add_mset (c, k) L)) \<and> same_in L (mem s) (mem s') \<and>
     vmap s' = vm_map (vmap s) a (reserve_req 0 n) \<and> procs s' = procs s \<and> proc_list (rt s') = proc_list (rt s) \<and>
     proc_count (rt s') = proc_count (rt s) \<and> root_addr s' = root_addr s \<and> pid s' = pid s \<and>
     rt_rest (rt s') = rt_rest (post_rt q c (rt s)) \<and> map l_sc (locals s') = map l_sc (locals s) \<and>
     region_range (regs s') (active_regions (rt s)) = region_range (regs s) (active_regions (rt s)) \<and>
     (\<exists>l. my_local s = Some l \<and> l_flushPoint l = cleanupLog_lastSeqNum (rt s) \<and>
          my_local s' = Some (l\<lparr>l_flushPoint := l_flushPoint l + 1\<rparr>))"

text \<open>How many entries of the log the process has handled already.\<close>

definition log_pos :: "st \<Rightarrow> u64 \<Rightarrow> u64 list \<Rightarrow> nat" where
  "log_pos s f cs = Suc (unat f) - step_seq s (hd cs)"

text \<open>When everybody has acknowledged the only entry of the log, the cleanup moves the pending range to
  the front of the reserved list, empties the log and frees the entry.\<close>

definition cleaned :: "env \<Rightarrow> st \<Rightarrow> u64 list \<Rightarrow> u64 list \<Rightarrow> u64 list \<Rightarrow> block multiset \<Rightarrow> st \<Rightarrow> bool" where
  "cleaned E s act rsv fre L s' \<longleftrightarrow> (\<forall>p. map_option unlinked (regs s' p) = map_option unlinked (regs s p)) \<and>
     region_core E s' act (pending_reservation (rt s) # rsv) fre \<and>
     (\<forall>p. region_range (regs s') p = region_range (regs s) p) \<and> alloc_inv E s' L \<and> same_in L (mem s) (mem s') \<and>
     rt s' = (rt s)\<lparr>pending_reservation := 0, reserved_regions := pending_reservation (rt s), cleanupLog := 0,
       cleanupLog_tail := 0\<rparr> \<and>
     steps s' = (steps s)(cleanupLog (rt s) := None) \<and> procs s' = procs s \<and> locals s' = locals s \<and>
     root_addr s' = root_addr s \<and> vmap s' = vmap s \<and> pid s' = pid s \<and>
     (\<forall>l. heldX (lk s') l = heldX (lk s) l \<and> heldS (lk s') l = heldS (lk s) l)"

text \<open>The record takes \<open>l\<close> exclusively at a moment when the caller already holds it exclusively.\<close>

fun relocks :: "lock_id \<Rightarrow> int \<Rightarrow> lock_ev list \<Rightarrow> bool" where
  "relocks l n [] = False"
| "relocks l n (e # es) \<longleftrightarrow> (e = LkExcl l \<and> 0 < n) \<or> relocks l (heldX_step l e n) es"

definition kern_env :: env where
  "kern_env = demo_env\<lparr>os_mmap := (\<lambda>vm q.
     if q_len q = 0 then MAP_FAILED
     else if q_flags q AND MAP_FIXED \<noteq> 0 then q_addr q
     else if fits (0x700000, q_len q) \<and> (\<forall>x. in_block x (0x700000, q_len q) \<longrightarrow> vm x = None) then 0x700000
     else MAP_FAILED)\<rparr>"

definition demo_vmap :: vmem where
  "demo_vmap = (\<lambda>x. if x < 0x180000 then Some \<lparr>m_prot = PROT_NONE, m_shared = False, m_backing = Anonymous\<rparr> else None)"

text \<open>Process 7, one of two, holds the root lock; the heap has one free chunk.\<close>

definition demo_post_st :: st where
  "demo_post_st = demo_st\<lparr>rt := demo_root\<lparr>proc_count := 2\<rparr>, mem := store64 (\<lambda>_. 0) 0x2000 0x2000,
     freeList := 0x2000, vmap := demo_vmap, lk := [LkExcl LRoot]\<rparr>"

definition demo_step :: "u64 \<Rightarrow> u64 \<Rightarrow> u32 \<Rightarrow> u32 \<Rightarrow> u64 \<Rightarrow> u64 \<Rightarrow> sc_cleanupLogStep" where
  "demo_step seq nx got targ va n = \<lparr>c_seqNum = seq, c_next = nx, c_ack_targ = targ, c_ack_count = got,
     c_op = SC_CLS_RESERVE_MEMORY, c_vaddr = va, c_len = n\<rparr>"

text \<open>The same with an empty free list.\<close>

definition demo_full_st :: st where
  "demo_full_st = demo_st\<lparr>rt := demo_root\<lparr>proc_count := 2\<rparr>, vmap := demo_vmap, lk := [LkExcl LRoot]\<rparr>"

text \<open>Process 7 has handled the first of two entries.\<close>

definition demo_log_st :: st where
  "demo_log_st = demo_st\<lparr>rt := demo_root\<lparr>proc_count := 3, cleanupLog := 0x9000, cleanupLog_tail := 0xa000, cleanupLog_lastSeqNum := 2\<rparr>,
     steps := [0x9000 \<mapsto> demo_step 1 0xa000 1 3 0x100000 0x1000, 0xa000 \<mapsto> demo_step 2 0 1 3 0x700000 0x2000],
     vmap := demo_vmap, locals := [demo_local\<lparr>l_flushPoint := 1\<rparr>]\<rparr>"

text \<open>Both processes have acknowledged the only entry, which lies in the buffer at 0x2010.\<close>

definition demo_done_st :: st where
  "demo_done_st = demo_live_st\<lparr>
     rt := demo_root\<lparr>proc_count := 2, cleanupLog := 0x2010, cleanupLog_tail := 0x2010, cleanupLog_lastSeqNum := 1,
       pending_reservation := 0x1300\<rparr>,
     regs := demo_regs(0x1300 \<mapsto> demo_region 0 0x700000 0x2000 0 (- 1)),
     steps := [0x2010 \<mapsto> demo_step 1 0 2 2 0x700000 0x2000]\<rparr>"

section \<open>Lemmas\<close>

lemma u64_bound: "unat (a :: u64) < 2 ^ 64"
  using unsigned_less [of a, where 'a = nat] by simp

lemma chain_nth:
  assumes "chain f p cs 0" and "i < length cs"
  shows "cs ! i \<noteq> 0" "f (cs ! i) = (if Suc i < length cs then cs ! Suc i else 0)"
proof -
  from assms(2) have split: "cs = take i cs @ cs ! i # drop (Suc i) cs" by (rule id_take_nth_drop)
  from assms(1) obtain "chain f (cs ! i) (cs ! i # drop (Suc i) cs) 0"
    by (subst (asm) split) (auto simp: chain_append)
  then have c: "cs ! i \<noteq> 0" "chain f (f (cs ! i)) (drop (Suc i) cs) 0" by auto
  then show "cs ! i \<noteq> 0" by blast
  show "f (cs ! i) = (if Suc i < length cs then cs ! Suc i else 0)"
  proof (cases "Suc i < length cs")
    case True
    then have "drop (Suc i) cs = cs ! Suc i # drop (Suc (Suc i)) cs" by (rule Cons_nth_drop_Suc [symmetric])
    with c True show ?thesis by simp
  qed (use c in simp)
qed

lemma log_chain_nth:
  assumes "log_chain s cs" and "i < length cs"
  obtains c where "steps s (cs ! i) = Some c" "cs ! i \<noteq> 0"
    "c_next c = (if Suc i < length cs then cs ! Suc i else 0)"
    "unat (c_seqNum c) + length cs = unat (cleanupLog_lastSeqNum (rt s)) + Suc i"
proof -
  from assms have "cs ! i \<in> dom (steps s)" using nth_mem [OF assms(2)] unfolding log_chain_def by blast
  then obtain c where c: "steps s (cs ! i) = Some c" by auto
  from assms have "chain (step_next (steps s)) (cleanupLog (rt s)) cs 0" by (simp add: log_chain_def)
  from chain_nth [OF this assms(2)] c have "cs ! i \<noteq> 0" "c_next c = (if Suc i < length cs then cs ! Suc i else 0)"
    by (auto simp: step_next_def)
  moreover have "unat (c_seqNum c) + length cs = unat (cleanupLog_lastSeqNum (rt s)) + Suc i"
    using assms c by (auto simp: log_chain_def step_seq_def)
  ultimately show thesis using that c by blast
qed

lemma seq_succ:
  assumes "unat (a :: u64) = Suc (unat b)" shows "a = b + 1"
proof -
  have "unat (b + 1) = Suc (unat b)" using assms u64_bound [of a] by (simp add: unat_word_ariths)
  with assms show ?thesis by (simp add: word_unat_eq_iff)
qed

lemma shift_append:
  assumes "shift tr dx ds" "shift tr' dx' ds'"
  shows "shift (tr @ tr') (\<lambda>l. dx l + dx' l) (\<lambda>l. ds l + ds' l)"
  using assms unfolding shift_def by (metis add.assoc append_assoc)

lemma bg_hops_ok:
  assumes lc: "log_chain s cs" and "i + n < length cs"
  shows "\<exists>tr. bg_hops n (cs ! i) (s\<lparr>lk := h\<rparr>) = (Inr (cs ! (i + n)), s\<lparr>lk := h @ tr\<rparr>) \<and>
     shift tr (\<lambda>_. 0) (\<lambda>l. (if l = LStep (cs ! (i + n)) then 1 else 0) - (if l = LStep (cs ! i) then 1 else 0))"
  using assms(2)
proof (induction n arbitrary: i h)
  case 0
  then show ?case by (intro exI [of _ "[]"]) (auto simp: shift_def)
next
  case (Suc n)
  then have i: "i < length cs" "Suc i < length cs" by auto
  from lc i(1) obtain c where c: "steps s (cs ! i) = Some c" "c_next c = cs ! Suc i"
    "unat (c_seqNum c) + length cs = unat (cleanupLog_lastSeqNum (rt s)) + Suc i"
    by (rule log_chain_nth) (use i in auto)
  from lc i(2) obtain d where d: "steps s (cs ! Suc i) = Some d" "cs ! Suc i \<noteq> 0"
    "unat (c_seqNum d) + length cs = unat (cleanupLog_lastSeqNum (rt s)) + Suc (Suc i)"
    by (rule log_chain_nth) auto
  have sq: "c_seqNum d = c_seqNum c + 1" by (rule seq_succ) (use c d in linarith)
  let ?ev = "[LkShared (LStep (cs ! Suc i)), UnShared (LStep (cs ! i))]"
  have ev: "shift ?ev (\<lambda>_. 0) (\<lambda>l. (if l = LStep (cs ! Suc i) then 1 else 0) - (if l = LStep (cs ! i) then 1 else 0))"
    by (simp add: shift_def lock_simps)
  from Suc.IH [of "Suc i" "h @ ?ev"] Suc.prems obtain tr where
    IH: "bg_hops n (cs ! Suc i) (s\<lparr>lk := h @ ?ev\<rparr>) = (Inr (cs ! (Suc i + n)), s\<lparr>lk := (h @ ?ev) @ tr\<rparr>)"
    and tr: "shift tr (\<lambda>_. 0) (\<lambda>l. (if l = LStep (cs ! (Suc i + n)) then 1 else 0) - (if l = LStep (cs ! Suc i) then 1 else 0))"
    by auto
  have "bg_hops (Suc n) (cs ! i) (s\<lparr>lk := h\<rparr>) = (Inr (cs ! (i + Suc n)), s\<lparr>lk := h @ (?ev @ tr)\<rparr>)"
    using c d sq IH by (simp add: log_lock_def)
  moreover from shift_append [OF ev tr]
  have "shift (?ev @ tr) (\<lambda>_. 0) (\<lambda>l. (if l = LStep (cs ! (i + Suc n)) then 1 else 0) - (if l = LStep (cs ! i) then 1 else 0))"
    by (simp add: algebra_simps)
  ultimately show ?case by blast
qed

lemma bg_leap_ok:
  assumes lc: "log_chain s cs" and c: "cs \<noteq> []" "steps s (cs ! 0) = Some c"
    and k: "k < length cs" "unat (c_seqNum c) + k = Suc (unat f)" "unat (f + 1) = Suc (unat f)"
  shows "\<exists>tr. bg_leap f (c_seqNum c) (cs ! 0) (s\<lparr>lk := h\<rparr>) = (Inr (cs ! k), s\<lparr>lk := h @ tr\<rparr>) \<and>
      shift tr (\<lambda>l. (if l = LStep (cs ! k) then 1 else 0) - (if l = LStep (cs ! 0) then 1 else 0)) (\<lambda>_. 0)"
proof (cases k)
  case 0
  then have "unat (c_seqNum c) = Suc (unat f)" using k by simp
  then have "\<not> c_seqNum c < f + 1" by (simp add: word_less_nat_alt k(3))
  with 0 show ?thesis by (intro exI [of _ "[]"]) (simp add: shift_def bg_leap_def)
next
  case (Suc j)
  let ?a = "cs ! 0" and ?last = "cleanupLog_lastSeqNum (rt s)"
  have len: "0 < length cs" using c(1) by simp
  from lc len obtain c' where "steps s ?a = Some c'" "unat (c_seqNum c') + length cs = unat ?last + Suc 0"
    by (rule log_chain_nth)
  with c(2) have cs: "unat (c_seqNum c) + length cs = unat ?last + Suc 0" by simp
  from lc k(1) obtain d where d: "steps s (cs ! k) = Some d" "cs ! k \<noteq> 0"
    and ds: "unat (c_seqNum d) + length cs = unat ?last + Suc k" by (rule log_chain_nth)
  have "unat (c_seqNum d) = Suc (unat f)" using ds cs k(2) by linarith
  then have seqd: "c_seqNum d = f + 1" by (rule seq_succ)
  have lt: "c_seqNum c < f + 1" using k Suc by (simp add: word_less_nat_alt)
  have j: "unat (f - c_seqNum c) = j" using k Suc by (subst unat_sub) (auto simp: word_le_nat_alt)
  have jl: "0 + j < length cs" "j < length cs" using k Suc by auto
  from bg_hops_ok [OF lc jl(1), of "h @ [Downgrade (LStep ?a)]"] obtain tr where
    hops: "bg_hops j ?a (s\<lparr>lk := h @ [Downgrade (LStep ?a)]\<rparr>) = (Inr (cs ! j), s\<lparr>lk := (h @ [Downgrade (LStep ?a)]) @ tr\<rparr>)"
    and tr: "shift tr (\<lambda>_. 0) (\<lambda>l. (if l = LStep (cs ! j) then 1 else 0) - (if l = LStep ?a then 1 else 0))" by auto
  from lc jl(2) obtain e where e: "steps s (cs ! j) = Some e" "c_next e = cs ! k"
    and es: "unat (c_seqNum e) + length cs = unat ?last + Suc j" by (rule log_chain_nth) (use k Suc in auto)
  have "unat (c_seqNum e) = unat f" using es cs k Suc by linarith
  then have e2: "c_seqNum e = f" by (simp add: word_unat_eq_iff)
  let ?t1 = "[Downgrade (LStep ?a)]" and ?t2 = "[LkExcl (LStep (cs ! k)), UnShared (LStep (cs ! j))]"
  have t1: "shift ?t1 (\<lambda>l. - (if l = LStep ?a then 1 else 0)) (\<lambda>l. if l = LStep ?a then 1 else 0)"
    by (auto simp: shift_def lock_simps)
  have t2: "shift ?t2 (\<lambda>l. if l = LStep (cs ! k) then 1 else 0) (\<lambda>l. - (if l = LStep (cs ! j) then 1 else 0))"
    by (auto simp: shift_def lock_simps)
  from shift_append [OF shift_append [OF t1 tr] t2]
  have "shift ((?t1 @ tr) @ ?t2) (\<lambda>l. (if l = LStep (cs ! k) then 1 else 0) - (if l = LStep ?a then 1 else 0)) (\<lambda>_. 0)"
    by (simp add: algebra_simps)
  moreover have "bg_leap f (c_seqNum c) ?a (s\<lparr>lk := h\<rparr>) = (Inr (cs ! k), s\<lparr>lk := h @ ((?t1 @ tr) @ ?t2)\<rparr>)"
    using hops e e2 d seqd lt by (simp add: j log_lock_def bg_last_hop_def bg_leap_def)
  ultimately show ?thesis by blast
qed

lemma bg_find_ok:
  assumes lc: "log_chain s cs" and l: "my_local s = Some l"
    and less: "l_flushPoint l < cleanupLog_lastSeqNum (rt s)"
    and first: "cs \<noteq> []" "step_seq s (hd cs) \<le> Suc (unat (l_flushPoint l))"
    and lq: "lock_query_ok E" "\<And>k. 0 \<le> heldX (lk s) (LStep k)"
  defines "k \<equiv> Suc (unat (l_flushPoint l)) - step_seq s (hd cs)"
  shows "\<exists>tr. bg_find E s = (Inr (cs ! k), s\<lparr>lk := lk s @ tr\<rparr>) \<and> k < length cs \<and>
     step_seq s (cs ! k) = Suc (unat (l_flushPoint l)) \<and>
     shift tr (\<lambda>l. if l = LStep (cs ! k) then 1 else 0) (\<lambda>_. 0)"
proof -
  let ?last = "cleanupLog_lastSeqNum (rt s)" and ?f = "l_flushPoint l" and ?a = "cs ! 0"
  have len: "0 < length cs" using first by simp
  from lc len obtain c where c: "steps s ?a = Some c" "?a \<noteq> 0" and cs: "unat (c_seqNum c) + length cs = unat ?last + Suc 0"
    by (rule log_chain_nth)
  have sh: "step_seq s (hd cs) = unat (c_seqNum c)" using first(1) by (simp add: step_seq_def c hd_conv_nth)
  have a: "cleanupLog (rt s) = ?a"
    using lc first(1) by (cases cs) (auto simp: log_chain_def)
  have fl: "unat ?f < unat ?last" using less by (simp add: word_less_nat_alt)
  have f1: "unat (?f + 1) = Suc (unat ?f)" using fl u64_bound [of ?last] by (simp add: unat_word_ariths)
  have k: "k < length cs" "unat (c_seqNum c) + k = Suc (unat ?f)"
    using cs fl first(2) by (auto simp: k_def sh)
  from lc k(1) obtain d where d: "steps s (cs ! k) = Some d" "cs ! k \<noteq> 0"
    and ds: "unat (c_seqNum d) + length cs = unat ?last + Suc k" by (rule log_chain_nth)
  have seqd: "unat (c_seqNum d) = Suc (unat ?f)" using ds cs k(2) by linarith
  then have seqd': "c_seqNum d = ?f + 1" by (rule seq_succ)
  have le: "c_seqNum c \<le> ?f + 1" using k by (simp add: word_le_nat_alt f1)
  let ?t0 = "[LkShared LRoot, LkExcl (LStep ?a), UnShared LRoot]"
  have t0: "shift ?t0 (\<lambda>l. if l = LStep ?a then 1 else 0) (\<lambda>_. 0)" by (auto simp: shift_def lock_simps)
  from bg_leap_ok [OF lc first(1) c(1) k f1, of "lk s @ ?t0"] obtain tr where
    leap: "bg_leap ?f (c_seqNum c) ?a (s\<lparr>lk := lk s @ ?t0\<rparr>) = (Inr (cs ! k), s\<lparr>lk := (lk s @ ?t0) @ tr\<rparr>)"
    and tr: "shift tr (\<lambda>l. (if l = LStep (cs ! k) then 1 else 0) - (if l = LStep ?a then 1 else 0)) (\<lambda>_. 0)" by blast
  from shift_append [OF t0 tr] have tr': "shift (?t0 @ tr) (\<lambda>l. if l = LStep (cs ! k) then 1 else 0) (\<lambda>_. 0)"
    by (simp add: algebra_simps)
  have "heldX (lk s @ (?t0 @ tr)) (LStep (cs ! k)) = heldX (lk s) (LStep (cs ! k)) + 1"
    using tr' [unfolded shift_def, rule_format, of "lk s" "LStep (cs ! k)"] by simp
  then have "0 < heldX (lk s @ (?t0 @ tr)) (LStep (cs ! k))" using lq(2) [of "cs ! k"] by linarith
  then have "isLock_heldExclusive_byMe E (lk s @ (?t0 @ tr)) (LStep (cs ! k))"
    using lq(1) unfolding lock_query_ok_def by blast
  moreover have "my_local (s\<lparr>lk := lk s @ [e]\<rparr>) = Some l" for e using l by (simp add: my_local_def)
  ultimately have "bg_find E s = (Inr (cs ! k), s\<lparr>lk := lk s @ (?t0 @ tr)\<rparr>)"
    using less a c le leap d seqd' by (auto simp: bg_find_def Let_def log_lock_def)
  with k tr' seqd d show ?thesis by (intro exI [of _ "?t0 @ tr"]) (simp add: step_seq_def)
qed

lemma reserve_req_len [simp]: "q_len (reserve_req a n) = n"
  by (simp add: reserve_req_def)

lemma vm_map_mapped: "(\<exists>y. vm_map vm r q x = Some y) \<longleftrightarrow> in_block x (r, q_len q) \<or> (\<exists>y. vm x = Some y)"
  by (simp add: vm_map_def)

lemma my_local_simps [simp]:
  "my_local (log_lock e s) = my_local s" "my_local (put_step p c s) = my_local s"
  "my_local (s\<lparr>vmap := v\<rparr>) = my_local s" "my_local (s\<lparr>lk := h\<rparr>) = my_local s"
  "my_local (s\<lparr>steps := x\<rparr>) = my_local s" "my_local (upd_rt g s) = my_local s"
  "my_local (put_region q r s) = my_local s" "my_local (s\<lparr>regs := m\<rparr>) = my_local s"
  "my_local (s\<lparr>rt := r'\<rparr>) = my_local s"
  by (simp_all add: my_local_def put_step_def)

lemma my_local_upd [simp]:
  assumes "\<And>l. l_sc (f l) = l_sc l"
  shows "my_local (upd_local f s) = map_option f (my_local s)"
proof -
  have "find (\<lambda>l. l_sc l = a) (map (\<lambda>l. if l_sc l = a then f l else l) ls) =
      map_option f (find (\<lambda>l. l_sc l = a) ls)" for a ls
    using assms by (induction ls) auto
  then show ?thesis by (simp add: my_local_def upd_local_def)
qed

lemma upd_local_simps [simp]:
  "rt (upd_local f s) = rt s" "regs (upd_local f s) = regs s" "procs (upd_local f s) = procs s"
  "steps (upd_local f s) = steps s" "freeList (upd_local f s) = freeList s" "mem (upd_local f s) = mem s"
  "root_addr (upd_local f s) = root_addr s" "vmap (upd_local f s) = vmap s" "pid (upd_local f s) = pid s"
  "lk (upd_local f s) = lk s" "file_len (upd_local f s) = file_len s"
  by (simp_all add: upd_local_def)

lemma locals_upd [simp]:
  "(\<And>l. l_sc (f l) = l_sc l) \<Longrightarrow> map l_sc (locals (upd_local f s)) = map l_sc (locals s)"
  by (simp add: upd_local_def)

lemma locals_upd_file [simp]:
  "(\<And>l. l_shm_file (f l) = l_shm_file l) \<Longrightarrow> map l_shm_file (locals (upd_local f s)) = map l_shm_file (locals s)"
  by (simp add: upd_local_def)

lemma put_step_simps [simp]:
  "rt (put_step p c s) = rt s" "regs (put_step p c s) = regs s" "procs (put_step p c s) = procs s"
  "steps (put_step p c s) = (steps s)(p \<mapsto> c)" "freeList (put_step p c s) = freeList s" "mem (put_step p c s) = mem s"
  "root_addr (put_step p c s) = root_addr s" "vmap (put_step p c s) = vmap s" "pid (put_step p c s) = pid s"
  "lk (put_step p c s) = lk s" "locals (put_step p c s) = locals s" "file_len (put_step p c s) = file_len s"
  by (simp_all add: put_step_def)

lemma kill_all_traps: "kill_all ls s = (Inr x, s') \<Longrightarrow> False"
  by (induction ls arbitrary: s) (auto elim: call_InrE split: if_splits)

text \<open>Handling an entry of the log and returning means: nothing was to do, or the range is now mapped.\<close>

lemma handle_InrD:
  assumes "sc_handleCleanupLogStep E a s = (Inr u, s')"
  obtains c where "steps s a = Some c" "c_op c = SC_CLS_RESERVE_MEMORY"
    "c_len c = 0 \<and> s' = s \<or> c_len c \<noteq> 0 \<and> (c_vaddr c \<noteq> MAP_FAILED \<longrightarrow> vmap s' = vm_map (vmap s) (c_vaddr c) (reserve_req (c_vaddr c) (c_len c))) \<and>
       (c_vaddr c = MAP_FAILED \<longrightarrow> vmap s' = vmap s) \<and>
       s' = upd_local (\<lambda>l. l\<lparr>l_recent_vaddr := c_vaddr c, l_recent_len := c_len c\<rparr>) (s\<lparr>vmap := vmap s'\<rparr>)"
proof -
  from assms obtain c where c: "steps s a = Some c"
    by (auto simp: sc_handleCleanupLogStep_def deref_def split: option.splits)
  have op: "c_op c = SC_CLS_RESERVE_MEMORY"
    using assms c kill_all_traps
    by (auto simp: sc_handleCleanupLogStep_def sc_killLocalProc_def split: if_splits)
  with c assms show thesis
    by (intro that [of c]) (auto simp: sc_handleCleanupLogStep_def Let_def sys_mmap_def upd_local_def split: if_splits)
qed

lemma handle_granted:
  assumes "steps s a = Some c" and "reserve_granted E (vmap s) c"
  shows "\<exists>f. sc_handleCleanupLogStep E a s = (Inr (), upd_local f (s\<lparr>vmap := reserve_vm (vmap s) c\<rparr>)) \<and>
     (\<forall>l. l_sc (f l) = l_sc l \<and> l_flushPoint (f l) = l_flushPoint l \<and> l_shm_file (f l) = l_shm_file l)"
proof (cases "c_len c = 0")
  case True
  have "map (\<lambda>l. if l_sc l = root_addr s then id l else l) (locals s) = locals s" by (rule map_idI) simp
  then have "upd_local id (s\<lparr>vmap := vmap s\<rparr>) = s" by (simp add: upd_local_def)
  with assms True show ?thesis
    by (intro exI [of _ id]) (auto simp: sc_handleCleanupLogStep_def reserve_granted_def reserve_vm_def)
next
  case False
  with assms show ?thesis
    by (intro exI [of _ "\<lambda>l. l\<lparr>l_recent_vaddr := c_vaddr c, l_recent_len := c_len c\<rparr>"])
      (simp add: sc_handleCleanupLogStep_def reserve_granted_def reserve_vm_def sys_mmap_def Let_def)
qed

lemma reserve_vm_mapped:
  "in_block x (step_range c) \<Longrightarrow> reserve_vm vm c x \<noteq> None" "vm x \<noteq> None \<Longrightarrow> reserve_vm vm c x \<noteq> None"
  by (auto simp: reserve_vm_def step_range_def vm_map_def in_block_def)

lemma reserve_vm_eq: "reserve_vm vm c x = (if in_block x (step_range c) then Some blocked_page else vm x)"
  by (auto simp: reserve_vm_def step_range_def vm_map_def in_block_def blocked_page_def reserve_req_def mman_defs)

lemma bg_ack_eq:
  fixes first :: u64 and need :: bool
  assumes "steps s a = Some c" "my_local s = Some l" and "sint (c_ack_count c) < sint (c_ack_targ c)"
    and "c_seqNum c = l_flushPoint l + 1"
  defines "t \<equiv> upd_local (\<lambda>l. l\<lparr>l_flushPoint := l_flushPoint l + 1\<rparr>) (put_step a (acked c) s)"
    and "need' \<equiv> need \<or> a = first \<and> c_ack_count c + 1 = c_ack_targ c"
  shows "bg_ack first need a s =
    (if c_next c = 0 then (Inr (need', 0), unlock_exclusive (LStep a) t)
     else (Inr (need', c_next c), unlock_exclusive (LStep a) (lock_exclusive (LStep (c_next c)) t)))"
  using assms by (simp add: bg_ack_def Let_def acked_def)

lemma drainable_next:
  assumes dr: "drainable s cur (a # b # ds) f" and st: "steps t = (steps s)(a := x)"
  shows "drainable t b (b # ds) (f + 1)"
proof -
  have "distinct (a # b # ds)" using dr chain_distinct unfolding drainable_def by blast
  then have o: "steps t d = steps s d" if "d \<in> set (b # ds)" for d using that st by auto
  have "chain (step_next (steps s)) b (b # ds) 0" using dr by (auto simp: drainable_def)
  then have "chain (step_next (steps t)) b (b # ds) 0"
    by (subst chain_cong [where g = "step_next (steps s)"]) (auto simp: step_next_def o)
  moreover have "c_seqNum (the (steps t ((b # ds) ! i))) = f + 1 + 1 + of_nat i" if "i < length (b # ds)" for i
    using dr that o [OF nth_mem [OF that]] unfolding drainable_def by (metis (no_types, lifting) add.assoc length_Cons
        not_less_eq nth_Cons_Suc of_nat_Suc)
  moreover have "\<forall>d \<in> set (b # ds). sint (c_ack_count (the (steps t d))) < sint (c_ack_targ (the (steps t d)))"
    using dr o by (simp add: drainable_def)
  moreover have "set (b # ds) \<subseteq> dom (steps t)" using dr o by (auto simp: drainable_def dom_def)
  ultimately show ?thesis by (simp add: drainable_def)
qed

lemma drained_Cons:
  assumes d: "drained u ds s'" and a: "a \<notin> set ds" and c: "steps s a = Some c"
    and u: "rt u = rt s" "regs u = regs s" "procs u = procs s" "mem u = mem s" "freeList u = freeList s"
      "root_addr u = root_addr s" "pid u = pid s" "map l_sc (locals u) = map l_sc (locals s)"
      "map l_shm_file (locals u) = map l_shm_file (locals s)" and st: "steps u = (steps s)(a \<mapsto> acked c)"
    and fp: "map_option l_flushPoint (my_local u) = map_option (\<lambda>l. l_flushPoint l + 1) (my_local s)"
    and vm: "\<And>x. vmap u x = (if in_block x (step_range c) then Some blocked_page else vmap s x)"
  shows "drained s (a # ds) s'"
proof -
  have "steps s' = (\<lambda>x. if x \<in> set (a # ds) then map_option acked (steps s x) else steps s x)"
    using d a c st by (auto simp: drained_def)
  moreover have vs: "vmap s' x = (if \<exists>d \<in> set (a # ds). in_block x (step_range (the (steps s d))) then Some blocked_page else vmap s x)" for x
  proof -
    have "the (steps u d) = the (steps s d)" if "d \<in> set ds" for d using that a st by auto
    then have "(\<exists>d \<in> set ds. in_block x (step_range (the (steps u d)))) \<longleftrightarrow> (\<exists>d \<in> set ds. in_block x (step_range (the (steps s d))))" by auto
    moreover have "vmap s' x = (if \<exists>d \<in> set ds. in_block x (step_range (the (steps u d))) then Some blocked_page else vmap u x)"
      using d by (simp add: drained_def)
    ultimately show ?thesis using c vm by simp
  qed
  moreover have "\<forall>d \<in> set (a # ds). \<forall>x. in_block x (step_range (the (steps s d))) \<longrightarrow> vmap s' x \<noteq> None"
    "\<forall>x. vmap s x \<noteq> None \<longrightarrow> vmap s' x \<noteq> None" unfolding vs by auto
  moreover have "map_option l_flushPoint (my_local s') = map_option (\<lambda>l. l_flushPoint l + of_nat (length (a # ds))) (my_local s)"
    using d fp by (cases "my_local u"; cases "my_local s") (auto simp: drained_def algebra_simps)
  moreover have "rt s' = rt s" "regs s' = regs s" "procs s' = procs s" "mem s' = mem s" "freeList s' = freeList s"
    "root_addr s' = root_addr s" "pid s' = pid s" "map l_sc (locals s') = map l_sc (locals s)"
    "map l_shm_file (locals s') = map l_shm_file (locals s)" using d u by (simp_all add: drained_def)
  ultimately show ?thesis unfolding drained_def by blast
qed

lemma bg_drain_ok:
  assumes "drainable s cur ds f" and "my_local s = Some l" "l_flushPoint l = f"
    and "all_granted E (vmap s) (map (\<lambda>d. the (steps s d)) ds)"
  shows "\<exists>s' tr. bg_drain E first need cur s =
       Some (Inr (need \<or> (first \<in> set ds \<and>
          c_ack_count (the (steps s first)) + 1 = c_ack_targ (the (steps s first)))), s') \<and>
     drained s ds s' \<and> lk s' = lk s @ tr \<and> shift tr (\<lambda>k. - (if k = LStep cur then 1 else 0)) (\<lambda>_. 0)"
  using assms
proof (induction ds arbitrary: s cur f need l)
  case Nil
  then show ?case by (simp add: drainable_def)
next
  case (Cons a ds)
  note dr = Cons.prems(1) and IH = Cons.IH
  have cur: "cur = a" "a \<noteq> 0" using dr by (auto simp: drainable_def)
  from dr obtain c where c: "steps s a = Some c" and lt: "sint (c_ack_count c) < sint (c_ack_targ c)"
    by (auto simp: drainable_def)
  let ?v = "reserve_vm (vmap s) c"
  from Cons.prems(4) c have g: "reserve_granted E (vmap s) c" and gs: "all_granted E ?v (map (\<lambda>d. the (steps s d)) ds)"
    by auto
  have sq: "c_seqNum c = l_flushPoint l + 1"
    using dr c Cons.prems(3) unfolding drainable_def by (force dest: spec [of _ 0])
  from handle_granted [OF c g] obtain h where hd: "sc_handleCleanupLogStep E a s = (Inr (), upd_local h (s\<lparr>vmap := ?v\<rparr>))"
    and h: "\<And>l. l_sc (h l) = l_sc l" "\<And>l. l_flushPoint (h l) = l_flushPoint l" "\<And>l. l_shm_file (h l) = l_shm_file l" by blast
  note ve = reserve_vm_eq
  let ?s1 = "upd_local h (s\<lparr>vmap := ?v\<rparr>)"
  have l1: "my_local ?s1 = Some (h l)" using Cons.prems(2) h(1) by simp
  let ?t = "upd_local (\<lambda>l. l\<lparr>l_flushPoint := l_flushPoint l + 1\<rparr>) (put_step a (acked c) ?s1)"
  let ?n = "need \<or> a = first \<and> c_ack_count c + 1 = c_ack_targ c"
  have nx: "c_next c = (case ds of [] \<Rightarrow> 0 | b # _ \<Rightarrow> b)"
    using dr c by (cases ds) (auto simp: drainable_def step_next_def)
  have ack: "bg_ack first need a ?s1 =
    (if c_next c = 0 then (Inr (?n, 0), unlock_exclusive (LStep a) ?t)
     else (Inr (?n, c_next c), unlock_exclusive (LStep a) (lock_exclusive (LStep (c_next c)) ?t)))"
    by (rule bg_ack_eq [OF _ l1]) (use c lt sq h in simp_all)
  show ?case
  proof (cases ds)
    case Nil
    have "bg_drain E first need cur s = Some (Inr ?n, unlock_exclusive (LStep a) ?t)"
      using hd ack nx Nil cur by (subst bg_drain.simps) simp
    moreover have "drained s [a] (unlock_exclusive (LStep a) ?t)"
      using c h Cons.prems(2) by (auto simp: drained_def ve)
    moreover have "shift [UnExcl (LStep a)] (\<lambda>k. - (if k = LStep cur then 1 else 0)) (\<lambda>_. 0)"
      using cur by (auto simp: shift_def lock_simps)
    ultimately show ?thesis using c Nil
      by (intro exI [of _ "unlock_exclusive (LStep a) ?t"] exI [of _ "[UnExcl (LStep a)]"]) auto
  next
    case (Cons b ds')
    let ?u = "unlock_exclusive (LStep a) (lock_exclusive (LStep b) ?t)"
    have nb: "c_next c = b" "b \<noteq> 0" using nx Cons dr by (auto simp: drainable_def)
    have step: "bg_drain E first need cur s = bg_drain E first ?n b ?u"
      using hd ack nb cur by (subst bg_drain.simps) simp
    have dr': "drainable ?u b (b # ds') (f + 1)"
      by (rule drainable_next [OF dr [unfolded Cons], where x = "Some (acked c)"]) simp
    have l2: "my_local ?u = Some ((h l)\<lparr>l_flushPoint := l_flushPoint (h l) + 1\<rparr>)" using l1 by simp
    have fp: "l_flushPoint ((h l)\<lparr>l_flushPoint := l_flushPoint (h l) + 1\<rparr>) = f + 1"
      using h(2) Cons.prems(3) by simp
    have a: "a \<notin> set (b # ds')" using dr chain_distinct Cons unfolding drainable_def by (metis distinct.simps(2))
    have m: "map (\<lambda>d. the (steps ?u d)) (b # ds') = map (\<lambda>d. the (steps s d)) ds" using a Cons by auto
    have gs': "all_granted E (vmap ?u) (map (\<lambda>d. the (steps ?u d)) (b # ds'))" unfolding m using gs by simp
    from IH [unfolded Cons, OF dr' l2 fp gs', of ?n] obtain s' tr where
      run: "bg_drain E first ?n b ?u = Some (Inr (?n \<or> (first \<in> set (b # ds') \<and>
          c_ack_count (the (steps ?u first)) + 1 = c_ack_targ (the (steps ?u first)))), s')"
      and d: "drained ?u (b # ds') s'" and lk': "lk s' = lk ?u @ tr"
      and sh: "shift tr (\<lambda>k. - (if k = LStep b then 1 else 0)) (\<lambda>_. 0)" by blast
    have n: "(?n \<or> (first \<in> set (b # ds') \<and> c_ack_count (the (steps ?u first)) + 1 = c_ack_targ (the (steps ?u first)))) =
       (need \<or> (first \<in> set (a # b # ds') \<and> c_ack_count (the (steps s first)) + 1 = c_ack_targ (the (steps s first))))"
      using a c by auto
    have sh': "shift ([LkExcl (LStep b), UnExcl (LStep a)] @ tr) (\<lambda>k. - (if k = LStep cur then 1 else 0)) (\<lambda>_. 0)"
    proof -
      have "shift [LkExcl (LStep b), UnExcl (LStep a)] (\<lambda>k. (if k = LStep b then 1 else 0) - (if k = LStep a then 1 else 0)) (\<lambda>_. 0)"
        by (auto simp: shift_def lock_simps)
      from shift_append [OF this sh] show ?thesis using cur by (simp add: algebra_simps)
    qed
    have "drained s (a # b # ds') s'"
      by (rule drained_Cons [OF d a c]) (use h Cons.prems(2) in \<open>simp_all add: ve\<close>)
    then show ?thesis using run n lk' sh' step Cons
      by (intro exI [of _ s'] exI [of _ "[LkExcl (LStep b), UnExcl (LStep a)] @ tr"]) simp
  qed
qed

lemma grown_refl [simp]: "grown m act rsv m act rsv"
  by (simp add: grown_def)

lemma unlinked_fields:
  assumes "unlinked r = unlinked r'"
  shows "r_vaddr r = r_vaddr r'" "r_len r = r_len r'" "r_prot r = r_prot r'" "r_tmpfile_offset r = r_tmpfile_offset r'"
  using assms by (cases r; cases r'; simp add: unlinked_def)+

lemma unlinked_range: "map_option unlinked (m p) = map_option unlinked (m' p) \<Longrightarrow> region_range m p = region_range m' p"
  by (cases "m p"; cases "m' p") (auto simp: region_range_def dest: unlinked_fields)

lemma grown_cong:
  assumes "\<And>p. p \<in> set (act @ rsv) \<Longrightarrow> m p = n p" "\<And>p. p \<in> set (act' @ rsv') \<Longrightarrow> m' p = n' p"
  shows "grown m act rsv m' act' rsv' = grown n act rsv n' act' rsv'"
proof -
  have "region_range m p = region_range n p" if "p \<in> set rsv" for p using assms(1) that by (simp add: region_range_def)
  moreover have "region_range m' p = region_range n' p" if "p \<in> set (act' @ rsv')" for p using assms(2) that by (simp add: region_range_def)
  ultimately show ?thesis using assms unfolding grown_def by (intro conj_cong ball_cong) (auto simp: subset_iff)
qed

lemma grown_trans:
  assumes 1: "grown m act rsv m' act' rsv'" and 2: "grown m' act' rsv' m'' act'' rsv''"
  shows "grown m act rsv m'' act'' rsv''"
proof -
  have r: "p \<in> set rsv \<and> r_prot (the (m' p)) = r_prot (the (m p)) \<and> inside (region_range m' p) (region_range m p)" if "p \<in> set rsv'" for p
    using 1 that by (simp add: grown_def)
  have "\<exists>r \<in> set rsv. inside (region_range m'' p) (region_range m r)" if p: "p \<in> set act''" "p \<notin> set act" for p
  proof (cases "p \<in> set act'")
    case True
    with 2 have "region_range m'' p = region_range m' p" by (intro unlinked_range) (simp add: grown_def)
    with 1 True p(2) show ?thesis by (simp add: grown_def)
  next
    case False
    with 2 p(1) have "\<exists>q \<in> set rsv'. inside (region_range m'' p) (region_range m' q)" by (simp add: grown_def)
    then obtain q where "q \<in> set rsv'" "inside (region_range m'' p) (region_range m' q)" by blast
    with r inside_trans show ?thesis by blast
  qed
  moreover have "p \<in> set rsv \<and> r_prot (the (m'' p)) = r_prot (the (m p)) \<and> inside (region_range m'' p) (region_range m p)"
    if "p \<in> set rsv''" for p
    using 2 that r [of p] inside_trans [of "region_range m'' p" "region_range m' p" "region_range m p"] by (simp add: grown_def)
  moreover have "map_option unlinked (m'' p) = map_option unlinked (m p)" if "p \<in> set act" for p
    using 1 2 that by (simp add: grown_def subset_iff)
  moreover have "set act \<subseteq> set act''" using 1 2 by (auto simp: grown_def)
  ultimately show ?thesis unfolding grown_def by blast
qed

lemma laid_cong:
  assumes "tmpfile_size (rt s') = tmpfile_size (rt s)" "\<And>p. p \<in> set act \<Longrightarrow> file_block (regs s') p = file_block (regs s) p"
  shows "laid s' act = laid s act"
  using assms by (simp add: laid_def)

lemma laid_unlinked:
  assumes "tmpfile_size (rt s') = tmpfile_size (rt s)" "\<And>p. p \<in> set act \<Longrightarrow> map_option unlinked (regs s' p) = map_option unlinked (regs s p)"
    and "set act \<subseteq> dom (regs s)"
  shows "laid s' act = laid s act"
proof (rule laid_cong [OF assms(1)])
  fix p assume p: "p \<in> set act"
  with assms(3) obtain r where r: "regs s p = Some r" by auto
  with assms(2) [OF p] obtain r' where "regs s' p = Some r'" "unlinked r' = unlinked r" by auto
  then show "file_block (regs s') p = file_block (regs s) p" using r unlinked_fields [of r' r] by (simp add: file_block_def)
qed

text \<open>Disjoint ranges cannot cover more than the address space.\<close>

lemma ranges_total:
  assumes "region_core E s act rsv fre" shows "(\<Sum>p \<in> set act. unat (snd (file_block (regs s) p))) < 2 ^ 64"
proof -
  let ?I = "\<lambda>p. {unat (fst (region_range (regs s) p)) ..< unat (fst (region_range (regs s) p)) + unat (snd (region_range (regs s) p))}"
  have d: "distinct act" "apart_all (mset (map (region_range (regs s)) act))"
    using assms by (auto simp: region_core_def region_lists_def apart_all_union)
  have rr: "region_range (regs s) p = (r_vaddr (the (regs s p)), r_len (the (regs s p)))" "range_ok E (the (regs s p))" if p: "p \<in> set act" for p
    using assms p by (fastforce simp: region_core_def region_lists_def region_range_def list_all_iff)+
  have dis: "?I p \<inter> ?I q = {}" if "p \<in> set act" "q \<in> set act" "p \<noteq> q" for p q
  proof -
    have "apart (region_range (regs s) p) (region_range (regs s) q)" using d that
      by (induction act) (auto simp: apart_sym)
    then show ?thesis by (auto simp: apart_def)
  qed
  have "(\<Sum>p \<in> set act. unat (snd (file_block (regs s) p))) = (\<Sum>p \<in> set act. card (?I p))"
    by (rule sum.cong) (simp_all add: rr file_block_def)
  also have "\<dots> = card (\<Union>p \<in> set act. ?I p)" using dis by (subst card_UN_disjoint) auto
  also have "\<dots> \<le> card {1 ..< 2 ^ 64 :: nat}"
  proof (rule card_mono)
    show "(\<Union>p \<in> set act. ?I p) \<subseteq> {1 ..< 2 ^ 64}"
    proof
      fix i assume "i \<in> (\<Union>p \<in> set act. ?I p)"
      then obtain p where p: "p \<in> set act" "i \<in> ?I p" by blast
      have "0 < unat (r_vaddr (the (regs s p)))" "unat (r_vaddr (the (regs s p))) + unat (r_len (the (regs s p))) < 2 ^ 64"
        using rr(2) [OF p(1)] by (simp_all add: range_ok_def fits_def unat_gt_0)
      then show "i \<in> {1 ..< 2 ^ 64}" using p(2) rr(1) [OF p(1)] by simp
    qed
  qed simp
  finally show ?thesis by simp
qed

lemma regions_move_refl:
  "regs s' = regs s \<Longrightarrow> (file_grows E \<Longrightarrow> tmpfile_size (rt s') = tmpfile_size (rt s)) \<Longrightarrow> regions_move E s act rsv fre s' act rsv fre"
  using laid_cong [of s' s act] by (auto simp: regions_move_def intro: inside_refl)

lemma region_core_cong:
  assumes "regs s' = regs s" and "active_regions (rt s') = active_regions (rt s)"
    "active_regionsTail (rt s') = active_regionsTail (rt s)" "reserved_regions (rt s') = reserved_regions (rt s)"
    "free_structs (rt s') = free_structs (rt s)"
  shows "region_core E s' act rsv fre = region_core E s act rsv fre"
  using assms by (simp add: region_core_def region_lists_def)

lemma mmap_done_laid:
  assumes core: "region_core E s act (q # rsv) (f # g # fre)" and l: "laid s act"
    and len: "0 < len" "len mod getpagesize E = 0" "len < r_len (the (regs s q))"
  shows "laid (mmap_done len prot s) (act @ [f])"
proof -
  let ?t = "active_regionsTail (rt s)" and ?s = "mmap_done len prot s"
  from core have lists: "region_lists s act (q # rsv) (f # g # fre)" by (simp add: region_core_def)
  from region_listsD [OF lists] obtain T as where T: "regs s ?t = Some T" and act: "act = as @ [?t]" by blast
  from lists obtain Q where Q: "regs s q = Some Q" "reserved_regions (rt s) = q" and F: "free_structs (rt s) = f"
    by (auto simp: region_lists_def)
  have d: "distinct (act @ (q # rsv) @ f # g # fre)" using lists by (simp add: region_lists_def)
  have fb: "file_block (regs ?s) p = file_block (regs s) p" if "p \<in> set act" for p
    using that d act T Q F by (auto simp: mmap_done_simps Let_def file_block_def)
  have fn: "file_block (regs ?s) f = (tmpfile_size (rt s), len)" "f \<notin> set act"
    using d act Q F by (auto simp: mmap_done_simps Let_def file_block_def)
  have "(\<Sum>p \<in> set (act @ [f]). unat (snd (file_block (regs ?s) p))) = unat (tmpfile_size (rt s)) + unat len"
    using l fb fn by (simp add: laid_def)
  moreover from this have "unat (tmpfile_size (rt ?s)) = unat (tmpfile_size (rt s)) + unat len"
    using ranges_total [OF mmap_done_core [OF core len, of prot]] by (simp add: mmap_done_simps unat_word_ariths)
  ultimately show ?thesis using l fb fn unfolding laid_def by (auto simp: apart_def)
qed

lemma mmap_done_move:
  assumes core: "region_core E s act (q # rsv) (f # g # fre)"
    and len: "0 < len" "len mod getpagesize E = 0" "len < r_len (the (regs s q))"
  shows "regions_move E s act (q # rsv) (f # g # fre) (mmap_done len prot s) (act @ [f]) (q # rsv) (g # fre)"
proof -
  let ?t = "active_regionsTail (rt s)" and ?s = "mmap_done len prot s"
  from core have lists: "region_lists s act (q # rsv) (f # g # fre)" by (simp add: region_core_def)
  from region_listsD [OF lists] obtain T as where T: "regs s ?t = Some T" and act: "act = as @ [?t]" by blast
  from lists obtain Q where Q: "regs s q = Some Q" "reserved_regions (rt s) = q" and F: "free_structs (rt s) = f"
    by (auto simp: region_lists_def)
  have d: "distinct (act @ (q # rsv) @ f # g # fre)" using lists by (simp add: region_lists_def)
  have "fits (r_vaddr Q, r_len Q)" using core Q by (simp add: region_core_def range_ok_def)
  with len Q have c: "inside (r_vaddr Q, len) (r_vaddr Q, r_len Q)" "inside (r_vaddr Q + len, r_len Q - len) (r_vaddr Q, r_len Q)"
    using carve_words(3,4) by auto
  have old: "region_range (regs ?s) p = region_range (regs s) p" if "p \<in> set (act @ rsv)" for p
    using that d act T Q F by (auto simp: mmap_done_simps Let_def region_range_def)
  have new: "region_range (regs ?s) f = (r_vaddr Q, len)" "region_range (regs ?s) q = (r_vaddr Q + len, r_len Q - len)"
    using d act Q F by (auto simp: mmap_done_simps Let_def)
  have rq: "region_range (regs s) q = (r_vaddr Q, r_len Q)" using Q by (simp add: region_range_def)
  have ins: "\<exists>r \<in> set (act @ q # rsv). inside (region_range (regs ?s) p) (region_range (regs s) r)"
    if "p \<in> set ((act @ [f]) @ q # rsv)" for p
  proof (cases "p \<in> set (act @ rsv)")
    case True
    with old [OF True] show ?thesis by (intro bexI [of _ p]) auto
  next
    case False
    with that have "p = f \<or> p = q" by auto
    with new c rq show ?thesis by (intro bexI [of _ q]) auto
  qed
  have "regs ?s p = regs s p" if "p \<notin> set (act @ (q # rsv) @ f # g # fre)" for p
    using that act Q F by (auto simp: mmap_done_simps Let_def)
  moreover have "\<forall>p \<in> set act. region_range (regs ?s) p = region_range (regs s) p" using old by simp
  moreover have "grown (regs s) act (q # rsv) (regs ?s) (act @ [f]) (q # rsv)"
  proof -
    have "map_option unlinked (regs ?s p) = map_option unlinked (regs s p)" if "p \<in> set act" for p
      using that d act T Q F by (auto simp: mmap_done_simps Let_def unlinked_def)
    moreover have "p \<in> set (q # rsv) \<and> r_prot (the (regs ?s p)) = r_prot (the (regs s p)) \<and>
        inside (region_range (regs ?s) p) (region_range (regs s) p)" if "p \<in> set (q # rsv)" for p
      using that d act T Q F new(2) c(2) rq old [of p] by (auto simp: mmap_done_simps Let_def)
    moreover have "\<exists>r \<in> set (q # rsv). inside (region_range (regs ?s) p) (region_range (regs s) r)"
      if "p \<in> set (act @ [f]) - set act" for p
      using that new c rq by auto
    moreover have "set act \<subseteq> set (act @ [f])" by auto
    ultimately show ?thesis unfolding grown_def by blast
  qed
  moreover have "laid s act \<longrightarrow> laid ?s (act @ [f])" using mmap_done_laid [OF core _ len] by blast
  moreover have "set ((act @ [f]) @ (q # rsv) @ g # fre) = set (act @ (q # rsv) @ f # g # fre)" by auto
  ultimately show ?thesis unfolding regions_move_def using ins by blast
qed

lemma sc_mmap_move:
  assumes core: "region_core E s act rsv fre" and run: "sc_mmap E addr n prot flags fd off s = (Inr p, s')"
  shows "\<exists>act' rsv' fre'. region_core E s' act' rsv' fre' \<and> regions_move E s act rsv fre s' act' rsv' fre'"
proof -
  from core have lists: "region_lists s act rsv fre" by (simp add: region_core_def)
  from run lists show ?thesis
  proof (cases rule: sc_mmap_InrD)
    case (failed z)
    have "region_core E s' act rsv fre" by (rule region_core_failed [OF core failed(2,4)])
    have "regions_move E s act rsv fre s' act rsv fre" by (rule regions_move_refl) (use failed in simp_all)
    with \<open>region_core E s' act rsv fre\<close> show ?thesis by blast
  next
    case (mapped q rsv' f g fre')
    note core' = core [unfolded mapped(1,2)]
    from mmap_done_core [OF core' mapped(5-7)] mmap_done_move [OF core' mapped(5-7)] show ?thesis
      unfolding mapped(1,2,4) by blast
  qed
qed

lemma sc_malloc_move:
  assumes core: "region_core E s act rsv fre" and run: "sc_malloc E sz s = (Inr p, s')"
  shows "\<exists>act' rsv' fre'. region_core E s' act' rsv' fre' \<and> regions_move E s act rsv fre s' act' rsv' fre'"
proof -
  let ?s = "lock_exclusive LMalloc s" and ?sp = "malloc_split_size (malloc_alloc_size sz)"
  have tail: "\<exists>act' rsv' fre'. region_core E s' act' rsv' fre' \<and> regions_move E s act rsv fre s' act' rsv' fre'"
    if "region_core E s1 act1 rsv1 fre1" "regions_move E s act rsv fre s1 act1 rsv1 fre1"
      "regs s' = regs s1" "rt s' = rt s1" for s1 act1 rsv1 fre1
  proof -
    have "regions_move E s act rsv fre s' act1 rsv1 fre1" using that laid_cong [of s' s1 act1] by (simp add: regions_move_def file_block_def)
    moreover have "region_core E s' act1 rsv1 fre1" using that region_core_cong [of s' s1 E act1 rsv1 fre1] by simp
    ultimately show ?thesis by blast
  qed
  from guard_InrD [OF run [unfolded sc_malloc_def]] obtain pv a where
    r: "(if a = 0 then call (malloc_grow E ?sp) (\<lambda>buf s.
          if buf = 0 then (Inr 0, unlock_exclusive LMalloc s)
          else malloc_carve (malloc_alloc_size sz) ?sp FreeListHead buf s) ?s
      else malloc_carve (malloc_alloc_size sz) ?sp pv a ?s) = (Inr p, s')"
    by (auto simp: Let_def loops_def split: if_splits option.splits)
  have carve: "regs s' = regs t \<and> rt s' = rt t" if "malloc_carve al sp pv a t = (Inr p, s')" for al sp pv a t
    using malloc_carve_mem [OF that] by (auto simp: mem_only_def)
  show ?thesis
  proof (cases "a = 0")
    case False
    with r carve have "regs s' = regs ?s \<and> rt s' = rt ?s" by simp
    with core show ?thesis by (intro tail [of s act rsv fre]) (auto intro: regions_move_refl)
  next
    case True
    with r obtain buf s2 where grow: "malloc_grow E ?sp ?s = (Inr buf, s2)"
      and rest: "(if buf = 0 then (Inr 0, unlock_exclusive LMalloc s2)
          else malloc_carve (malloc_alloc_size sz) ?sp FreeListHead buf s2) = (Inr p, s')" by (auto elim: call_InrE)
    from grow obtain b s1 where mm: "malloc_pages E (malloc_mmap_size E ?sp) ?s = (Inr b, s1)"
      and s2: "regs s2 = regs s1" "rt s2 = rt s1"
      unfolding malloc_grow_def Let_def by (elim call_InrE) (auto simp: set_mem_def split: if_splits)
    have "region_core E ?s act rsv fre" using core region_core_cong [of ?s s] by simp
    from sc_mmap_move [OF this mm] obtain act' rsv' fre' where "region_core E s1 act' rsv' fre'"
      "regions_move E ?s act rsv fre s1 act' rsv' fre'" by blast
    moreover have "regs s' = regs s1" "rt s' = rt s1"
      using rest carve s2 by (cases "buf = 0"; force)+
    ultimately show ?thesis using laid_cong [of ?s s act] by (intro tail [of s1 act' rsv' fre']) (simp_all add: regions_move_def)
  qed
qed

lemma alloc_inv_core:
  assumes core: "region_core E s act rsv fre"
  shows "alloc_inv E s L \<longleftrightarrow> page_ok E \<and> heap_in s act L"
proof
  assume "alloc_inv E s L"
  then obtain ns live R where inv: "malloc_inv E s ns live R" "L = image_mset payload live" by (auto simp: alloc_inv_def)
  then obtain act' rsv' fre' where core': "region_core E s act' rsv' fre'" and R: "R = mset (map (region_range (regs s)) act')"
    and pg: "page_ok E" by (auto simp: malloc_inv_def active_inv_def)
  have "act' = act" using core core' by (auto simp: region_core_def region_lists_def intro: chain_unique)
  with inv R pg show "page_ok E \<and> heap_in s act L" by (auto simp: heap_in_def malloc_inv_def)
next
  assume "page_ok E \<and> heap_in s act L"
  then obtain ns live where h: "page_ok E" "heap_wf (mem s) (freeList s) ns live" "L = image_mset payload live"
    "\<forall>b \<in># mset (map (blk (mem s)) ns) + live. \<exists>p \<in> set act. inside b (region_range (regs s) p)"
    unfolding heap_in_def by blast
  have "malloc_inv E s ns live (mset (map (region_range (regs s)) act))"
    using h active_invI [OF h(1) core] unfolding malloc_inv_def by auto
  with h(3) show "alloc_inv E s L" unfolding alloc_inv_def by blast
qed

lemma alloc_inv_regions:
  assumes "region_core E s act rsv fre" "region_core E s' act' rsv' fre'" and "mem s' = mem s" "freeList s' = freeList s"
    and "\<And>p. p \<in> set act \<Longrightarrow> \<exists>q \<in> set act'. region_range (regs s') q = region_range (regs s) p"
    and "alloc_inv E s L"
  shows "alloc_inv E s' L"
proof -
  from assms(1,6) have h: "page_ok E" "heap_in s act L" by (simp_all add: alloc_inv_core)
  then have "heap_in s' act' L"
    unfolding heap_in_def assms(3,4) using assms(5) by metis
  with h(1) assms(2) show ?thesis by (simp add: alloc_inv_core)
qed

lemma all_mapped_move:
  assumes "regions_move E s act rsv fre s' act' rsv' fre'" and "all_mapped s (act @ rsv) vm"
  shows "all_mapped s' (act' @ rsv') vm"
  unfolding all_mapped_def
proof (intro ballI allI impI)
  fix p x assume p: "p \<in> set (act' @ rsv')" and x: "in_block x (region_range (regs s') p)"
  from assms(1) p obtain r where r: "r \<in> set (act @ rsv)" "inside (region_range (regs s') p) (region_range (regs s) r)"
    unfolding regions_move_def by blast
  with x have "in_block x (region_range (regs s) r)" by (auto intro: in_block_inside)
  with assms(2) r(1) show "vm x \<noteq> None" by (auto simp: all_mapped_def)
qed

lemma reserve_flags: "q_flags (reserve_req a n) AND MAP_FIXED = 0"
  by (simp add: reserve_req_def mman_defs)

lemma fresh_apart:
  assumes "\<And>x. in_block x b \<Longrightarrow> vm x = None" and "\<And>x. in_block x c \<Longrightarrow> vm x \<noteq> None"
    and "0 < snd b" "0 < snd c" "fits b" "fits c"
  shows "apart b c"
proof (rule ccontr)
  assume "\<not> apart b c"
  then have *: "unat (fst c) < unat (fst b) + unat (snd b)" "unat (fst b) < unat (fst c) + unat (snd c)"
    by (auto simp: apart_def)
  define x where "x = (if fst b \<le> fst c then fst c else fst b)"
  have "in_block x b" "in_block x c"
    using * assms(3,4) by (auto simp: x_def in_block_def word_le_nat_alt word_less_nat_alt)
  with assms(1,2) show False by blast
qed

lemma getFree_core:
  assumes core: "region_core E s act rsv fre" and get: "sc_getFreeRegion E s = (Inr f, s')"
  shows "\<exists>g fre'. fre = f # g # fre' \<and> region_core E s' act rsv (g # fre') \<and>
     f \<notin> set (act @ rsv @ g # fre') \<and> f \<noteq> 0 \<and> f \<in> dom (regs s') \<and>
     (\<forall>p. p \<noteq> f \<longrightarrow> regs s' p = regs s p) \<and> rt s' = (rt s)\<lparr>free_structs := g\<rparr> \<and>
     s' = put_region f ((the (regs s f))\<lparr>r_next := 0\<rparr>) (upd_rt (\<lambda>c. c\<lparr>free_structs := g\<rparr>) s)"
proof -
  from getFreeRegion_InrD [OF get] obtain F where F: "regs s f = Some F" "f = free_structs (rt s)" "f \<noteq> 0" "r_next F \<noteq> 0"
    and s': "s' = put_region f (F\<lparr>r_next := 0\<rparr>) (upd_rt (\<lambda>c. c\<lparr>free_structs := r_next F\<rparr>) s)" by blast
  from core have lists: "region_lists s act rsv fre" by (simp add: region_core_def)
  from lists F obtain g fre' where fre: "fre = f # g # fre'" and g: "r_next F = g"
    by (cases fre; cases "tl fre") (auto simp: region_lists_def region_next_def)
  have d: "distinct (act @ rsv @ f # g # fre')" using lists fre by (simp add: region_lists_def)
  have c: "chain (region_next (regs s')) p xs r = chain (region_next (regs s)) p xs r" if "f \<notin> set xs" for p xs r
    by (rule chain_cong) (use that in \<open>auto simp: s'\<close>)
  have fn: "f \<notin> set act" "f \<notin> set rsv" "f \<notin> set (g # fre')" using d by auto
  have cg: "chain (region_next (regs s)) g (g # fre') 0"
    using lists F fre g by (auto simp: region_lists_def region_next_def)
  have "region_lists s' act rsv (g # fre')"
    using lists fre d c [OF fn(1)] c [OF fn(2)] c [OF fn(3)] cg g by (auto simp: region_lists_def s' simp del: chain.simps)
  moreover have "map (region_range (regs s')) (act @ rsv) = map (region_range (regs s)) (act @ rsv)"
    using d by (auto simp: s' region_range_def)
  then have "apart_all (mset (map (region_range (regs s')) (act @ rsv)))" using core by (simp only: region_core_def)
  moreover have "list_all (\<lambda>p. range_ok E (the (regs s' p))) (act @ rsv)"
    using core d by (auto simp: region_core_def list_all_iff s')
  ultimately have "region_core E s' act rsv (g # fre')" by (simp add: region_core_def)
  with F fre d g show ?thesis by (auto simp: s')
qed

lemma alloc_inv_getFree:
  assumes "region_core E s act rsv fre" and "sc_getFreeRegion E s = (Inr f, s')" and "alloc_inv E s L"
  shows "alloc_inv E s' L"
proof -
  from getFree_core [OF assms(1,2)] obtain g fre' where core: "region_core E s' act rsv (g # fre')"
    and f: "f \<notin> set (act @ rsv @ g # fre')" and r: "\<And>p. p \<noteq> f \<Longrightarrow> regs s' p = regs s p"
    and s': "s' = put_region f ((the (regs s f))\<lparr>r_next := 0\<rparr>) (upd_rt (\<lambda>c. c\<lparr>free_structs := g\<rparr>) s)" by blast
  show ?thesis
  proof (rule alloc_inv_regions [OF assms(1) core _ _ _ assms(3)])
    show "mem s' = mem s" "freeList s' = freeList s" by (simp_all add: s')
    show "\<exists>q \<in> set act. region_range (regs s') q = region_range (regs s) p" if "p \<in> set act" for p
    proof -
      have "p \<noteq> f" using that f by auto
      with that show ?thesis by (intro bexI [of _ p]) (simp_all add: region_range_def r)
    qed
  qed
qed

lemma first_active: "region_core E s act rsv fre \<Longrightarrow> active_regions (rt s) \<in> set act"
  by (cases act) (auto simp: region_core_def region_lists_def)

lemma rt_rest_post: "rt_rest r = rt_rest r' \<Longrightarrow> rt_rest (post_rt q c r) = rt_rest (post_rt q c r')"
  by (cases r; cases r') (simp add: rt_rest_def post_rt_def)

lemma page_len:
  assumes "kernel_ok E" shows "unat (getpagesize E) dvd unat (pages * getpagesize E)"
  using assms by (simp add: kernel_ok_def unat_word_ariths dvd_mod)

section \<open>Posting a reservation\<close>

lemma post_fill_empty:
  assumes "post_fill a n q c s = (Inr rc, s')" and "cleanupLog (rt s) = 0"
  shows "rc = 0 \<and> (\<exists>l. my_local s = Some l \<and> l_flushPoint l = cleanupLog_lastSeqNum (rt s)) \<and>
     s' = upd_local (\<lambda>l. l\<lparr>l_flushPoint := l_flushPoint l + 1\<rparr>)
       (s\<lparr>regs := (regs s)(q \<mapsto> pending_region a n), lk := lk s @ [LkInit (LRegion q), LkInit (LStep c)],
          steps := (steps s)(c \<mapsto> new_step s a n), rt := post_rt q c (rt s)\<rparr>)"
proof (cases "my_local s")
  case None
  with assms show ?thesis by (auto simp: post_fill_def Let_def deref_def split: if_splits elim!: call_InrE)
next
  case (Some l)
  with assms show ?thesis
    by (auto simp: post_fill_def Let_def post_rt_def pending_region_def new_step_def PROT_NONE_def
        upd_rt_def put_region_def put_step_def log_lock_def my_local_def split: if_splits elim!: call_InrE)
qed

lemma all_mapped_covers:
  assumes "covers s ps s' ps'" and "all_mapped s ps vm" shows "all_mapped s' ps' vm"
  using assms in_block_inside unfolding all_mapped_def covers_def by blast

lemma covers_move: "regions_move E s act rsv fre s' act' rsv' fre' \<Longrightarrow> covers s (act @ rsv) s' (act' @ rsv')"
  by (simp add: regions_move_def covers_def)

lemma post_pending:
  assumes core: "region_core E s act rsv fre" and q: "q \<noteq> 0" "q \<notin> set (act @ rsv @ fre)"
    and s': "regs s' = (regs s)(q \<mapsto> pending_region a n)" "active_regions (rt s') = active_regions (rt s)"
      "active_regionsTail (rt s') = active_regionsTail (rt s)" "reserved_regions (rt s') = reserved_regions (rt s)"
      "free_structs (rt s') = free_structs (rt s)"
    and a: "a \<noteq> 0" "0 < n" "fits (a, n)" "unat (getpagesize E) dvd unat a" "unat (getpagesize E) dvd unat n"
    and mp: "all_mapped s (act @ rsv) vm" and free: "\<And>x. in_block x (a, n) \<Longrightarrow> vm x = None"
  shows "region_core E s' act rsv fre" "pending_ok E s' act rsv fre q" "covers s (act @ rsv) s' (act @ rsv)"
proof -
  have o: "regs s' p = regs s p" if "p \<noteq> q" for p using that by (simp add: s')
  have r: "region_range (regs s') p = region_range (regs s) p" if "p \<in> set (act @ rsv)" for p
    using that q by (auto simp: s')
  have c: "chain (region_next (regs s')) p xs z = chain (region_next (regs s)) p xs z" if "q \<notin> set xs" for p xs z
    by (rule chain_cong) (use that in \<open>auto simp: s'\<close>)
  have qn: "q \<notin> set act" "q \<notin> set rsv" "q \<notin> set fre" using q by auto
  have "region_lists s' act rsv fre"
    using core c [OF qn(1)] c [OF qn(2)] c [OF qn(3)] by (auto simp: region_core_def region_lists_def s'(2-5) s'(1))
  moreover have "map (region_range (regs s')) (act @ rsv) = map (region_range (regs s)) (act @ rsv)"
    using r by (intro map_cong) auto
  then have "apart_all (mset (map (region_range (regs s')) (act @ rsv)))" using core by (simp only: region_core_def)
  moreover have "list_all (\<lambda>p. range_ok E (the (regs s' p))) (act @ rsv)"
    using core q by (auto simp: region_core_def list_all_iff s'(1))
  ultimately show "region_core E s' act rsv fre" by (simp add: region_core_def)
  show "covers s (act @ rsv) s' (act @ rsv)" using r unfolding covers_def by (metis inside_refl)
  have "apart (a, n) (region_range (regs s) p)" if p: "p \<in> set (act @ rsv)" for p
  proof (rule fresh_apart [where vm = vm])
    obtain P where P: "regs s p = Some P" using core p by (auto simp: region_core_def region_lists_def)
    then have "range_ok E P" using core p by (force simp: region_core_def list_all_iff)
    with P show "0 < snd (region_range (regs s) p)" "fits (region_range (regs s) p)"
      by (simp_all add: region_range_def range_ok_def)
  qed (use free mp p a in \<open>auto simp: all_mapped_def\<close>)
  then show "pending_ok E s' act rsv fre q"
    using q r a by (auto simp: pending_ok_def s'(1) pending_region_def range_ok_def)
qed

text \<open>The struct and the buffer that \<^verbatim>\<open>sc_postNewReservation\<close> takes before it maps the new range.\<close>

lemma post_calls:
  assumes run: "sc_postNewReservation E pages s = (Inr rc, s')"
  obtains l f s1 c s2 where "my_local s = Some l" "l_flushPoint l = cleanupLog_lastSeqNum (rt s)"
    "sc_getFreeRegion E s = (Inr f, s1)" "f \<noteq> 0" "sc_malloc E (sizeof_sc_cleanupLogStep E) s1 = (Inr c, s2)"
    "(if c = 0 then (Inr 2, s2)
      else
        let (rng, s) = sys_mmap E (reserve_req 0 (pages * getpagesize E)) s2 in
        if rng = MAP_FAILED then call (sc_free c) (\<lambda>_ s. (Inl (Todo 2554), s)) s
        else post_fill rng (pages * getpagesize E) f c s) = (Inr rc, s')"
proof -
  from guard_InrD [OF run [unfolded sc_postNewReservation_def]] obtain l where l: "my_local s = Some l"
    "l_flushPoint l = cleanupLog_lastSeqNum (rt s)"
    and r: "call (sc_getFreeRegion E) (\<lambda>newReg s.
             if newReg = 0 then (Inr 1, s)
             else
               call (sc_malloc E (sizeof_sc_cleanupLogStep E)) (\<lambda>newStep s.
                 if newStep = 0 then (Inr 2, s)
                 else
                   let (rng, s) = sys_mmap E (reserve_req 0 (pages * getpagesize E)) s in
                   if rng = MAP_FAILED then call (sc_free newStep) (\<lambda>_ s. (Inl (Todo 2554), s)) s
                   else post_fill rng (pages * getpagesize E) newReg newStep s) s) s = (Inr rc, s')"
    by (auto simp: deref_def split: option.splits if_splits)
  from r show thesis
  proof (rule call_InrE)
    fix f s1 assume f: "sc_getFreeRegion E s = (Inr f, s1)"
      and r1: "(if f = 0 then (Inr 1, s1)
             else
               call (sc_malloc E (sizeof_sc_cleanupLogStep E)) (\<lambda>newStep s.
                 if newStep = 0 then (Inr 2, s)
                 else
                   let (rng, s) = sys_mmap E (reserve_req 0 (pages * getpagesize E)) s in
                   if rng = MAP_FAILED then call (sc_free newStep) (\<lambda>_ s. (Inl (Todo 2554), s)) s
                   else post_fill rng (pages * getpagesize E) f newStep s) s1) = (Inr rc, s')"
    have f0: "f \<noteq> 0" using f by (auto dest: getFreeRegion_InrD)
    show thesis by (rule call_InrE [OF r1 [unfolded if_not_P [OF f0]]]) (rule that [OF l f f0])
  qed
qed

lemma post_prepare:
  assumes core: "region_core E s act rsv fre" and inv: "alloc_inv E s L"
    and run: "sc_postNewReservation E pages s = (Inr rc, s')"
  obtains l f c s2 act2 rsv2 fre2 where "my_local s = Some l" "l_flushPoint l = cleanupLog_lastSeqNum (rt s)" "f \<noteq> 0" "keeps s s2"
    "region_core E s2 act2 rsv2 fre2" "covers s (act @ rsv) s2 (act2 @ rsv2)" "grown (regs s) act rsv (regs s2) act2 rsv2" "f \<notin> set (act2 @ rsv2 @ fre2)"
    "file_grows E \<longrightarrow> laid s act \<longrightarrow> laid s2 act2" "active_regions (rt s) \<noteq> f"
    "region_range (regs s2) (active_regions (rt s)) = region_range (regs s) (active_regions (rt s))"
    "alloc_inv E s2 (if c = 0 then L else add_mset (c, usable s2 c) L)" "same_in L (mem s) (mem s2)"
    "(if c = 0 then (Inr 2, s2)
      else
        let (rng, s) = sys_mmap E (reserve_req 0 (pages * getpagesize E)) s2 in
        if rng = MAP_FAILED then call (sc_free c) (\<lambda>_ s. (Inl (Todo 2554), s)) s
        else post_fill rng (pages * getpagesize E) f c s) = (Inr rc, s')"
  using run
proof (rule post_calls)
  fix l f s1 c s2
  assume l: "my_local s = Some l" "l_flushPoint l = cleanupLog_lastSeqNum (rt s)" and get: "sc_getFreeRegion E s = (Inr f, s1)"
    and f0: "f \<noteq> 0" and mal: "sc_malloc E (sizeof_sc_cleanupLogStep E) s1 = (Inr c, s2)"
    and rest: "(if c = 0 then (Inr 2, s2)
      else
        let (rng, s) = sys_mmap E (reserve_req 0 (pages * getpagesize E)) s2 in
        if rng = MAP_FAILED then call (sc_free c) (\<lambda>_ s. (Inl (Todo 2554), s)) s
        else post_fill rng (pages * getpagesize E) f c s) = (Inr rc, s')"
  from getFree_core [OF core get] obtain g fre1 where core1: "region_core E s1 act rsv (g # fre1)"
    and fn: "f \<notin> set (act @ rsv @ g # fre1)" and rg: "\<And>p. p \<noteq> f \<Longrightarrow> regs s1 p = regs s p"
    and s1: "s1 = put_region f ((the (regs s f))\<lparr>r_next := 0\<rparr>) (upd_rt (\<lambda>c. c\<lparr>free_structs := g\<rparr>) s)" by blast
  have inv1: "alloc_inv E s1 L" by (rule alloc_inv_getFree [OF core get inv])
  have k1: "keeps s s1" by (simp add: s1 keeps_def rt_rest_def)
  from sc_malloc_move [OF core1 mal] obtain act2 rsv2 fre2 where core2: "region_core E s2 act2 rsv2 fre2"
    and mv: "regions_move E s1 act rsv (g # fre1) s2 act2 rsv2 fre2" by blast
  have "r \<noteq> f" if "r \<in> set (act @ rsv)" for r using that fn by auto
  then have same: "region_range (regs s1) r = region_range (regs s) r" if "r \<in> set (act @ rsv)" for r
    using that by (simp add: region_range_def rg)
  have cov: "covers s (act @ rsv) s2 (act2 @ rsv2)" using covers_move [OF mv] same unfolding covers_def by metis
  have "regs s1 r = regs s r" if "r \<in> set (act @ rsv)" for r using that fn by (intro rg) auto
  then have gr: "grown (regs s) act rsv (regs s2) act2 rsv2"
    using mv grown_cong [of act rsv "regs s1" "regs s" act2 rsv2 "regs s2" "regs s2"] by (simp add: regions_move_def)
  have "laid s1 act = laid s act" by (rule laid_cong) (use fn in \<open>auto simp: s1 file_block_def\<close>)
  then have la: "file_grows E \<longrightarrow> laid s act \<longrightarrow> laid s2 act2" using mv by (simp add: regions_move_def)
  have first: "active_regions (rt s) \<in> set act" using core by (rule first_active)
  then have "region_range (regs s2) (active_regions (rt s)) = region_range (regs s) (active_regions (rt s))"
    using mv same by (simp add: regions_move_def)
  moreover have "active_regions (rt s) \<noteq> f" "f \<notin> set (act2 @ rsv2 @ fre2)" using mv fn first by (auto simp: regions_move_def)
  moreover have "alloc_inv E s2 (if c = 0 then L else add_mset (c, usable s2 c) L)"
    using sc_heap.alloc_failed [OF inv1] sc_heap.alloc_ok [OF inv1 mal] mal by auto
  moreover have "same_in L (mem s) (mem s2)" using sc_heap.alloc_frame [OF inv1 mal] by (simp add: same_in_def s1)
  ultimately show thesis using that l f0 keeps_trans [OF k1 sc_malloc_keeps [OF mal]] core2 cov gr la rest by blast
qed

text \<open>The new range is mapped and put on record.\<close>

lemma post_finish:
  assumes l: "my_local s = Some l" "l_flushPoint l = cleanupLog_lastSeqNum (rt s)" and f0: "f \<noteq> 0" and k: "keeps s s2"
    and core: "region_core E s2 act2 rsv2 fre2" and cov: "covers s (act @ rsv) s2 (act2 @ rsv2)"
    and gr: "grown (regs s) act rsv (regs s2) act2 rsv2" and fn: "f \<notin> set (act2 @ rsv2 @ fre2)"
    and la: "file_grows E \<longrightarrow> laid s act \<longrightarrow> laid s2 act2"
    and first: "active_regions (rt s) \<noteq> f" "region_range (regs s2) (active_regions (rt s)) = region_range (regs s) (active_regions (rt s))"
    and inv: "alloc_inv E s2 (add_mset (c, m) L)" and sm: "same_in L (mem s) (mem s2)" and c: "c \<noteq> 0"
    and nf: "os_mmap E (vmap s2) (reserve_req 0 (pages * getpagesize E)) \<noteq> MAP_FAILED"
    and pf: "post_fill (os_mmap E (vmap s2) (reserve_req 0 (pages * getpagesize E))) (pages * getpagesize E) f c
       (s2\<lparr>vmap := vm_map (vmap s2) (os_mmap E (vmap s2) (reserve_req 0 (pages * getpagesize E))) (reserve_req 0 (pages * getpagesize E))\<rparr>) = (Inr rc, s')"
    and empty: "cleanupLog (rt s) = 0" and K: "kernel_ok E" and mp: "all_mapped s (act @ rsv) (vmap s)"
  shows "rc = 0 \<and> posted E s act rsv L s' f c (os_mmap E (vmap s2) (reserve_req 0 (pages * getpagesize E))) (pages * getpagesize E)"
proof -
  let ?n = "pages * getpagesize E" and ?first = "active_regions (rt s)"
  let ?a = "os_mmap E (vmap s2) (reserve_req 0 ?n)"
  define s3 where "s3 = s2\<lparr>vmap := vm_map (vmap s2) ?a (reserve_req 0 ?n)\<rparr>"
  have e3: "cleanupLog (rt s3) = 0" using keeps_rt [OF k] empty by (simp add: s3_def)
  note P = post_fill_empty [OF pf [folded s3_def] e3]
  have vm2: "vmap s2 = vmap s" using k by (simp add: keeps_def)
  have a: "?a \<noteq> 0" "0 < ?n" "fits (?a, ?n)" "unat (getpagesize E) dvd unat ?a" "\<And>x. in_block x (?a, ?n) \<Longrightarrow> vmap s2 x = None"
    using K nf reserve_flags [of 0 ?n] unfolding kernel_ok_def by (metis reserve_req_len)+
  have s': "regs s' = (regs s2)(f \<mapsto> pending_region ?a ?n)" "rt s' = post_rt f c (rt s2)" "mem s' = mem s2"
    "freeList s' = freeList s2" "steps s' = (steps s2)(c \<mapsto> new_step s2 ?a ?n)" "vmap s' = vmap s3"
    using P by (auto simp: s3_def new_step_def)
  have mp2: "all_mapped s2 (act2 @ rsv2) (vmap s2)" using all_mapped_covers [OF cov mp] vm2 by simp
  have pp: "region_core E s' act2 rsv2 fre2" "pending_ok E s' act2 rsv2 fre2 f" "covers s2 (act2 @ rsv2) s' (act2 @ rsv2)"
    by (rule post_pending [OF core f0 fn s'(1) _ _ _ _ a(1-4) page_len [OF K] mp2 a(5)]; simp add: s' post_rt_def)+
  have inv': "alloc_inv E s' (add_mset (c, m) L)"
  proof (rule alloc_inv_regions [OF core pp(1) s'(3,4) _ inv])
    show "\<exists>q \<in> set act2. region_range (regs s') q = region_range (regs s2) p" if "p \<in> set act2" for p
      using that fn by (intro bexI [of _ p]) (auto simp: s'(1))
  qed
  have "regs s' r = regs s2 r" if "r \<in> set (act2 @ rsv2)" for r using that fn by (auto simp: s'(1))
  then have gr': "grown (regs s) act rsv (regs s') act2 rsv2"
    using gr grown_cong [of act rsv "regs s" "regs s" act2 rsv2 "regs s'" "regs s2"] by simp
  have "laid s' act2 = laid s2 act2"
    by (rule laid_cong) (use fn in \<open>auto simp: s'(1,2) post_rt_def file_block_def\<close>)
  with la have la': "file_grows E \<longrightarrow> laid s act \<longrightarrow> laid s' act2" by simp
  have cov': "covers s (act @ rsv) s' (act2 @ rsv2)" using cov pp(3) inside_trans unfolding covers_def by meson
  have same: "new_step s2 ?a ?n = new_step s ?a ?n" "steps s2 = steps s" using keeps_rt [OF k] k by (simp_all add: new_step_def keeps_def)
  have other: "procs s' = procs s" "root_addr s' = root_addr s" "pid s' = pid s" "map l_sc (locals s') = map l_sc (locals s)"
    using P k by (simp_all add: s3_def keeps_def)
  have "my_local s3 = Some l" using l(1) k by (simp add: s3_def my_local_def keeps_def)
  then have l': "my_local s' = Some (l\<lparr>l_flushPoint := l_flushPoint l + 1\<rparr>)" using P by simp
  have "posted E s act rsv L s' f c ?a ?n"
    unfolding posted_def
  proof (intro conjI)
    show "\<exists>act' rsv' fre'. region_core E s' act' rsv' fre' \<and> pending_ok E s' act' rsv' fre' f \<and>
        covers s (act @ rsv) s' (act' @ rsv') \<and> grown (regs s) act rsv (regs s') act' rsv' \<and>
        (file_grows E \<longrightarrow> laid s act \<longrightarrow> laid s' act')"
      using pp(1,2) cov' gr' la' by blast
    show "\<exists>k. alloc_inv E s' (add_mset (c, k) L)" using inv' by blast
    show "same_in L (mem s) (mem s')" using sm s'(3) by simp
    show "\<exists>l. my_local s = Some l \<and> l_flushPoint l = cleanupLog_lastSeqNum (rt s) \<and>
        my_local s' = Some (l\<lparr>l_flushPoint := l_flushPoint l + 1\<rparr>)" using l l' by blast
    show "vmap s' = vm_map (vmap s) ?a (reserve_req 0 ?n)" using s'(6) vm2 by (simp add: s3_def)
    show "steps s' = (steps s)(c \<mapsto> new_step s ?a ?n)" using s'(5) same by simp
    show "rt_rest (rt s') = rt_rest (post_rt f c (rt s))" using k s'(2) by (simp add: keeps_def rt_rest_post [of "rt s2" "rt s"])
    show "region_range (regs s') ?first = region_range (regs s) ?first" using s'(1) first by (simp add: region_range_def)
  qed (use c other keeps_rt [OF k] s'(1,2) in \<open>simp_all add: post_rt_def\<close>)
  with P show ?thesis by blast
qed

lemma post_InrD:
  assumes core: "region_core E s act rsv fre" and inv: "alloc_inv E s L"
    and run: "sc_postNewReservation E pages s = (Inr rc, s')"
    and empty: "cleanupLog (rt s) = 0" and K: "kernel_ok E" and mp: "all_mapped s (act @ rsv) (vmap s)"
  obtains (nomem) act' rsv' fre' where "rc = 2" "keeps s s'" "region_core E s' act' rsv' fre'"
      "alloc_inv E s' L" "same_in L (mem s) (mem s')" "covers s (act @ rsv) s' (act' @ rsv')" "grown (regs s) act rsv (regs s') act' rsv'"
      "region_range (regs s') (active_regions (rt s)) = region_range (regs s) (active_regions (rt s))"
      "file_grows E \<longrightarrow> laid s act \<longrightarrow> laid s' act'"
    | (posted) q c a n where "rc = 0" "posted E s act rsv L s' q c a n"
  using core inv run
proof (rule post_prepare)
  let ?n = "pages * getpagesize E"
  fix l f c act2 rsv2 fre2 and s2 :: st
  let ?a = "os_mmap E (vmap s2) (reserve_req 0 ?n)"
  assume A: "my_local s = Some l" "l_flushPoint l = cleanupLog_lastSeqNum (rt s)" "f \<noteq> 0" "keeps s s2"
    "region_core E s2 act2 rsv2 fre2" "covers s (act @ rsv) s2 (act2 @ rsv2)" "grown (regs s) act rsv (regs s2) act2 rsv2" "f \<notin> set (act2 @ rsv2 @ fre2)"
    "file_grows E \<longrightarrow> laid s act \<longrightarrow> laid s2 act2" "active_regions (rt s) \<noteq> f"
    "region_range (regs s2) (active_regions (rt s)) = region_range (regs s) (active_regions (rt s))"
    and inv2: "alloc_inv E s2 (if c = 0 then L else add_mset (c, usable s2 c) L)" and sm: "same_in L (mem s) (mem s2)"
    and r: "(if c = 0 then (Inr 2, s2)
      else
        let (rng, s) = sys_mmap E (reserve_req 0 ?n) s2 in
        if rng = MAP_FAILED then call (sc_free c) (\<lambda>_ s. (Inl (Todo 2554), s)) s
        else post_fill rng ?n f c s) = (Inr rc, s')"
  show thesis
  proof (cases "c = 0")
    case True
    with r inv2 have "rc = 2" "s2 = s'" "alloc_inv E s2 L" by auto
    with A sm show thesis by (intro nomem) auto
  next
    case False
    then have i: "alloc_inv E s2 (add_mset (c, usable s2 c) L)" using inv2 by simp
    have nf: "?a \<noteq> MAP_FAILED" using r False by (auto simp: sys_mmap_def Let_def elim!: call_InrE split: if_splits)
    have pf: "post_fill ?a ?n f c (s2\<lparr>vmap := vm_map (vmap s2) ?a (reserve_req 0 ?n)\<rparr>) = (Inr rc, s')"
      using r False nf by (simp add: sys_mmap_def Let_def)
    from post_finish [OF A i sm False nf pf empty K mp] show thesis by (intro posted) blast+
  qed
qed

section \<open>Flushing the log\<close>

lemma chain_drop:
  assumes "chain f p cs 0" and "k < length cs"
  shows "chain f (cs ! k) (drop k cs) 0"
  using assms
proof (induction cs arbitrary: p k)
  case (Cons c cs)
  then show ?case by (cases k) auto
qed simp

lemma log_drainable:
  assumes lc: "log_chain s cs" and k: "k < length cs" and seq: "step_seq s (cs ! k) = Suc (unat f)"
    and ack: "\<forall>d \<in> set (drop k cs). sint (c_ack_count (the (steps s d))) < sint (c_ack_targ (the (steps s d)))"
  shows "drainable s (cs ! k) (drop k cs) f"
proof -
  have "c_seqNum (the (steps s (drop k cs ! i))) = f + 1 + of_nat i" if i: "i < length (drop k cs)" for i
  proof -
    from i have ki: "k + i < length cs" by simp
    from lc ki obtain d where d: "steps s (cs ! (k + i)) = Some d"
      "unat (c_seqNum d) + length cs = unat (cleanupLog_lastSeqNum (rt s)) + Suc (k + i)" by (rule log_chain_nth)
    from lc k obtain c where "steps s (cs ! k) = Some c"
      "unat (c_seqNum c) + length cs = unat (cleanupLog_lastSeqNum (rt s)) + Suc k" by (rule log_chain_nth)
    with d seq have "unat (c_seqNum d) = Suc (unat f) + i" by (simp add: step_seq_def)
    then have "of_nat (unat (c_seqNum d)) = (of_nat (Suc (unat f) + i) :: u64)" by (rule arg_cong)
    then have "c_seqNum d = of_nat (Suc (unat f) + i)" by simp
    with d ki show ?thesis by simp
  qed
  moreover have "chain (step_next (steps s)) (cs ! k) (drop k cs) 0"
    using lc k by (auto simp: log_chain_def intro: chain_drop)
  moreover have "set (drop k cs) \<subseteq> dom (steps s)" using lc set_drop_subset [of k cs] unfolding log_chain_def by blast
  ultimately show ?thesis using k ack by (simp add: drainable_def)
qed

lemma bg_flush_ok:
  assumes lc: "log_chain s cs" and l: "my_local s = Some l"
    and less: "l_flushPoint l < cleanupLog_lastSeqNum (rt s)"
    and first: "cs \<noteq> []" "step_seq s (hd cs) \<le> Suc (unat (l_flushPoint l))"
    and lq: "lock_query_ok E" "\<And>k. 0 \<le> heldX (lk s) (LStep k)"
  defines "k \<equiv> log_pos s (l_flushPoint l) cs"
  assumes ack: "\<forall>d \<in> set (drop k cs). sint (c_ack_count (the (steps s d))) < sint (c_ack_targ (the (steps s d)))"
    and gr: "all_granted E (vmap s) (map (\<lambda>d. the (steps s d)) (drop k cs))"
  shows "\<exists>s'. bg_flush E s = (Inr (k = 0 \<and> c_ack_count (the (steps s (hd cs))) + 1 = c_ack_targ (the (steps s (hd cs)))), s') \<and>
     drained s (drop k cs) s' \<and> (\<forall>l. heldX (lk s') l = heldX (lk s) l \<and> heldS (lk s') l = heldS (lk s) l) \<and>
     map_option l_flushPoint (my_local s') = Some (cleanupLog_lastSeqNum (rt s))"
proof -
  let ?f = "l_flushPoint l"
  from bg_find_ok [OF lc l less first lq, folded log_pos_def, folded k_def] obtain tr where
    find: "bg_find E s = (Inr (cs ! k), s\<lparr>lk := lk s @ tr\<rparr>)" and k: "k < length cs"
    and seq: "step_seq s (cs ! k) = Suc (unat ?f)"
    and sh: "shift tr (\<lambda>l. if l = LStep (cs ! k) then 1 else 0) (\<lambda>_. 0)" by blast
  let ?s = "s\<lparr>lk := lk s @ tr\<rparr>"
  have nz: "cs ! k \<noteq> 0" using lc k by (rule log_chain_nth)
  have hdc: "cleanupLog (rt s) = hd cs" using lc first(1) by (cases cs) (auto simp: log_chain_def)
  have dist: "distinct cs" using lc chain_distinct unfolding log_chain_def by blast
  have hdk: "hd cs \<in> set (drop k cs) \<longleftrightarrow> k = 0"
    using dist first(1) by (cases k; cases cs) (auto dest: in_set_dropD)
  have dr: "drainable ?s (cs ! k) (drop k cs) ?f"
    using log_drainable [OF lc k seq ack] by (simp add: drainable_def)
  have "my_local ?s = Some l" "all_granted E (vmap ?s) (map (\<lambda>d. the (steps ?s d)) (drop k cs))" using l gr by simp_all
  from bg_drain_ok [OF dr this(1) refl this(2), of "hd cs" False] obtain s' tr' where
    drain: "bg_drain E (hd cs) False (cs ! k) ?s = Some (Inr (k = 0 \<and>
       c_ack_count (the (steps s (hd cs))) + 1 = c_ack_targ (the (steps s (hd cs)))), s')"
    and d: "drained ?s (drop k cs) s'" and lk': "lk s' = (lk s @ tr) @ tr'"
    and sh': "shift tr' (\<lambda>l. - (if l = LStep (cs ! k) then 1 else 0)) (\<lambda>_. 0)"
    by (auto simp: hdk)
  have run: "bg_flush E s = (Inr (k = 0 \<and> c_ack_count (the (steps s (hd cs))) + 1 = c_ack_targ (the (steps s (hd cs)))), s')"
    using find nz drain by (simp add: bg_flush_def hdc loops_def)
  have d': "drained s (drop k cs) s'" using d by (simp add: drained_def cong: if_cong)
  have bal: "heldX (lk s') l = heldX (lk s) l \<and> heldS (lk s') l = heldS (lk s) l" for l
    using shift_append [OF sh sh'] unfolding lk' append_assoc shift_def by simp
  from lc k obtain c where "steps s (cs ! k) = Some c"
    "unat (c_seqNum c) + length cs = unat (cleanupLog_lastSeqNum (rt s)) + Suc k" by (rule log_chain_nth)
  with seq have "unat ?f + (length cs - k) = unat (cleanupLog_lastSeqNum (rt s))"
    using k by (simp add: step_seq_def)
  then have "of_nat (unat ?f + (length cs - k)) = (of_nat (unat (cleanupLog_lastSeqNum (rt s))) :: u64)" by (rule arg_cong)
  then have fp: "?f + of_nat (length (drop k cs)) = cleanupLog_lastSeqNum (rt s)" by simp
  have "map_option l_flushPoint (my_local s') = Some (cleanupLog_lastSeqNum (rt s))"
    using d' l unfolding drained_def by (simp only: option.map fp)
  with run d' bal show ?thesis by blast
qed

section \<open>Retiring an entry\<close>

lemma pending_core:
  assumes core: "region_core E s act rsv fre" and pend: "pending_ok E s act rsv fre q" and q: "regs s q = Some r"
    and s': "regs s' = (regs s)(q \<mapsto> r\<lparr>r_next := reserved_regions (rt s)\<rparr>)" "active_regions (rt s') = active_regions (rt s)"
      "active_regionsTail (rt s') = active_regionsTail (rt s)" "reserved_regions (rt s') = q"
      "free_structs (rt s') = free_structs (rt s)"
  shows "region_core E s' act (q # rsv) fre" "\<And>p. region_range (regs s') p = region_range (regs s) p"
proof -
  show r: "region_range (regs s') p = region_range (regs s) p" for p
    using q by (simp add: s'(1) region_range_def)
  have c: "chain (region_next (regs s')) p xs z = chain (region_next (regs s)) p xs z" if "q \<notin> set xs" for p xs z
    by (rule chain_cong) (use that in \<open>auto simp: s'\<close>)
  have qn: "q \<notin> set act" "q \<notin> set rsv" "q \<notin> set fre" "q \<noteq> 0" using pend by (auto simp: pending_ok_def)
  have nx: "region_next (regs s') q = reserved_regions (rt s)" by (simp add: s'(1) region_next_def)
  have "region_lists s' act (q # rsv) fre"
    using core c [OF qn(1)] c [OF qn(2)] c [OF qn(3)] qn nx
    by (auto simp: region_core_def region_lists_def s'(2-5) dom_def s'(1))
  moreover have "apart_all (mset (map (region_range (regs s')) (act @ q # rsv)))"
  proof -
    have "apart_all (mset (map (region_range (regs s)) (act @ rsv)))" using core by (simp add: region_core_def)
    then have "apart_all (add_mset (region_range (regs s) q) (mset (map (region_range (regs s)) (act @ rsv))))"
      using pend by (subst apart_all_add) (auto simp: pending_ok_def)
    moreover have "region_range (regs s') = region_range (regs s)" using r by (rule ext)
    ultimately show ?thesis by simp
  qed
  moreover have "list_all (\<lambda>p. range_ok E (the (regs s' p))) (act @ q # rsv)"
    using core pend q qn by (auto simp: region_core_def list_all_iff s'(1) pending_ok_def range_ok_def)
  ultimately show "region_core E s' act (q # rsv) fre" by (simp add: region_core_def)
qed

lemma bg_retire_ok:
  assumes core: "region_core E s act rsv fre" and pend: "pending_ok E s act rsv fre (pending_reservation (rt s))"
    and q: "regs s (pending_reservation (rt s)) = Some r" "step_range c = (r_vaddr r, r_len r)"
    and op: "c_op c = SC_CLS_RESERVE_MEMORY" and inv: "alloc_inv E s L"
  defines "q \<equiv> pending_reservation (rt s)"
  defines "s' \<equiv> s\<lparr>rt := (rt s)\<lparr>pending_reservation := 0, reserved_regions := q\<rparr>,
     regs := (regs s)(q \<mapsto> r\<lparr>r_next := reserved_regions (rt s)\<rparr>)\<rparr>"
  shows "bg_retire c s = (Inr (), s')" "region_core E s' act (q # rsv) fre" "alloc_inv E s' L"
    "\<And>p. region_range (regs s') p = region_range (regs s) p"
proof -
  have "range_ok E r" using pend q(1) by (auto simp: pending_ok_def)
  then have "r_len r \<noteq> 0" by (auto simp: range_ok_def)
  then show "bg_retire c s = (Inr (), s')"
    using q op by (simp add: bg_retire_def Let_def step_range_def s'_def q_def upd_rt_def put_region_def)
  have *: "region_core E s' act (q # rsv) fre" "\<And>p. region_range (regs s') p = region_range (regs s) p"
    by (rule pending_core [OF core pend [folded q_def] q(1) [folded q_def]]; simp add: s'_def)+
  then show "region_core E s' act (q # rsv) fre" "\<And>p. region_range (regs s') p = region_range (regs s) p" by blast+
  show "alloc_inv E s' L"
    by (rule alloc_inv_regions [OF core *(1) _ _ _ inv]) (use *(2) in \<open>auto simp: s'_def\<close>)
qed

lemma free_step_ok:
  assumes "alloc_inv E s (add_mset (c, n) L)"
  obtains s' where "free_step c s = (Inr (), s')" "alloc_inv E s' L" "same_in L (mem s) (mem s')" "steps s' = (steps s)(c := None)"
    "rt s' = rt s" "regs s' = regs s" "procs s' = procs s" "locals s' = locals s" "root_addr s' = root_addr s"
    "vmap s' = vmap s" "pid s' = pid s" "\<And>l. heldX (lk s') l = heldX (lk s) l" "\<And>l. heldS (lk s') l = heldS (lk s) l"
proof -
  from sc_heap.release_ok [OF assms] obtain t where t: "sc_free c s = (Inr (), t)" "alloc_inv E t L" and m: "same_in L (mem s) (mem t)"
    by (auto simp: same_in_def)
  let ?s = "t\<lparr>steps := (steps t)(c := None)\<rparr>"
  have "alloc_inv E ?s L" using t(2) alloc_inv_rt [of ?s t] by simp
  moreover have "heldX (lk t) l = heldX (lk s) l" for l using sc_free_frame(9,10) [OF t(1)] by (cases "l = LMalloc") auto
  moreover have "heldS (lk t) l = heldS (lk s) l" for l
    using t(1) by (auto simp: sc_free_def Let_def set_mem_def lock_simps split: if_splits)
  ultimately show thesis using t(1) m sc_free_frame(1-8) [OF t(1)] by (intro that [of ?s]) (simp_all add: free_step_def)
qed

lemma bg_cleanup_ok:
  assumes core: "region_core E s act rsv fre" and pend: "pending_ok E s act rsv fre (pending_reservation (rt s))"
    and q: "regs s (pending_reservation (rt s)) = Some r" "step_range c = (r_vaddr r, r_len r)"
    and log: "cleanupLog (rt s) \<noteq> 0" "cleanupLog_tail (rt s) \<noteq> 0" "steps s (cleanupLog (rt s)) = Some c" "c_next c = 0"
    and op: "c_op c = SC_CLS_RESERVE_MEMORY" and ack: "c_ack_count c = c_ack_targ c"
    and inv: "alloc_inv E s (add_mset (cleanupLog (rt s), n) L)"
  shows "\<exists>s'. bg_cleanup s = (Inr (), s') \<and> cleaned E s act rsv fre L s'"
proof -
  let ?c = "cleanupLog (rt s)" and ?q = "pending_reservation (rt s)"
  define s1 where "s1 = s\<lparr>lk := lk s @ [LkExcl LRoot, LkExcl (LStep ?c)]\<rparr>"
  have core1: "region_core E s1 act rsv fre" using core region_core_cong [of s1 s] by (simp add: s1_def)
  have inv1: "alloc_inv E s1 (add_mset (?c, n) L)" using inv alloc_inv_rt [of s1 s] by (simp add: s1_def)
  have pend1: "pending_ok E s1 act rsv fre (pending_reservation (rt s1))" using pend by (simp add: pending_ok_def s1_def)
  have q1: "regs s1 (pending_reservation (rt s1)) = Some r" using q by (simp add: s1_def)
  note R = bg_retire_ok [OF core1 pend1 q1 q(2) op inv1]
  define s2 where "s2 = s1\<lparr>regs := (regs s)(?q \<mapsto> r\<lparr>r_next := reserved_regions (rt s)\<rparr>),
     rt := (rt s)\<lparr>pending_reservation := 0, reserved_regions := ?q, cleanupLog := 0, cleanupLog_tail := 0\<rparr>, lk := lk s1 @ [UnExcl (LStep ?c)]\<rparr>"
  have core2: "region_core E s2 act (?q # rsv) fre" using R(2)
    by (subst (asm) region_core_cong [of _ s2]) (simp_all add: s1_def s2_def)
  have inv2: "alloc_inv E s2 (add_mset (?c, n) L)" using R(3)
    by (subst (asm) alloc_inv_rt [of _ s2]) (simp_all add: s1_def s2_def)
  from free_step_ok [OF inv2] obtain s3 where f: "free_step ?c s2 = (Inr (), s3)" and s3: "alloc_inv E s3 L" "same_in L (mem s2) (mem s3)"
    "steps s3 = (steps s2)(?c := None)" "rt s3 = rt s2" "regs s3 = regs s2" "procs s3 = procs s2" "locals s3 = locals s2"
    "root_addr s3 = root_addr s2" "vmap s3 = vmap s2" "pid s3 = pid s2" "\<And>l. heldX (lk s3) l = heldX (lk s2) l"
    "\<And>l. heldS (lk s3) l = heldS (lk s2) l" by blast
  have "bg_clean_one s1 = (Inr False, s3)"
    using R(1) f log by (simp add: bg_clean_one_def s1_def Let_def s2_def log_lock_def upd_rt_def)
  then have "bg_clean s1 = Some (Inr (), s3)" by (subst bg_clean.simps) simp
  then have run: "bg_cleanup s = (Inr (), unlock_exclusive LRoot s3)"
    using log ack by (simp add: bg_cleanup_def Let_def loops_def log_lock_def s1_def)
  have "region_core E (unlock_exclusive LRoot s3) act (?q # rsv) fre"
    using core2 region_core_cong [of "unlock_exclusive LRoot s3" s2] s3 by simp
  moreover have "alloc_inv E (unlock_exclusive LRoot s3) L"
    using s3(1) alloc_inv_rt [of "unlock_exclusive LRoot s3" s3] by simp
  moreover have "region_range (regs s3) p = region_range (regs s) p" for p
    using q s3 by (simp add: s2_def region_range_def)
  moreover have "map_option unlinked (regs s3 p) = map_option unlinked (regs s p)" for p
    using q s3 by (simp add: s2_def unlinked_def)
  ultimately have "cleaned E s act rsv fre L (unlock_exclusive LRoot s3)"
    unfolding cleaned_def using s3(2-) by (simp add: s2_def s1_def lock_simps)
  with run show ?thesis by blast
qed

section \<open>Posting returns\<close>

lemma post_fill_returns:
  assumes "my_local s = Some l" "l_flushPoint l = cleanupLog_lastSeqNum (rt s)"
    and "cleanupLog (rt s) = 0" "cleanupLog_tail (rt s) = 0"
  shows "\<exists>s'. post_fill a n q c s = (Inr 0, s')"
  using assms by (simp add: post_fill_def Let_def)

lemma post_getFree:
  assumes inv: "malloc_inv E s ns live R" and core: "region_core E s act rsv (f # g # fre)"
    and held: "isLock_heldExclusive_byMe E (lk s) LRoot"
  obtains s1 where "sc_getFreeRegion E s = (Inr f, s1)" "f \<noteq> 0" "malloc_inv E s1 ns live R" "keeps s s1"
    "region_core E s1 act rsv (g # fre)" "mem s1 = mem s" "lk s1 = lk s"
    "s1 = put_region f ((the (regs s f))\<lparr>r_next := 0\<rparr>) (upd_rt (\<lambda>c. c\<lparr>free_structs := g\<rparr>) s)"
proof -
  from core have lists: "region_lists s act rsv (f # g # fre)" by (simp add: region_core_def)
  then obtain F where F: "regs s f = Some F" "free_structs (rt s) = f" "f \<noteq> 0" "r_next F = g" "g \<noteq> 0"
    by (auto simp: region_lists_def region_next_def)
  define s1 where "s1 = put_region f (F\<lparr>r_next := 0\<rparr>) (upd_rt (\<lambda>c. c\<lparr>free_structs := g\<rparr>) s)"
  have get: "sc_getFreeRegion E s = (Inr f, s1)"
    using F held by (simp add: sc_getFreeRegion_def Let_def s1_def)
  have core1: "region_core E s1 act rsv (g # fre)" using getFree_core [OF core get] by auto
  have fn: "f \<notin> set act" using lists by (auto simp: region_lists_def)
  from inv obtain act' rsv' fre' where "region_core E s act' rsv' fre'" "R = mset (map (region_range (regs s)) act')"
    by (auto simp: malloc_inv_def active_inv_def)
  moreover from this lists have "act' = act" by (auto simp: region_core_def region_lists_def intro: chain_unique)
  moreover have "map (region_range (regs s1)) act = map (region_range (regs s)) act"
    using fn by (auto simp: s1_def region_range_def)
  moreover have "page_ok E" using inv by (simp add: malloc_inv_def active_inv_def)
  ultimately have "active_inv E s1 R" using active_invI [OF _ core1] by (simp only:)
  then have "malloc_inv E s1 ns live R" using inv by (simp add: malloc_inv_def s1_def)
  with get F core1 show thesis by (intro that [of s1]) (simp_all add: s1_def keeps_def rt_rest_def)
qed

lemma post_returns:
  assumes get: "sc_getFreeRegion E s = (Inr f, s1)" "f \<noteq> 0" and k1: "keeps s s1"
    and mal: "sc_malloc E (sizeof_sc_cleanupLogStep E) s1 = (Inr c, s2)" and c: "c \<noteq> 0"
    and held: "isLock_heldExclusive_byMe E (lk s) LRoot" and pend: "pending_reservation (rt s) = 0"
    and pages: "0 < pages" and count: "1 < sint (proc_count (rt s))"
    and l: "my_local s = Some l" "l_flushPoint l = cleanupLog_lastSeqNum (rt s)"
    and log: "cleanupLog (rt s) = 0" "cleanupLog_tail (rt s) = 0"
    and mm: "os_mmap E (vmap s) (reserve_req 0 (pages * getpagesize E)) \<noteq> MAP_FAILED"
  shows "\<exists>s'. sc_postNewReservation E pages s = (Inr 0, s')"
proof -
  have k: "keeps s s2" by (rule keeps_trans [OF k1 sc_malloc_keeps [OF mal]])
  let ?a = "os_mmap E (vmap s) (reserve_req 0 (pages * getpagesize E))"
  define s3 where "s3 = s2\<lparr>vmap := vm_map (vmap s) ?a (reserve_req 0 (pages * getpagesize E))\<rparr>"
  have sm: "sys_mmap E (reserve_req 0 (pages * getpagesize E)) s2 = (?a, s3)"
    using k mm by (simp add: sys_mmap_def s3_def keeps_def Let_def)
  have "my_local s3 = Some l" using k l by (simp add: s3_def my_local_def keeps_def)
  from post_fill_returns [OF this, of ?a "pages * getpagesize E" f c] obtain s' where
    fill: "post_fill ?a (pages * getpagesize E) f c s3 = (Inr 0, s')"
    using l log keeps_rt [OF k] by (auto simp: s3_def)
  have "sc_postNewReservation E pages s = (Inr 0, s')"
    unfolding sc_postNewReservation_def using held pend pages count l get mal c sm mm fill by simp
  then show ?thesis by blast
qed

lemma sc_mmap_lk:
  assumes "sc_mmap E addr n prot flags fd off s = (Inr p, s')" and "my_local s = Some l"
  shows "\<exists>tr. lk s' = lk s @ [LkShared LLocalList, UnShared LLocalList, LkExcl LRoot] @ tr"
proof -
  from guard_InrD [OF assms(1) [unfolded sc_mmap_def]] have b: "sc_mmap_body E n prot s = (Inr p, s')" by blast
  then show ?thesis using assms(2)
    by (auto simp: sc_mmap_body_def lookupScLocal_eq my_local_def Let_def sys_ftruncate_def sc_mmap_carve_def deref_def
        split: option.splits if_splits elim!: call_InrE dest!: getFreeRegion_InrD)
qed

lemma sc_malloc_grow_lk:
  assumes run: "sc_malloc E sz s = (Inr p, s')" and chain: "chain (node_next (mem s)) (freeList s) ns 0"
    and no: "\<forall>a \<in> set ns. \<not> malloc_fits (malloc_alloc_size sz) (malloc_alloc_size sz + 24) (mem s) a"
    and l: "my_local s = Some l"
  shows "\<exists>tr. lk s' = lk s @ [LkExcl LMalloc, LkShared LLocalList, UnShared LLocalList, LkExcl LRoot] @ tr"
proof -
  let ?al = "malloc_alloc_size sz" and ?s = "lock_exclusive LMalloc s"
  from malloc_scan_none [OF chain no] obtain sl where scan: "malloc_scan ?al (?al + 24) (mem s) FreeListHead (freeList s) = Some (sl, 0)"
    by blast
  from guard_InrD [OF run [unfolded sc_malloc_def]] obtain buf s1 where grow: "malloc_grow E (?al + 24) ?s = (Inr buf, s1)"
    and rest: "(if buf = 0 then (Inr 0, unlock_exclusive LMalloc s1) else malloc_carve ?al (?al + 24) FreeListHead buf s1) = (Inr p, s')"
    by (auto simp: Let_def malloc_split_size_def sizeofs scan loops_def split: if_splits elim: call_InrE)
  from grow obtain b s2 where "malloc_pages E (malloc_mmap_size E (?al + 24)) ?s = (Inr b, s2)" and s2: "lk s1 = lk s2"
    unfolding malloc_grow_def Let_def by (elim call_InrE) (auto simp: set_mem_def split: if_splits)
  from sc_mmap_lk [OF this(1), of l] l obtain tr where
    tr: "lk s1 = lk s @ [LkExcl LMalloc, LkShared LLocalList, UnShared LLocalList, LkExcl LRoot] @ tr" using s2 by auto
  moreover have "\<exists>tr. lk s' = lk s1 @ tr"
    using rest malloc_carve_mem [of ?al "?al + 24" FreeListHead buf s1 p s']
    by (cases "buf = 0") (auto simp: mem_only_def)
  ultimately show ?thesis by auto
qed

lemma post_fill_lk:
  assumes "post_fill a n q c s = (Inr rc, s')" shows "\<exists>tr. lk s' = lk s @ tr"
  using assms by (auto simp: post_fill_def Let_def deref_def split: if_splits option.splits elim!: call_InrE)

lemma demo_step_sel [simp]:
  "c_seqNum (demo_step seq nx got targ va n) = seq" "c_next (demo_step seq nx got targ va n) = nx"
  "c_ack_count (demo_step seq nx got targ va n) = got" "c_ack_targ (demo_step seq nx got targ va n) = targ"
  "c_op (demo_step seq nx got targ va n) = SC_CLS_RESERVE_MEMORY"
  "c_vaddr (demo_step seq nx got targ va n) = va" "c_len (demo_step seq nx got targ va n) = n"
  by (simp_all add: demo_step_def)

lemma demo_log_st_sel [simp]:
  "rt demo_log_st = demo_root\<lparr>proc_count := 3, cleanupLog := 0x9000, cleanupLog_tail := 0xa000, cleanupLog_lastSeqNum := 2\<rparr>"
  "steps demo_log_st 0x9000 = Some (demo_step 1 0xa000 1 3 0x100000 0x1000)"
  "steps demo_log_st 0xa000 = Some (demo_step 2 0 1 3 0x700000 0x2000)"
  "vmap demo_log_st = demo_vmap" "locals demo_log_st = [demo_local\<lparr>l_flushPoint := 1\<rparr>]" "lk demo_log_st = []"
  "root_addr demo_log_st = 0x1000"
  by (simp_all add: demo_log_st_def)

lemma kern_env_sel [simp]:
  "getpagesize kern_env = 0x1000" "isLock_heldExclusive_byMe kern_env tr l \<longleftrightarrow> 0 < heldX tr l"
  "sizeof_sc_cleanupLogStep kern_env = 0x40"
  by (simp_all add: kern_env_def)

lemma kern_ok: "kernel_ok kern_env" "lock_query_ok kern_env" "page_ok kern_env"
  by (auto simp: kernel_ok_def kern_env_def lock_query_ok_def page_ok_def word_neq_0_conv)

lemma region_core_env: "getpagesize E = getpagesize E' \<Longrightarrow> region_core E s act rsv fre = region_core E' s act rsv fre"
  by (simp add: region_core_def range_ok_def)

lemma demo_core_kern:
  assumes "regs s = demo_regs" "active_regions (rt s) = 0x1100" "active_regionsTail (rt s) = 0x1140"
    "reserved_regions (rt s) = 0x1180" "free_structs (rt s) = 0x11c0" "getpagesize E = 0x1000"
  shows "region_core E s [0x1100, 0x1140] [0x1180] [0x11c0, 0x1200, 0x1240]"
  using demo_core assms region_core_cong [of s demo_st] region_core_env [of demo_env E]
  by (simp add: demo_root_def)

lemma demo_ranges:
  "region_range demo_regs 0x1100 = (0x1000, 0x1000)" "region_range demo_regs 0x1140 = (0x2000, 0x2000)"
  "region_range demo_regs 0x1180 = (0x100000, 0x80000)"
  by (simp_all add: region_range_def demo_regs_def demo_region_def)

lemma load64_zero [simp]: "load64 (\<lambda>_. 0) a = 0"
  by (simp add: load64_def dec64_def mem_read_def upt_rec)

lemma demo_post_heap:
  "malloc_inv kern_env demo_post_st [0x2000] {#} {#(0x1000, 0x1000), (0x2000, 0x2000)#}"
proof -
  have "active_inv kern_env demo_post_st {#(0x1000, 0x1000), (0x2000, 0x2000)#}"
    using active_invI [OF kern_ok(3) demo_core_kern [of demo_post_st kern_env]]
    by (simp add: demo_post_st_def demo_root_def demo_ranges)
  moreover have n: "node_len (mem demo_post_st) 0x2000 = 0x2000" "node_next (mem demo_post_st) 0x2000 = 0"
    by (simp_all add: demo_post_st_def node_len_def node_next_def load64_store64 load64_store64_other load64_zero)
  ultimately show ?thesis
    by (simp add: malloc_inv_def heap_wf_def blk_def block_ok_def fits_def inside_def) (simp add: demo_post_st_def)
qed

lemma demo_post_mapped: "all_mapped demo_post_st ([0x1100, 0x1140] @ [0x1180]) (vmap demo_post_st)"
  by (auto simp: all_mapped_def demo_post_st_def demo_ranges demo_vmap_def in_block_def word_less_nat_alt)

section \<open>Properties\<close>

text \<open>C10: A turn of the background thread that finds work leapfrogs to the first entry of the cleanup log that
  the process has not handled, maps the range of that entry and of every later one, acknowledges each
  of them exactly once and advances its flush point to the last sequence number. It gives back every
  lock it took, and it reports that the log needs cleaning exactly when it was the last one to
  acknowledge the first entry.\<close>

theorem bg_flush_correct:
  assumes "log_chain s cs" and "my_local s = Some l" and "l_flushPoint l < cleanupLog_lastSeqNum (rt s)"
    and "cs \<noteq> []" "step_seq s (hd cs) \<le> Suc (unat (l_flushPoint l))"
    and "lock_query_ok E" "\<forall>k. 0 \<le> heldX (lk s) (LStep k)"
    and "\<forall>d \<in> set (drop (log_pos s (l_flushPoint l) cs) cs).
       sint (c_ack_count (the (steps s d))) < sint (c_ack_targ (the (steps s d)))"
    and "all_granted E (vmap s) (map (\<lambda>d. the (steps s d)) (drop (log_pos s (l_flushPoint l) cs) cs))"
  shows "\<exists>s'. bg_flush E s = (Inr (log_pos s (l_flushPoint l) cs = 0 \<and>
        c_ack_count (the (steps s (hd cs))) + 1 = c_ack_targ (the (steps s (hd cs)))), s') \<and>
     (\<forall>d \<in> set (drop (log_pos s (l_flushPoint l) cs) cs). steps s' d = map_option acked (steps s d) \<and>
        (\<forall>x. in_block x (step_range (the (steps s d))) \<longrightarrow> vmap s' x \<noteq> None)) \<and>
     (\<forall>d. d \<notin> set (drop (log_pos s (l_flushPoint l) cs) cs) \<longrightarrow> steps s' d = steps s d) \<and>
     rt s' = rt s \<and> regs s' = regs s \<and> mem s' = mem s \<and>
     map_option l_flushPoint (my_local s') = Some (cleanupLog_lastSeqNum (rt s)) \<and>
     (\<forall>k. heldX (lk s') k = heldX (lk s) k \<and> heldS (lk s') k = heldS (lk s) k)"
  using bg_flush_ok [OF assms(1-6) _ assms(8,9)] assms(7) unfolding drained_def by fastforce

theorem bg_flush_correct_witness:
  "\<exists>s'. bg_flush kern_env demo_log_st = (Inr False, s') \<and> vmap s' 0x700000 \<noteq> None \<and>
     steps s' 0x9000 = steps demo_log_st 0x9000 \<and> c_ack_count (the (steps s' 0xa000)) = 2 \<and>
     map_option l_flushPoint (my_local s') = Some 2"
proof -
  let ?l = "demo_local\<lparr>l_flushPoint := 1\<rparr>" and ?cs = "[0x9000, 0xa000]"
  have pos: "drop (log_pos demo_log_st (l_flushPoint ?l) ?cs) ?cs = [0xa000]"
    "log_pos demo_log_st (l_flushPoint ?l) ?cs = 1" by (simp_all add: log_pos_def step_seq_def)
  have c: "log_chain demo_log_st ?cs"
    by (auto simp: log_chain_def step_next_def step_seq_def less_Suc_eq)
  have l: "my_local demo_log_st = Some ?l" by (simp add: my_local_def)
  have g: "all_granted kern_env (vmap demo_log_st) [the (steps demo_log_st 0xa000)]"
    by (simp add: reserve_granted_def kern_env_def reserve_req_def mman_defs demo_vmap_def in_block_def
        fits_def word_less_nat_alt)
  have a: "sint (c_ack_count (the (steps demo_log_st 0xa000))) < sint (c_ack_targ (the (steps demo_log_st 0xa000)))"
    by (simp add: sint_nonneg_unat)
  have le: "step_seq demo_log_st (hd ?cs) \<le> Suc (unat (l_flushPoint ?l))" by (simp add: step_seq_def)
  from bg_flush_correct [OF c l _ _ le kern_ok(2), unfolded pos] g a obtain s' where
    s': "bg_flush kern_env demo_log_st = (Inr False, s')" "steps s' 0xa000 = map_option acked (steps demo_log_st 0xa000)"
      "\<And>x. in_block x (step_range (the (steps demo_log_st 0xa000))) \<Longrightarrow> vmap s' x \<noteq> None"
      "steps s' 0x9000 = steps demo_log_st 0x9000" "map_option l_flushPoint (my_local s') = Some 2"
    by auto
  have "vmap s' 0x700000 \<noteq> None" by (rule s'(3)) (simp add: step_range_def in_block_def)
  with s' show ?thesis by (intro exI [of _ s']) (simp add: acked_def)
qed

text \<open>C11: Posting a reservation succeeds when the caller holds the root lock, nothing is pending, the process
  has flushed the log and the heap has a chunk for the new entry. The new range is page aligned,
  disjoint from every active and reserved range and mapped in the posting process; it is recorded as
  pending and proposed by a new entry with the next sequence number, which the other processes have
  to acknowledge and the posting process has acknowledged already. The region lists and the heap
  stay well formed, and the buffers of the heap keep their bytes.\<close>

theorem sc_postNewReservation_correct:
  assumes "malloc_inv E s ns live R" and "region_core E s act rsv (f # g # fre)"
    and "\<exists>a \<in> set ns. malloc_fits (malloc_alloc_size (sizeof_sc_cleanupLogStep E))
        (malloc_alloc_size (sizeof_sc_cleanupLogStep E) + 24) (mem s) a" "0 \<le> sint (sizeof_sc_cleanupLogStep E)"
    and "isLock_heldExclusive_byMe E (lk s) LRoot" and "pending_reservation (rt s) = 0"
    and "0 < pages" and "1 < sint (proc_count (rt s))"
    and "my_local s = Some l" "l_flushPoint l = cleanupLog_lastSeqNum (rt s)"
    and "cleanupLog (rt s) = 0" "cleanupLog_tail (rt s) = 0"
    and "os_mmap E (vmap s) (reserve_req 0 (pages * getpagesize E)) \<noteq> MAP_FAILED"
    and "kernel_ok E" and "all_mapped s (act @ rsv) (vmap s)"
  shows "\<exists>s' q c a n. sc_postNewReservation E pages s = (Inr 0, s') \<and>
     posted E s act rsv (image_mset payload live) s' q c a n"
proof -
  from assms(1,2,5) obtain s1 where s1: "sc_getFreeRegion E s = (Inr f, s1)" "f \<noteq> 0" "malloc_inv E s1 ns live R"
    "keeps s s1" "mem s1 = mem s" by (rule post_getFree)
  from sc_malloc_enough [OF s1(3) assms(4)] assms(3) s1(5) malloc_new_nonnull obtain c s2 where
    mal: "sc_malloc E (sizeof_sc_cleanupLogStep E) s1 = (Inr c, s2)" "c \<noteq> 0" by metis
  from post_returns [OF s1(1,2,4) mal assms(5-13)] obtain s' where
    run: "sc_postNewReservation E pages s = (Inr 0, s')" by blast
  have "alloc_inv E s (image_mset payload live)" using assms(1) by (auto simp: alloc_inv_def)
  from post_InrD [OF assms(2) this run assms(11,14,15)] run show ?thesis by (metis zero_neq_numeral)
qed

theorem sc_postNewReservation_correct_witness:
  "\<exists>s' q c a n. sc_postNewReservation kern_env 2 demo_post_st = (Inr 0, s') \<and>
     posted kern_env demo_post_st [0x1100, 0x1140] [0x1180] {#} s' q c a n"
proof -
  have core: "region_core kern_env demo_post_st [0x1100, 0x1140] [0x1180] [0x11c0, 0x1200, 0x1240]"
    by (rule demo_core_kern) (simp_all add: demo_post_st_def demo_root_def)
  have fit: "\<exists>a \<in> set [0x2000]. malloc_fits (malloc_alloc_size (sizeof_sc_cleanupLogStep kern_env))
        (malloc_alloc_size (sizeof_sc_cleanupLogStep kern_env) + 24) (mem demo_post_st) a"
    by (simp add: malloc_fits_def malloc_alloc_size_def sizeofs demo_post_st_def node_len_def load64_store64)
  have mm: "os_mmap kern_env (vmap demo_post_st) (reserve_req 0 (2 * getpagesize kern_env)) \<noteq> MAP_FAILED"
    by (simp add: kern_env_def reserve_req_def mman_defs demo_post_st_def demo_vmap_def in_block_def fits_def word_less_nat_alt)
  from sc_postNewReservation_correct [OF demo_post_heap core fit _ _ _ _ _ _ _ _ _ mm kern_ok(1) demo_post_mapped]
  show ?thesis
    by (simp add: demo_post_st_def my_local_def demo_local_def demo_root_def heldX_def sint_nonneg_unat)
qed

text \<open>C12: When every process has acknowledged the only entry of the log, the cleanup makes the pending range
  the first reserved range, without touching any range, empties the log, frees the entry and gives
  back its locks; nothing is pending any more, the heap and the region lists stay well formed and the
  other buffers keep their bytes.\<close>

theorem bg_cleanup_correct:
  assumes "region_core E s act rsv fre" and "pending_ok E s act rsv fre (pending_reservation (rt s))"
    and "regs s (pending_reservation (rt s)) = Some r" "step_range c = (r_vaddr r, r_len r)"
    and "cleanupLog (rt s) \<noteq> 0" "cleanupLog_tail (rt s) \<noteq> 0" "steps s (cleanupLog (rt s)) = Some c" "c_next c = 0"
    and "c_op c = SC_CLS_RESERVE_MEMORY" and "c_ack_count c = c_ack_targ c"
    and "alloc_inv E s (add_mset (cleanupLog (rt s), n) L)"
  shows "\<exists>s'. bg_cleanup s = (Inr (), s') \<and> region_core E s' act (pending_reservation (rt s) # rsv) fre \<and>
     (\<forall>p. region_range (regs s') p = region_range (regs s) p) \<and> alloc_inv E s' L \<and> same_in L (mem s) (mem s') \<and>
     rt s' = (rt s)\<lparr>pending_reservation := 0, reserved_regions := pending_reservation (rt s), cleanupLog := 0,
       cleanupLog_tail := 0\<rparr> \<and>
     steps s' = (steps s)(cleanupLog (rt s) := None) \<and>
     (\<forall>l. heldX (lk s') l = heldX (lk s) l \<and> heldS (lk s') l = heldS (lk s) l)"
  using bg_cleanup_ok [OF assms] unfolding cleaned_def by blast

theorem bg_cleanup_correct_witness:
  "\<exists>s'. bg_cleanup demo_done_st = (Inr (), s') \<and>
     region_core demo_env s' [0x1100, 0x1140] [0x1300, 0x1180] [0x11c0, 0x1200, 0x1240] \<and>
     alloc_inv demo_env s' {#} \<and> cleanupLog (rt s') = 0"
proof -
  have core: "region_core demo_env demo_done_st [0x1100, 0x1140] [0x1180] [0x11c0, 0x1200, 0x1240]"
    using demo_core by (simp add: demo_done_st_def demo_live_st_def region_core_def region_lists_def region_range_def
        demo_regs_def region_next_def demo_root_def)
  have pend: "pending_ok demo_env demo_done_st [0x1100, 0x1140] [0x1180] [0x11c0, 0x1200, 0x1240] 0x1300"
    by (simp add: pending_ok_def demo_done_st_def range_ok_def fits_def region_range_def demo_regs_def demo_region_def apart_def)
  have "alloc_inv demo_env demo_done_st {#(0x2010, 40)#}"
  proof (rule alloc_inv_regions [OF _ core _ _ _ demo_live])
    show "region_core demo_env demo_live_st [0x1100, 0x1140] [0x1180] [0x11c0, 0x1200, 0x1240]"
      by (rule demo_core_kern) (simp_all add: demo_live_st_def demo_root_def)
  qed (auto simp: demo_done_st_def demo_live_st_def region_range_def)
  with core pend show ?thesis
    using bg_cleanup_correct [of demo_env demo_done_st "[0x1100, 0x1140]" "[0x1180]" "[0x11c0, 0x1200, 0x1240]"
        "demo_region 0 0x700000 0x2000 0 (- 1)" "demo_step 1 0 2 2 0x700000 0x2000" 40 "{#}"]
    by (auto simp: demo_done_st_def demo_live_st_def demo_step_def step_range_def demo_region_def)
qed

text \<open>C39: \<^verbatim>\<open>sc_postNewReservation\<close> allocates the log entry with the root lock held, as its own first assert
  demands. When no free chunk of the heap holds the entry, the allocation calls \<^verbatim>\<open>sc_mmap\<close>, which takes
  the root lock a second time.\<close>

theorem sc_postNewReservation_relocks_root:
  assumes "malloc_inv E s ns live R" and "region_core E s act rsv fre"
    and "\<forall>a \<in> set ns. \<not> malloc_fits (malloc_alloc_size (sizeof_sc_cleanupLogStep E))
        (malloc_alloc_size (sizeof_sc_cleanupLogStep E) + 24) (mem s) a"
    and "0 < heldX (lk s) LRoot" and "sc_postNewReservation E pages s = (Inr rc, s')" "rc \<noteq> 1"
  shows "\<exists>tr. lk s' = lk s @ tr \<and> relocks LRoot (heldX (lk s) LRoot) tr"
proof -
  from guard_InrD [OF assms(5) [unfolded sc_postNewReservation_def]] obtain l where l: "my_local s = Some l"
    and r1: "call (sc_getFreeRegion E) (\<lambda>newReg s.
             if newReg = 0 then (Inr 1, s)
             else
               call (sc_malloc E (sizeof_sc_cleanupLogStep E)) (\<lambda>newStep s.
                 if newStep = 0 then (Inr 2, s)
                 else
                   let (rng, s) = sys_mmap E (reserve_req 0 (pages * getpagesize E)) s in
                   if rng = MAP_FAILED then call (sc_free newStep) (\<lambda>_ s. (Inl (Todo 2554), s)) s
                   else post_fill rng (pages * getpagesize E) newReg newStep s) s) s = (Inr rc, s')"
    by (auto simp: deref_def split: option.splits if_splits)
  from r1 obtain f s1 c s2 where get: "sc_getFreeRegion E s = (Inr f, s1)"
    and mal: "sc_malloc E (sizeof_sc_cleanupLogStep E) s1 = (Inr c, s2)" and tl: "\<exists>tr. lk s' = lk s2 @ tr"
    using assms(6)
    by (elim call_InrE) (auto simp: sys_mmap_def Let_def split: if_splits prod.splits elim!: call_InrE dest!: post_fill_lk)
  from getFree_core [OF assms(2) get] have s1: "lk s1 = lk s" "mem s1 = mem s" "freeList s1 = freeList s" "my_local s1 = Some l"
    using l by auto
  have "chain (node_next (mem s1)) (freeList s1) ns 0" using assms(1) s1 by (simp add: malloc_inv_def heap_wf_def)
  from sc_malloc_grow_lk [OF mal this _ s1(4)] assms(3) s1 obtain tr where
    tr: "lk s2 = lk s @ [LkExcl LMalloc, LkShared LLocalList, UnShared LLocalList, LkExcl LRoot] @ tr" by auto
  from tl tr obtain tr' where "lk s' = lk s @ (LkExcl LMalloc # LkShared LLocalList # UnShared LLocalList # LkExcl LRoot # tr')"
    by auto
  with assms(4) show ?thesis by (intro exI [of _ "LkExcl LMalloc # LkShared LLocalList # UnShared LLocalList # LkExcl LRoot # tr'"]) simp
qed

theorem sc_postNewReservation_relocks_root_witness:
  "\<exists>s' tr. sc_postNewReservation kern_env 2 demo_full_st = (Inr 0, s') \<and> lk s' = LkExcl LRoot # tr \<and> relocks LRoot 1 tr"
proof -
  let ?R = "{#(0x1000, 0x1000), (0x2000, 0x2000)#}" and ?act = "[0x1100, 0x1140]"
  have core: "region_core kern_env demo_full_st ?act [0x1180] [0x11c0, 0x1200, 0x1240]"
    by (rule demo_core_kern) (simp_all add: demo_full_st_def demo_root_def)
  have "active_inv kern_env demo_full_st ?R"
    using active_invI [OF kern_ok(3) core] by (simp add: demo_full_st_def demo_ranges)
  then have inv: "malloc_inv kern_env demo_full_st [] {#} ?R"
    by (simp add: malloc_inv_def heap_wf_def demo_full_st_def)
  have held: "isLock_heldExclusive_byMe kern_env (lk demo_full_st) LRoot" by (simp add: demo_full_st_def heldX_def)
  from inv core held obtain s1 where s1: "sc_getFreeRegion kern_env demo_full_st = (Inr 0x11c0, s1)"
    "malloc_inv kern_env s1 [] {#} ?R" "keeps demo_full_st s1" "region_core kern_env s1 ?act [0x1180] [0x1200, 0x1240]"
    "lk s1 = lk demo_full_st" "regs s1 0x1180 = regs demo_full_st 0x1180" "rt s1 = (rt demo_full_st)\<lparr>free_structs := 0x1200\<rparr>"
    by (rule post_getFree) auto
  have "find (\<lambda>l. l_sc l = root_addr s1) (locals s1) = Some demo_local"
    using s1(3) by (simp add: keeps_def demo_full_st_def)
  then have "malloc_room kern_env s1 0x1000"
    unfolding malloc_room_def using s1(4-7) kern_ok(2)
    by (intro conjI exI [of _ demo_local] exI [of _ ?act] exI [of _ "0x1180"] exI [of _ "[]"]
      exI [of _ "0x1200"] exI [of _ "0x1240"])
      (simp_all add: demo_full_st_def demo_regs_def demo_region_def heldX_def kern_env_def)
  moreover have "malloc_mmap_size kern_env (malloc_alloc_size 0x40 + 24) = 0x1000"
    by (simp add: malloc_mmap_size_def malloc_alloc_size_def sizeofs)
  moreover have "(0::int) \<le> sint (0x40 :: u64)" by (simp add: sint_nonneg_unat)
  ultimately obtain c s2 where "sc_malloc kern_env 0x40 s1 = (Inr c, s2)" "c \<noteq> 0"
    using sc_malloc_enough [OF s1(2), of "0x40"] malloc_new_nonnull by metis
  moreover have "os_mmap kern_env (vmap demo_full_st) (reserve_req 0 (2 * getpagesize kern_env)) \<noteq> MAP_FAILED"
    by (simp add: kern_env_def reserve_req_def mman_defs demo_full_st_def demo_vmap_def in_block_def fits_def word_less_nat_alt)
  ultimately obtain s' where run: "sc_postNewReservation kern_env 2 demo_full_st = (Inr 0, s')"
    using post_returns [OF s1(1) _ s1(3) _ _ held, of c s2 2 demo_local]
    by (auto simp: demo_full_st_def my_local_def demo_local_def demo_root_def sint_nonneg_unat)
  from sc_postNewReservation_relocks_root [OF inv core _ _ this] run show ?thesis
    by (auto simp: demo_full_st_def heldX_def)
qed

end
