(* ===== verification/SC_Fault.thy ===== *)
theory SC_Fault
  imports SC_Cleanup
begin

text \<open>
  The page fault handler \<^verbatim>\<open>sc_signal_handler_SEGV\<close> of \<^verbatim>\<open>trunk/subcontexts_core.c\<close>: a process maps
  the pages that other processes have added to the subcontext when it first touches them.

  The region structs that the handler walks are read from the typed store \<open>regs\<close>; the recursive
  faults that happen when the struct itself lies in a page not mapped yet are not modelled.
\<close>

section \<open>Definitions\<close>

definition SIGSEGV :: u32 where "SIGSEGV = 11"

definition SI_KERNEL :: u32 where "SI_KERNEL = 128"

definition SEGV_MAPERR :: u32 where "SEGV_MAPERR = 1"

definition SEGV_ACCERR :: u32 where "SEGV_ACCERR = 2"

text \<open>The fields of \<^verbatim>\<open>siginfo_t\<close> and \<^verbatim>\<open>ucontext_t\<close> that the handler reads.\<close>

record siginfo =
  si_signo :: u32
  si_code :: u32
  si_addr :: u64
  err :: u64

definition isWrite :: "siginfo \<Rightarrow> bool" where "isWrite info \<longleftrightarrow> err info AND 2 \<noteq> 0"

definition isUser :: "siginfo \<Rightarrow> bool" where "isUser info \<longleftrightarrow> err info AND 4 \<noteq> 0"

definition isInstr :: "siginfo \<Rightarrow> bool" where "isInstr info \<longleftrightarrow> err info AND 16 \<noteq> 0"

definition neverSetBits :: "siginfo \<Rightarrow> u64" where "neverSetBits info = err info AND NOT (2 OR 4 OR 16)"

definition region_hit :: "u64 \<Rightarrow> sc_region \<Rightarrow> bool" where
  "region_hit vaddr r \<longleftrightarrow> r_vaddr r \<le> vaddr \<and> r_vaddr r + r_len r > vaddr"

text \<open>The walk of lines 994 to 1048 up to a match: the lock held at its end and the struct found, or
  NULL.\<close>

partial_function (option) segv_walk ::
    "(u64 \<rightharpoonup> sc_region) \<Rightarrow> u64 \<Rightarrow> lock_id \<Rightarrow> u64 \<Rightarrow> lock_ev list \<Rightarrow>
     ((trap + lock_id \<times> u64) \<times> lock_ev list) option" where
  "segv_walk m vaddr prev_lock curReg tr =
     (if curReg = 0 then Some (Inr (prev_lock, 0), tr)
      else case m curReg of
        None \<Rightarrow> Some (Inl Segv, tr)
      | Some r \<Rightarrow>
          if region_hit vaddr r
          then Some (Inr (LRegion curReg, curReg), tr @ [LkSharedRec (LRegion curReg), UnSharedRec prev_lock])
          else segv_walk m vaddr (LRegion curReg) (r_next r)
                 (tr @ [LkSharedRec (LRegion curReg), UnSharedRec prev_lock]))"

text \<open>The three comparisons of the assert of line 1010, with the precedence of C: \<^verbatim>\<open>==\<close> binds tighter
  than \<^verbatim>\<open>|\<close>.\<close>

definition segv_prot_assert :: "u32 \<Rightarrow> bool" where
  "segv_prot_assert prot \<longleftrightarrow> c_bool (prot = PROT_READ) \<noteq> 0 \<or> c_bool (prot = PROT_READ) OR PROT_WRITE \<noteq> 0 \<or>
     c_bool (prot = PROT_READ) OR PROT_EXEC \<noteq> 0"

definition fault_req :: "sc_local \<Rightarrow> sc_region \<Rightarrow> mmap_req" where
  "fault_req l r = \<lparr>q_addr = r_vaddr r, q_len = r_len r, q_prot = ucast (r_prot r),
     q_flags = MAP_SHARED OR MAP_FIXED, q_fd = l_shm_file l, q_off = r_tmpfile_offset r\<rparr>"

definition access_denied :: "siginfo \<Rightarrow> sc_region \<Rightarrow> bool" where
  "access_denied info r \<longleftrightarrow> (isWrite info \<and> ucast (r_prot r) \<noteq> PROT_READ OR PROT_WRITE) \<or>
     (isInstr info \<and> ucast (r_prot r) \<noteq> PROT_READ OR PROT_EXEC)"

text \<open>What the handler does with the region found (lines 1006 to 1041).\<close>

definition segv_map :: "env \<Rightarrow> sc_local \<Rightarrow> siginfo \<Rightarrow> sc_region \<Rightarrow> st \<Rightarrow> (unit, st) res" where
  "segv_map E l info r =
     guard [(1010, segv_prot_assert (ucast (r_prot r))), (1013, \<not> isWrite info \<or> \<not> isInstr info)] (\<lambda>s.
       if access_denied info r then sc_killLocalProc s
       else
         let (map_p, s) = sys_mmap E (fault_req l r) s in
         if map_p \<noteq> r_vaddr r then (Inl (Exit 3), s) else (Inr (), s))"

text \<open>Lines 981 to 1085, once the fault is known to be a sane access fault. The handler refuses a
  process with several subcontexts; the model has the root struct of one.\<close>

definition segv_lookup :: "env \<Rightarrow> siginfo \<Rightarrow> st \<Rightarrow> (unit, st) res" where
  "segv_lookup E info s =
     (let s = lock_shared LLocalList s in
      case locals s of
        [] \<Rightarrow> (Inl Segv, s)
      | l # rest \<Rightarrow>
          guard [(986, rest = [])] (\<lambda>s.
            let s = unlock_shared LLocalList s;
                s = log_lock (LkSharedRec LRoot) s
            in loops (segv_walk (regs s) (si_addr info) LRoot (active_regions (rt s)) []) (\<lambda>(found, tr) s.
                 let s = s\<lparr>lk := lk s @ tr\<rparr> in
                 case found of
                   Inl e \<Rightarrow> (Inl e, s)
                 | Inr (prev_lock, curReg) \<Rightarrow>
                     if curReg = 0 then sc_killLocalProc (log_lock (UnSharedRec prev_lock) s)
                     else
                       deref (regs s curReg) (\<lambda>r.
                         call (segv_map E l info r) (\<lambda>_ s.
                           let s = log_lock (UnSharedRec prev_lock) s
                           in (Inr (), s\<lparr>prev_vaddr := 0\<rparr>))) s) s) s)"

definition sc_signal_handler_SEGV :: "env \<Rightarrow> u32 \<Rightarrow> siginfo \<Rightarrow> st \<Rightarrow> (unit, st) res" where
  "sc_signal_handler_SEGV E signum info =
     guard [(871, signum = SIGSEGV), (872, si_signo info = SIGSEGV),
            (874, si_code info = SI_KERNEL \<or> si_code info = SEGV_MAPERR \<or> si_code info = SEGV_ACCERR)] (\<lambda>s.
       if si_addr info = 0 then sc_killLocalProc s
       else if si_code info = SEGV_MAPERR then sc_killLocalProc s
       else if si_code info = SI_KERNEL then sc_killLocalProc s
       else if neverSetBits info \<noteq> 0 \<or> \<not> isUser info \<or> isWrite info \<and> isInstr info then sc_killLocalProc s
       else if si_addr info = prev_vaddr s then (Inl (Exit 3), s)
       else segv_lookup E info (s\<lparr>prev_vaddr := si_addr info\<rparr>))"

text \<open>A fault that the handler goes on to look up.\<close>

definition sane_fault :: "siginfo \<Rightarrow> st \<Rightarrow> bool" where
  "sane_fault info s \<longleftrightarrow> si_signo info = SIGSEGV \<and> si_code info = SEGV_ACCERR \<and> si_addr info \<noteq> 0 \<and>
     neverSetBits info = 0 \<and> isUser info \<and> \<not> (isWrite info \<and> isInstr info) \<and> si_addr info \<noteq> prev_vaddr s"

text \<open>What the kernel's page tables say about the pages of a region after its fault was handled.\<close>

definition fault_page :: "sc_local \<Rightarrow> sc_region \<Rightarrow> u64 \<Rightarrow> mapping" where
  "fault_page l r x = \<lparr>m_prot = ucast (r_prot r), m_shared = True,
     m_backing = FileBacked (l_shm_file l) (r_tmpfile_offset r + (x - r_vaddr r))\<rparr>"

definition demo_fault :: "u64 \<Rightarrow> u64 \<Rightarrow> siginfo" where
  "demo_fault a e = \<lparr>si_signo = SIGSEGV, si_code = SEGV_ACCERR, si_addr = a, err = e\<rparr>"

definition demo_ro_st :: st where
  "demo_ro_st = demo_st\<lparr>regs := demo_regs(0x1140 \<mapsto> demo_region 0 0x2000 0x2000 1 0x1000)\<rparr>"

lemmas sig_defs = SIGSEGV_def SI_KERNEL_def SEGV_MAPERR_def SEGV_ACCERR_def

section \<open>Lemmas\<close>

lemma region_next_at: "m a = Some r \<Longrightarrow> region_next m a = r_next r"
  by (simp add: region_next_def)

lemma region_hit_iff:
  assumes "fits (r_vaddr r, r_len r)"
  shows "region_hit a r \<longleftrightarrow> in_block a (r_vaddr r, r_len r)"
proof -
  have "unat (r_vaddr r + r_len r) = unat (r_vaddr r) + unat (r_len r)"
    using assms by (simp add: fits_def unat_word_ariths)
  then show ?thesis by (simp add: region_hit_def in_block_def word_le_nat_alt word_less_nat_alt)
qed

lemma segv_walk_found:
  assumes "chain (region_next m) p (xs @ a # ys) 0" and "set (xs @ [a]) \<subseteq> dom m"
    and "\<forall>x \<in> set xs. \<not> region_hit v (the (m x))" and "region_hit v (the (m a))"
  shows "\<exists>tr'. segv_walk m v k p tr = Some (Inr (LRegion a, a), tr @ tr') \<and>
     shift tr' (\<lambda>_. 0) (\<lambda>l. (if l = LRegion a then 1 else 0) - (if l = k then 1 else 0))"
  using assms
proof (induction xs arbitrary: p k tr)
  case Nil
  then obtain r where "m a = Some r" by auto
  with Nil show ?case by (subst segv_walk.simps) (auto simp: shift_def lock_simps)
next
  case (Cons x xs)
  then obtain r where r: "m x = Some r" by auto
  have c: "chain (region_next m) (r_next r) (xs @ a # ys) 0" "p = x" "x \<noteq> 0"
    using Cons.prems(1) r by (auto simp: region_next_at)
  let ?ev = "[LkSharedRec (LRegion x), UnSharedRec k]"
  from Cons.IH [OF c(1), of "LRegion x" "tr @ ?ev"] Cons.prems(2-4) obtain tr' where
    IH: "segv_walk m v (LRegion x) (r_next r) (tr @ ?ev) = Some (Inr (LRegion a, a), (tr @ ?ev) @ tr')"
    and sh: "shift tr' (\<lambda>_. 0) (\<lambda>l. (if l = LRegion a then 1 else 0) - (if l = LRegion x then 1 else 0))" by auto
  have ev: "shift ?ev (\<lambda>_. 0) (\<lambda>l. (if l = LRegion x then 1 else 0) - (if l = k then 1 else 0))"
    by (auto simp: shift_def lock_simps)
  have "segv_walk m v k p tr = Some (Inr (LRegion a, a), tr @ (?ev @ tr'))"
    using c r IH Cons.prems(3) by (subst segv_walk.simps) simp
  with shift_append [OF ev sh] show ?case by (intro exI [of _ "?ev @ tr'"]) (simp add: algebra_simps)
qed

lemma segv_walk_missing:
  assumes "chain (region_next m) p xs 0" and "set xs \<subseteq> dom m" and "\<forall>x \<in> set xs. \<not> region_hit v (the (m x))"
  shows "\<exists>k' tr'. segv_walk m v k p tr = Some (Inr (k', 0), tr @ tr') \<and>
     shift (tr' @ [UnSharedRec k']) (\<lambda>_. 0) (\<lambda>l. - (if l = k then 1 else 0))"
  using assms
proof (induction xs arbitrary: p k tr)
  case Nil
  then show ?case by (subst segv_walk.simps) (auto simp: shift_def lock_simps)
next
  case (Cons x xs)
  then obtain r where r: "m x = Some r" by auto
  have c: "chain (region_next m) (r_next r) xs 0" "p = x" "x \<noteq> 0"
    using Cons.prems(1) r by (auto simp: region_next_at)
  let ?ev = "[LkSharedRec (LRegion x), UnSharedRec k]"
  from Cons.IH [OF c(1), of "LRegion x" "tr @ ?ev"] Cons.prems(2,3) obtain k' tr' where
    IH: "segv_walk m v (LRegion x) (r_next r) (tr @ ?ev) = Some (Inr (k', 0), (tr @ ?ev) @ tr')"
    and sh: "shift (tr' @ [UnSharedRec k']) (\<lambda>_. 0) (\<lambda>l. - (if l = LRegion x then 1 else 0))" by auto
  have ev: "shift ?ev (\<lambda>_. 0) (\<lambda>l. (if l = LRegion x then 1 else 0) - (if l = k then 1 else 0))"
    by (auto simp: shift_def lock_simps)
  have "segv_walk m v k p tr = Some (Inr (k', 0), tr @ (?ev @ tr'))"
    using c r IH Cons.prems(3) by (subst segv_walk.simps) simp
  with shift_append [OF ev sh] show ?case by (intro exI [of _ k'] exI [of _ "?ev @ tr'"]) (simp add: algebra_simps)
qed

lemma in_block_unique:
  assumes "in_block x b" "in_block x c" shows "\<not> apart b c"
  using assms by (auto simp: in_block_def apart_def)

lemma core_hits:
  assumes core: "region_core E s act rsv fre" and act: "act = xs @ a # ys" and hit: "in_block v (region_range (regs s) a)"
  shows "region_hit v (the (regs s a))" "\<forall>x \<in> set xs. \<not> region_hit v (the (regs s x))"
proof -
  have ok: "regs s p \<noteq> None \<and> range_ok E (the (regs s p))" if "p \<in> set act" for p
    using core that by (auto simp: region_core_def region_lists_def list_all_iff)
  have hit_iff: "region_hit v (the (regs s p)) \<longleftrightarrow> in_block v (region_range (regs s) p)" if "p \<in> set act" for p
    using ok [OF that] region_hit_iff by (auto simp: range_ok_def region_range_def)
  then show "region_hit v (the (regs s a))" using hit act by simp
  have "apart_all (mset (map (region_range (regs s)) (act @ rsv)))" using core by (simp add: region_core_def)
  then have "apart (region_range (regs s) a) (region_range (regs s) x)" if "x \<in> set xs" for x
    using that by (auto simp: act apart_all_union)
  with hit_iff hit act show "\<forall>x \<in> set xs. \<not> region_hit v (the (regs s x))"
    by (auto dest: in_block_unique)
qed

lemma segv_sane:
  assumes "sane_fault info s"
  shows "sc_signal_handler_SEGV E SIGSEGV info s = segv_lookup E info (s\<lparr>prev_vaddr := si_addr info\<rparr>)"
  using assms by (auto simp: sc_signal_handler_SEGV_def sane_fault_def sig_defs)

lemma segv_lookup_found:
  assumes core: "region_core E s act rsv fre" and l: "locals s = [l]" and p: "p \<in> set act" "regs s p = Some r"
    and hit: "in_block (si_addr info) (r_vaddr r, r_len r)"
  obtains tr where "shift tr (\<lambda>_. 0) (\<lambda>k. if k = LRegion p then 1 else 0)" "shift (tr @ [UnSharedRec (LRegion p)]) (\<lambda>_. 0) (\<lambda>_. 0)"
    "segv_lookup E info s = call (segv_map E l info r) (\<lambda>_ s. (Inr (), (log_lock (UnSharedRec (LRegion p)) s)\<lparr>prev_vaddr := 0\<rparr>))
       (s\<lparr>lk := lk s @ tr\<rparr>)"
proof -
  from p(1) obtain xs ys where act: "act = xs @ p # ys" by (meson split_list)
  have rg: "region_range (regs s) p = (r_vaddr r, r_len r)" using p(2) by (simp add: region_range_def)
  note H = core_hits [OF core act, unfolded rg, OF hit]
  have c: "chain (region_next (regs s)) (active_regions (rt s)) (xs @ p # ys) 0" "set (xs @ [p]) \<subseteq> dom (regs s)"
    using core act by (auto simp: region_core_def region_lists_def)
  from segv_walk_found [OF c H(2,1), of LRoot "[]"] obtain t where
    w: "segv_walk (regs s) (si_addr info) LRoot (active_regions (rt s)) [] = Some (Inr (LRegion p, p), t)"
    and sh: "shift t (\<lambda>_. 0) (\<lambda>l. (if l = LRegion p then 1 else 0) - (if l = LRoot then 1 else 0))" by auto
  let ?t0 = "[LkShared LLocalList, UnShared LLocalList, LkSharedRec LRoot]"
  have t0: "shift ?t0 (\<lambda>_. 0) (\<lambda>l. if l = LRoot then 1 else 0)" by (auto simp: shift_def lock_simps)
  have sh1: "shift (?t0 @ t) (\<lambda>_. 0) (\<lambda>k. if k = LRegion p then 1 else 0)" using shift_append [OF t0 sh] by (simp add: algebra_simps)
  have u: "shift [UnSharedRec (LRegion p)] (\<lambda>_. 0) (\<lambda>k. - (if k = LRegion p then 1 else 0))" by (auto simp: shift_def lock_simps)
  have sh2: "shift ((?t0 @ t) @ [UnSharedRec (LRegion p)]) (\<lambda>_. 0) (\<lambda>_. 0)" using shift_append [OF sh1 u] by simp
  have p0: "p \<noteq> 0" using c(1) chain_nth(1) [OF c(1), of "length xs"] by simp
  have "segv_lookup E info s = call (segv_map E l info r) (\<lambda>_ s. (Inr (), (log_lock (UnSharedRec (LRegion p)) s)\<lparr>prev_vaddr := 0\<rparr>))
       (s\<lparr>lk := lk s @ (?t0 @ t)\<rparr>)"
    using l w p(2) p0 by (simp add: segv_lookup_def loops_def Let_def log_lock_def)
  with sh1 sh2 show thesis by (rule that)
qed

lemma segv_lookup_missing:
  assumes core: "region_core E s act rsv fre" and l: "locals s = [l]"
    and miss: "\<forall>p \<in> set act. \<not> in_block (si_addr info) (region_range (regs s) p)"
  shows "\<exists>tr. shift tr (\<lambda>_. 0) (\<lambda>_. 0) \<and> segv_lookup E info s = sc_killLocalProc (s\<lparr>lk := lk s @ tr\<rparr>)"
proof -
  have c: "chain (region_next (regs s)) (active_regions (rt s)) act 0" "set act \<subseteq> dom (regs s)"
    using core by (auto simp: region_core_def region_lists_def)
  have "\<not> region_hit (si_addr info) (the (regs s p))" if p: "p \<in> set act" for p
  proof -
    from c(2) p obtain r where r: "regs s p = Some r" by auto
    then have "range_ok E r" using core p by (force simp: region_core_def list_all_iff)
    with r miss p show ?thesis by (auto simp: region_hit_iff range_ok_def region_range_def)
  qed
  with segv_walk_missing [OF c, of "si_addr info" LRoot "[]"] obtain k t where
    w: "segv_walk (regs s) (si_addr info) LRoot (active_regions (rt s)) [] = Some (Inr (k, 0), t)"
    and sh: "shift (t @ [UnSharedRec k]) (\<lambda>_. 0) (\<lambda>l. - (if l = LRoot then 1 else 0))" by auto
  let ?t0 = "[LkShared LLocalList, UnShared LLocalList, LkSharedRec LRoot]"
  have t0: "shift ?t0 (\<lambda>_. 0) (\<lambda>l. if l = LRoot then 1 else 0)" by (auto simp: shift_def lock_simps)
  have "segv_lookup E info s = sc_killLocalProc (s\<lparr>lk := lk s @ (?t0 @ t @ [UnSharedRec k])\<rparr>)"
    using l w by (simp add: segv_lookup_def loops_def Let_def log_lock_def)
  with shift_append [OF t0 sh] show ?thesis by (intro exI [of _ "?t0 @ t @ [UnSharedRec k]"]) simp
qed

lemma segv_prot_assert_true: "segv_prot_assert prot"
  by (simp add: segv_prot_assert_def PROT_READ_def PROT_WRITE_def c_bool_def)

lemma kill_never_returns: "\<exists>e s'. sc_killLocalProc s = (Inl e, s')"
proof -
  obtain x s' where r: "sc_killLocalProc s = (x, s')" by (cases "sc_killLocalProc s")
  then show ?thesis using kill_all_traps by (cases x) (auto simp: sc_killLocalProc_def)
qed

lemma call_kill: "call sc_killLocalProc k s = (case sc_killLocalProc s of (Inl e, s') \<Rightarrow> (Inl e, s'))"
  using kill_never_returns [of s] by (auto simp: call_def)

lemma fault_vm:
  "vm_map vm (r_vaddr r) (fault_req l r) x = (if in_block x (r_vaddr r, r_len r) then Some (fault_page l r x) else vm x)"
  by (simp add: vm_map_def fault_req_def fault_page_def mman_defs)

text \<open>A permitted fault, handled.\<close>

lemma segv_maps_run:
  assumes "region_core E s act rsv fre" and "locals s = [l]" and "p \<in> set act" "regs s p = Some r"
    and "sane_fault info s" and "in_block (si_addr info) (r_vaddr r, r_len r)" and "\<not> access_denied info r"
    and "os_mmap E (vmap s) (fault_req l r) = r_vaddr r"
  shows "\<exists>s'. sc_signal_handler_SEGV E SIGSEGV info s = (Inr (), s') \<and>
     (\<forall>x. vmap s' x = (if in_block x (r_vaddr r, r_len r) then Some (fault_page l r x) else vmap s x)) \<and>
     s' = s\<lparr>vmap := vmap s', prev_vaddr := 0, lk := lk s'\<rparr> \<and>
     (\<forall>k. heldX (lk s') k = heldX (lk s) k \<and> heldS (lk s') k = heldS (lk s) k)"
proof -
  let ?s = "s\<lparr>prev_vaddr := si_addr info\<rparr>"
  have core: "region_core E ?s act rsv fre" using assms(1) region_core_cong [of ?s s] by simp
  have "locals ?s = [l]" "regs ?s p = Some r" using assms by simp_all
  with core assms(3,6) obtain tr where
    sh: "shift (tr @ [UnSharedRec (LRegion p)]) (\<lambda>_. 0) (\<lambda>_. 0)"
    and run: "segv_lookup E info ?s = call (segv_map E l info r)
      (\<lambda>_ s. (Inr (), (log_lock (UnSharedRec (LRegion p)) s)\<lparr>prev_vaddr := 0\<rparr>)) (?s\<lparr>lk := lk ?s @ tr\<rparr>)"
    by (elim segv_lookup_found)
  have "range_ok E r" using assms(1,3,4) by (force simp: region_core_def list_all_iff)
  then have "unat (r_vaddr r) + 1 < 2 ^ 64" by (auto simp: range_ok_def fits_def word_less_nat_alt)
  then have "r_vaddr r \<noteq> MAP_FAILED" using unat_MAP_FAILED by auto
  then have m: "segv_map E l info r (?s\<lparr>lk := lk ?s @ tr\<rparr>) = (Inr (), ?s\<lparr>lk := lk ?s @ tr, vmap := vm_map (vmap s) (r_vaddr r) (fault_req l r)\<rparr>)"
    using assms(5,7,8) segv_prot_assert_true
    by (auto simp: segv_map_def sys_mmap_def Let_def sane_fault_def)
  let ?s' = "s\<lparr>vmap := vm_map (vmap s) (r_vaddr r) (fault_req l r), prev_vaddr := 0, lk := lk s @ (tr @ [UnSharedRec (LRegion p)])\<rparr>"
  have "sc_signal_handler_SEGV E SIGSEGV info s = (Inr (), ?s')"
    using segv_sane [OF assms(5)] run m by (simp add: log_lock_def)
  moreover have "heldX (lk ?s') k = heldX (lk s) k \<and> heldS (lk ?s') k = heldS (lk s) k" for k
    using sh by (simp add: shift_def)
  ultimately show ?thesis by (intro exI [of _ ?s']) (simp add: fault_vm)
qed

section \<open>Properties\<close>

text \<open>C13: A permitted access to an address of an active region returns from the page fault handler with the whole
  region mapped, shared and with the region's protection, onto the region's own range of the backing
  file, so that every process sees the same byte at the same address; no other address changes, no
  shared data changes and every lock is given back.\<close>

theorem sc_signal_handler_SEGV_maps:
  assumes "region_core E s act rsv fre" and "locals s = [l]" and "p \<in> set act" "regs s p = Some r"
    and "sane_fault info s" and "in_block (si_addr info) (r_vaddr r, r_len r)" and "\<not> access_denied info r"
    and "os_mmap E (vmap s) (fault_req l r) = r_vaddr r"
  shows "\<exists>s'. sc_signal_handler_SEGV E SIGSEGV info s = (Inr (), s') \<and>
     (\<forall>x. vmap s' x = (if in_block x (r_vaddr r, r_len r) then Some (fault_page l r x) else vmap s x)) \<and>
     s' = s\<lparr>vmap := vmap s', prev_vaddr := 0, lk := lk s'\<rparr> \<and>
     (\<forall>k. heldX (lk s') k = heldX (lk s) k \<and> heldS (lk s') k = heldS (lk s) k)"
  by (rule segv_maps_run [OF assms])

theorem sc_signal_handler_SEGV_maps_witness:
  "\<exists>s'. sc_signal_handler_SEGV demo_env SIGSEGV (demo_fault 0x2468 6) demo_st = (Inr (), s') \<and>
     vmap s' 0x3fff = Some \<lparr>m_prot = 3, m_shared = True, m_backing = FileBacked 5 0x2fff\<rparr> \<and> vmap s' 0x4000 = None"
proof -
  have info: "sane_fault (demo_fault 0x2468 6) demo_st" "isWrite (demo_fault 0x2468 6)" "\<not> isInstr (demo_fault 0x2468 6)"
    by (simp_all add: sane_fault_def demo_fault_def sig_defs neverSetBits_def isUser_def isWrite_def isInstr_def demo_st_def)
  let ?r = "demo_region 0 0x2000 0x2000 3 0x1000"
  have r: "r_vaddr ?r = 0x2000" "r_len ?r = 0x2000" "r_prot ?r = 3" "r_tmpfile_offset ?r = 0x1000"
    by (simp_all add: demo_region_def)
  have "regs demo_st 0x1140 = Some ?r" by (simp add: demo_regs_def)
  moreover have "\<not> access_denied (demo_fault 0x2468 6) ?r" using info by (simp add: access_denied_def r mman_defs)
  moreover have "in_block (si_addr (demo_fault 0x2468 6)) (0x2000, 0x2000)" by (simp add: demo_fault_def in_block_def)
  ultimately obtain s' where "sc_signal_handler_SEGV demo_env SIGSEGV (demo_fault 0x2468 6) demo_st = (Inr (), s')"
    and v: "\<And>x. vmap s' x = (if in_block x (0x2000, 0x2000) then Some (fault_page demo_local ?r x) else None)"
    using sc_signal_handler_SEGV_maps [OF demo_core _ _ _ info(1), of demo_local "0x1140" ?r] r
    by (auto simp: fault_req_def mman_defs)
  moreover have "vmap s' 0x3fff = Some \<lparr>m_prot = 3, m_shared = True, m_backing = FileBacked 5 0x2fff\<rparr>" "vmap s' 0x4000 = None"
    unfolding v by (simp_all add: in_block_def fault_page_def r)
  ultimately show ?thesis by blast
qed

text \<open>A fault at an address of no active region makes the handler shut the process down, with every lock it
  took itself given back first.\<close>

theorem sc_signal_handler_SEGV_wild:
  assumes "region_core E s act rsv fre" and "locals s = [l]" and "sane_fault info s"
    and "\<forall>p \<in> set act. \<not> in_block (si_addr info) (region_range (regs s) p)"
  shows "\<exists>s1 e s'. sc_signal_handler_SEGV E SIGSEGV info s = sc_killLocalProc s1 \<and> sc_killLocalProc s1 = (Inl e, s') \<and>
     s1 = s\<lparr>prev_vaddr := si_addr info, lk := lk s1\<rparr> \<and>
     (\<forall>k. heldX (lk s1) k = heldX (lk s) k \<and> heldS (lk s1) k = heldS (lk s) k)"
proof -
  let ?s = "s\<lparr>prev_vaddr := si_addr info\<rparr>"
  have core: "region_core E ?s act rsv fre" using assms(1) region_core_cong [of ?s s] by simp
  from segv_lookup_missing [OF core, of l info] assms obtain tr where
    "shift tr (\<lambda>_. 0) (\<lambda>_. 0)" "segv_lookup E info ?s = sc_killLocalProc (?s\<lparr>lk := lk s @ tr\<rparr>)" by auto
  then show ?thesis using segv_sane [OF assms(3)] kill_never_returns [of "?s\<lparr>lk := lk s @ tr\<rparr>"]
    by (intro exI [of _ "?s\<lparr>lk := lk s @ tr\<rparr>"]) (auto simp: shift_def)
qed

theorem sc_signal_handler_SEGV_wild_witness:
  "\<exists>e s'. sc_signal_handler_SEGV demo_env SIGSEGV (demo_fault 0x9000 4) demo_st = (Inl e, s')"
proof -
  have info: "sane_fault (demo_fault 0x9000 4) demo_st"
    by (simp add: sane_fault_def demo_fault_def sig_defs neverSetBits_def isUser_def isWrite_def isInstr_def demo_st_def)
  have "\<forall>p \<in> set [0x1100, 0x1140]. \<not> in_block (si_addr (demo_fault 0x9000 4)) (region_range (regs demo_st) p)"
    by (simp add: demo_ranges demo_fault_def in_block_def)
  from sc_signal_handler_SEGV_wild [OF demo_core _ info this, of demo_local] show ?thesis by auto
qed

lemma file_ranges_append: "file_ranges m (xs @ ys) = file_ranges m xs @ file_ranges m ys"
  by (simp add: file_ranges_def)

lemma file_ranges_memI:
  "p \<in> set ps \<Longrightarrow> m p = Some r \<Longrightarrow> r_prot r \<noteq> 0 \<Longrightarrow> (r_tmpfile_offset r, r_len r) \<in> set (file_ranges m ps)"
  by (drule split_list) (auto simp: file_ranges_def)

lemma core_apart:
  assumes core: "region_core E s act rsv fre" and p: "p \<in> set (act @ rsv)" "q \<in> set (act @ rsv)" "p \<noteq> q"
  shows "apart (region_range (regs s) p) (region_range (regs s) q)"
proof -
  from core have d: "distinct (act @ rsv)" and ap: "apart_all (mset (map (region_range (regs s)) (act @ rsv)))"
    by (auto simp: region_core_def region_lists_def)
  from p(1) obtain xs ys where ps: "act @ rsv = xs @ p # ys" by (meson split_list)
  then have "q \<in> set (xs @ ys)" using p(2,3) by auto
  moreover have "mset (map (region_range (regs s)) (act @ rsv)) =
    add_mset (region_range (regs s) p) (mset (map (region_range (regs s)) (xs @ ys)))" by (simp add: ps)
  ultimately show ?thesis using ap by (auto simp: apart_all_add)
qed

lemma file_ranges_apart:
  assumes "apart_all (mset (file_ranges m ps))" and "p \<in> set ps" "q \<in> set ps" "p \<noteq> q"
    and r: "m p = Some r" "r_prot r \<noteq> 0" and r': "m q = Some r'" "r_prot r' \<noteq> 0"
  shows "apart (r_tmpfile_offset r, r_len r) (r_tmpfile_offset r', r_len r')"
proof -
  from assms(2) obtain xs ys where ps: "ps = xs @ p # ys" by (meson split_list)
  with assms(3,4) have "q \<in> set xs \<or> q \<in> set ys" by auto
  then have q: "(r_tmpfile_offset r', r_len r') \<in> set (file_ranges m xs) \<union> set (file_ranges m ys)"
    using r' file_ranges_memI [of q xs m r'] file_ranges_memI [of q ys m r'] by blast
  have "file_ranges m ps = file_ranges m xs @ (r_tmpfile_offset r, r_len r) # file_ranges m ys"
    using r by (simp add: ps file_ranges_def)
  with assms(1) q show ?thesis by (auto simp: apart_all_union)
qed

lemma fault_offset:
  assumes "in_block x (r_vaddr r, r_len r)" and "unat (r_tmpfile_offset r) + unat (r_len r) < 2 ^ 64"
  shows "unat (r_tmpfile_offset r + (x - r_vaddr r)) = unat (r_tmpfile_offset r) + (unat x - unat (r_vaddr r))"
proof -
  have d: "unat (x - r_vaddr r) = unat x - unat (r_vaddr r)"
    using assms(1) by (intro unat_sub) (simp add: in_block_def word_le_nat_alt)
  have "unat x - unat (r_vaddr r) < unat (r_len r)" using assms(1) by (auto simp: in_block_def)
  with assms(2) d have "unat (r_tmpfile_offset r) + unat (x - r_vaddr r) < 2 ^ 64" by simp
  with d show ?thesis by (simp add: unat_word_ariths)
qed

lemma sane_demo:
  "a \<noteq> 0 \<Longrightarrow> sane_fault (demo_fault a 4) demo_st" "a \<noteq> 0 \<Longrightarrow> sane_fault (demo_fault a 6) demo_st"
  by (simp_all add: sane_fault_def demo_fault_def sig_defs neverSetBits_def isUser_def isWrite_def isInstr_def demo_st_def)

text \<open>The bytes of the file that the pages of two regions hold.\<close>

lemma fault_page_bytes:
  assumes wf: "region_wf E s act rsv fre" and p: "p \<in> set act" "regs s p = Some r" "r_prot r \<noteq> 0"
    and q: "q \<in> set act" "regs s q = Some r'" "r_prot r' \<noteq> 0"
    and x: "in_block x (r_vaddr r, r_len r)" "in_block y (r_vaddr r', r_len r')"
  shows "unat (r_tmpfile_offset r + (x - r_vaddr r)) < unat (tmpfile_size (rt s))"
    "r_tmpfile_offset r + (x - r_vaddr r) = r_tmpfile_offset r' + (y - r_vaddr r') \<longleftrightarrow> x = y"
proof -
  have core: "region_core E s act rsv fre" using wf by (simp add: region_wf_def)
  have ok: "unat (r_tmpfile_offset c) + unat (r_len c) \<le> unat (tmpfile_size (rt s))"
    if "k \<in> set act" "regs s k = Some c" "r_prot c \<noteq> 0" for k c
    using wf that by (force simp: region_wf_def region_files_def list_all_iff active_file_ok_def)
  note u = u64_bound [of "tmpfile_size (rt s)"]
  have fx: "unat (r_tmpfile_offset r + (x - r_vaddr r)) = unat (r_tmpfile_offset r) + (unat x - unat (r_vaddr r))"
    by (rule fault_offset [OF x(1)]) (use ok [OF p] u in linarith)
  have fy: "unat (r_tmpfile_offset r' + (y - r_vaddr r')) = unat (r_tmpfile_offset r') + (unat y - unat (r_vaddr r'))"
    by (rule fault_offset [OF x(2)]) (use ok [OF q] u in linarith)
  have b: "unat x - unat (r_vaddr r) < unat (r_len r)" "unat y - unat (r_vaddr r') < unat (r_len r')"
    using x by (auto simp: in_block_def)
  show "unat (r_tmpfile_offset r + (x - r_vaddr r)) < unat (tmpfile_size (rt s))" using fx b ok [OF p] by simp
  show "r_tmpfile_offset r + (x - r_vaddr r) = r_tmpfile_offset r' + (y - r_vaddr r') \<longleftrightarrow> x = y"
  proof (cases "p = q")
    case True
    with p q show ?thesis by auto
  next
    case False
    then have "apart (r_tmpfile_offset r, r_len r) (r_tmpfile_offset r', r_len r')"
      using wf p q by (intro file_ranges_apart [of "regs s" act p q]) (auto simp: region_wf_def region_files_def)
    with fx fy b have "r_tmpfile_offset r + (x - r_vaddr r) \<noteq> r_tmpfile_offset r' + (y - r_vaddr r')" by (auto simp: apart_def)
    moreover have "x \<noteq> y" using core_apart [OF core, of p q] in_block_unique [of x] x p q False by (auto simp: region_range_def)
    ultimately show ?thesis by simp
  qed
qed

text \<open>C15: Pages that page faults map do not alias. When the handler has run for a permitted fault in two processes of a
  subcontext, or twice in one, every address of the two regions that it mapped is backed by a byte inside the file, shared with
  everybody, and two addresses are backed by the same byte exactly when they are the same address.\<close>

theorem fault_pages_do_not_alias:
  assumes "region_wf E s act rsv fre" and "rt t = rt s" "regs t = regs s" and "locals s = [l]" "locals t = [l']"
    and "p \<in> set act" "regs s p = Some r" "r_prot r \<noteq> 0" and "q \<in> set act" "regs s q = Some r'" "r_prot r' \<noteq> 0"
    and "sane_fault info s" "in_block (si_addr info) (r_vaddr r, r_len r)" "\<not> access_denied info r"
    and "sane_fault info' t" "in_block (si_addr info') (r_vaddr r', r_len r')" "\<not> access_denied info' r'"
    and "os_mmap E (vmap s) (fault_req l r) = r_vaddr r" "os_mmap E (vmap t) (fault_req l' r') = r_vaddr r'"
  shows "\<exists>s' t'. sc_signal_handler_SEGV E SIGSEGV info s = (Inr (), s') \<and> sc_signal_handler_SEGV E SIGSEGV info' t = (Inr (), t') \<and>
     (\<forall>x y. in_block x (r_vaddr r, r_len r) \<and> in_block y (r_vaddr r', r_len r') \<longrightarrow>
       (\<exists>m m' i j. vmap s' x = Some m \<and> m_shared m \<and> m_backing m = FileBacked (l_shm_file l) i \<and>
          vmap t' y = Some m' \<and> m_shared m' \<and> m_backing m' = FileBacked (l_shm_file l') j \<and>
          unat i < unat (tmpfile_size (rt s)) \<and> unat j < unat (tmpfile_size (rt s)) \<and> (i = j \<longleftrightarrow> x = y)))"
proof -
  have core: "region_core E s act rsv fre" "region_core E t act rsv fre"
    using assms(1-3) region_core_cong [of t s] by (simp_all add: region_wf_def)
  from segv_maps_run [OF core(1) assms(4,6,7,12-14,18)] obtain s' where
    s': "sc_signal_handler_SEGV E SIGSEGV info s = (Inr (), s')"
    "\<And>x. vmap s' x = (if in_block x (r_vaddr r, r_len r) then Some (fault_page l r x) else vmap s x)" by blast
  from segv_maps_run [OF core(2) assms(5,9) _ assms(15-17,19)] assms(3,10) obtain t' where
    t': "sc_signal_handler_SEGV E SIGSEGV info' t = (Inr (), t')"
    "\<And>y. vmap t' y = (if in_block y (r_vaddr r', r_len r') then Some (fault_page l' r' y) else vmap t y)" by auto
  have b: "unat (r_tmpfile_offset r + (x - r_vaddr r)) < unat (tmpfile_size (rt s)) \<and>
      unat (r_tmpfile_offset r' + (y - r_vaddr r')) < unat (tmpfile_size (rt s)) \<and>
      (r_tmpfile_offset r + (x - r_vaddr r) = r_tmpfile_offset r' + (y - r_vaddr r') \<longleftrightarrow> x = y)"
    if "in_block x (r_vaddr r, r_len r) \<and> in_block y (r_vaddr r', r_len r')" for x y
    using fault_page_bytes [OF assms(1,6-11), of x y] fault_page_bytes(1) [OF assms(1,9-11,6-8), of y x] that by simp
  show ?thesis
  proof (rule exI [of _ s'], rule exI [of _ t'], intro conjI allI impI s'(1) t'(1))
    fix x y assume h: "in_block x (r_vaddr r, r_len r) \<and> in_block y (r_vaddr r', r_len r')"
    from b [OF h] h s'(2) [of x] t'(2) [of y] show "\<exists>m m' i j. vmap s' x = Some m \<and> m_shared m \<and> m_backing m = FileBacked (l_shm_file l) i \<and>
          vmap t' y = Some m' \<and> m_shared m' \<and> m_backing m' = FileBacked (l_shm_file l') j \<and>
          unat i < unat (tmpfile_size (rt s)) \<and> unat j < unat (tmpfile_size (rt s)) \<and> (i = j \<longleftrightarrow> x = y)"
      by (simp add: fault_page_def)
  qed
qed

theorem fault_pages_do_not_alias_witness:
  "\<exists>s' t' i j. sc_signal_handler_SEGV demo_env SIGSEGV (demo_fault 0x1800 4) demo_st = (Inr (), s') \<and>
     sc_signal_handler_SEGV demo_env SIGSEGV (demo_fault 0x2468 6) (demo_st\<lparr>pid := 8\<rparr>) = (Inr (), t') \<and>
     map_option m_backing (vmap s' 0x1fff) = Some (FileBacked 5 i) \<and> map_option m_backing (vmap t' 0x2000) = Some (FileBacked 5 j) \<and> i \<noteq> j"
proof -
  let ?a = "demo_region 0x1140 0x1000 0x1000 3 0" and ?b = "demo_region 0 0x2000 0x2000 3 0x1000" and ?t = "demo_st\<lparr>pid := 8\<rparr>"
  have h: "rt ?t = rt demo_st" "regs ?t = regs demo_st" "locals demo_st = [demo_local]" "locals ?t = [demo_local]"
    "0x1100 \<in> set [0x1100, 0x1140]" "0x1140 \<in> set [0x1100, 0x1140]" by simp_all
  have r: "regs demo_st 0x1100 = Some ?a" "r_prot ?a \<noteq> 0" "regs demo_st 0x1140 = Some ?b" "r_prot ?b \<noteq> 0"
    by (simp_all add: demo_region_def demo_regs_def)
  have sane: "sane_fault (demo_fault 0x1800 4) demo_st" "sane_fault (demo_fault 0x2468 6) ?t"
    using sane_demo(1) [of "0x1800"] sane_demo(2) [of "0x2468"] by (simp_all add: sane_fault_def)
  have b: "in_block (si_addr (demo_fault 0x1800 4)) (r_vaddr ?a, r_len ?a)" "in_block (si_addr (demo_fault 0x2468 6)) (r_vaddr ?b, r_len ?b)"
    "in_block 0x1fff (r_vaddr ?a, r_len ?a) \<and> in_block 0x2000 (r_vaddr ?b, r_len ?b)" by (simp_all add: demo_fault_def in_block_def demo_region_def)
  have f: "\<not> access_denied (demo_fault 0x1800 4) ?a" "\<not> access_denied (demo_fault 0x2468 6) ?b"
    by (simp_all add: access_denied_def demo_fault_def isWrite_def isInstr_def demo_region_def mman_defs)
  have os: "os_mmap demo_env (vmap demo_st) (fault_req demo_local ?a) = r_vaddr ?a" "os_mmap demo_env (vmap ?t) (fault_req demo_local ?b) = r_vaddr ?b"
    by (simp_all add: fault_req_def mman_defs)
  from fault_pages_do_not_alias [OF demo_wf h(1-5) r(1,2) h(6) r(3,4) sane(1) b(1) f(1) sane(2) b(2) f(2) os] obtain s' t' where
    s': "sc_signal_handler_SEGV demo_env SIGSEGV (demo_fault 0x1800 4) demo_st = (Inr (), s')"
    "sc_signal_handler_SEGV demo_env SIGSEGV (demo_fault 0x2468 6) ?t = (Inr (), t')"
    and v: "\<exists>m m' i j. vmap s' 0x1fff = Some m \<and> m_shared m \<and> m_backing m = FileBacked (l_shm_file demo_local) i \<and>
          vmap t' 0x2000 = Some m' \<and> m_shared m' \<and> m_backing m' = FileBacked (l_shm_file demo_local) j \<and>
          unat i < unat (tmpfile_size (rt demo_st)) \<and> unat j < unat (tmpfile_size (rt demo_st)) \<and> (i = j \<longleftrightarrow> (0x1fff :: u64) = 0x2000)"
    using b(3) by blast
  from v s' show ?thesis by (auto simp: demo_local_def)
qed

text \<open>C40: A write to a region that is not writable, or an instruction fetch from one that is not executable,
  never maps anything: the handler shuts the process down. It does so while it still holds the shared
  lock of the region.\<close>

theorem sc_signal_handler_SEGV_denied:
  assumes "region_core E s act rsv fre" and "locals s = [l]" and "p \<in> set act" "regs s p = Some r"
    and "sane_fault info s" and "in_block (si_addr info) (r_vaddr r, r_len r)" and "access_denied info r"
  shows "\<exists>s1 e s'. sc_signal_handler_SEGV E SIGSEGV info s = (Inl e, s') \<and> sc_killLocalProc s1 = (Inl e, s') \<and>
     s1 = s\<lparr>prev_vaddr := si_addr info, lk := lk s1\<rparr> \<and>
     heldS (lk s1) (LRegion p) = heldS (lk s) (LRegion p) + 1"
proof -
  let ?s = "s\<lparr>prev_vaddr := si_addr info\<rparr>"
  have core: "region_core E ?s act rsv fre" using assms(1) region_core_cong [of ?s s] by simp
  have "locals ?s = [l]" "regs ?s p = Some r" using assms by simp_all
  with core assms(3,6) obtain tr where sh: "shift tr (\<lambda>_. 0) (\<lambda>k. if k = LRegion p then 1 else 0)"
    and run: "segv_lookup E info ?s = call (segv_map E l info r)
      (\<lambda>_ s. (Inr (), (log_lock (UnSharedRec (LRegion p)) s)\<lparr>prev_vaddr := 0\<rparr>)) (?s\<lparr>lk := lk ?s @ tr\<rparr>)"
    by (elim segv_lookup_found)
  let ?s1 = "?s\<lparr>lk := lk ?s @ tr\<rparr>"
  from kill_never_returns obtain e s' where k: "sc_killLocalProc ?s1 = (Inl e, s')" by blast
  have "segv_map E l info r ?s1 = (Inl e, s')"
    using assms(5,7) segv_prot_assert_true k by (auto simp: segv_map_def sane_fault_def)
  then have "sc_signal_handler_SEGV E SIGSEGV info s = (Inl e, s')" using segv_sane [OF assms(5)] run by simp
  with k sh show ?thesis by (intro exI [of _ ?s1]) (auto simp: shift_def)
qed

theorem sc_signal_handler_SEGV_denied_witness:
  "\<exists>e s'. sc_signal_handler_SEGV demo_env SIGSEGV (demo_fault 0x2468 6) demo_ro_st = (Inl e, s')"
proof -
  let ?r = "demo_region 0 0x2000 0x2000 1 0x1000"
  have core: "region_core demo_env demo_ro_st [0x1100, 0x1140] [0x1180] [0x11c0, 0x1200, 0x1240]"
    using demo_core by (simp add: demo_ro_st_def region_core_def region_lists_def region_range_def
        demo_regs_def region_next_def demo_region_def range_ok_def)
  have info: "sane_fault (demo_fault 0x2468 6) demo_ro_st" using sane_demo(2) [of "0x2468"]
    by (simp add: sane_fault_def demo_ro_st_def)
  have "access_denied (demo_fault 0x2468 6) ?r"
    by (simp add: access_denied_def demo_fault_def isWrite_def demo_region_def mman_defs)
  moreover have "in_block (si_addr (demo_fault 0x2468 6)) (r_vaddr ?r, r_len ?r)"
    by (simp add: demo_fault_def in_block_def demo_region_def)
  ultimately show ?thesis
    using sc_signal_handler_SEGV_denied [OF core _ _ _ info, of demo_local "0x1140" ?r]
    by (auto simp: demo_ro_st_def)
qed

end
