(* ===== verification/SC_Lifecycle.thy ===== *)
theory SC_Lifecycle
  imports SC_Fault
begin

text \<open>
  Creating and joining a subcontext: \<^verbatim>\<open>sc_init\<close>, \<^verbatim>\<open>sc_join\<close> and the helpers that both call to install
  the signal handlers and to start the background thread (\<^verbatim>\<open>trunk/subcontexts_core.c\<close>).

  The backing file passed to \<^verbatim>\<open>sc_init\<close> is empty, so the first page starts out as zeros; \<open>sc_init\<close>
  resets the shared part of the state accordingly when it maps the page. \<open>sc_join\<close> works on the
  shared state that the file holds already. Both return the address of the root struct, or 0 for
  NULL. Which function the kernel calls for a signal is not part of the state.
\<close>

section \<open>Definitions\<close>

text \<open>
  What the two functions obtain from the compiler (the layout of \<^verbatim>\<open>sc__firstPage\<close>, which embeds locks
  of unknown size), from \<^verbatim>\<open>malloc\<close> and from further system calls.
\<close>

record boot =
  sizeof_firstPage :: u64
  off_malloc_md :: u64
  off_firstRegions :: u64
  sizeof_sc_region :: u64
  malloc_ok :: bool
  os_fstat :: "u32 \<Rightarrow> bool"
  os_sigaltstack :: bool
  os_sigaction :: "u32 \<Rightarrow> bool"
  os_clone :: u32
  os_child_tid :: u32

definition region_at :: "boot \<Rightarrow> u64 \<Rightarrow> nat \<Rightarrow> u64" where
  "region_at B page i = page + off_firstRegions B + of_nat i * sizeof_sc_region B"

definition regions_count :: "env \<Rightarrow> boot \<Rightarrow> u64 \<Rightarrow> nat" where
  "regions_count E B page = unat ((page + getpagesize E - region_at B page 0) div sizeof_sc_region B)"

definition zero_sc :: sc where
  "zero_sc = \<lparr>magic = 0, active_regions = 0, active_regionsTail = 0, reserved_regions = 0,
     pending_reservation = 0, unmapped_regions = 0, free_structs = 0, tmpfile_size = 0, proc_count = 0,
     proc_list = 0, proc_list_deadFlagPending = False, prealloc_proc = 0, cleanupLog_lastSeqNum = 0,
     cleanupLog = 0, cleanupLog_tail = 0, malloc_md = 0, descriptive_name = 0, user_root = 0\<rparr>"

definition zero_region :: sc_region where
  "zero_region = \<lparr>r_next = 0, r_vaddr = 0, r_len = 0, r_prot = 0, r_permaPin = False, r_tmpfile_offset = 0\<rparr>"

definition zero_regions :: "boot \<Rightarrow> u64 \<Rightarrow> nat \<Rightarrow> (u64 \<rightharpoonup> sc_region)" where
  "zero_regions B page n = fold (\<lambda>i m. m(region_at B page i \<mapsto> zero_region)) [0..<n] Map.empty"

text \<open>Mapping the first page of the empty file: the subcontext now exists and is all zeros.\<close>

definition new_subcontext :: "boot \<Rightarrow> u64 \<Rightarrow> nat \<Rightarrow> st \<Rightarrow> st" where
  "new_subcontext B page n s = s\<lparr>root_addr := page, rt := zero_sc, regs := zero_regions B page n, procs := Map.empty,
     steps := Map.empty, freeList := 0, mem := (\<lambda>_. 0)\<rparr>"

definition root_req :: "env \<Rightarrow> u64 \<Rightarrow> u32 \<Rightarrow> mmap_req" where
  "root_req E addr fd = \<lparr>q_addr = addr, q_len = getpagesize E, q_prot = PROT_READ OR PROT_WRITE,
     q_flags = MAP_SHARED, q_fd = fd, q_off = 0\<rparr>"

definition anon_req :: "u64 \<Rightarrow> u64 \<Rightarrow> u32 \<Rightarrow> u32 \<Rightarrow> mmap_req" where
  "anon_req addr len prot flags = \<lparr>q_addr = addr, q_len = len, q_prot = prot,
     q_flags = MAP_PRIVATE OR MAP_ANONYMOUS OR flags, q_fd = - 1, q_off = 0\<rparr>"

definition sc_init_register_signal_handlers :: "env \<Rightarrow> boot \<Rightarrow> st \<Rightarrow> int \<times> st" where
  "sc_init_register_signal_handlers E B s =
     (let ALT_STACK_SIZE = 1024 * 1024;
          (altstack, s) = sys_mmap E (anon_req 0 ALT_STACK_SIZE (PROT_READ OR PROT_WRITE) MAP_NORESERVE) s
      in if altstack = MAP_FAILED then (- 1, s)
         else if \<not> os_sigaltstack B then (- 1, sys_munmap altstack ALT_STACK_SIZE s)
         else if \<not> os_sigaction B 11 then (- 1, sys_munmap altstack ALT_STACK_SIZE s)
         else if \<not> os_sigaction B 2 then (- 1, sys_munmap altstack ALT_STACK_SIZE s)
         else (0, s))"

definition library_init :: "env \<Rightarrow> boot \<Rightarrow> st \<Rightarrow> (unit, st) res" where
  "library_init E B s =
     (let (rc, s) = sc_init_register_signal_handlers E B s
      in if rc \<noteq> 0 then (Inl (Exit (- 1)), s) else (Inr (), s))"

text \<open>The result is the status and the value that the kernel leaves in \<^verbatim>\<open>backgroundThread_tid\<close>.\<close>

definition scInit_setup_backgroundThread :: "env \<Rightarrow> boot \<Rightarrow> st \<Rightarrow> (int \<times> u32, st) res" where
  "scInit_setup_backgroundThread E B s =
     (let size = 1024 * 1024;
          (newStack, s) = sys_mmap E (anon_req 0 size (PROT_READ OR PROT_WRITE) 0) s
      in if newStack = MAP_FAILED then (Inr (1, 0), s)
         else
           let (dead, s) = sys_mmap E (anon_req newStack (getpagesize E) PROT_NONE MAP_FIXED) s
           in if dead \<noteq> newStack then (Inr (2, 0), s)
              else if os_clone B = - 1 then (Inr (3, 0), s)
              else guard [(2109, os_child_tid B = os_clone B)] (\<lambda>s. (Inr (0, os_child_tid B), s)) s)"

text \<open>The free list of the structs that are left over in the first page (lines 270 to 286).\<close>

definition init_free_structs :: "boot \<Rightarrow> u64 \<Rightarrow> nat \<Rightarrow> st \<Rightarrow> st" where
  "init_free_structs B page n s =
     (if n = 2 then upd_rt (\<lambda>c. c\<lparr>free_structs := 0\<rparr>) s
      else
        let s = s\<lparr>lk := lk s @ map (\<lambda>i. LkInit (LRegion (region_at B page i))) [2..<n]\<rparr>;
            s = upd_rt (\<lambda>c. c\<lparr>free_structs := region_at B page 2\<rparr>) s;
            s = s\<lparr>regs := fold (\<lambda>i m. region_set_next m (region_at B page (i - 1)) (region_at B page i)) [3..<n] (regs s)\<rparr>
        in s\<lparr>regs := region_set_next (regs s) (region_at B page (n - 1)) 0\<rparr>)"

definition reserved_len :: u64 where "reserved_len = 2 ^ 20"

text \<open>Filling in the first page (lines 202 to 306), with the root lock held.\<close>

definition init_root :: "env \<Rightarrow> boot \<Rightarrow> u64 \<Rightarrow> nat \<Rightarrow> st \<Rightarrow> (unit, st) res" where
  "init_root E B page n s =
     (let s = upd_rt (\<lambda>c. c\<lparr>magic := SUBCONTEXTS_ROOT_MAGIC\<rparr>) s;
          s = lock_init LRoot s;
          s = lock_exclusive LRoot s;
          s = upd_rt (\<lambda>c. c\<lparr>unmapped_regions := 0, tmpfile_size := getpagesize E, proc_count := 0,
                cleanupLog_lastSeqNum := 1, cleanupLog := 0, cleanupLog_tail := 0, proc_list := 0,
                proc_list_deadFlagPending := False\<rparr>) s;
          s = lock_init (LRegion (region_at B page 0)) s;
          s = upd_rt (\<lambda>c. c\<lparr>active_regions := region_at B page 0\<rparr>) s;
          s = put_region (region_at B page 0) \<lparr>r_next = 0, r_vaddr = page, r_len = getpagesize E,
                r_prot = ucast (PROT_READ OR PROT_WRITE), r_permaPin = True, r_tmpfile_offset = 0\<rparr> s;
          s = upd_rt (\<lambda>c. c\<lparr>active_regionsTail := region_at B page 0\<rparr>) s;
          (reserved_area, s) = sys_mmap E (anon_req 0 reserved_len PROT_NONE MAP_NORESERVE) s
      in guard [(258, reserved_area \<noteq> MAP_FAILED)] (\<lambda>s.
           let s = upd_rt (\<lambda>c. c\<lparr>reserved_regions := region_at B page 1\<rparr>) s;
               s = lock_init (LRegion (region_at B page 1)) s;
               s = put_region (region_at B page 1) \<lparr>r_next = 0, r_vaddr = reserved_area, r_len = reserved_len,
                     r_prot = ucast PROT_NONE, r_permaPin = False, r_tmpfile_offset = - 1\<rparr> s;
               s = init_free_structs B page n s;
               s = upd_rt (\<lambda>c. c\<lparr>malloc_md := page + off_malloc_md B\<rparr>) s;
               s = lock_init LMalloc s;
               s = s\<lparr>freeList := 0\<rparr>
           in (Inr (), unlock_exclusive LRoot s)) s)"

text \<open>The rest of \<^verbatim>\<open>sc_init\<close>, from the posting of the local struct on (lines 309 to 358); \<open>init_rest\<close> starts at line 346.\<close>

definition init_rest :: "env \<Rightarrow> boot \<Rightarrow> u64 \<Rightarrow> st \<Rightarrow> (u64, st) res" where
  "init_rest E B page = call (scInit_setup_procListEntry E) (\<lambda>rc s.
     if rc \<noteq> 0 then (Inr 0, s)
     else call (scInit_setup_backgroundThread E B) (\<lambda>(rc, tid) s.
            let s = upd_local (\<lambda>l. l\<lparr>l_tid := tid\<rparr>) s
            in if rc \<noteq> 0 then (Inr 0, s) else (Inr page, s)) s)"

definition init_process :: "env \<Rightarrow> boot \<Rightarrow> u32 \<Rightarrow> u64 \<Rightarrow> st \<Rightarrow> (u64, st) res" where
  "init_process E B fd page s =
     (let s = lock_exclusive LLocalList s;
          s = s\<lparr>locals := \<lparr>l_sc = page, l_shm_file = fd, l_flushPoint = cleanupLog_lastSeqNum (rt s), l_tid = 0,
                l_recent_vaddr = 0, l_recent_len = 0\<rparr> # locals s\<rparr>;
          s = unlock_exclusive LLocalList s
      in call (sc_malloc E (sizeof_sc_process E)) (\<lambda>firstProc.
           guard [(323, firstProc \<noteq> 0)] (\<lambda>s.
             let s = lock_init (LProc firstProc) s;
                 s = put_proc firstProc \<lparr>p_next = 0, p_state = SUBCONTEXTS_PROC_STATE_ALIVE, p_pid = pid s\<rparr> s;
                 s = lock_exclusive LRoot s;
                 s = upd_rt (\<lambda>c. c\<lparr>proc_count := 1, proc_list := firstProc\<rparr>) s;
                 s = unlock_exclusive LRoot s;
                 s = upd_rt (\<lambda>c. c\<lparr>descriptive_name := 0, user_root := 0\<rparr>) s
             in init_rest E B page s)) s)"

definition sc_init :: "env \<Rightarrow> boot \<Rightarrow> u32 \<Rightarrow> st \<Rightarrow> (u64, st) res" where
  "sc_init E B fd s =
     (if \<not> os_fstat B fd then (Inr 0, s)
      else if file_len s \<noteq> 0 then (Inr 0, s)
      else if \<not> malloc_ok B then (Inr 0, s)
      else
        let (ok, s) = sys_ftruncate E fd (getpagesize E) s
        in if \<not> ok then (Inr 0, s)
           else
             guard [(151, sizeof_firstPage B \<le> getpagesize E)] (\<lambda>s.
               let (firstPage, s) = sys_mmap E (root_req E 0 fd) s
               in if firstPage = MAP_FAILED then (Inr 0, s)
                  else
                    let n = regions_count E B firstPage;
                        s = new_subcontext B firstPage n s
                    in guard [(181, 2 \<le> n)] (\<lambda>s.
                         let s = s\<lparr>curSc := firstPage\<rparr>
                         in call (init_root E B firstPage n) (\<lambda>_. init_process E B fd firstPage) s) s) s)"

section \<open>Joining\<close>

text \<open>How \<^verbatim>\<open>sc_join\<close> maps one region of the active (\<open>i = 0\<close>) or reserved (\<open>i = 1\<close>) list (lines 617 to
  651).\<close>

definition join_req :: "u32 \<Rightarrow> nat \<Rightarrow> sc_region \<Rightarrow> mmap_req" where
  "join_req fd i r =
     (if i = 0 \<and> ucast (r_prot r) \<noteq> PROT_NONE
      then \<lparr>q_addr = r_vaddr r, q_len = r_len r, q_prot = ucast (r_prot r), q_flags = MAP_SHARED,
             q_fd = fd, q_off = r_tmpfile_offset r\<rparr>
      else anon_req (r_vaddr r) (r_len r) (ucast (r_prot r)) MAP_NORESERVE)"

definition join_asserts :: "env \<Rightarrow> sc \<Rightarrow> nat \<Rightarrow> sc_region \<Rightarrow> (nat \<times> bool) list" where
  "join_asserts E c i r =
     (if i = 0 \<and> ucast (r_prot r) \<noteq> PROT_NONE
      then [(629, r_tmpfile_offset r + r_len r \<le> tmpfile_size c), (632, r_tmpfile_offset r mod getpagesize E = 0)]
      else [(644, r_tmpfile_offset r = - 1)])"

text \<open>The walk over one list (lines 613 to 682); the result tells whether every region was mapped.\<close>

partial_function (option) join_walk :: "env \<Rightarrow> u32 \<Rightarrow> nat \<Rightarrow> u64 \<Rightarrow> st \<Rightarrow> ((bool, st) res) option" where
  "join_walk E fd i cur s =
     (if cur = 0 then Some (Inr True, s)
      else case regs s cur of
        None \<Rightarrow> Some (Inl Segv, s)
      | Some r \<Rightarrow>
          (case guard (join_asserts E (rt s) i r) (\<lambda>s. let (m, s) = sys_mmap E (join_req fd i r) s in (Inr m, s)) s of
             (Inl e, s) \<Rightarrow> Some (Inl e, s)
           | (Inr m, s) \<Rightarrow>
               if m = MAP_FAILED \<or> m \<noteq> r_vaddr r then Some (Inr False, s)
               else
                 let nxt = r_next r;
                     s = (if nxt \<noteq> 0 then lock_shared (LRegion nxt) s else s);
                     s = unlock_shared (LRegion cur) s
                 in join_walk E fd i nxt s))"

text \<open>Relocating the root page to the address it has in every process (lines 374 to 513); the result tells
  whether \<^verbatim>\<open>sc_join\<close> goes on, then with the root lock held in shared mode.\<close>

definition root_dest :: "env \<Rightarrow> sc \<Rightarrow> u64" where
  "root_dest E c = active_regions c AND NOT (getpagesize E - 1)"

definition join_root :: "env \<Rightarrow> boot \<Rightarrow> u32 \<Rightarrow> st \<Rightarrow> bool \<times> st" where
  "join_root E B fd s =
     (if \<not> malloc_ok B then (False, s)
      else
        let (tmp, s) = sys_mmap E (root_req E 0 fd) s
        in if tmp = MAP_FAILED then (False, s)
           else if magic (rt s) \<noteq> SUBCONTEXTS_ROOT_MAGIC then (False, sys_munmap tmp (getpagesize E) s)
           else
             let s = lock_shared LRoot s;
                 dest = root_dest E (rt s);
                 (found, s) = lookupScLocal dest s
             in if found \<noteq> None then (False, sys_munmap tmp (getpagesize E) s)
                else if dest \<noteq> tmp then
                  let (new_map, s) = sys_mmap E (root_req E dest fd) s
                  in if new_map \<noteq> dest
                     then (False, sys_munmap tmp (getpagesize E) (unlock_shared LRoot s))
                     else (True, sys_munmap tmp (getpagesize E) s)
                else (True, s))"

text \<open>Taking the preallocated process struct (lines 516 to 548), NULL when there is none.\<close>

definition join_take_proc :: "st \<Rightarrow> u64 \<times> st" where
  "join_take_proc s =
     (let s = unlock_shared LRoot s;
          s = lock_exclusive LRoot s
      in if prealloc_proc (rt s) = 0 then (0, unlock_exclusive LRoot s)
         else
           let myProc = prealloc_proc (rt s);
               s = upd_rt (\<lambda>c. c\<lparr>prealloc_proc := 0\<rparr>) s
           in (myProc, log_lock (Downgrade LRoot) s))"

text \<open>Mapping every range of both lists but the first page (lines 588 to 684).\<close>

definition join_maps :: "env \<Rightarrow> u32 \<Rightarrow> st \<Rightarrow> (bool, st) res" where
  "join_maps E fd s =
     (let first = active_regions (rt s);
          s = lock_shared (LRegion first) s
      in deref (regs s first) (\<lambda>r s.
           let list0 = r_next r;
               list1 = reserved_regions (rt s)
           in deref (regs s list0) (\<lambda>_ s. let s = lock_shared (LRegion list0) s in
              deref (regs s list1) (\<lambda>_ s.
                let s = lock_shared (LRegion list1) s;
                    s = unlock_shared (LRegion first) s;
                    s = unlock_shared LRoot s
                in guard [(611, list0 \<noteq> 0)] (\<lambda>s.
                     loops (join_walk E fd 0 list0 s) (\<lambda>(r, s) _.
                       case r of
                         Inl e \<Rightarrow> (Inl e, s)
                       | Inr False \<Rightarrow> (Inr False, s)
                       | Inr True \<Rightarrow>
                           guard [(611, list1 \<noteq> 0)] (\<lambda>s.
                             loops (join_walk E fd 1 list1 s) (\<lambda>r _. r) s) s) s) s) s) s) s)"

text \<open>Recording the process (lines 693 to 717).\<close>

definition join_record :: "u64 \<Rightarrow> st \<Rightarrow> (u64, st) res" where
  "join_record myProc s =
     deref (procs s myProc) (\<lambda>pr s.
       let s = put_proc myProc (pr\<lparr>p_state := SUBCONTEXTS_PROC_STATE_ALIVE, p_pid := pid s\<rparr>) s;
           s = lock_exclusive LRoot s;
           s = upd_rt (\<lambda>c. c\<lparr>proc_count := proc_count c + 1\<rparr>) s
       in if pending_reservation (rt s) \<noteq> 0 then (Inl (Todo 705), unlock_exclusive LRoot s)
          else
            let flushPoint = cleanupLog_lastSeqNum (rt s);
                s = s\<lparr>procs := proc_set_next (procs s) myProc (proc_list (rt s))\<rparr>;
                s = upd_rt (\<lambda>c. c\<lparr>proc_list := myProc\<rparr>) s
            in (Inr flushPoint, unlock_exclusive LRoot s)) s"

text \<open>The last part of \<^verbatim>\<open>sc_join\<close>, from the allocation of the next process struct on (lines 730 to 748).\<close>

definition join_finish :: "env \<Rightarrow> boot \<Rightarrow> u32 \<Rightarrow> u64 \<Rightarrow> u64 \<Rightarrow> st \<Rightarrow> (u64, st) res" where
  "join_finish E B fd root flushPoint =
     call (scInit_setup_procListEntry E) (\<lambda>rc s.
       if rc \<noteq> 0 then (Inr 0, s)
       else call (scInit_setup_backgroundThread E B) (\<lambda>(rc, tid) s.
              if rc \<noteq> 0 then (Inr 0, s)
              else
                let s = lock_exclusive LLocalList s;
                    s = s\<lparr>locals := \<lparr>l_sc = root, l_shm_file = fd, l_flushPoint = flushPoint,
                          l_tid = tid, l_recent_vaddr = 0, l_recent_len = 0\<rparr> # locals s\<rparr>;
                    s = unlock_exclusive LLocalList s
                in (Inr root, s)) s)"

definition sc_join :: "env \<Rightarrow> boot \<Rightarrow> u32 \<Rightarrow> st \<Rightarrow> (u64, st) res" where
  "sc_join E B fd s =
     (let (ok, s) = join_root E B fd s
      in if \<not> ok then (Inr 0, s)
         else
           let root = root_dest E (rt s);
               (myProc, s) = join_take_proc s
           in if myProc = 0 then (Inr 0, s)
              else
                call (join_maps E fd) (\<lambda>ok s.
                  if \<not> ok then (Inr 0, s)
                  else call (join_record myProc) (\<lambda>flushPoint s.
                    let (rc, s) = sc_init_register_signal_handlers E B s
                    in if rc \<noteq> 0 then (Inr 0, unlock_shared LRoot s)
                       else join_finish E B fd root flushPoint s) s) s)"

section \<open>The first page\<close>

text \<open>The compiler lays out \<^verbatim>\<open>sc__firstPage\<close> with its three region structs after the other fields.\<close>

definition layout_ok :: "env \<Rightarrow> boot \<Rightarrow> bool" where
  "layout_ok E B \<longleftrightarrow> 0 < unat (sizeof_sc_region B) \<and>
     unat (off_firstRegions B) + 3 * unat (sizeof_sc_region B) \<le> unat (sizeof_firstPage B) \<and>
     sizeof_firstPage B \<le> getpagesize E"

definition first_count :: "env \<Rightarrow> boot \<Rightarrow> nat" where
  "first_count E B = (unat (getpagesize E) - unat (off_firstRegions B)) div unat (sizeof_sc_region B)"

text \<open>The root struct and the region structs that \<^verbatim>\<open>sc_init\<close> leaves in the first page.\<close>

definition first_root :: "env \<Rightarrow> boot \<Rightarrow> u64 \<Rightarrow> sc" where
  "first_root E B page = zero_sc\<lparr>magic := SUBCONTEXTS_ROOT_MAGIC, tmpfile_size := getpagesize E, cleanupLog_lastSeqNum := 1,
     active_regions := region_at B page 0, active_regionsTail := region_at B page 0,
     reserved_regions := region_at B page 1, free_structs := region_at B page 2, malloc_md := page + off_malloc_md B\<rparr>"

definition first_region :: "env \<Rightarrow> boot \<Rightarrow> u64 \<Rightarrow> u64 \<Rightarrow> nat \<Rightarrow> sc_region" where
  "first_region E B page a i =
     (if i = 0 then \<lparr>r_next = 0, r_vaddr = page, r_len = getpagesize E, r_prot = 3, r_permaPin = True, r_tmpfile_offset = 0\<rparr>
      else if i = 1 then \<lparr>r_next = 0, r_vaddr = a, r_len = reserved_len, r_prot = 0, r_permaPin = False, r_tmpfile_offset = - 1\<rparr>
      else zero_region\<lparr>r_next := (if Suc i < first_count E B then region_at B page (Suc i) else 0)\<rparr>)"

abbreviation grow_size :: "env \<Rightarrow> u64 \<Rightarrow> u64" where
  "grow_size E sz \<equiv> malloc_mmap_size E (malloc_alloc_size sz + 24)"

text \<open>The background thread starts: its stack and the guard page below it are mapped.\<close>

definition thread_vm :: "env \<Rightarrow> vmem \<Rightarrow> vmem" where
  "thread_vm E vm =
     (let q = anon_req 0 (1024 * 1024) (PROT_READ OR PROT_WRITE) 0; a = os_mmap E vm q; vm = vm_map vm a q
      in vm_map vm a (anon_req a (getpagesize E) PROT_NONE MAP_FIXED))"

definition thread_ok :: "env \<Rightarrow> boot \<Rightarrow> vmem \<Rightarrow> bool" where
  "thread_ok E B vm \<longleftrightarrow>
     (let q = anon_req 0 (1024 * 1024) (PROT_READ OR PROT_WRITE) 0; a = os_mmap E vm q
      in a \<noteq> MAP_FAILED \<and> os_mmap E (vm_map vm a q) (anon_req a (getpagesize E) PROT_NONE MAP_FIXED) = a) \<and>
     os_clone B \<noteq> - 1 \<and> os_child_tid B = os_clone B"

text \<open>What a process that works with a subcontext relies on: \<open>ps\<close> are the structs of the process list,
  \<open>L\<close> the buffers of the heap.\<close>

definition subcontext_ok :: "env \<Rightarrow> st \<Rightarrow> u64 list \<Rightarrow> block multiset \<Rightarrow> bool" where
  "subcontext_ok E s ps L \<longleftrightarrow> magic (rt s) = SUBCONTEXTS_ROOT_MAGIC \<and> alloc_inv E s L \<and> proc_chain s ps \<and>
     sint (proc_count (rt s)) = int (length ps) \<and>
     (\<exists>act rsv fre. region_wf E s act rsv fre \<and> region_range (regs s) (active_regions (rt s)) = (root_addr s, getpagesize E) \<and>
        all_mapped s (act @ rsv) (vmap s))"

definition fresh_local :: "u64 \<Rightarrow> u32 \<Rightarrow> u32 \<Rightarrow> sc_local" where
  "fresh_local page fd tid = \<lparr>l_sc = page, l_shm_file = fd, l_flushPoint = 1, l_tid = tid, l_recent_vaddr = 0, l_recent_len = 0\<rparr>"

text \<open>
  What a process sees at an address of an active region: a page that it may not touch, or the byte of
  the backing file that the region stands for there. Reserved ranges are blocked. \<open>fd\<close> is the descriptor of
  the backing file in the process.
\<close>

definition inert :: "mapping option \<Rightarrow> bool" where
  "inert v \<longleftrightarrow> (\<exists>m. v = Some m \<and> m_prot m = PROT_NONE)"

definition stands_for :: "u32 \<Rightarrow> sc_region \<Rightarrow> u64 \<Rightarrow> mapping option \<Rightarrow> bool" where
  "stands_for fd r x v \<longleftrightarrow> (\<exists>m. v = Some m \<and> (m_prot m = PROT_NONE \<or>
     m_shared m \<and> m_backing m = FileBacked fd (r_tmpfile_offset r + (x - r_vaddr r))))"

definition sees :: "u32 \<Rightarrow> (u64 \<rightharpoonup> sc_region) \<Rightarrow> u64 list \<Rightarrow> u64 list \<Rightarrow> vmem \<Rightarrow> bool" where
  "sees fd m act rsv vm \<longleftrightarrow>
     (\<forall>p \<in> set act. \<forall>x. in_block x (region_range m p) \<longrightarrow> stands_for fd (the (m p)) x (vm x)) \<and>
     (\<forall>p \<in> set rsv. \<forall>x. in_block x (region_range m p) \<longrightarrow> inert (vm x))"

definition sealed :: "(u64 \<rightharpoonup> sc_region) \<Rightarrow> u64 list \<Rightarrow> bool" where
  "sealed m rsv \<longleftrightarrow> (\<forall>p \<in> set rsv. r_prot (the (m p)) = 0)"

text \<open>The address space grows, and what was mapped stays mapped to the same thing.\<close>

definition extends :: "vmem \<Rightarrow> vmem \<Rightarrow> bool" where
  "extends vm vm' \<longleftrightarrow> (\<forall>x. vm x \<noteq> None \<longrightarrow> vm' x = vm x)"

text \<open>The state that \<^verbatim>\<open>sc_init\<close> leaves: one process struct on the list, for the process \<open>me\<close>, one
  preallocated, and an empty cleanup log that the process has flushed.\<close>

definition initialised :: "env \<Rightarrow> u32 \<Rightarrow> u32 \<Rightarrow> u64 \<Rightarrow> u32 \<Rightarrow> st \<Rightarrow> bool" where
  "initialised E fd tid page me s' \<longleftrightarrow> (\<exists>p1 p2 n1 n2.
     subcontext_ok E s' [p1] {#(p1, n1), (p2, n2)#} \<and> sizeof_sc_process E \<le> n1 \<and> sizeof_sc_process E \<le> n2 \<and>
     procs s' p1 = Some \<lparr>p_next = 0, p_state = SUBCONTEXTS_PROC_STATE_ALIVE, p_pid = me\<rparr> \<and>
     prealloc_proc (rt s') = p2 \<and> p2 \<noteq> 0 \<and> p2 \<noteq> p1 \<and> cleanupLog (rt s') = 0 \<and> pending_reservation (rt s') = 0 \<and>
     cleanupLog_tail (rt s') = 0 \<and> cleanupLog_lastSeqNum (rt s') = 1 \<and> p2 \<in> dom (procs s') \<and> root_dest E (rt s') = page \<and>
     my_local s' = Some (fresh_local page fd tid) \<and> root_addr s' = page \<and> heldX (lk s') LRoot = 0 \<and>
     (\<exists>act rsv fre. region_core E s' act rsv fre \<and> sees fd (regs s') act rsv (vmap s') \<and> sealed (regs s') rsv \<and> laid s' act) \<and>
     r_tmpfile_offset (the (regs s' (active_regions (rt s')))) = 0)"

text \<open>The address space after \<^verbatim>\<open>sc_init\<close>: the root page, the first reserved range and the thread's stack are new.\<close>

definition init_vm :: "env \<Rightarrow> u32 \<Rightarrow> vmem \<Rightarrow> vmem" where
  "init_vm E fd vm =
     (let p = os_mmap E vm (root_req E 0 fd); vm1 = vm_map vm p (root_req E 0 fd); q = anon_req 0 reserved_len PROT_NONE MAP_NORESERVE
      in thread_vm E (vm_map vm1 (os_mmap E vm1 q) q))"

text \<open>How much a new subcontext has left: \<open>k\<close> region structs, less four, a file of a known length, and at
  least two active regions, since the process structs are in the heap. None of its ranges was mapped before,
  in \<open>vm\<close>, and the private bytes are still \<open>pv\<close>.\<close>

definition roomy :: "env \<Rightarrow> nat \<Rightarrow> vmem \<Rightarrow> memory \<Rightarrow> st \<Rightarrow> bool" where
  "roomy E k vm pv s' \<longleftrightarrow> priv s' = pv \<and>
     unat (tmpfile_size (rt s')) \<le> unat (getpagesize E) + 2 * unat (grow_size E (sizeof_sc_process E)) \<and>
     (\<exists>act rsv fre. region_wf E s' act rsv fre \<and> 2 \<le> length act \<and> k \<le> length fre + 4 \<and>
        (\<forall>p \<in> set (act @ rsv). \<forall>x. in_block x (region_range (regs s') p) \<longrightarrow> vm x = None))"

text \<open>The creator has posted its local struct and is alone on the process list, in the struct \<open>p\<close> of \<open>n\<close> bytes.\<close>

definition founded :: "env \<Rightarrow> u32 \<Rightarrow> u64 \<Rightarrow> st \<Rightarrow> u64 \<Rightarrow> u64 \<Rightarrow> st \<Rightarrow> bool" where
  "founded E fd page s p n s' \<longleftrightarrow> p \<noteq> 0 \<and> sizeof_sc_process E \<le> n \<and> alloc_inv E s' {#(p, n)#} \<and>
     procs s' = [p \<mapsto> \<lparr>p_next = 0, p_state = SUBCONTEXTS_PROC_STATE_ALIVE, p_pid = pid s\<rparr>] \<and>
     rt_rest (rt s') = rt_rest ((rt s)\<lparr>proc_count := 1, proc_list := p, descriptive_name := 0, user_root := 0\<rparr>) \<and>
     heldX (lk s') LRoot = heldX (lk s) LRoot \<and> root_addr s' = root_addr s \<and> vmap s' = vmap s \<and> pid s' = pid s \<and>
     locals s' = fresh_local page fd 0 # locals s"

text \<open>The system calls of \<^verbatim>\<open>sc_init\<close> succeed, one after the other.\<close>

definition init_granted :: "env \<Rightarrow> boot \<Rightarrow> u32 \<Rightarrow> vmem \<Rightarrow> bool" where
  "init_granted E B fd vm \<longleftrightarrow>
     (let p = os_mmap E vm (root_req E 0 fd); vm1 = vm_map vm p (root_req E 0 fd);
          q = anon_req 0 reserved_len PROT_NONE MAP_NORESERVE; a = os_mmap E vm1 q
      in p \<noteq> MAP_FAILED \<and> a \<noteq> MAP_FAILED \<and> thread_ok E B (vm_map vm1 a q)) \<and>
     (\<forall>n. unat n \<le> unat (getpagesize E) + 2 ^ 20 \<longrightarrow> os_ftruncate E fd n) \<and> os_fstat B fd \<and> malloc_ok B"

fun join_granted :: "env \<Rightarrow> u32 \<Rightarrow> nat \<Rightarrow> vmem \<Rightarrow> sc_region list \<Rightarrow> bool" where
  "join_granted E fd i vm [] = True"
| "join_granted E fd i vm (r # rs) \<longleftrightarrow> r_vaddr r \<noteq> MAP_FAILED \<and> os_mmap E vm (join_req fd i r) = r_vaddr r \<and>
     join_granted E fd i (vm_map vm (r_vaddr r) (join_req fd i r)) rs"

fun join_vm :: "u32 \<Rightarrow> nat \<Rightarrow> vmem \<Rightarrow> sc_region list \<Rightarrow> vmem" where
  "join_vm fd i vm [] = vm"
| "join_vm fd i vm (r # rs) = join_vm fd i (vm_map vm (r_vaddr r) (join_req fd i r)) rs"

definition walk_asserts :: "env \<Rightarrow> st \<Rightarrow> nat \<Rightarrow> u64 list \<Rightarrow> bool" where
  "walk_asserts E s i ps \<longleftrightarrow> (\<forall>p \<in> set ps. first_failed (join_asserts E (rt s) i (the (regs s p))) = None)"

definition root_granted :: "env \<Rightarrow> u32 \<Rightarrow> vmem \<Rightarrow> u64 \<Rightarrow> bool" where
  "root_granted E fd vm dest \<longleftrightarrow>
     (let tmp = os_mmap E vm (root_req E 0 fd)
      in tmp \<noteq> MAP_FAILED \<and> dest \<noteq> MAP_FAILED \<and>
         (dest \<noteq> tmp \<longrightarrow> os_mmap E (vm_map vm tmp (root_req E 0 fd)) (root_req E dest fd) = dest))"

definition root_vm :: "env \<Rightarrow> u32 \<Rightarrow> vmem \<Rightarrow> u64 \<Rightarrow> vmem" where
  "root_vm E fd vm dest =
     (let tmp = os_mmap E vm (root_req E 0 fd); vm1 = vm_map vm tmp (root_req E 0 fd)
      in if dest = tmp then vm1
         else (\<lambda>x. if in_block x (tmp, getpagesize E) then None else vm_map vm1 dest (root_req E dest fd) x))"

definition sig_req :: mmap_req where
  "sig_req = anon_req 0 (1024 * 1024) (PROT_READ OR PROT_WRITE) MAP_NORESERVE"

definition handlers_ok :: "env \<Rightarrow> boot \<Rightarrow> vmem \<Rightarrow> bool" where
  "handlers_ok E B vm \<longleftrightarrow> os_mmap E vm sig_req \<noteq> MAP_FAILED \<and> os_sigaltstack B \<and> os_sigaction B 11 \<and> os_sigaction B 2"

definition handlers_vm :: "env \<Rightarrow> vmem \<Rightarrow> vmem" where
  "handlers_vm E vm = vm_map vm (os_mmap E vm sig_req) sig_req"

text \<open>The address space of a process that joins, after each phase.\<close>

definition join_space :: "env \<Rightarrow> u32 \<Rightarrow> st \<Rightarrow> u64 list \<Rightarrow> u64 list \<Rightarrow> vmem" where
  "join_space E fd s act rsv = join_vm fd 1 (join_vm fd 0 (root_vm E fd (vmap s) (root_dest E (rt s))) (map (\<lambda>p. the (regs s p)) act))
     (map (\<lambda>p. the (regs s p)) rsv)"

text \<open>Every system call of the join succeeds: the kernel maps each range where it is asked for.\<close>

definition join_calls_ok :: "env \<Rightarrow> boot \<Rightarrow> u32 \<Rightarrow> st \<Rightarrow> u64 list \<Rightarrow> u64 list \<Rightarrow> bool" where
  "join_calls_ok E B fd s act rsv \<longleftrightarrow>
     (let dest = root_dest E (rt s); vm0 = root_vm E fd (vmap s) dest; rs = map (\<lambda>p. the (regs s p)) act
      in malloc_ok B \<and> root_granted E fd (vmap s) dest \<and> join_granted E fd 0 vm0 rs \<and>
         join_granted E fd 1 (join_vm fd 0 vm0 rs) (map (\<lambda>p. the (regs s p)) rsv) \<and>
         handlers_ok E B (join_space E fd s act rsv) \<and> thread_ok E B (handlers_vm E (join_space E fd s act rsv)))"

definition join_local :: "u64 \<Rightarrow> u32 \<Rightarrow> u64 \<Rightarrow> u32 \<Rightarrow> sc_local" where
  "join_local root fd fp tid = \<lparr>l_sc = root, l_shm_file = fd, l_flushPoint = fp, l_tid = tid, l_recent_vaddr = 0, l_recent_len = 0\<rparr>"

text \<open>What a successful join leaves behind, \<open>p\<close> being the struct that was preallocated before.\<close>

definition joined :: "env \<Rightarrow> boot \<Rightarrow> u32 \<Rightarrow> st \<Rightarrow> u64 list \<Rightarrow> block multiset \<Rightarrow> st \<Rightarrow> bool" where
  "joined E B fd s ps L s' \<longleftrightarrow> regs s' = regs s \<and> steps s' = steps s \<and> root_addr s' = root_addr s \<and>
     (let p = prealloc_proc (rt s) in proc_chain s' (p # ps) \<and>
        (\<exists>pr. procs s' p = Some pr \<and> p_state pr = SUBCONTEXTS_PROC_STATE_ALIVE \<and> p_pid pr = pid s) \<and>
        (\<exists>p' n. rt s' = (rt s)\<lparr>prealloc_proc := p', proc_count := proc_count (rt s) + 1, proc_list := p\<rparr> \<and>
           p' \<noteq> 0 \<and> p' \<notin> set (p # ps) \<and> sizeof_sc_process E \<le> n \<and> alloc_inv E s' (add_mset (p', n) L))) \<and>
     locals s' = join_local (root_addr s) fd (cleanupLog_lastSeqNum (rt s)) (os_child_tid B) # locals s \<and>
     heldX (lk s') LRoot = heldX (lk s) LRoot \<and> heldS (lk s') LRoot = heldS (lk s) LRoot"

text \<open>A kernel that honours an address hint when the range is free and otherwise takes the first free one
  of four places.\<close>

definition free_at :: "vmem \<Rightarrow> u64 \<Rightarrow> u64 \<Rightarrow> bool" where
  "free_at vm a n \<longleftrightarrow> a \<noteq> 0 \<and> unat (0x1000 :: u64) dvd unat a \<and> fits (a, n) \<and> (\<forall>x. in_block x (a, n) \<longrightarrow> vm x = None)"

definition boot_env :: env where
  "boot_env = demo_env\<lparr>os_mmap := (\<lambda>vm q.
     if q_len q = 0 then MAP_FAILED
     else if q_flags q AND MAP_FIXED \<noteq> 0 then q_addr q
     else if free_at vm (q_addr q) (q_len q) then q_addr q
     else if free_at vm 0x700000 (q_len q) then 0x700000
     else if free_at vm 0x800000 (q_len q) then 0x800000
     else if free_at vm 0xa00000 (q_len q) then 0xa00000
     else if free_at vm 0xc00000 (q_len q) then 0xc00000
     else MAP_FAILED), os_ftruncate := (\<lambda>_ _. True)\<rparr>"

definition demo_boot :: boot where
  "demo_boot = \<lparr>sizeof_firstPage = 0x400, off_malloc_md = 0xc0, off_firstRegions = 0x100, sizeof_sc_region = 0x40,
     malloc_ok = True, os_fstat = (\<lambda>_. True), os_sigaltstack = True, os_sigaction = (\<lambda>_. True), os_clone = 77, os_child_tid = 77\<rparr>"

definition demo_none_st :: st where
  "demo_none_st = demo_st\<lparr>file_len := 0, locals := []\<rparr>"

definition root_page :: "u32 \<Rightarrow> u64 \<Rightarrow> u64 \<Rightarrow> mapping" where
  "root_page fd dest x = \<lparr>m_prot = PROT_READ OR PROT_WRITE, m_shared = True, m_backing = FileBacked fd (x - dest)\<rparr>"

definition demo_join_st :: "u64 \<Rightarrow> st" where
  "demo_join_st fl = demo_st\<lparr>mem := store64 (store64 (store64 (store64 (\<lambda>_. 0) 0x2040 0x1fc0) 0x2000 64) (0x2000 + 8) SUBCONTEXTS_MALLOC_HEAD_MAGIC)
      (0x2000 + 64 - 8) SUBCONTEXTS_MALLOC_FOOT_MAGIC,
     procs := [0x2010 \<mapsto> \<lparr>p_next = 0, p_state = SUBCONTEXTS_PROC_STATE_PREALLOC, p_pid = 0\<rparr>],
     rt := demo_root\<lparr>prealloc_proc := 0x2010, proc_count := 0\<rparr>, locals := [], freeList := fl\<rparr>"

lemma first_count_bounds:
  assumes "layout_ok E B"
  shows "3 \<le> first_count E B"
    and "i \<le> first_count E B \<Longrightarrow> unat (off_firstRegions B) + i * unat (sizeof_sc_region B) \<le> unat (getpagesize E)"
proof -
  let ?z = "unat (sizeof_sc_region B)" and ?o = "unat (off_firstRegions B)" and ?p = "unat (getpagesize E)"
  have z: "0 < ?z" "?o + 3 * ?z \<le> ?p" using assms by (auto simp: layout_ok_def word_le_nat_alt)
  then have "3 * ?z \<le> ?p - ?o" by linarith
  then show "3 \<le> first_count E B" using z(1) by (simp add: first_count_def less_eq_div_iff_mult_less_eq)
  assume "i \<le> first_count E B"
  then have "i * ?z \<le> ?p - ?o" using z(1) by (simp add: first_count_def less_eq_div_iff_mult_less_eq)
  with z(2) show "?o + i * ?z \<le> ?p" by linarith
qed

lemma region_at_unat:
  assumes "layout_ok E B" and "fits (page, getpagesize E)" and "i \<le> first_count E B"
  shows "unat (region_at B page i) = unat page + unat (off_firstRegions B) + i * unat (sizeof_sc_region B)"
proof -
  let ?z = "unat (sizeof_sc_region B)" and ?o = "unat (off_firstRegions B)"
  have b: "?o + i * ?z \<le> unat (getpagesize E)" by (rule first_count_bounds(2) [OF assms(1,3)])
  then have lt: "unat page + ?o + i * ?z < 2 ^ 64" using assms(2) by (simp add: fits_def)
  have "unat (of_nat i * sizeof_sc_region B) = i * ?z"
  proof (cases "i = 0")
    case False
    have z: "0 < ?z" using assms(1) by (simp add: layout_ok_def)
    then have "i \<le> i * ?z" by simp
    with lt have "i < 2 ^ 64" by linarith
    then have "unat (of_nat i :: u64) = i" by (simp add: unat_of_nat)
    with lt show ?thesis by (simp add: unat_word_ariths)
  qed simp
  with lt show ?thesis by (simp add: region_at_def unat_word_ariths)
qed

lemma regions_count_eq:
  assumes "layout_ok E B" and "fits (page, getpagesize E)"
  shows "regions_count E B page = first_count E B"
proof -
  have o: "unat (off_firstRegions B) \<le> unat (getpagesize E)" using first_count_bounds(2) [OF assms(1), of 0] by simp
  have "page + getpagesize E - region_at B page 0 = getpagesize E - off_firstRegions B" by (simp add: region_at_def)
  moreover have "unat (getpagesize E - off_firstRegions B) = unat (getpagesize E) - unat (off_firstRegions B)"
    using o by (intro unat_sub) (simp add: word_le_nat_alt)
  ultimately show ?thesis unfolding regions_count_def first_count_def unat_div by (simp only:)
qed

lemma region_at_inj:
  assumes "layout_ok E B" and "fits (page, getpagesize E)"
  shows "inj_on (region_at B page) {..<first_count E B}"
proof (rule inj_onI)
  fix i j assume "i \<in> {..<first_count E B}" "j \<in> {..<first_count E B}" and eq: "region_at B page i = region_at B page j"
  then have "i \<le> first_count E B" "j \<le> first_count E B" by auto
  with region_at_unat [OF assms] eq have "i * unat (sizeof_sc_region B) = j * unat (sizeof_sc_region B)"
    by (metis add_left_cancel)
  with assms(1) show "i = j" by (simp add: layout_ok_def)
qed

lemma region_at_nonzero:
  assumes "layout_ok E B" and "fits (page, getpagesize E)" and "page \<noteq> 0" and "i \<le> first_count E B"
  shows "region_at B page i \<noteq> 0"
proof -
  have "0 < unat page" using assms(3) by (simp add: unat_gt_0)
  then have "0 < unat (region_at B page i)" using region_at_unat [OF assms(1,2,4)] by linarith
  then show ?thesis by auto
qed

lemma zero_regions_at: "i < n \<Longrightarrow> zero_regions B page n (region_at B page i) = Some zero_region"
proof -
  have "fold (\<lambda>i m. m(g i \<mapsto> z)) [0..<n] M a = (if \<exists>i<n. g i = a then Some z else M a)"
    for g :: "nat \<Rightarrow> u64" and z :: sc_region and M a
    by (induction n) (auto simp: less_Suc_eq)
  then show "i < n \<Longrightarrow> zero_regions B page n (region_at B page i) = Some zero_region"
    by (auto simp: zero_regions_def)
qed

lemma link_at:
  assumes "inj_on g {..<N}" and "n \<le> N" and "j < N"
  shows "fold (\<lambda>i m. region_set_next m (g (i - 1)) (g i)) [3..<n] M (g j) =
     (if 2 \<le> j \<and> Suc j < n then map_option (\<lambda>r. r\<lparr>r_next := g (Suc j)\<rparr>) (M (g j)) else M (g j))"
  using assms(2)
proof (induction n)
  case (Suc n)
  let ?m = "fold (\<lambda>i m. region_set_next m (g (i - 1)) (g i)) [3..<n] M"
  show ?case
  proof (cases "3 \<le> n")
    case True
    have eq: "g j = g (n - 1) \<longleftrightarrow> j = n - 1"
      using assms(1,3) Suc.prems True by (auto dest: inj_onD)
    have "fold (\<lambda>i m. region_set_next m (g (i - 1)) (g i)) [3..<Suc n] M = region_set_next ?m (g (n - 1)) (g n)"
      using True by simp
    moreover have "region_set_next ?m (g (n - 1)) (g n) (g j) =
        (if j = n - 1 then map_option (\<lambda>r. r\<lparr>r_next := g n\<rparr>) (?m (g j)) else ?m (g j))"
      using eq by (auto simp: region_set_next_def split: option.splits)
    ultimately show ?thesis using Suc True by (auto simp: not_less_eq less_Suc_eq)
  qed (use Suc in auto)
qed simp

lemma chain_upt:
  assumes "k < n" and "\<And>i. k \<le> i \<Longrightarrow> i < n \<Longrightarrow> g i \<noteq> 0 \<and> f (g i) = (if Suc i < n then g (Suc i) else 0)"
  shows "chain f (g k) (map g [k..<n]) 0"
  using assms
proof (induction "n - k" arbitrary: k)
  case (Suc d)
  have up: "[k..<n] = k # [Suc k..<n]" using Suc.prems(1) by (simp add: upt_conv_Cons)
  have h: "g k \<noteq> 0" "f (g k) = (if Suc k < n then g (Suc k) else 0)" using Suc.prems by auto
  show ?case
  proof (cases "Suc k < n")
    case True
    have "chain f (g (Suc k)) (map g [Suc k..<n]) 0" by (rule Suc.hyps(1)) (use Suc True in auto)
    with h up True show ?thesis by simp
  next
    case False
    with h up show ?thesis by simp
  qed
qed simp

lemma anon_req_simps [simp]: "q_len (anon_req a n p f) = n" "q_addr (anon_req a n p f) = a"
  by (simp_all add: anon_req_def)

lemma root_req_simps [simp]: "q_len (root_req E a fd) = getpagesize E" "q_flags (root_req E a fd) = MAP_SHARED"
  by (simp_all add: root_req_def)

lemma heldX_inits: "(\<And>i. f i \<noteq> l) \<Longrightarrow> fold (heldX_step l) (map (\<lambda>i. LkInit (f i)) is) n = n"
  by (induction "is" arbitrary: n) auto

lemma region_set_next_at:
  "region_set_next m a v b = (if b = a then map_option (\<lambda>r. r\<lparr>r_next := v\<rparr>) (m b) else m b)"
  by (auto simp: region_set_next_def split: option.splits)

lemma init_root_ok:
  assumes lay: "layout_ok E B" and fit: "fits (page, getpagesize E)"
    and s: "s = new_subcontext B page (first_count E B) s0"
    and a: "os_mmap E (vmap s0) (anon_req 0 reserved_len PROT_NONE MAP_NORESERVE) = a" "a \<noteq> MAP_FAILED"
  obtains s' where "init_root E B page (first_count E B) s = (Inr (), s')" "rt s' = first_root E B page"
    "\<And>i. i < first_count E B \<Longrightarrow> regs s' (region_at B page i) = Some (first_region E B page a i)"
    "vmap s' = vm_map (vmap s0) a (anon_req 0 reserved_len PROT_NONE MAP_NORESERVE)" "mem s' = (\<lambda>_. 0)" "freeList s' = 0"
    "locals s' = locals s0" "root_addr s' = page" "procs s' = Map.empty" "steps s' = Map.empty" "pid s' = pid s0"
    "file_len s' = file_len s0" "heldX (lk s') LRoot = 0" "heldX (lk s') LMalloc = 0" "priv s' = priv s0"
proof -
  let ?n = "first_count E B" and ?g = "region_at B page" and ?q = "anon_req 0 reserved_len PROT_NONE MAP_NORESERVE"
  note n3 = first_count_bounds(1) [OF lay] and inj = region_at_inj [OF lay fit]
  obtain s' where run: "init_root E B page ?n s = (Inr (), s')" by (simp add: init_root_def Let_def sys_mmap_def s new_subcontext_def a)
  have vm: "vmap s = vmap s0" by (simp add: s new_subcontext_def)
  have r: "regs s' = region_set_next (fold (\<lambda>i m. region_set_next m (?g (i - 1)) (?g i)) [3..<?n]
      ((regs s)(?g 0 \<mapsto> first_region E B page a 0, ?g 1 \<mapsto> first_region E B page a 1))) (?g (?n - 1)) 0"
    using run n3 a vm by (simp add: init_root_def Let_def sys_mmap_def init_free_structs_def first_region_def mman_defs)
      (auto simp: upd_rt_def log_lock_def put_region_def)
  have eq: "?g i = ?g j \<longleftrightarrow> i = j" if "i < ?n" "j < ?n" for i j using inj that by (auto dest: inj_onD)
  have regs: "regs s' (?g i) = Some (first_region E B page a i)" if i: "i < ?n" for i
  proof -
    have z: "regs s (?g i) = Some zero_region" using zero_regions_at [OF i] by (simp add: s new_subcontext_def)
    let ?M = "(regs s)(?g 0 \<mapsto> first_region E B page a 0, ?g 1 \<mapsto> first_region E B page a 1)"
    let ?F = "fold (\<lambda>i m. region_set_next m (?g (i - 1)) (?g i)) [3..<?n] ?M"
    have M: "?M (?g i) = Some (if i < 2 then first_region E B page a i else zero_region)"
      using eq [OF i, of 0] eq [OF i, of 1] z n3 by (auto simp: less_2_cases_iff)
    have "regs s' (?g i) = (if i = ?n - 1 then map_option (\<lambda>r. r\<lparr>r_next := 0\<rparr>) (?F (?g i)) else ?F (?g i))"
      unfolding r region_set_next_at using eq [OF i, of "?n - 1"] n3 by simp
    moreover have "?F (?g i) = (if 2 \<le> i \<and> Suc i < ?n then Some (first_region E B page a i)
        else Some (if i < 2 then first_region E B page a i else zero_region))"
      unfolding link_at [OF inj order_refl i] M by (simp add: first_region_def)
    moreover have "zero_region\<lparr>r_next := 0\<rparr> = first_region E B page a i" if "\<not> i < 2" "\<not> Suc i < ?n"
      using that by (simp add: first_region_def)
    ultimately show ?thesis using i n3 by (cases "i < 2"; cases "Suc i < ?n") auto
  qed
  have "rt s' = first_root E B page"
    using run n3 a vm by (simp add: init_root_def Let_def sys_mmap_def init_free_structs_def)
      (auto simp: first_root_def s new_subcontext_def zero_sc_def)
  moreover have "heldX (lk s') LRoot = 0" "heldX (lk s') LMalloc = 0"
    using run n3 a vm by (simp_all add: init_root_def Let_def sys_mmap_def init_free_structs_def)
      (auto simp: heldX_append heldX_inits)
  moreover have "vmap s' = vm_map (vmap s0) a ?q" "mem s' = (\<lambda>_. 0)" "freeList s' = 0" "locals s' = locals s0" "root_addr s' = page"
    "procs s' = Map.empty" "steps s' = Map.empty" "pid s' = pid s0" "file_len s' = file_len s0" "priv s' = priv s0"
    using run n3 a vm by (simp_all add: init_root_def Let_def sys_mmap_def init_free_structs_def)
      (auto simp: s new_subcontext_def)
  ultimately show thesis using run regs by (intro that [of s']) blast+
qed

lemma init_root_wf:
  assumes lay: "layout_ok E B" and K: "kernel_ok E" and pg: "page_ok E" "unat (getpagesize E) dvd 2 ^ 20"
    and page: "page \<noteq> 0" "fits (page, getpagesize E)" "unat (getpagesize E) dvd unat page"
    and vm: "\<And>x. in_block x (page, getpagesize E) \<Longrightarrow> vm x \<noteq> None"
    and a: "os_mmap E vm (anon_req 0 reserved_len PROT_NONE MAP_NORESERVE) = a" "a \<noteq> MAP_FAILED"
    and s: "rt s = first_root E B page" "\<And>i. i < first_count E B \<Longrightarrow> regs s (region_at B page i) = Some (first_region E B page a i)"
  shows "region_wf E s [region_at B page 0] [region_at B page 1] (map (region_at B page) [2..<first_count E B])"
proof -
  let ?n = "first_count E B" and ?g = "region_at B page"
  note n3 = first_count_bounds(1) [OF lay] and inj = region_at_inj [OF lay page(2)]
  have nz: "?g i \<noteq> 0" if "i < ?n" for i using region_at_nonzero [OF lay page(2,1)] that by simp
  have r01: "regs s (?g 0) = Some (first_region E B page a 0)" "regs s (?g 1) = Some (first_region E B page a 1)"
    using s(2) n3 by auto
  have "q_flags (anon_req 0 reserved_len PROT_NONE MAP_NORESERVE) AND MAP_FIXED = 0"
    by (simp add: anon_req_def mman_defs)
  then have ao: "a \<noteq> 0" "fits (a, reserved_len)" "unat (getpagesize E) dvd unat a" "\<And>x. in_block x (a, reserved_len) \<Longrightarrow> vm x = None"
    using K a unfolding kernel_ok_def by (metis anon_req_simps(1))+
  have lens: "unat reserved_len = 2 ^ 20" "0 < getpagesize E"
    using pg(1) by (auto simp: reserved_len_def page_ok_def word_less_nat_alt)
  have "chain (region_next (regs s)) (?g 2) (map ?g [2..<?n]) 0"
    by (rule chain_upt) (use n3 nz s(2) in \<open>auto simp: region_next_def first_region_def zero_region_def\<close>)
  moreover have "distinct (map ?g [0..<?n])" using inj by (simp add: distinct_map lessThan_atLeast0)
  then have "distinct ([?g 0] @ [?g 1] @ map ?g [2..<?n])" using n3 by (simp add: upt_conv_Cons numeral_2_eq_2)
  moreover have "set ([?g 0] @ [?g 1] @ map ?g [2..<?n]) \<subseteq> dom (regs s)" using s(2) n3 by auto
  ultimately have lists: "region_lists s [?g 0] [?g 1] (map ?g [2..<?n])"
    using r01 nz n3 by (simp add: region_lists_def s(1) first_root_def region_next_def first_region_def)
  have "apart (a, reserved_len) (page, getpagesize E)"
    by (rule fresh_apart [where vm = vm]) (use ao vm lens page in \<open>auto simp: word_less_nat_alt\<close>)
  then have "apart_all (mset (map (region_range (regs s)) ([?g 0] @ [?g 1])))"
    using r01 by (simp add: region_range_def first_region_def apart_sym)
  moreover have "list_all (\<lambda>p. range_ok E (the (regs s p))) ([?g 0] @ [?g 1])"
    using r01 page ao lens pg by (simp add: range_ok_def first_region_def word_less_nat_alt)
  ultimately have "region_core E s [?g 0] [?g 1] (map ?g [2..<?n])" using lists by (simp add: region_core_def)
  moreover have "region_files E s [?g 0] [?g 1]"
    using r01 by (simp add: region_files_def s(1) first_root_def active_file_ok_def reserved_ok_def first_region_def file_ranges_def)
  ultimately show ?thesis by (simp add: region_wf_def)
qed

lemma dvd_power_two: "d dvd 2 ^ n \<Longrightarrow> \<exists>k. d = (2 :: nat) ^ k"
proof (induction n arbitrary: d)
  case 0
  then show ?case by (auto intro: exI [of _ 0])
next
  case (Suc n)
  show ?case
  proof (cases "even d")
    case True
    then obtain e where e: "d = 2 * e" by auto
    then have "e dvd 2 ^ n" using Suc.prems by simp
    from Suc.IH [OF this] e show ?thesis by (metis power_Suc)
  next
    case False
    then have "coprime d 2" by (simp add: coprime_right_2_iff_odd)
    then have "d dvd 2 ^ n" using Suc.prems by (simp add: coprime_dvd_mult_right_iff)
    from Suc.IH [OF this] show ?thesis .
  qed
qed

lemma page_of:
  assumes d: "unat (ps :: u64) dvd 2 ^ 64" "unat ps dvd unat page" and off: "unat off < unat ps" and fit: "fits (page, ps)"
  shows "(page + off) AND NOT (ps - 1) = page"
proof -
  from dvd_power_two [OF d(1)] obtain k where k: "unat ps = 2 ^ k" by blast
  have ps: "ps = 2 ^ k" using arg_cong [OF k, of "of_nat :: nat \<Rightarrow> u64"] by simp
  let ?x = "page + off"
  have "unat page + unat off < 2 ^ 64" using fit off by (simp add: fits_def)
  then have "unat ?x = unat page + unat off" by (simp add: unat_word_ariths)
  then have "unat ?x mod 2 ^ k = unat off" using d(2) off k by auto
  then have "unat (take_bit k ?x) = unat off" unfolding unsigned_take_bit_eq by (simp add: take_bit_eq_mod)
  then have "?x AND (ps - 1) = off" by (simp add: ps take_bit_eq_mask mask_eq_exp_minus_1 word_unat_eq_iff)
  moreover have "?x - (?x AND (ps - 1)) = ?x AND NOT (?x AND (ps - 1))" by (rule disjunctive_diff) (simp add: bit_simps)
  moreover have "?x AND NOT (?x AND (ps - 1)) = ?x AND NOT (ps - 1)" by (rule bit_eqI) (auto simp: bit_simps)
  ultimately show ?thesis by simp
qed

lemma root_dest_first:
  assumes "layout_ok E B" "kernel_ok E" "fits (page, getpagesize E)" "unat (getpagesize E) dvd unat page"
  shows "root_dest E (first_root E B page) = page"
proof -
  have "unat (off_firstRegions B) < unat (getpagesize E)" using assms(1) by (auto simp: layout_ok_def word_le_nat_alt)
  with page_of [of "getpagesize E" page "off_firstRegions B"] assms show ?thesis
    by (simp add: root_dest_def first_root_def region_at_def kernel_ok_def)
qed

section \<open>Allocating in a fresh subcontext\<close>

lemma sc_malloc_cases:
  assumes core: "region_core E s act rsv fre" and run: "sc_malloc E sz s = (Inr p, s')" and p: "p \<noteq> 0"
  obtains (same) "freeList s \<noteq> 0" "regs s' = regs s" "rt s' = rt s"
      "\<exists>pv a. malloc_scan (malloc_alloc_size sz) (malloc_alloc_size sz + 24) (mem s) FreeListHead (freeList s) = Some (pv, a) \<and> a \<noteq> 0"
    | (grown) q rsv' f g fre' where "rsv = q # rsv'" "fre = f # g # fre'" "0 < grow_size E sz"
      "grow_size E sz mod getpagesize E = 0" "grow_size E sz < r_len (the (regs s q))"
      "regs s' = regs (mmap_done (grow_size E sz) (PROT_READ OR PROT_WRITE) s)"
      "rt s' = rt (mmap_done (grow_size E sz) (PROT_READ OR PROT_WRITE) s)"
      "\<exists>pv. malloc_scan (malloc_alloc_size sz) (malloc_alloc_size sz + 24) (mem s) FreeListHead (freeList s) = Some (pv, 0)"
proof -
  let ?s = "lock_exclusive LMalloc s" and ?sp = "malloc_split_size (malloc_alloc_size sz)"
  have sp: "?sp = malloc_alloc_size sz + 24" by (simp add: malloc_split_size_def sizeofs)
  from guard_InrD [OF run [unfolded sc_malloc_def]] obtain pv a where
    scan: "malloc_scan (malloc_alloc_size sz) ?sp (mem s) FreeListHead (freeList s) = Some (pv, a)" and
    r: "(if a = 0 then call (malloc_grow E ?sp) (\<lambda>buf s.
          if buf = 0 then (Inr 0, unlock_exclusive LMalloc s)
          else malloc_carve (malloc_alloc_size sz) ?sp FreeListHead buf s) ?s
      else malloc_carve (malloc_alloc_size sz) ?sp pv a ?s) = (Inr p, s')"
    by (auto simp: Let_def loops_def split: if_splits option.splits)
  have carve: "regs s' = regs t \<and> rt s' = rt t" if "malloc_carve al sp pv a t = (Inr p, s')" for al sp pv a t
    using malloc_carve_mem [OF that] by (auto simp: mem_only_def)
  show thesis
  proof (cases "a = 0")
    case False
    with r carve have "regs s' = regs s" "rt s' = rt s" by simp_all
    moreover have "freeList s \<noteq> 0" using False scan by (auto simp: malloc_scan.simps [of _ _ _ _ 0])
    ultimately show thesis using scan False sp by (intro same) auto
  next
    case True
    with r obtain buf s2 where grow: "malloc_grow E ?sp ?s = (Inr buf, s2)"
      and rest: "(if buf = 0 then (Inr 0, unlock_exclusive LMalloc s2)
          else malloc_carve (malloc_alloc_size sz) ?sp FreeListHead buf s2) = (Inr p, s')" by (auto elim: call_InrE)
    from rest p have buf: "buf \<noteq> 0" by auto
    with rest carve have s': "regs s' = regs s2" "rt s' = rt s2" by simp_all
    from grow buf obtain s1 where mm: "malloc_pages E (malloc_mmap_size E ?sp) ?s = (Inr buf, s1)"
      and s2: "regs s2 = regs s1" "rt s2 = rt s1" and nf: "buf \<noteq> MAP_FAILED"
      unfolding malloc_grow_def Let_def by (elim call_InrE) (auto simp: set_mem_def split: if_splits)
    have "region_lists ?s act rsv fre" using core by (simp add: region_core_def region_lists_def)
    with mm show thesis
    proof (cases rule: sc_mmap_InrD)
      case (failed z)
      with nf show thesis by blast
    next
      case (mapped q rsv' f g fre')
      have "regs (mmap_done n pr ?s) = regs (mmap_done n pr s)" "rt (mmap_done n pr ?s) = rt (mmap_done n pr s)" for n pr
        by (simp_all add: mmap_done_simps Let_def)
      with mapped s' s2 sp scan True show thesis by (intro grown [of q rsv' f g fre']) auto
    qed
  qed
qed

text \<open>One allocation takes at most one region struct and \<open>grow_size\<close> bytes of the reserved range.\<close>

lemma malloc_step:
  assumes inv: "alloc_inv E s L" and wf: "region_wf E s act (q # rsv) (f # g # fre)"
    and l: "my_local s = Some l" and tr: "os_ftruncate E (l_shm_file l) (tmpfile_size (rt s) + grow_size E sz)"
    and log: "cleanupLog (rt s) = 0" and lq: "lock_query_ok E" "0 \<le> heldX (lk s) LRoot" and sz: "0 \<le> sint sz"
    and n: "grow_size E sz < r_len (the (regs s q))" "unat (tmpfile_size (rt s)) + unat (grow_size E sz) < 2 ^ 64"
  obtains p s' act' fre' where "sc_malloc E sz s = (Inr p, s')" "p \<noteq> 0" "alloc_inv E s' (add_mset (p, usable s' p) L)"
    "sz \<le> usable s' p" "keeps s s'" "region_wf E s' (act @ act') (q # rsv) fre'" "length (f # g # fre) \<le> Suc (length fre')"
    "unat (r_len (the (regs s q))) \<le> unat (r_len (the (regs s' q))) + unat (grow_size E sz)"
    "unat (tmpfile_size (rt s')) \<le> unat (tmpfile_size (rt s)) + unat (grow_size E sz)"
    "covers s (act @ q # rsv) s' ((act @ act') @ q # rsv)"
    "\<forall>p \<in> set act. region_range (regs s') p = region_range (regs s) p"
    "grown (regs s) act (q # rsv) (regs s') (act @ act') (q # rsv)" "freeList s = 0 \<Longrightarrow> act' \<noteq> []"
    "laid s act \<longrightarrow> laid s' (act @ act')"
proof -
  let ?n = "grow_size E sz"
  have core: "region_core E s act (q # rsv) (f # g # fre)" and files: "region_files E s act (q # rsv)"
    using wf by (simp_all add: region_wf_def)
  have room: "malloc_room E s ?n"
    unfolding malloc_room_def using lq log l tr core n(1)
    by (intro conjI exI [of _ l] exI [of _ act] exI [of _ q] exI [of _ rsv] exI [of _ f] exI [of _ g] exI [of _ fre])
      (simp_all add: my_local_def)
  from inv obtain ns live R where mi: "malloc_inv E s ns live R" by (auto simp: alloc_inv_def)
  obtain p s' where run: "sc_malloc E sz s = (Inr p, s')" and p: "p \<noteq> 0"
    using sc_malloc_enough [OF mi sz] room malloc_new_nonnull by blast
  note ok = sc_heap.alloc_ok [OF inv run p]
  note k = sc_malloc_keeps [OF run]
  from core run p show thesis
  proof (cases rule: sc_malloc_cases)
    case same
    have "region_wf E s' (act @ []) (q # rsv) (f # g # fre)"
      using wf same region_core_cong [of s' s] by (simp add: region_wf_def region_files_def)
    moreover have "covers s (act @ q # rsv) s' ((act @ []) @ q # rsv)"
      unfolding covers_def same append_Nil2 by (meson inside_refl)
    moreover have "laid s' act = laid s act" by (rule laid_cong) (use same in simp_all)
    ultimately show thesis using run p ok k same by (intro that [of p s' "[]" "f # g # fre"]) simp_all
  next
    case (grown q' rsv' f' g' fre')
    note G = grown [unfolded list.inject]
    let ?d = "mmap_done ?n (PROT_READ OR PROT_WRITE) s"
    have core': "region_core E ?d (act @ [f]) (q # rsv) (g # fre)" by (rule mmap_done_core [OF core]) (use grown in auto)
    have files': "region_files E ?d (act @ [f]) (q # rsv)"
      by (rule mmap_done_files [OF core files]) (use grown n in \<open>auto simp: mman_defs\<close>)
    have wf': "region_wf E s' (act @ [f]) (q # rsv) (g # fre)"
      using core' files' grown region_core_cong [of s' ?d] by (simp add: region_wf_def region_files_def)
    have mv: "regions_move E s act (q # rsv) (f # g # fre) ?d (act @ [f]) (q # rsv) (g # fre)"
      by (rule mmap_done_move [OF core]) (use grown in auto)
    have cov: "covers s (act @ q # rsv) s' ((act @ [f]) @ q # rsv)"
      using covers_move [OF mv] grown by (simp add: covers_def)
    from region_listsD [of s act "q # rsv" "f # g # fre"] core obtain T as where
      T: "regs s (active_regionsTail (rt s)) = Some T" and act: "act = as @ [active_regionsTail (rt s)]"
      by (auto simp: region_core_def)
    have d: "reserved_regions (rt s) = q" "free_structs (rt s) = f" "f \<noteq> q" "q \<noteq> active_regionsTail (rt s)"
      using core act by (auto simp: region_core_def region_lists_def)
    have "distinct (act @ (q # rsv) @ f # g # fre)" using core by (simp add: region_core_def region_lists_def)
    then have old: "region_range (regs s') p = region_range (regs s) p" if "p \<in> set act" for p
      using that act T d grown by (auto simp: mmap_done_simps Let_def region_range_def)
    have len: "r_len (the (regs s' q)) = r_len (the (regs s q)) - ?n"
      using grown d by (simp add: mmap_done_simps Let_def)
    then have "unat (r_len (the (regs s' q))) = unat (r_len (the (regs s q))) - unat ?n"
      using n(1) by (simp add: unat_sub word_less_nat_alt word_le_nat_alt)
    moreover have "tmpfile_size (rt s') = tmpfile_size (rt s) + ?n" using grown by (simp add: mmap_done_simps)
    then have "unat (tmpfile_size (rt s')) = unat (tmpfile_size (rt s)) + unat ?n" using n(2) by (simp add: unat_word_ariths)
    moreover have "grown (regs s) act (q # rsv) (regs s') (act @ [f]) (q # rsv)" using mv grown by (simp add: regions_move_def)
    moreover have "laid s' (act @ [f])" if "laid s act"
    proof -
      have "laid ?d (act @ [f])" by (rule mmap_done_laid [OF core that]) (use grown in auto)
      moreover have "laid s' (act @ [f]) = laid ?d (act @ [f])" by (rule laid_cong) (use grown in simp_all)
      ultimately show ?thesis by simp
    qed
    ultimately show thesis using run p ok k wf' cov old by (intro that [of p s' "[f]" "g # fre"]) simp_all
  qed
qed

lemma procListEntry_eq:
  assumes "sc_malloc E (sizeof_sc_process E) s = (Inr p, t)" "p \<noteq> 0" "prealloc_proc (rt t) = 0"
  shows "scInit_setup_procListEntry E s = (Inr 0, unlock_exclusive LRoot (upd_rt (\<lambda>c. c\<lparr>prealloc_proc := p\<rparr>) (lock_exclusive LRoot
     (put_proc p \<lparr>p_next = 0, p_state = SUBCONTEXTS_PROC_STATE_PREALLOC, p_pid = 0\<rparr> (lock_init (LProc p) t)))))"
  using assms by (simp add: scInit_setup_procListEntry_def Let_def)

lemma backgroundThread_ok:
  assumes "thread_ok E B (vmap s)"
  shows "scInit_setup_backgroundThread E B s = (Inr (0, os_child_tid B), s\<lparr>vmap := thread_vm E (vmap s)\<rparr>)"
  using assms by (simp add: thread_ok_def scInit_setup_backgroundThread_def sys_mmap_def Let_def thread_vm_def)

lemma vm_map_keeps: "vm x \<noteq> None \<Longrightarrow> vm_map vm a q x \<noteq> None"
  by (auto simp: vm_map_def)

lemma thread_vm_keeps: "vm x \<noteq> None \<Longrightarrow> thread_vm E vm x \<noteq> None"
  unfolding thread_vm_def Let_def by (intro vm_map_keeps)

lemma all_mapped_mono: "all_mapped s ps vm \<Longrightarrow> (\<And>x. vm x \<noteq> None \<Longrightarrow> vm' x \<noteq> None) \<Longrightarrow> all_mapped s ps vm'"
  unfolding all_mapped_def by blast

lemma covers_trans: "covers s ps t qs \<Longrightarrow> covers t qs u rs \<Longrightarrow> covers s ps u rs"
  unfolding covers_def using inside_trans by meson

lemma my_local_put_proc [simp]: "my_local (put_proc p r s) = my_local s"
  by (simp add: my_local_def put_proc_def)

lemma keeps_magic: "keeps s s' \<Longrightarrow> magic (rt s') = magic (rt s)"
  unfolding keeps_def by (elim conjE) (drule arg_cong [of "rt_rest _" _ magic], simp add: rt_rest_def)

lemma sees_grown:
  assumes gr: "grown m act rsv m' act' rsv'" and see: "sees fd m act rsv vm"
  shows "sees fd m' act' rsv' vm"
  unfolding sees_def
proof (intro conjI ballI allI impI)
  fix p x assume p: "p \<in> set act'" and x: "in_block x (region_range m' p)"
  show "stands_for fd (the (m' p)) x (vm x)"
  proof (cases "p \<in> set act")
    case True
    with gr have u: "map_option unlinked (m' p) = map_option unlinked (m p)" by (simp add: grown_def)
    then have "in_block x (region_range m p)" using x unlinked_range [of m' p m] by simp
    moreover from this u obtain r r' where "m p = Some r" "m' p = Some r'" "unlinked r' = unlinked r"
      by (cases "m p") (auto simp: region_range_def in_block_def)
    ultimately show ?thesis using see True unlinked_fields(1,4) [of r' r] by (auto simp: sees_def stands_for_def)
  next
    case False
    with gr p obtain r where "r \<in> set rsv" "inside (region_range m' p) (region_range m r)" unfolding grown_def by blast
    with see x in_block_inside have "inert (vm x)" unfolding sees_def by blast
    then show ?thesis by (auto simp: inert_def stands_for_def)
  qed
next
  fix p x assume "p \<in> set rsv'" "in_block x (region_range m' p)"
  with gr see in_block_inside show "inert (vm x)" unfolding sees_def grown_def by blast
qed

lemma sealed_grown: "grown m act rsv m' act' rsv' \<Longrightarrow> sealed m rsv \<Longrightarrow> sealed m' rsv'"
  by (simp add: grown_def sealed_def)

lemma sees_extends:
  assumes "sees fd m act rsv vm" "extends vm vm'" shows "sees fd m act rsv vm'"
proof -
  have "stands_for fd r x (vm' x)" if "stands_for fd r x (vm x)" for r x
    using that assms(2) by (auto simp: stands_for_def extends_def)
  moreover have "inert (vm' x)" if "inert (vm x)" for x using that assms(2) by (auto simp: inert_def extends_def)
  ultimately show ?thesis using assms(1) by (simp add: sees_def)
qed

lemma extends_trans: "extends vm vm' \<Longrightarrow> extends vm' vm'' \<Longrightarrow> extends vm vm''"
  by (auto simp: extends_def)

text \<open>A mapping that is not forced to its address leaves the others alone.\<close>

lemma extends_mmap:
  assumes "kernel_ok E" "os_mmap E vm q \<noteq> MAP_FAILED" "q_flags q AND MAP_FIXED = 0"
  shows "extends vm (vm_map vm (os_mmap E vm q) q)"
proof -
  have "vm x = None" if "in_block x (os_mmap E vm q, q_len q)" for x using assms that unfolding kernel_ok_def by blast
  then show ?thesis by (auto simp: extends_def vm_map_def)
qed

lemma thread_vm_extends:
  assumes K: "kernel_ok E" "unat (getpagesize E) \<le> 2 ^ 20" and th: "thread_ok E B vm"
  shows "extends vm (thread_vm E vm)"
proof -
  let ?q = "anon_req 0 (1024 * 1024) (PROT_READ OR PROT_WRITE) 0"
  let ?a = "os_mmap E vm ?q"
  have nf: "?a \<noteq> MAP_FAILED" "q_flags ?q AND MAP_FIXED = 0" using th by (simp_all add: thread_ok_def Let_def mman_defs anon_req_def)
  have "vm x = None" if "in_block x (?a, getpagesize E)" for x
  proof -
    have "in_block x (?a, q_len ?q)" using that K(2) by (simp add: in_block_def anon_req_def)
    then show ?thesis using K(1) nf unfolding kernel_ok_def by blast
  qed
  with extends_mmap [OF K(1) nf] show ?thesis by (auto simp: extends_def thread_vm_def Let_def vm_map_def)
qed

lemma rt_rest_eqE:
  assumes "rt_rest r' = rt_rest r"
  obtains a b c where "r' = r\<lparr>tmpfile_size := a, free_structs := b, active_regionsTail := c\<rparr>"
proof -
  have "r' = r\<lparr>tmpfile_size := tmpfile_size r', free_structs := free_structs r', active_regionsTail := active_regionsTail r'\<rparr>"
    using assms by (cases r; cases r') (simp add: rt_rest_def)
  then show thesis by (rule that)
qed

lemma init_founds:
  assumes wf: "region_wf E s [a] (q # rsv) (f # g # h # fre)" and pg: "page_ok E" and s: "rt s = first_root E B page"
    "mem s = (\<lambda>_. 0)" "freeList s = 0" "root_addr s = page" "procs s = Map.empty" "heldX (lk s) LRoot = 0"
    and len: "r_len (the (regs s q)) = reserved_len"
    and tr: "\<And>n. unat n \<le> unat (getpagesize E) + 2 ^ 20 \<Longrightarrow> os_ftruncate E fd n" and lq: "lock_query_ok E"
    and sz: "0 < sint (sizeof_sc_process E)" "2 * unat (grow_size E (sizeof_sc_process E)) < 2 ^ 20"
  obtains p n s' act' f' g' fre' where "init_process E B fd page s = init_rest E B page s'" "founded E fd page s p n s'"
    "region_wf E s' ([a] @ act') (q # rsv) (f' # g' # fre')" "covers s ([a] @ q # rsv) s' (([a] @ act') @ q # rsv)"
    "region_range (regs s') a = region_range (regs s) a" "grown (regs s) [a] (q # rsv) (regs s') ([a] @ act') (q # rsv)"
    "2 ^ 20 \<le> unat (r_len (the (regs s' q))) + unat (grow_size E (sizeof_sc_process E))"
    "unat (tmpfile_size (rt s')) \<le> unat (getpagesize E) + unat (grow_size E (sizeof_sc_process E))"
    "act' \<noteq> []" "length fre \<le> length fre'" "priv s' = priv s" "laid s [a] \<longrightarrow> laid s' ([a] @ act')"
proof -
  let ?sz = "sizeof_sc_process E" and ?n = "grow_size E (sizeof_sc_process E)"
  have sz0: "0 \<le> sint ?sz" using sz(1) by simp
  have pgb: "unat (getpagesize E) \<le> 2 ^ 30" using pg by (simp add: page_ok_def)
  define s1 where "s1 = s\<lparr>locals := fresh_local page fd 0 # locals s, lk := lk s @ [LkExcl LLocalList, UnExcl LLocalList]\<rparr>"
  have core1: "region_core E s1 [a] (q # rsv) (f # g # h # fre)"
    using wf region_core_cong [of s1 s] by (simp add: s1_def region_wf_def)
  have wf1: "region_wf E s1 [a] (q # rsv) (f # g # h # fre)" using wf core1 by (simp add: region_wf_def region_files_def s1_def)
  have inv1: "alloc_inv E s1 {#}"
    unfolding alloc_inv_core [OF core1] heap_in_def using pg s by (intro conjI exI [of _ "[]"] exI [of _ "{#}"]) (auto simp: heap_wf_def s1_def)
  have l1: "my_local s1 = Some (fresh_local page fd 0)" by (simp add: my_local_def s1_def s fresh_local_def)
  have ts1: "tmpfile_size (rt s1) = getpagesize E" by (simp add: s1_def s first_root_def)
  have un: "unat (getpagesize E + ?n) = unat (getpagesize E) + unat ?n" using pgb sz(2) by (simp add: unat_word_ariths)
  obtain p s2 act2 fre2 where m: "sc_malloc E ?sz s1 = (Inr p, s2)" "p \<noteq> 0" "alloc_inv E s2 (add_mset (p, usable s2 p) {#})"
    "?sz \<le> usable s2 p" "keeps s1 s2" "region_wf E s2 ([a] @ act2) (q # rsv) fre2" "length (f # g # h # fre) \<le> Suc (length fre2)"
    "unat (r_len (the (regs s1 q))) \<le> unat (r_len (the (regs s2 q))) + unat ?n"
    "unat (tmpfile_size (rt s2)) \<le> unat (tmpfile_size (rt s1)) + unat ?n" "covers s1 ([a] @ q # rsv) s2 (([a] @ act2) @ q # rsv)"
    "\<forall>p \<in> set [a]. region_range (regs s2) p = region_range (regs s1) p"
    "grown (regs s1) [a] (q # rsv) (regs s2) ([a] @ act2) (q # rsv)" "act2 \<noteq> []" "laid s1 [a] \<longrightarrow> laid s2 ([a] @ act2)"
  proof (rule malloc_step [OF inv1 wf1 l1 _ _ lq(1) _ sz0])
    show "os_ftruncate E (l_shm_file (fresh_local page fd 0)) (tmpfile_size (rt s1) + ?n)"
      unfolding ts1 using tr [of "getpagesize E + ?n"] un sz(2) by (simp add: fresh_local_def)
  qed (use ts1 pgb sz(2) len in \<open>simp_all add: s1_def s first_root_def zero_sc_def heldX_append word_less_nat_alt reserved_len_def\<close>)
  obtain f' g' fre' where fre2: "fre2 = f' # g' # fre'" using m(7) by (cases fre2; cases "tl fre2") auto
  define s3 where "s3 = s2\<lparr>procs := (procs s2)(p \<mapsto> \<lparr>p_next = 0, p_state = SUBCONTEXTS_PROC_STATE_ALIVE, p_pid = pid s\<rparr>),
     lk := lk s2 @ [LkInit (LProc p), LkExcl LRoot, UnExcl LRoot],
     rt := (rt s2)\<lparr>proc_count := 1, proc_list := p, descriptive_name := 0, user_root := 0\<rparr>\<rparr>"
  show thesis
  proof (rule that [of s3 p "usable s2 p" act2 f' g' fre'])
    have "pid s2 = pid s" using m(5) by (simp add: s1_def keeps_def)
    then show "init_process E B fd page s = init_rest E B page s3"
      unfolding init_process_def using m(1,2)
      by (simp add: Let_def s3_def s1_def log_lock_def put_proc_def upd_rt_def fresh_local_def s first_root_def zero_sc_def)
    have "alloc_inv E s3 {#(p, usable s2 p)#}" using m(3) alloc_inv_rt [of s3 s2] by (simp add: s3_def)
    then show "founded E fd page s p (usable s2 p) s3"
      using m(2,4,5) by (auto simp: founded_def s3_def s1_def s keeps_def heldX_append rt_rest_def elim: rt_rest_eqE [unfolded rt_rest_def])
    have "region_core E s3 ([a] @ act2) (q # rsv) fre2" using m(6) region_core_cong [of s3 s2] by (simp add: s3_def region_wf_def)
    then show "region_wf E s3 ([a] @ act2) (q # rsv) (f' # g' # fre')" using m(6) by (simp add: region_wf_def region_files_def s3_def fre2)
    show "covers s ([a] @ q # rsv) s3 (([a] @ act2) @ q # rsv)" using m(10) by (simp add: covers_def s3_def s1_def)
    show "length fre \<le> length fre'" using m(7) fre2 by simp
    show "priv s3 = priv s" using m(5) by (simp add: keeps_def s3_def s1_def)
    show "laid s [a] \<longrightarrow> laid s3 ([a] @ act2)"
      using m(14) laid_cong [of s1 s "[a]"] laid_cong [of s3 s2 "[a] @ act2"] by (simp add: s3_def s1_def)
  qed (use m len ts1 in \<open>simp_all add: s3_def s1_def reserved_len_def\<close>)
qed

text \<open>The second half: the struct for the next process and the background thread.\<close>

lemma founded_prealloc:
  assumes fd: "founded E fd page s p n s3" and s: "rt s = first_root E B page" "root_addr s = page" "heldX (lk s) LRoot = 0"
    and wf: "region_wf E s3 act (q # rsv) (f # g # fre)" and pg: "page_ok E"
    and room: "2 ^ 20 \<le> unat (r_len (the (regs s3 q))) + unat (grow_size E (sizeof_sc_process E))"
    "unat (tmpfile_size (rt s3)) \<le> unat (getpagesize E) + unat (grow_size E (sizeof_sc_process E))"
    and tr: "\<And>n. unat n \<le> unat (getpagesize E) + 2 ^ 20 \<Longrightarrow> os_ftruncate E fd n" and lq: "lock_query_ok E"
    and sz: "0 < sint (sizeof_sc_process E)" "2 * unat (grow_size E (sizeof_sc_process E)) < 2 ^ 20"
  obtains p2 n2 s4 act4 fre4 where "scInit_setup_procListEntry E s3 = (Inr 0, unlock_exclusive LRoot (upd_rt (\<lambda>c. c\<lparr>prealloc_proc := p2\<rparr>)
       (lock_exclusive LRoot (put_proc p2 \<lparr>p_next = 0, p_state = SUBCONTEXTS_PROC_STATE_PREALLOC, p_pid = 0\<rparr> (lock_init (LProc p2) s4)))))"
    "p2 \<noteq> 0" "p2 \<noteq> p" "sizeof_sc_process E \<le> n2" "alloc_inv E s4 {#(p, n), (p2, n2)#}" "keeps s3 s4"
    "region_wf E s4 (act @ act4) (q # rsv) fre4" "covers s3 (act @ q # rsv) s4 ((act @ act4) @ q # rsv)"
    "\<forall>r \<in> set act. region_range (regs s4) r = region_range (regs s3) r" "grown (regs s3) act (q # rsv) (regs s4) (act @ act4) (q # rsv)"
    "Suc (length fre) \<le> length fre4" "unat (tmpfile_size (rt s4)) \<le> unat (tmpfile_size (rt s3)) + unat (grow_size E (sizeof_sc_process E))"
    "laid s3 act \<longrightarrow> laid s4 (act @ act4)"
proof -
  let ?sz = "sizeof_sc_process E" and ?n = "grow_size E (sizeof_sc_process E)"
  have sz0: "0 \<le> sint ?sz" "?sz \<noteq> 0" using sz(1) by auto
  have pgb: "unat (getpagesize E) \<le> 2 ^ 30" using pg by (simp add: page_ok_def)
  have F: "alloc_inv E s3 {#(p, n)#}" "?sz \<le> n" "heldX (lk s3) LRoot = 0" "my_local s3 = Some (fresh_local page fd 0)"
    using fd s by (simp_all add: founded_def my_local_def fresh_local_def)
  from fd have "rt_rest (rt s3) = rt_rest ((rt s)\<lparr>proc_count := 1, proc_list := p, descriptive_name := 0, user_root := 0\<rparr>)"
    by (simp add: founded_def)
  then have R: "cleanupLog (rt s3) = 0" "prealloc_proc (rt s3) = 0" by (auto elim!: rt_rest_eqE simp: s first_root_def zero_sc_def)
  obtain p2 s4 act4 fre4 where m: "sc_malloc E ?sz s3 = (Inr p2, s4)" "p2 \<noteq> 0" "alloc_inv E s4 (add_mset (p2, usable s4 p2) {#(p, n)#})"
    "?sz \<le> usable s4 p2" "keeps s3 s4" "region_wf E s4 (act @ act4) (q # rsv) fre4" "covers s3 (act @ q # rsv) s4 ((act @ act4) @ q # rsv)"
    "\<forall>r \<in> set act. region_range (regs s4) r = region_range (regs s3) r" "grown (regs s3) act (q # rsv) (regs s4) (act @ act4) (q # rsv)"
    "length (f # g # fre) \<le> Suc (length fre4)" "unat (tmpfile_size (rt s4)) \<le> unat (tmpfile_size (rt s3)) + unat ?n"
    "laid s3 act \<longrightarrow> laid s4 (act @ act4)"
  proof (rule malloc_step [OF F(1) wf F(4) _ R(1) lq _ sz0(1)])
    have "unat (tmpfile_size (rt s3) + ?n) \<le> unat (getpagesize E) + 2 ^ 20" using room pgb sz(2) by (simp add: unat_word_ariths)
    from tr [OF this] show "os_ftruncate E (l_shm_file (fresh_local page fd 0)) (tmpfile_size (rt s3) + ?n)" by (simp add: fresh_local_def)
  qed (use F room pgb sz(2) in \<open>simp_all add: word_less_nat_alt\<close>)
  have "p2 \<noteq> p"
  proof
    assume "p2 = p"
    moreover have "apart (p2, usable s4 p2) (p, n)" using sc_heap.live_apart [OF m(3)] by simp
    moreover have "fits (p, n) \<and> p \<noteq> 0" using sc_heap.live_fits [OF m(3), of "(p, n)"] by simp
    ultimately have "n = 0 \<or> usable s4 p2 = 0" by (auto simp: apart_def unat_eq_zero)
    with F(2) m(4) sz0(2) show False by (auto simp: word_le_nat_alt unat_eq_zero)
  qed
  moreover have "prealloc_proc (rt s4) = 0" using R(2) keeps_rt [OF m(5)] by simp
  ultimately show thesis using m by (intro that [OF procListEntry_eq [OF m(1,2)]]) (simp_all add: add_mset_commute)
qed

lemma init_process_ok:
  assumes wf: "region_wf E s [a] (q # rsv) (f # g # h # fre)" and pg: "page_ok E" and s: "rt s = first_root E B page"
    "mem s = (\<lambda>_. 0)" "freeList s = 0" "root_addr s = page" "procs s = Map.empty" "heldX (lk s) LRoot = 0"
    and len: "r_len (the (regs s q)) = reserved_len" and a: "region_range (regs s) a = (page, getpagesize E)"
    and tr: "\<And>n. unat n \<le> unat (getpagesize E) + 2 ^ 20 \<Longrightarrow> os_ftruncate E fd n" and lq: "lock_query_ok E"
    and sz: "0 < sint (sizeof_sc_process E)" "2 * unat (grow_size E (sizeof_sc_process E)) < 2 ^ 20"
    and th: "thread_ok E B (vmap s)" "extends (vmap s) (thread_vm E (vmap s))" and mp: "all_mapped s ([a] @ q # rsv) (vmap s)"
    and see: "sees fd (regs s) [a] (q # rsv) (vmap s)" "sealed (regs s) (q # rsv)" "regs s a = Some ra" "r_tmpfile_offset ra = 0" "laid s [a]" and rd: "root_dest E (first_root E B page) = page"
    and vm: "\<And>x. in_block x (page, getpagesize E) \<Longrightarrow> vm x = None" "\<And>p x. p \<in> set (q # rsv) \<Longrightarrow> in_block x (region_range (regs s) p) \<Longrightarrow> vm x = None"
  shows "\<exists>s'. init_process E B fd page s = (Inr page, s') \<and> initialised E fd (os_child_tid B) page (pid s) s' \<and>
     pid s' = pid s \<and> map l_sc (locals s') = page # map l_sc (locals s) \<and> roomy E (length fre + 5) vm (priv s) s' \<and> vmap s' = thread_vm E (vmap s)"
proof -
  from wf pg s len tr lq sz obtain p1 n1 s3 act3 f' g' fre' where run: "init_process E B fd page s = init_rest E B page s3"
    and F: "founded E fd page s p1 n1 s3" and wf3: "region_wf E s3 ([a] @ act3) (q # rsv) (f' # g' # fre')"
    and cov3: "covers s ([a] @ q # rsv) s3 (([a] @ act3) @ q # rsv)" and a3: "region_range (regs s3) a = region_range (regs s) a"
    and gr3: "grown (regs s) [a] (q # rsv) (regs s3) ([a] @ act3) (q # rsv)"
    and room: "2 ^ 20 \<le> unat (r_len (the (regs s3 q))) + unat (grow_size E (sizeof_sc_process E))"
      "unat (tmpfile_size (rt s3)) \<le> unat (getpagesize E) + unat (grow_size E (sizeof_sc_process E))"
    and more3: "act3 \<noteq> []" "length fre \<le> length fre'" "priv s3 = priv s" "laid s [a] \<longrightarrow> laid s3 ([a] @ act3)" by (rule init_founds)
  from F s(1,4,6) wf3 pg room tr lq sz obtain p2 n2 s4 act4 fre4 where
    ple: "scInit_setup_procListEntry E s3 = (Inr 0, unlock_exclusive LRoot (upd_rt (\<lambda>c. c\<lparr>prealloc_proc := p2\<rparr>)
       (lock_exclusive LRoot (put_proc p2 \<lparr>p_next = 0, p_state = SUBCONTEXTS_PROC_STATE_PREALLOC, p_pid = 0\<rparr> (lock_init (LProc p2) s4)))))"
    and p2: "p2 \<noteq> 0" "p2 \<noteq> p1" "sizeof_sc_process E \<le> n2" and inv4: "alloc_inv E s4 {#(p1, n1), (p2, n2)#}" and K: "keeps s3 s4"
    and wf4: "region_wf E s4 (([a] @ act3) @ act4) (q # rsv) fre4"
    and cov4: "covers s3 (([a] @ act3) @ q # rsv) s4 ((([a] @ act3) @ act4) @ q # rsv)"
    and a4: "\<forall>r \<in> set ([a] @ act3). region_range (regs s4) r = region_range (regs s3) r"
    and gr4: "grown (regs s3) ([a] @ act3) (q # rsv) (regs s4) (([a] @ act3) @ act4) (q # rsv)"
    and more4: "Suc (length fre') \<le> length fre4" "unat (tmpfile_size (rt s4)) \<le> unat (tmpfile_size (rt s3)) + unat (grow_size E (sizeof_sc_process E))"
      "laid s3 ([a] @ act3) \<longrightarrow> laid s4 (([a] @ act3) @ act4)"
    by (rule founded_prealloc)
  let ?act = "([a] @ act3) @ act4"
  define s5 where "s5 = unlock_exclusive LRoot (upd_rt (\<lambda>c. c\<lparr>prealloc_proc := p2\<rparr>) (lock_exclusive LRoot
     (put_proc p2 \<lparr>p_next = 0, p_state = SUBCONTEXTS_PROC_STATE_PREALLOC, p_pid = 0\<rparr> (lock_init (LProc p2) s4))))"
  define s6 where "s6 = upd_local (\<lambda>l. l\<lparr>l_tid := os_child_tid B\<rparr>) (s5\<lparr>vmap := thread_vm E (vmap s)\<rparr>)"
  have "rt_rest (rt s4) = rt_rest ((rt s)\<lparr>proc_count := 1, proc_list := p1, descriptive_name := 0, user_root := 0\<rparr>)"
    using F K by (simp add: founded_def keeps_def)
  then have rt6: "magic (rt s6) = SUBCONTEXTS_ROOT_MAGIC" "cleanupLog (rt s6) = 0" "pending_reservation (rt s6) = 0"
    "cleanupLog_tail (rt s6) = 0" "cleanupLog_lastSeqNum (rt s6) = 1" "active_regions (rt s6) = active_regions (rt s)" "proc_list (rt s6) = p1"
    "proc_count (rt s6) = 1" "prealloc_proc (rt s6) = p2"
    by (auto elim!: rt_rest_eqE simp: s6_def s5_def s first_root_def zero_sc_def)
  have o6: "vmap s6 = thread_vm E (vmap s)" "root_addr s6 = page" "pid s6 = pid s" "regs s6 = regs s4" "heldX (lk s6) LRoot = 0"
    "my_local s6 = Some (fresh_local page fd (os_child_tid B))" "map l_sc (locals s6) = page # map l_sc (locals s)"
    "procs s6 = [p1 \<mapsto> \<lparr>p_next = 0, p_state = SUBCONTEXTS_PROC_STATE_ALIVE, p_pid = pid s\<rparr>,
       p2 \<mapsto> \<lparr>p_next = 0, p_state = SUBCONTEXTS_PROC_STATE_PREALLOC, p_pid = 0\<rparr>]"
    using F K s(4,6)
    by (simp_all add: s6_def s5_def founded_def keeps_def put_proc_def upd_local_def fresh_local_def my_local_def heldX_append)
  have "vmap s5 = vmap s" using F K by (simp add: s5_def founded_def keeps_def put_proc_def)
  then have run6: "init_process E B fd page s = (Inr page, s6)"
    using run ple backgroundThread_ok [of E B s5] th(1) by (simp add: init_rest_def s5_def [symmetric] s6_def)
  have core6: "region_core E s6 ?act (q # rsv) fre4" using wf4 region_core_cong [of s6 s4] by (simp add: s6_def s5_def region_wf_def)
  have wf6: "region_wf E s6 ?act (q # rsv) fre4" using wf4 core6 by (simp add: region_wf_def region_files_def s6_def s5_def)
  have inv6: "alloc_inv E s6 {#(p1, n1), (p2, n2)#}" using inv4 alloc_inv_rt [of s6 s4] by (simp add: s6_def s5_def)
  have "covers s ([a] @ q # rsv) s6 (?act @ q # rsv)" using covers_trans [OF cov3 cov4] by (simp add: covers_def o6)
  from all_mapped_covers [OF this mp] have mp6: "all_mapped s6 (?act @ q # rsv) (vmap s6)"
    by (rule all_mapped_mono) (simp add: o6 thread_vm_keeps del: not_None_eq)
  note gr = grown_trans [OF gr3 gr4]
  have see6: "sees fd (regs s6) ?act (q # rsv) (vmap s6)" "sealed (regs s6) (q # rsv)"
    using sees_extends [OF sees_grown [OF gr see(1)] th(2)] sealed_grown [OF gr see(2)] by (simp_all add: o6)
  have "active_regions (rt s) = a" using wf by (simp add: region_wf_def region_core_def region_lists_def)
  then have first: "region_range (regs s6) (active_regions (rt s6)) = (page, getpagesize E)" using a a3 a4 by (simp add: rt6 o6)
  have off: "r_tmpfile_offset (the (regs s6 (active_regions (rt s6)))) = 0"
  proof -
    have "map_option unlinked (regs s6 a) = Some (unlinked ra)" using gr see(3) by (simp add: grown_def o6)
    then obtain r where "regs s6 a = Some r" "unlinked r = unlinked ra" by auto
    then show ?thesis using see(4) unlinked_fields(4) [of r ra] \<open>active_regions (rt s) = a\<close> by (simp add: rt6)
  qed
  have "p1 \<noteq> 0" "sizeof_sc_process E \<le> n1" using F by (simp_all add: founded_def)
  then have "proc_chain s6 [p1]" using p2 by (simp add: proc_chain_def proc_next_def rt6 o6)
  then have "subcontext_ok E s6 [p1] {#(p1, n1), (p2, n2)#}"
    unfolding subcontext_ok_def using inv6 wf6 mp6 first rt6 o6
    by (intro conjI exI [of _ ?act] exI [of _ "q # rsv"] exI [of _ fre4]) simp_all
  moreover have "root_dest E (rt s6) = page" using rd rt6(6) by (simp add: root_dest_def s)
  moreover have "laid s6 ?act"
    using more3(4) more4(3) see(5) laid_cong [of s6 s4 ?act] by (simp add: o6 s6_def s5_def)
  ultimately have "initialised E fd (os_child_tid B) page (pid s) s6" unfolding initialised_def
    using p2 rt6 o6 \<open>sizeof_sc_process E \<le> n1\<close> core6 see6 off by (intro exI [of _ p1] exI [of _ p2] exI [of _ n1] exI [of _ n2]) auto
  moreover have "roomy E (length fre + 5) vm (priv s) s6"
  proof -
    have "priv s6 = priv s" using K more3(3) by (simp add: s6_def s5_def keeps_def put_proc_def upd_local_def)
    moreover have "unat (tmpfile_size (rt s6)) \<le> unat (getpagesize E) + 2 * unat (grow_size E (sizeof_sc_process E))"
      using room(2) more4(2) by (simp add: s6_def s5_def)
    moreover have "2 \<le> length ?act" using more3(1) by (cases act3) simp_all
    moreover have "length fre + 5 \<le> length fre4 + 4" using more3(2) more4(1) by simp
    moreover have "vm x = None" if p: "p \<in> set (?act @ q # rsv)" and x: "in_block x (region_range (regs s6) p)" for p x
    proof (cases "p = a")
      case True
      then show ?thesis using vm(1) a a3 a4 x by (simp add: o6)
    next
      case False
      then obtain p' where "p' \<in> set (q # rsv)" "inside (region_range (regs s6) p) (region_range (regs s) p')"
        using gr p unfolding grown_def o6 by (metis DiffI Un_iff empty_iff list.set(1) set_ConsD set_append)
      then show ?thesis using vm(2) x in_block_inside by blast
    qed
    ultimately show ?thesis unfolding roomy_def using wf6 by blast
  qed
  ultimately show ?thesis using run6 o6(1,3,7) by (intro exI [of _ s6]) simp
qed

lemma sc_init_roomy:
  assumes "file_len s = 0" and gr: "init_granted E B fd (vmap s)"
    and lay: "layout_ok E B" "5 \<le> first_count E B"
    and K: "kernel_ok E" "page_ok E" "unat (getpagesize E) dvd 2 ^ 20" "lock_query_ok E"
    and sz: "0 < sint (sizeof_sc_process E)" "2 * unat (grow_size E (sizeof_sc_process E)) < 2 ^ 20"
  shows "\<exists>page s'. sc_init E B fd s = (Inr page, s') \<and> page \<noteq> 0 \<and> initialised E fd (os_child_tid B) page (pid s) s' \<and>
     pid s' = pid s \<and> map l_sc (locals s') = page # map l_sc (locals s) \<and> roomy E (first_count E B) (vmap s) (priv s) s' \<and>
     vmap s' = init_vm E fd (vmap s)"
proof -
  let ?q = "anon_req 0 reserved_len PROT_NONE MAP_NORESERVE" and ?n = "first_count E B"
  define page where "page = os_mmap E (vmap s) (root_req E 0 fd)"
  define vm1 where "vm1 = vm_map (vmap s) page (root_req E 0 fd)"
  define a where "a = os_mmap E vm1 ?q"
  have g: "page \<noteq> MAP_FAILED" "a \<noteq> MAP_FAILED" "thread_ok E B (vm_map vm1 a ?q)" "os_fstat B fd" "malloc_ok B"
    and tr: "\<And>n. unat n \<le> unat (getpagesize E) + 2 ^ 20 \<Longrightarrow> os_ftruncate E fd n"
    using gr by (auto simp: init_granted_def Let_def page_def vm1_def a_def)
  have "q_flags (root_req E 0 fd) AND MAP_FIXED = 0" by (simp add: mman_defs)
  then have page: "page \<noteq> 0" "fits (page, getpagesize E)" "unat (getpagesize E) dvd unat page"
    using K(1) g(1) unfolding kernel_ok_def page_def by (metis root_req_simps(1))+
  have vm1: "vm1 x \<noteq> None" if "in_block x (page, getpagesize E)" for x using that by (simp add: vm1_def vm_map_def)
  have fresh: "vm1 x = None" if "in_block x (a, reserved_len)" for x
    using K(1) g(2) that unfolding kernel_ok_def a_def by (force simp: anon_req_def mman_defs)
  define s0 where "s0 = s\<lparr>file_len := getpagesize E, vmap := vm1, curSc := page\<rparr>"
  obtain s1 where s1: "init_root E B page ?n (new_subcontext B page ?n s0) = (Inr (), s1)" "rt s1 = first_root E B page"
    "\<And>i. i < ?n \<Longrightarrow> regs s1 (region_at B page i) = Some (first_region E B page a i)"
    "vmap s1 = vm_map (vmap s0) a ?q" "mem s1 = (\<lambda>_. 0)" "freeList s1 = 0"
    "locals s1 = locals s0" "root_addr s1 = page" "procs s1 = Map.empty" "steps s1 = Map.empty" "pid s1 = pid s0"
    "file_len s1 = file_len s0" "heldX (lk s1) LRoot = 0" "heldX (lk s1) LMalloc = 0" "priv s1 = priv s0"
    by (rule init_root_ok [OF lay(1) page(2) refl, of s0 a]) (use g(2) in \<open>auto simp: s0_def a_def\<close>)
  have wf: "region_wf E s1 [region_at B page 0] [region_at B page 1] (map (region_at B page) [2..<?n])"
    by (rule init_root_wf [OF lay(1) K(1-3) page vm1 a_def [symmetric] g(2) s1(2,3)])
  have up: "[2..<?n] = 2 # 3 # 4 # [5..<?n]" using lay(2) by (simp add: upt_conv_Cons)
  have r: "regs s1 (region_at B page 0) = Some (first_region E B page a 0)"
    "regs s1 (region_at B page 1) = Some (first_region E B page a 1)" using s1(3) lay(2) by auto
  have run: "sc_init E B fd s = init_process E B fd page s1"
  proof -
    have pg: "os_ftruncate E fd (getpagesize E)" using tr by simp
    have "sizeof_firstPage B \<le> getpagesize E" using lay(1) by (simp add: layout_ok_def)
    moreover have "new_subcontext B page ?n (s\<lparr>file_len := getpagesize E, vmap := vm1\<rparr>)\<lparr>curSc := page\<rparr> = new_subcontext B page ?n s0"
      by (simp add: s0_def new_subcontext_def)
    ultimately show ?thesis
      unfolding sc_init_def using assms(1) g s1(1) pg lay(2) regions_count_eq [OF lay(1) page(2)]
      by (simp add: sys_mmap_def Let_def page_def [symmetric] vm1_def [symmetric])
  qed
  have "\<exists>s'. init_process E B fd page s1 = (Inr page, s') \<and> initialised E fd (os_child_tid B) page (pid s1) s' \<and>
     pid s' = pid s1 \<and> map l_sc (locals s') = page # map l_sc (locals s1) \<and>
     roomy E (length (map (region_at B page) [5..<?n]) + 5) (vmap s) (priv s1) s' \<and> vmap s' = thread_vm E (vmap s1)"
  proof (rule init_process_ok [OF _ K(2) s1(2,5,6,8,9,13) _ _ tr K(4) sz])
    show "region_wf E s1 [region_at B page 0] (region_at B page 1 # [])
       (region_at B page 2 # region_at B page 3 # region_at B page 4 # map (region_at B page) [5..<?n])"
      using wf up by simp
    show "r_len (the (regs s1 (region_at B page 1))) = reserved_len" using r by (simp add: first_region_def)
    show "region_range (regs s1) (region_at B page 0) = (page, getpagesize E)" using r by (simp add: region_range_def first_region_def)
    show th: "thread_ok E B (vmap s1)" using g(3) s1(4) by (simp add: s0_def)
    have "unat (getpagesize E) \<le> 2 ^ 20" using K(3) by (rule dvd_imp_le) simp
    from thread_vm_extends [OF K(1) this th] show "extends (vmap s1) (thread_vm E (vmap s1))" .
    show "regs s1 (region_at B page 0) = Some (first_region E B page a 0)" "r_tmpfile_offset (first_region E B page a 0) = 0"
      "laid s1 [region_at B page 0]"
      using r by (simp_all add: first_region_def laid_def file_block_def s1(2) first_root_def)
    show "sealed (regs s1) [region_at B page 1]" using r by (simp add: sealed_def first_region_def)
    from fresh show "sees fd (regs s1) [region_at B page 0] [region_at B page 1] (vmap s1)"
      using r vm1 unfolding sees_def
      by (auto simp: s1(4) s0_def region_range_def first_region_def stands_for_def inert_def vm_map_def vm1_def
          root_req_def anon_req_def mman_defs)
    show "all_mapped s1 ([region_at B page 0] @ [region_at B page 1]) (vmap s1)"
      using r vm1 by (auto simp: all_mapped_def s1(4) s0_def region_range_def first_region_def vm_map_def)
    show "root_dest E (first_root E B page) = page" by (rule root_dest_first [OF lay(1) K(1) page(2,3)])
    have new: "vmap s x = None" if "in_block x (page, getpagesize E)" for x
      using K(1) g(1) that unfolding kernel_ok_def page_def by (force simp: root_req_def mman_defs)
    then show "vmap s x = None" if "in_block x (page, getpagesize E)" for x using that .
    show "vmap s x = None" if "p \<in> set [region_at B page 1]" "in_block x (region_range (regs s1) p)" for p x
      using that r fresh [of x] by (auto simp: region_range_def first_region_def vm1_def vm_map_def split: if_splits)
  qed
  moreover have "init_vm E fd (vmap s) = thread_vm E (vmap s1)"
    by (simp add: init_vm_def Let_def page_def [symmetric] vm1_def [symmetric] a_def [symmetric] s1(4) s0_def)
  ultimately show ?thesis using run page(1) s1(7,11,15) lay(2) by (auto simp: s0_def)
qed

lemma sc_init_ok:
  assumes "file_len s = 0" and "init_granted E B fd (vmap s)" and "layout_ok E B" and "5 \<le> first_count E B"
    and "kernel_ok E" and "page_ok E" and "unat (getpagesize E) dvd 2 ^ 20" and "lock_query_ok E"
    and "0 < sint (sizeof_sc_process E)" and "2 * unat (grow_size E (sizeof_sc_process E)) < 2 ^ 20"
  shows "\<exists>page s'. sc_init E B fd s = (Inr page, s') \<and> page \<noteq> 0 \<and> initialised E fd (os_child_tid B) page (pid s) s' \<and>
     pid s' = pid s \<and> map l_sc (locals s') = page # map l_sc (locals s)"
  using sc_init_roomy [OF assms] by (elim exE conjE) (intro exI conjI; assumption)

section \<open>Mapping the lists\<close>

lemma join_req_len [simp]: "q_len (join_req fd i r) = r_len r"
  by (simp add: join_req_def)

lemma join_vm_keeps: "vm x \<noteq> None \<Longrightarrow> join_vm fd i vm rs x \<noteq> None"
  by (induction rs arbitrary: vm) (simp_all add: vm_map_keeps del: not_None_eq)

lemma join_vm_outside: "(\<And>r. r \<in> set rs \<Longrightarrow> \<not> in_block x (r_vaddr r, r_len r)) \<Longrightarrow> join_vm fd i vm rs x = vm x"
  by (induction rs arbitrary: vm) (auto simp: vm_map_def)

lemma join_vm_at:
  assumes "apart_all (mset (map (\<lambda>r. (r_vaddr r, r_len r)) rs))" and "r \<in> set rs" and "in_block x (r_vaddr r, r_len r)"
  shows "join_vm fd i vm rs x = vm_map vm (r_vaddr r) (join_req fd i r) x"
  using assms
proof (induction rs arbitrary: vm)
  case (Cons c cs)
  have tl: "apart_all (mset (map (\<lambda>r. (r_vaddr r, r_len r)) cs))"
    and hd: "\<And>d. d \<in> set cs \<Longrightarrow> apart (r_vaddr c, r_len c) (r_vaddr d, r_len d)" using Cons.prems(1) by auto
  show ?case
  proof (cases "r \<in> set cs")
    case True
    from Cons.IH [OF tl True Cons.prems(3)] show ?thesis
      using Cons.prems(3) by (simp add: vm_map_def)
  next
    case False
    with Cons.prems(2) have "r = c" by simp
    moreover have "\<not> in_block x (r_vaddr d, r_len d)" if "d \<in> set cs" for d
      using hd [OF that] Cons.prems(3) \<open>r = c\<close> in_block_unique by blast
    ultimately show ?thesis using join_vm_outside [of cs x] by simp
  qed
qed simp

lemma shift_cong: "shift tr dx ds \<Longrightarrow> (\<And>l. dx l = dx' l) \<Longrightarrow> (\<And>l. ds l = ds' l) \<Longrightarrow> shift tr dx' ds'"
  by (simp add: shift_def)

lemma join_walk_ok:
  assumes "chain (region_next (regs s)) cur ps 0" and "set ps \<subseteq> dom (regs s)" and "walk_asserts E s i ps"
    and "join_granted E fd i (vmap s) (map (\<lambda>p. the (regs s p)) ps)"
  shows "\<exists>tr. join_walk E fd i cur s = Some (Inr True, s\<lparr>vmap := join_vm fd i (vmap s) (map (\<lambda>p. the (regs s p)) ps), lk := lk s @ tr\<rparr>) \<and>
     shift tr (\<lambda>_. 0) (\<lambda>l. if ps \<noteq> [] \<and> l = LRegion cur then - 1 else 0)"
  using assms
proof (induction ps arbitrary: s cur)
  case Nil
  have "join_walk E fd i 0 s = Some (Inr True, s)" by (subst join_walk.simps) simp
  with Nil show ?case by (intro exI [of _ "[]"]) (simp add: shift_def)
next
  case (Cons p ps)
  then obtain r where r: "regs s p = Some r" by auto
  have c: "cur = p" "p \<noteq> 0" "chain (region_next (regs s)) (r_next r) ps 0"
    using Cons.prems(1) r by (auto simp: region_next_at)
  let ?vm = "vm_map (vmap s) (r_vaddr r) (join_req fd i r)"
  let ?ev = "(if r_next r \<noteq> 0 then [LkShared (LRegion (r_next r))] else []) @ [UnShared (LRegion p)]"
  let ?s = "s\<lparr>vmap := ?vm, lk := lk s @ ?ev\<rparr>"
  have g: "r_vaddr r \<noteq> MAP_FAILED" "os_mmap E (vmap s) (join_req fd i r) = r_vaddr r"
    "join_granted E fd i ?vm (map (\<lambda>p. the (regs s p)) ps)" using Cons.prems(4) r by auto
  have a: "first_failed (join_asserts E (rt s) i r) = None" "walk_asserts E ?s i ps"
    using Cons.prems(3) r by (auto simp: walk_asserts_def)
  have step: "join_walk E fd i cur s = join_walk E fd i (r_next r) ?s"
    using c r g(1,2) a(1) by (subst join_walk.simps) (auto simp: guard_def sys_mmap_def Let_def log_lock_def)
  have "chain (region_next (regs ?s)) (r_next r) ps 0" "set ps \<subseteq> dom (regs ?s)"
    "join_granted E fd i (vmap ?s) (map (\<lambda>p. the (regs ?s p)) ps)" using c Cons.prems(2) g(3) by auto
  from Cons.IH [OF this(1,2) a(2) this(3)] obtain tr where
    IH: "join_walk E fd i (r_next r) ?s = Some (Inr True, ?s\<lparr>vmap := join_vm fd i ?vm (map (\<lambda>p. the (regs s p)) ps), lk := lk ?s @ tr\<rparr>)"
    and sh: "shift tr (\<lambda>_. 0) (\<lambda>l. if ps \<noteq> [] \<and> l = LRegion (r_next r) then - 1 else 0)" by auto
  have nx: "r_next r \<noteq> 0 \<longleftrightarrow> ps \<noteq> []" using c(3) by (cases ps) auto
  have ev: "shift ?ev (\<lambda>_. 0) (\<lambda>l. (if ps \<noteq> [] \<and> l = LRegion (r_next r) then 1 else 0) + (if l = LRegion p then - 1 else 0))"
    using nx by (auto simp: shift_def lock_simps)
  have "shift (?ev @ tr) (\<lambda>_. 0) (\<lambda>l. if p # ps \<noteq> [] \<and> l = LRegion cur then - 1 else 0)"
    by (rule shift_cong [OF shift_append [OF ev sh]]) (use c(1) in auto)
  moreover have "join_walk E fd i cur s = Some (Inr True, s\<lparr>vmap := join_vm fd i (vmap s) (map (\<lambda>p. the (regs s p)) (p # ps)), lk := lk s @ (?ev @ tr)\<rparr>)"
    using step IH r by simp
  ultimately show ?case by blast
qed

lemma ucast_prot: "(ucast (x :: u8) :: u32) = PROT_NONE \<longleftrightarrow> x = 0"
  unfolding PROT_NONE_def by transfer (simp add: take_bit_take_bit)

lemma files_asserts:
  assumes "region_files E s act rsv"
  shows "walk_asserts E s 0 act" "walk_asserts E s 1 rsv"
proof -
  show "walk_asserts E s 1 rsv"
    using assms by (auto simp: walk_asserts_def region_files_def list_all_iff reserved_ok_def join_asserts_def)
  show "walk_asserts E s 0 act"
    unfolding walk_asserts_def
  proof
    fix p assume p: "p \<in> set act"
    let ?r = "the (regs s p)"
    have ok: "active_file_ok E (tmpfile_size (rt s)) ?r" using assms p by (simp add: region_files_def list_all_iff)
    show "first_failed (join_asserts E (rt s) 0 ?r) = None"
    proof (cases "r_prot ?r = 0")
      case True
      with ok show ?thesis by (simp add: active_file_ok_def join_asserts_def ucast_prot PROT_NONE_def)
    next
      case False
      with ok have u: "unat (r_tmpfile_offset ?r) + unat (r_len ?r) \<le> unat (tmpfile_size (rt s))"
        "unat (getpagesize E) dvd unat (r_tmpfile_offset ?r)" by (auto simp: active_file_ok_def)
      then have "unat (r_tmpfile_offset ?r + r_len ?r) = unat (r_tmpfile_offset ?r) + unat (r_len ?r)"
        using u64_bound [of "tmpfile_size (rt s)"] by (simp add: unat_word_ariths)
      with u False show ?thesis by (simp add: join_asserts_def ucast_prot word_le_nat_alt word_mod_dvd)
    qed
  qed
qed

lemma join_maps_ok:
  assumes wf: "region_wf E s (a # b # act) (q # rsv) fre"
    and g0: "join_granted E fd 0 (vmap s) (map (\<lambda>p. the (regs s p)) (b # act))"
    and g1: "join_granted E fd 1 (join_vm fd 0 (vmap s) (map (\<lambda>p. the (regs s p)) (b # act))) (map (\<lambda>p. the (regs s p)) (q # rsv))"
  shows "\<exists>tr. join_maps E fd s = (Inr True, s\<lparr>vmap := join_vm fd 1 (join_vm fd 0 (vmap s) (map (\<lambda>p. the (regs s p)) (b # act)))
       (map (\<lambda>p. the (regs s p)) (q # rsv)), lk := lk s @ tr\<rparr>) \<and> shift tr (\<lambda>_. 0) (\<lambda>l. if l = LRoot then - 1 else 0)"
proof -
  let ?f = "\<lambda>p. the (regs s p)"
  let ?v0 = "join_vm fd 0 (vmap s) (map ?f (b # act))"
  let ?v1 = "join_vm fd 1 ?v0 (map ?f (q # rsv))"
  have lists: "region_lists s (a # b # act) (q # rsv) fre" and files: "region_files E s (a # b # act) (q # rsv)"
    using wf by (auto simp: region_wf_def region_core_def)
  then obtain A B Q where r: "regs s a = Some A" "regs s b = Some B" "regs s q = Some Q" by (auto simp: region_lists_def)
  have c: "active_regions (rt s) = a" "r_next A = b" "reserved_regions (rt s) = q" "b \<noteq> 0" "q \<noteq> 0"
    "chain (region_next (regs s)) b (b # act) 0" "chain (region_next (regs s)) q (q # rsv) 0"
    "set (b # act) \<subseteq> dom (regs s)" "set (q # rsv) \<subseteq> dom (regs s)"
    using lists r by (auto simp: region_lists_def region_next_at)
  let ?ev = "[LkShared (LRegion a), LkShared (LRegion b), LkShared (LRegion q), UnShared (LRegion a), UnShared LRoot]"
  define s1 where "s1 = s\<lparr>lk := lk s @ ?ev\<rparr>"
  have wa: "walk_asserts E s1 0 (b # act)" using files_asserts(1) [OF files] by (simp add: walk_asserts_def s1_def)
  have "join_granted E fd 0 (vmap s1) (map (\<lambda>p. the (regs s1 p)) (b # act))" using g0 by (simp add: s1_def)
  moreover have "chain (region_next (regs s1)) b (b # act) 0" "set (b # act) \<subseteq> dom (regs s1)" using c(6,8) by (simp_all add: s1_def)
  ultimately obtain t0 where w0: "join_walk E fd 0 b s1 = Some (Inr True, s1\<lparr>vmap := ?v0, lk := lk s1 @ t0\<rparr>)"
    and sh0: "shift t0 (\<lambda>_. 0) (\<lambda>l. if l = LRegion b then - 1 else 0)"
    using join_walk_ok [of s1 b "b # act" E 0 fd] wa by (auto simp: s1_def)
  define s2 where "s2 = s1\<lparr>vmap := ?v0, lk := lk s1 @ t0\<rparr>"
  have "walk_asserts E s2 1 (q # rsv)" using files_asserts(2) [OF files] by (simp add: walk_asserts_def s2_def s1_def)
  moreover have "join_granted E fd 1 (vmap s2) (map (\<lambda>p. the (regs s2 p)) (q # rsv))" using g1 by (simp add: s2_def s1_def)
  moreover have "chain (region_next (regs s2)) q (q # rsv) 0" "set (q # rsv) \<subseteq> dom (regs s2)" using c(7,9) by (simp_all add: s2_def s1_def)
  ultimately obtain t1 where w1: "join_walk E fd 1 q s2 = Some (Inr True, s2\<lparr>vmap := ?v1, lk := lk s2 @ t1\<rparr>)"
    and sh1: "shift t1 (\<lambda>_. 0) (\<lambda>l. if l = LRegion q then - 1 else 0)"
    using join_walk_ok [of s2 q "q # rsv" E 1 fd] by (auto simp: s2_def s1_def)
  have ev: "shift ?ev (\<lambda>_. 0) (\<lambda>l. (if l = LRegion b then 1 else 0) + (if l = LRegion q then 1 else 0) + (if l = LRoot then - 1 else 0))"
    by (auto simp: shift_def lock_simps)
  have "shift ((?ev @ t0) @ t1) (\<lambda>_. 0) (\<lambda>l. if l = LRoot then - 1 else 0)"
    by (rule shift_cong [OF shift_append [OF shift_append [OF ev sh0] sh1]]) auto
  moreover have "join_maps E fd s = (Inr True, s\<lparr>vmap := ?v1, lk := lk s @ ((?ev @ t0) @ t1)\<rparr>)"
    using c r w0 w1 by (simp add: join_maps_def Let_def s1_def s2_def log_lock_def)
  ultimately show ?thesis by blast
qed

section \<open>Allocating before the process is on the local list\<close>

lemma sc_mmap_nolocal:
  assumes "sc_mmap E addr n prot flags fd off s = (Inr p, s')" and "my_local s = None"
  shows "p = MAP_FAILED"
proof -
  from guard_InrD [OF assms(1) [unfolded sc_mmap_def]] have "sc_mmap_body E n prot s = (Inr p, s')" by blast
  with assms(2) show ?thesis by (simp add: sc_mmap_body_def lookupScLocal_eq my_local_def)
qed

lemma sc_malloc_nolocal:
  assumes run: "sc_malloc E sz s = (Inr p, s')" and p: "p \<noteq> 0" and l: "my_local s = None"
  shows "regs s' = regs s" "rt s' = rt s"
proof -
  let ?s = "lock_exclusive LMalloc s" and ?sp = "malloc_split_size (malloc_alloc_size sz)"
  from guard_InrD [OF run [unfolded sc_malloc_def]] obtain pv a where
    r: "(if a = 0 then call (malloc_grow E ?sp) (\<lambda>buf s.
          if buf = 0 then (Inr 0, unlock_exclusive LMalloc s)
          else malloc_carve (malloc_alloc_size sz) ?sp FreeListHead buf s) ?s
      else malloc_carve (malloc_alloc_size sz) ?sp pv a ?s) = (Inr p, s')"
    by (auto simp: Let_def loops_def split: if_splits option.splits)
  have "a \<noteq> 0"
  proof
    assume "a = 0"
    with r obtain buf s2 where grow: "malloc_grow E ?sp ?s = (Inr buf, s2)"
      and rest: "(if buf = 0 then (Inr 0, unlock_exclusive LMalloc s2)
          else malloc_carve (malloc_alloc_size sz) ?sp FreeListHead buf s2) = (Inr p, s')" by (auto elim: call_InrE)
    have "buf = 0" using grow sc_mmap_nolocal [where s = ?s] l unfolding malloc_grow_def Let_def
      by (elim call_InrE) (auto split: if_splits)
    with rest p show False by simp
  qed
  with r have "malloc_carve (malloc_alloc_size sz) ?sp pv a ?s = (Inr p, s')" by simp
  from malloc_carve_mem [OF this] show "regs s' = regs s" "rt s' = rt s" by (auto simp: mem_only_def)
qed

section \<open>The steps of a join\<close>

lemma join_root_ok:
  assumes "malloc_ok B" "magic (rt s) = SUBCONTEXTS_ROOT_MAGIC" "root_granted E fd (vmap s) (root_dest E (rt s))"
    "\<forall>l \<in> set (locals s). l_sc l \<noteq> root_dest E (rt s)"
  shows "join_root E B fd s = (True, s\<lparr>vmap := root_vm E fd (vmap s) (root_dest E (rt s)),
     lk := lk s @ [LkShared LRoot, LkShared LLocalList, UnShared LLocalList]\<rparr>)"
proof -
  have "find (\<lambda>l. l_sc l = root_dest E (rt s)) (locals s) = None" using assms(4) by (simp add: find_None_iff)
  with assms(1-3) show ?thesis
    by (simp add: join_root_def root_granted_def root_vm_def Let_def sys_mmap_def lookupScLocal_eq sys_munmap_def log_lock_def cong: if_cong)
qed

lemma join_take_proc_ok:
  assumes "prealloc_proc (rt s) \<noteq> 0"
  shows "join_take_proc s = (prealloc_proc (rt s), s\<lparr>rt := (rt s)\<lparr>prealloc_proc := 0\<rparr>,
     lk := lk s @ [UnShared LRoot, LkExcl LRoot, Downgrade LRoot]\<rparr>)"
  using assms by (simp add: join_take_proc_def Let_def log_lock_def upd_rt_def)

lemma join_record_ok:
  assumes "procs s p = Some pr" "pending_reservation (rt s) = 0"
  shows "join_record p s = (Inr (cleanupLog_lastSeqNum (rt s)),
     s\<lparr>procs := (procs s)(p \<mapsto> pr\<lparr>p_state := SUBCONTEXTS_PROC_STATE_ALIVE, p_pid := pid s, p_next := proc_list (rt s)\<rparr>),
       rt := (rt s)\<lparr>proc_count := proc_count (rt s) + 1, proc_list := p\<rparr>, lk := lk s @ [LkExcl LRoot, UnExcl LRoot]\<rparr>)"
  using assms by (simp add: join_record_def Let_def log_lock_def upd_rt_def put_proc_def proc_set_next_def)

lemma handlers_ok_eq:
  assumes "handlers_ok E B (vmap s)"
  shows "sc_init_register_signal_handlers E B s = (0, s\<lparr>vmap := handlers_vm E (vmap s)\<rparr>)"
  using assms by (simp add: handlers_ok_def sc_init_register_signal_handlers_def Let_def sys_mmap_def handlers_vm_def sig_req_def)

lemma sc_mmap_heldS:
  assumes "sc_mmap E addr n prot flags fd off s = (Inr p, s')"
  shows "heldS (lk s') LRoot = heldS (lk s) LRoot"
proof -
  from guard_InrD [OF assms [unfolded sc_mmap_def]] have "sc_mmap_body E n prot s = (Inr p, s')" by blast
  then show ?thesis
    by (auto simp: sc_mmap_body_def lookupScLocal_eq Let_def sys_ftruncate_def sc_mmap_carve_def deref_def lock_simps
        split: option.splits if_splits elim!: call_InrE dest!: getFreeRegion_InrD)
qed

lemma sc_malloc_heldS:
  assumes run: "sc_malloc E sz s = (Inr p, s')"
  shows "heldS (lk s') LRoot = heldS (lk s) LRoot"
proof -
  let ?s = "lock_exclusive LMalloc s" and ?sp = "malloc_split_size (malloc_alloc_size sz)"
  from guard_InrD [OF run [unfolded sc_malloc_def]] obtain pv a where
    r: "(if a = 0 then call (malloc_grow E ?sp) (\<lambda>buf s.
          if buf = 0 then (Inr 0, unlock_exclusive LMalloc s)
          else malloc_carve (malloc_alloc_size sz) ?sp FreeListHead buf s) ?s
      else malloc_carve (malloc_alloc_size sz) ?sp pv a ?s) = (Inr p, s')"
    by (auto simp: Let_def loops_def split: if_splits option.splits)
  have carve: "heldS (lk s') LRoot = heldS (lk t) LRoot" if "malloc_carve al sp pv a t = (Inr p, s')" for al sp pv a t
    using malloc_carve_mem [OF that] by (auto simp: mem_only_def lock_simps)
  show ?thesis
  proof (cases "a = 0")
    case False
    with r carve show ?thesis by (simp add: lock_simps)
  next
    case True
    with r obtain buf s2 where grow: "malloc_grow E ?sp ?s = (Inr buf, s2)"
      and rest: "(if buf = 0 then (Inr 0, unlock_exclusive LMalloc s2)
          else malloc_carve (malloc_alloc_size sz) ?sp FreeListHead buf s2) = (Inr p, s')" by (auto elim: call_InrE)
    have "heldS (lk s2) LRoot = heldS (lk ?s) LRoot"
      using grow unfolding malloc_grow_def Let_def
      by (elim call_InrE) (auto simp: set_mem_def dest!: sc_mmap_heldS split: if_splits)
    with rest carve show ?thesis by (cases "buf = 0") (auto simp: lock_simps)
  qed
qed

lemma join_until_alloc:
  assumes wf: "region_wf E s (a # b # act) (q # rsv) fre"
    and root: "root_dest E (rt s) = root_addr s" "magic (rt s) = SUBCONTEXTS_ROOT_MAGIC"
    and new: "\<forall>l \<in> set (locals s). l_sc l \<noteq> root_addr s"
    and pend: "pending_reservation (rt s) = 0"
    and pre: "prealloc_proc (rt s) \<noteq> 0" "procs s (prealloc_proc (rt s)) = Some pr"
    and calls: "join_calls_ok E B fd s (b # act) (q # rsv)"
  obtains s5 where "sc_join E B fd s = join_finish E B fd (root_addr s) (cleanupLog_lastSeqNum (rt s)) s5"
    "regs s5 = regs s" "mem s5 = mem s" "freeList s5 = freeList s" "steps s5 = steps s" "root_addr s5 = root_addr s" "locals s5 = locals s"
    "rt s5 = (rt s)\<lparr>prealloc_proc := 0, proc_count := proc_count (rt s) + 1, proc_list := prealloc_proc (rt s)\<rparr>"
    "procs s5 = (procs s)(prealloc_proc (rt s) \<mapsto> pr\<lparr>p_state := SUBCONTEXTS_PROC_STATE_ALIVE, p_pid := pid s, p_next := proc_list (rt s)\<rparr>)"
    "vmap s5 = handlers_vm E (join_space E fd s (b # act) (q # rsv))" "pid s5 = pid s"
    "heldX (lk s5) LRoot = heldX (lk s) LRoot" "heldS (lk s5) LRoot = heldS (lk s) LRoot"
proof -
  let ?p = "prealloc_proc (rt s)" and ?vm0 = "root_vm E fd (vmap s) (root_addr s)" and ?sp = "join_space E fd s (b # act) (q # rsv)"
  let ?f = "\<lambda>p. the (regs s p)"
  have G: "malloc_ok B" "root_granted E fd (vmap s) (root_addr s)" "join_granted E fd 0 ?vm0 (map ?f (b # act))"
    "join_granted E fd 1 (join_vm fd 0 ?vm0 (map ?f (b # act))) (map ?f (q # rsv))" "handlers_ok E B ?sp" "thread_ok E B (handlers_vm E ?sp)"
    using calls by (auto simp: join_calls_ok_def Let_def root)
  define s1 where "s1 = s\<lparr>vmap := ?vm0, lk := lk s @ [LkShared LRoot, LkShared LLocalList, UnShared LLocalList]\<rparr>"
  have j1: "join_root E B fd s = (True, s1)" using join_root_ok [of B s E fd] G root new by (simp add: s1_def)
  define s2 where "s2 = s\<lparr>vmap := ?vm0, rt := (rt s)\<lparr>prealloc_proc := 0\<rparr>,
     lk := lk s @ [LkShared LRoot, LkShared LLocalList, UnShared LLocalList, UnShared LRoot, LkExcl LRoot, Downgrade LRoot]\<rparr>"
  have j2: "join_take_proc s1 = (?p, s2)" using join_take_proc_ok [of s1] pre(1) by (simp add: s1_def s2_def)
  have wf2: "region_wf E s2 (a # b # act) (q # rsv) fre"
    using wf region_core_cong [of s2 s] by (simp add: region_wf_def region_files_def s2_def)
  from join_maps_ok [OF wf2, of fd] G(3,4) obtain tr where
    j3: "join_maps E fd s2 = (Inr True, s2\<lparr>vmap := ?sp, lk := lk s2 @ tr\<rparr>)"
    and sh: "shift tr (\<lambda>_. 0) (\<lambda>l. if l = LRoot then - 1 else 0)" by (auto simp: s2_def join_space_def root)
  define s3 where "s3 = s2\<lparr>vmap := ?sp, lk := lk s2 @ tr\<rparr>"
  let ?pr = "pr\<lparr>p_state := SUBCONTEXTS_PROC_STATE_ALIVE, p_pid := pid s, p_next := proc_list (rt s)\<rparr>"
  define s4 where "s4 = s3\<lparr>procs := (procs s)(?p \<mapsto> ?pr),
     rt := (rt s)\<lparr>prealloc_proc := 0, proc_count := proc_count (rt s) + 1, proc_list := ?p\<rparr>, lk := lk s3 @ [LkExcl LRoot, UnExcl LRoot]\<rparr>"
  have j4: "join_record ?p s3 = (Inr (cleanupLog_lastSeqNum (rt s)), s4)"
    using join_record_ok [of s3 ?p pr] pre(2) pend by (simp add: s3_def s2_def s4_def)
  define s5 where "s5 = s4\<lparr>vmap := handlers_vm E ?sp\<rparr>"
  have j5: "sc_init_register_signal_handlers E B s4 = (0, s5)"
    using handlers_ok_eq [of E B s4] G(5) by (simp add: s5_def s4_def s3_def)
  have S5: "regs s5 = regs s" "mem s5 = mem s" "freeList s5 = freeList s" "steps s5 = steps s" "root_addr s5 = root_addr s" "locals s5 = locals s"
    "rt s5 = (rt s)\<lparr>prealloc_proc := 0, proc_count := proc_count (rt s) + 1, proc_list := ?p\<rparr>" "procs s5 = (procs s)(?p \<mapsto> ?pr)"
    "vmap s5 = handlers_vm E ?sp" "pid s5 = pid s" by (simp_all add: s5_def s4_def s3_def s2_def)
  have lk2: "heldX (lk s2) LRoot = heldX (lk s) LRoot" "heldS (lk s2) LRoot = heldS (lk s) LRoot + 1"
    by (simp_all add: s2_def lock_simps)
  have lk3: "heldX (lk s3) LRoot = heldX (lk s) LRoot" "heldS (lk s3) LRoot = heldS (lk s) LRoot"
    using sh lk2 by (simp_all add: s3_def shift_def)
  then have lk5: "heldX (lk s5) LRoot = heldX (lk s) LRoot" "heldS (lk s5) LRoot = heldS (lk s) LRoot"
    by (simp_all add: s5_def s4_def lock_simps)
  have rt1: "rt s1 = rt s" by (simp add: s1_def)
  have "sc_join E B fd s = join_finish E B fd (root_addr s) (cleanupLog_lastSeqNum (rt s)) s5"
    unfolding sc_join_def using j1 j2 j3 [folded s3_def] j4 j5 pre(1) rt1 root(1)
    by (simp add: Let_def)
  then show thesis by (rule that [OF _ S5 lk5])
qed

lemma sc_join_ok:
  assumes wf: "region_wf E s (a # b # act) (q # rsv) fre" and inv: "malloc_inv E s ns live R"
    and root: "root_dest E (rt s) = root_addr s" "magic (rt s) = SUBCONTEXTS_ROOT_MAGIC"
    and new: "\<forall>l \<in> set (locals s). l_sc l \<noteq> root_addr s"
    and pend: "pending_reservation (rt s) = 0" and pc: "proc_chain s ps"
    and pre: "prealloc_proc (rt s) \<noteq> 0" "prealloc_proc (rt s) \<notin> set ps" "procs s (prealloc_proc (rt s)) = Some pr"
    and bufs: "\<forall>x \<in> set (prealloc_proc (rt s) # ps). \<exists>n. n \<noteq> 0 \<and> (x, n) \<in># image_mset payload live"
    and fit: "\<exists>x \<in> set ns. malloc_fits (malloc_alloc_size (sizeof_sc_process E)) (malloc_alloc_size (sizeof_sc_process E) + 24) (mem s) x"
    and sz: "0 < sint (sizeof_sc_process E)"
    and calls: "join_calls_ok E B fd s (b # act) (q # rsv)"
  shows "\<exists>s'. sc_join E B fd s = (Inr (root_addr s), s') \<and> joined E B fd s ps (image_mset payload live) s' \<and>
     vmap s' = thread_vm E (handlers_vm E (join_space E fd s (b # act) (q # rsv)))"
proof -
  let ?p = "prealloc_proc (rt s)" and ?sp = "join_space E fd s (b # act) (q # rsv)" and ?L = "image_mset payload live"
  let ?pr = "pr\<lparr>p_state := SUBCONTEXTS_PROC_STATE_ALIVE, p_pid := pid s, p_next := proc_list (rt s)\<rparr>"
  obtain s5 where S5: "sc_join E B fd s = join_finish E B fd (root_addr s) (cleanupLog_lastSeqNum (rt s)) s5"
    "regs s5 = regs s" "mem s5 = mem s" "freeList s5 = freeList s" "steps s5 = steps s" "root_addr s5 = root_addr s" "locals s5 = locals s"
    "rt s5 = (rt s)\<lparr>prealloc_proc := 0, proc_count := proc_count (rt s) + 1, proc_list := ?p\<rparr>" "procs s5 = (procs s)(?p \<mapsto> ?pr)"
    "vmap s5 = handlers_vm E ?sp" "pid s5 = pid s"
    and lk5: "heldX (lk s5) LRoot = heldX (lk s) LRoot" "heldS (lk s5) LRoot = heldS (lk s) LRoot"
    by (rule join_until_alloc [OF wf root new pend pre(1,3) calls])
  have G: "thread_ok E B (handlers_vm E ?sp)" using calls by (auto simp: join_calls_ok_def Let_def)
  have inv5: "malloc_inv E s5 ns live R" using inv active_inv_rt [of s5 s] S5 by (simp add: malloc_inv_def)
  then have ai5: "alloc_inv E s5 ?L" by (auto simp: alloc_inv_def)
  have nl: "my_local s5 = None" using new S5 by (simp add: my_local_def find_None_iff)
  from sc_malloc_enough [OF inv5, of "sizeof_sc_process E"] sz fit S5(3) malloc_new_nonnull obtain p' s6 where
    m: "sc_malloc E (sizeof_sc_process E) s5 = (Inr p', s6)" "p' \<noteq> 0" by (metis less_imp_le)
  note nol = sc_malloc_nolocal [OF m nl] and ok = sc_heap.alloc_ok [OF ai5 m] and k = sc_malloc_keeps [OF m(1)]
  define s7 where "s7 = unlock_exclusive LRoot (upd_rt (\<lambda>c. c\<lparr>prealloc_proc := p'\<rparr>) (lock_exclusive LRoot
     (put_proc p' \<lparr>p_next = 0, p_state = SUBCONTEXTS_PROC_STATE_PREALLOC, p_pid = 0\<rparr> (lock_init (LProc p') s6))))"
  have j6: "scInit_setup_procListEntry E s5 = (Inr 0, s7)"
    unfolding s7_def by (rule procListEntry_eq [OF m]) (simp add: nol S5)
  have vm7: "vmap s7 = handlers_vm E ?sp" using k S5 by (simp add: s7_def put_proc_def keeps_def)
  define s8 where "s8 = s7\<lparr>vmap := thread_vm E (handlers_vm E ?sp)\<rparr>"
  have j7: "scInit_setup_backgroundThread E B s7 = (Inr (0, os_child_tid B), s8)"
    using backgroundThread_ok [of E B s7] G vm7 by (simp add: s8_def)
  let ?l = "join_local (root_addr s) fd (cleanupLog_lastSeqNum (rt s)) (os_child_tid B)"
  define s9 where "s9 = s8\<lparr>locals := ?l # locals s8, lk := lk s8 @ [LkExcl LLocalList, UnExcl LLocalList]\<rparr>"
  have run: "sc_join E B fd s = (Inr (root_addr s), s9)"
    unfolding S5(1) join_finish_def using j6 j7 by (simp add: Let_def s9_def join_local_def log_lock_def)
  have distinct_p: "p' \<notin> set (?p # ps)"
  proof
    assume "p' \<in> set (?p # ps)"
    with bufs obtain n where n: "n \<noteq> 0" "(p', n) \<in># ?L" by blast
    have "apart (p', usable s6 p') (p', n)" by (rule sc_heap.alloc_apart [OF ai5 m n(2)])
    moreover have "usable s6 p' \<noteq> 0" using ok sz by (auto simp: word_le_nat_alt unat_eq_zero)
    ultimately show False using n(1) by (auto simp: apart_def unat_eq_zero)
  qed
  have P9: "procs s9 = (procs s)(?p \<mapsto> ?pr, p' \<mapsto> \<lparr>p_next = 0, p_state = SUBCONTEXTS_PROC_STATE_PREALLOC, p_pid = 0\<rparr>)"
    using k S5 by (simp add: s9_def s8_def s7_def keeps_def)
  have R9: "rt s9 = (rt s)\<lparr>prealloc_proc := p', proc_count := proc_count (rt s) + 1, proc_list := ?p\<rparr>"
    by (simp add: s9_def s8_def s7_def nol S5)
  have "chain (proc_next (procs s9)) (proc_list (rt s)) ps 0"
  proof -
    have "chain (proc_next (procs s9)) (proc_list (rt s)) ps 0 = chain (proc_next (procs s)) (proc_list (rt s)) ps 0"
      by (rule chain_cong) (use pre(2) distinct_p in \<open>auto simp: P9 proc_next_def\<close>)
    with pc show ?thesis by (simp add: proc_chain_def)
  qed
  then have pc9: "proc_chain s9 (?p # ps)"
    using pc pre distinct_p by (auto simp: proc_chain_def P9 R9 proc_next_def)
  have ai9: "alloc_inv E s9 (add_mset (p', usable s6 p') ?L)"
    using ok alloc_inv_rt [of s9 s6] by (simp add: s9_def s8_def s7_def)
  have "heldX (lk s9) LRoot = heldX (lk s) LRoot" using k lk5 by (simp add: s9_def s8_def s7_def lock_simps keeps_def)
  moreover have "heldS (lk s9) LRoot = heldS (lk s) LRoot" using sc_malloc_heldS [OF m(1)] lk5 by (simp add: s9_def s8_def s7_def lock_simps)
  moreover have "locals s9 = ?l # locals s" "regs s9 = regs s" "steps s9 = steps s" "root_addr s9 = root_addr s"
    using k S5 nol by (simp_all add: s9_def s8_def s7_def put_proc_def keeps_def)
  moreover have "procs s9 ?p = Some ?pr" using distinct_p by (auto simp: P9)
  ultimately have "joined E B fd s ps ?L s9"
    unfolding joined_def Let_def using pc9 R9 m(2) distinct_p ok ai9
    by (intro conjI exI [of _ ?pr] exI [of _ p'] exI [of _ "usable s6 p'"]) simp_all
  moreover have "vmap s9 = thread_vm E (handlers_vm E ?sp)" by (simp add: s9_def s8_def)
  ultimately show ?thesis using run by blast
qed

lemma fresh_map_keeps:
  assumes "kernel_ok E" "os_mmap E vm q \<noteq> MAP_FAILED" "q_flags q AND MAP_FIXED = 0" "vm x \<noteq> None"
  shows "vm_map vm (os_mmap E vm q) q x = vm x" "\<not> in_block x (os_mmap E vm q, q_len q)"
proof -
  show *: "\<not> in_block x (os_mmap E vm q, q_len q)" using assms unfolding kernel_ok_def by metis
  then show "vm_map vm (os_mmap E vm q) q x = vm x" by (simp add: vm_map_def)
qed

lemma handlers_vm_same:
  assumes "kernel_ok E" "handlers_ok E B vm" "vm x \<noteq> None" shows "handlers_vm E vm x = vm x"
proof -
  have "os_mmap E vm sig_req \<noteq> MAP_FAILED" "q_flags sig_req AND MAP_FIXED = 0"
    using assms(2) by (simp_all add: handlers_ok_def sig_req_def anon_req_def mman_defs)
  from fresh_map_keeps(1) [OF assms(1) this assms(3)] show ?thesis by (simp only: handlers_vm_def)
qed

lemma thread_vm_same:
  assumes "kernel_ok E" "thread_ok E B vm" "vm x \<noteq> None" "unat (getpagesize E) \<le> 2 ^ 20"
  shows "thread_vm E vm x = vm x"
proof -
  let ?q = "anon_req 0 (1024 * 1024) (PROT_READ OR PROT_WRITE) 0"
  have f: "os_mmap E vm ?q \<noteq> MAP_FAILED" using assms(2) by (simp add: thread_ok_def Let_def)
  have "q_flags ?q AND MAP_FIXED = 0" by (simp add: anon_req_def mman_defs)
  note k = fresh_map_keeps [OF assms(1) f this assms(3)]
  then have "\<not> in_block x (os_mmap E vm ?q, getpagesize E)" using assms(4) by (auto simp: in_block_def)
  with k show ?thesis by (simp add: thread_vm_def Let_def vm_map_def)
qed

lemma region_pairs:
  assumes "set ps \<subseteq> dom m" shows "map (\<lambda>r. (r_vaddr r, r_len r)) (map (\<lambda>p. the (m p)) ps) = map (region_range m) ps"
  using assms by (auto simp: region_range_def)

text \<open>The joined process sees every active region where and as every other process sees it.\<close>

lemma join_space_pages:
  assumes core: "region_core E s (a # act) rsv fre" and p: "p \<in> set act" "regs s p = Some r" "r_prot r \<noteq> 0"
    and x: "in_block x (r_vaddr r, r_len r)" and l: "l_shm_file l = fd"
  shows "join_space E fd s act rsv x = Some (fault_page l r x)"
proof -
  let ?f = "\<lambda>p. the (regs s p)"
  have d: "set act \<subseteq> dom (regs s)" "set rsv \<subseteq> dom (regs s)" using core by (auto simp: region_core_def region_lists_def)
  have ap: "apart_all (mset (map (region_range (regs s)) (act @ rsv)))" using core by (auto simp: region_core_def)
  then have "apart_all (mset (map (\<lambda>r. (r_vaddr r, r_len r)) (map ?f act)))"
    unfolding region_pairs [OF d(1)] by (simp add: apart_all_union)
  moreover have "r \<in> set (map ?f act)" using p by force
  ultimately have v: "join_vm fd 0 vm (map ?f act) x = vm_map vm (r_vaddr r) (join_req fd 0 r) x" for vm
    by (rule join_vm_at) (rule x)
  have "\<not> in_block x (r_vaddr c, r_len c)" if c: "c \<in> set (map ?f rsv)" for c
  proof -
    from c d obtain k where k: "k \<in> set rsv" "regs s k = Some c" by force
    have "apart (region_range (regs s) p) (region_range (regs s) k)" using ap p(1) k(1) by (auto simp: apart_all_union)
    then have "apart (r_vaddr r, r_len r) (r_vaddr c, r_len c)" using p(2) k(2) by (simp add: region_range_def)
    then show ?thesis using x in_block_unique by blast
  qed
  then have out: "join_vm fd 1 vm (map ?f rsv) x = vm x" for vm by (rule join_vm_outside)
  have "ucast (r_prot r) \<noteq> (0 :: u32)" using p(3) ucast_prot [of "r_prot r"] by (simp add: PROT_NONE_def)
  then show ?thesis unfolding join_space_def out v
    using x l by (simp add: vm_map_def join_req_def fault_page_def mman_defs)
qed

lemma join_vm_covers:
  assumes "r \<in> set rs" "in_block x (r_vaddr r, r_len r)" shows "join_vm fd i vm rs x \<noteq> None"
  using assms
proof (induction rs arbitrary: vm)
  case (Cons c cs)
  show ?case
  proof (cases "r \<in> set cs")
    case False
    with Cons.prems have "vm_map vm (r_vaddr c) (join_req fd i c) x \<noteq> None" by (simp add: vm_map_def)
    from join_vm_keeps [of "vm_map vm (r_vaddr c) (join_req fd i c)" x, OF this] show ?thesis by (simp del: not_None_eq)
  qed (use Cons in simp)
qed simp

lemma join_space_mapped:
  assumes "set (act @ rsv) \<subseteq> dom (regs s)"
  shows "all_mapped s (act @ rsv) (join_space E fd s act rsv)"
  unfolding all_mapped_def
proof (intro ballI allI impI)
  fix p x assume p: "p \<in> set (act @ rsv)" and x: "in_block x (region_range (regs s) p)"
  let ?rs = "\<lambda>ps. map (\<lambda>p. the (regs s p)) ps"
  from assms p obtain r where r: "regs s p = Some r" by blast
  with x have x': "in_block x (r_vaddr r, r_len r)" by (simp add: region_range_def)
  show "join_space E fd s act rsv x \<noteq> None"
  proof (cases "p \<in> set rsv")
    case True
    with r have "r \<in> set (?rs rsv)" by force
    with x' show ?thesis unfolding join_space_def by (intro join_vm_covers)
  next
    case False
    with p r have "r \<in> set (?rs act)" by force
    with x' show ?thesis unfolding join_space_def by (intro join_vm_keeps join_vm_covers)
  qed
qed

lemma boot_env_sel [simp]:
  "getpagesize boot_env = 0x1000" "sizeof_sc_process boot_env = 0x40" "os_ftruncate boot_env fd n"
  by (simp_all add: boot_env_def)

lemma boot_env_ok: "kernel_ok boot_env" "page_ok boot_env" "lock_query_ok boot_env"
proof -
  have "os_mmap boot_env vm q \<noteq> MAP_FAILED \<Longrightarrow> 0 < q_len q" for vm q by (auto simp: boot_env_def word_neq_0_conv split: if_splits)
  moreover have "free_at vm (os_mmap boot_env vm q) (q_len q)"
    if "os_mmap boot_env vm q \<noteq> MAP_FAILED" "q_flags q AND MAP_FIXED = 0" for vm q
    using that by (auto simp: boot_env_def split: if_splits)
  ultimately show "kernel_ok boot_env" unfolding kernel_ok_def free_at_def by auto
  show "page_ok boot_env" "lock_query_ok boot_env" by (auto simp: page_ok_def lock_query_ok_def boot_env_def)
qed

lemma root_vm_page:
  assumes "kernel_ok E" "root_granted E fd vm dest" and x: "in_block x (dest, getpagesize E)"
  shows "root_vm E fd vm dest x = Some (root_page fd dest x)"
proof -
  define tmp where "tmp = os_mmap E vm (root_req E 0 fd)"
  let ?vm1 = "vm_map vm tmp (root_req E 0 fd)"
  have pg: "vm_map vm' dest (root_req E a fd) x = Some (root_page fd dest x)" for vm' a
    using x by (simp add: vm_map_def root_req_def root_page_def mman_defs)
  show ?thesis
  proof (cases "dest = tmp")
    case True
    with pg show ?thesis by (simp add: root_vm_def Let_def tmp_def [symmetric])
  next
    case False
    have "os_mmap E ?vm1 (root_req E dest fd) = dest" "dest \<noteq> MAP_FAILED"
      using assms(2) False by (auto simp: root_granted_def Let_def tmp_def)
    moreover have "q_flags (root_req E dest fd) AND MAP_FIXED = 0" by (simp add: mman_defs)
    ultimately have "?vm1 x = None" using assms(1) x unfolding kernel_ok_def by (metis root_req_simps(1))
    then have "\<not> in_block x (tmp, getpagesize E)" by (auto simp: vm_map_def)
    with pg False show ?thesis by (simp add: root_vm_def Let_def tmp_def [symmetric])
  qed
qed

lemma join_space_root:
  assumes core: "region_core E s (a # act) rsv fre" and a: "region_range (regs s) a = (root_addr s, getpagesize E)"
    and "kernel_ok E" "root_granted E fd (vmap s) (root_addr s)" "root_dest E (rt s) = root_addr s"
    and x: "in_block x (root_addr s, getpagesize E)"
  shows "join_space E fd s act rsv x = Some (root_page fd (root_addr s) x)"
proof -
  let ?f = "\<lambda>p. the (regs s p)"
  have d: "set (act @ rsv) \<subseteq> dom (regs s)" using core by (auto simp: region_core_def region_lists_def)
  have ap: "apart_all (mset (map (region_range (regs s)) (a # act @ rsv)))" using core by (auto simp: region_core_def)
  have "\<not> in_block x (r_vaddr c, r_len c)" if c: "c \<in> set (map ?f (act @ rsv))" for c
  proof -
    from c d obtain k where k: "k \<in> set (act @ rsv)" "regs s k = Some c" by force
    have "apart (region_range (regs s) a) (region_range (regs s) k)" using ap k(1) by auto
    then have "apart (root_addr s, getpagesize E) (r_vaddr c, r_len c)" unfolding a using k(2) by (simp add: region_range_def)
    then show ?thesis using x in_block_unique by blast
  qed
  then have "join_vm fd i vm (map ?f act) x = vm x" "join_vm fd i vm (map ?f rsv) x = vm x" for i vm
    by (auto intro!: join_vm_outside)
  then show ?thesis unfolding join_space_def using root_vm_page [OF assms(3,4) x] assms(5) by (simp del: One_nat_def)
qed

lemma free_at_map:
  "free_at vm a n \<Longrightarrow> apart (a, n) (r, q_len q) \<Longrightarrow> free_at (vm_map vm r q) a n"
  unfolding free_at_def using in_block_unique by (fastforce simp: vm_map_def)

lemma free_at_used: "0 < n \<Longrightarrow> vm a \<noteq> None \<Longrightarrow> \<not> free_at vm a n"
proof
  assume n: "0 < n" and v: "vm a \<noteq> None" and "free_at vm a n"
  then have "in_block a (a, n) \<Longrightarrow> vm a = None" by (simp add: free_at_def)
  with n v show False by (simp add: in_block_def word_less_nat_alt)
qed

lemma free_at_empty [simp]: "free_at Map.empty a n \<longleftrightarrow> a \<noteq> 0 \<and> 0x1000 dvd unat a \<and> fits (a, n)"
  by (simp add: free_at_def)

lemma boot_mmap:
  assumes "0 < q_len q" "q_flags q AND MAP_FIXED = 0"
  shows "free_at vm (q_addr q) (q_len q) \<Longrightarrow> os_mmap boot_env vm q = q_addr q"
    and "q_addr q = 0 \<Longrightarrow> free_at vm 0x700000 (q_len q) \<Longrightarrow> os_mmap boot_env vm q = 0x700000"
    and "q_addr q = 0 \<Longrightarrow> \<not> free_at vm 0x700000 (q_len q) \<Longrightarrow> free_at vm 0x800000 (q_len q) \<Longrightarrow> os_mmap boot_env vm q = 0x800000"
    and "q_addr q = 0 \<Longrightarrow> \<not> free_at vm 0x700000 (q_len q) \<Longrightarrow> \<not> free_at vm 0x800000 (q_len q) \<Longrightarrow>
      free_at vm 0xa00000 (q_len q) \<Longrightarrow> os_mmap boot_env vm q = 0xa00000"
  using assms by (auto simp: boot_env_def free_at_def)

lemma boot_granted_low:
  assumes low: "\<And>x. 0x700000 \<le> unat x \<Longrightarrow> vm x = None"
  shows "init_granted boot_env demo_boot 5 vm" "unat x < 0x700000 \<Longrightarrow> init_vm boot_env 5 vm x = vm x"
    "0xc00000 \<le> unat x \<Longrightarrow> init_vm boot_env 5 vm x = None"
    "in_block x (0xa01000, 0xff000) \<Longrightarrow> init_vm boot_env 5 vm x = Some \<lparr>m_prot = 3, m_shared = False, m_backing = Anonymous\<rparr>"
proof -
  let ?r = "root_req boot_env 0 5" and ?q = "anon_req 0 reserved_len PROT_NONE MAP_NORESERVE"
    and ?t = "anon_req 0 (1024 * 1024) (PROT_READ OR PROT_WRITE) 0"
  let ?v1 = "vm_map vm 0x700000 ?r" let ?v2 = "vm_map ?v1 0x800000 ?q"
  have free [simp]: "free_at vm a n \<longleftrightarrow> a \<noteq> 0 \<and> 0x1000 dvd unat a \<and> fits (a, n)" if "0x700000 \<le> unat a" for a n
    using that low by (auto simp: free_at_def in_block_def)
  have len: "q_len ?r = 0x1000" "q_len ?q = 0x100000" "q_len ?t = 0x100000" by (simp_all add: root_req_def anon_req_def reserved_len_def)
  have sel: "q_addr ?r = 0" "q_addr ?q = 0" "q_addr ?t = 0" "q_flags ?r AND MAP_FIXED = 0" "q_flags ?q AND MAP_FIXED = 0" "q_flags ?t AND MAP_FIXED = 0"
    unfolding root_req_def anon_req_def mman_defs by simp_all
  have m1: "os_mmap boot_env vm ?r = 0x700000" by (rule boot_mmap(2) [OF _ sel(4)]) (simp_all add: len sel fits_def)
  have u: "?v1 0x700000 \<noteq> None" by (simp add: vm_map_def in_block_def len)
  have m2: "os_mmap boot_env ?v1 ?q = 0x800000"
    by (rule boot_mmap(3) [OF _ sel(5)]) (simp_all add: len sel reserved_len_def fits_def free_at_used u free_at_map apart_def)
  have u2: "?v2 0x700000 \<noteq> None" "?v2 0x800000 \<noteq> None" using u by (simp_all add: vm_map_def in_block_def len reserved_len_def)
  have nf: "\<not> free_at ?v2 0x700000 0x100000" "\<not> free_at ?v2 0x800000 0x100000" by (rule free_at_used, simp, rule u2)+
  have fr: "free_at ?v2 0xa00000 0x100000" by (rule free_at_map) (simp_all add: len free_at_map fits_def apart_def reserved_len_def)
  have m3: "os_mmap boot_env ?v2 ?t = 0xa00000"
    by (rule boot_mmap(4) [OF _ sel(6,3), unfolded len(3), OF _ nf fr]) simp
  have m4: "os_mmap boot_env (vm_map ?v2 0xa00000 ?t) (anon_req 0xa00000 0x1000 PROT_NONE MAP_FIXED) = 0xa00000"
    by (simp add: boot_env_def anon_req_def mman_defs)
  have "thread_ok boot_env demo_boot ?v2" unfolding thread_ok_def Let_def m3 boot_env_sel using m4
    by (simp add: demo_boot_def MAP_FAILED_def)
  moreover have "n < 0x40000000" if "unat n \<le> 0x1000 + 2 ^ 20" for n :: u64 using that by (simp add: word_less_nat_alt)
  ultimately show "init_granted boot_env demo_boot 5 vm" unfolding init_granted_def Let_def m1 m2 by (simp add: demo_boot_def MAP_FAILED_def)
  have "init_vm boot_env 5 vm = vm_map (vm_map ?v2 0xa00000 ?t) 0xa00000 (anon_req 0xa00000 0x1000 PROT_NONE MAP_FIXED)"
    unfolding init_vm_def Let_def m1 m2 thread_vm_def m3 boot_env_sel by simp
  note v = this
  then show "unat x < 0x700000 \<Longrightarrow> init_vm boot_env 5 vm x = vm x" "0xc00000 \<le> unat x \<Longrightarrow> init_vm boot_env 5 vm x = None"
    using low [of x] by (simp_all add: vm_map_def in_block_def len reserved_len_def)
  show "init_vm boot_env 5 vm x = Some \<lparr>m_prot = 3, m_shared = False, m_backing = Anonymous\<rparr>" if "in_block x (0xa01000, 0xff000)"
    unfolding v using that by (simp add: vm_map_def in_block_def anon_req_def mman_defs)
qed

lemmas boot_granted = boot_granted_low(1) [of Map.empty, simplified]

text \<open>C9: \<^verbatim>\<open>sc_init\<close> on an empty file, when the system calls succeed and the first page has room for five region
  structs, returns the root page, and leaves a subcontext that satisfies every invariant of the
  library: well-formed region lists whose ranges are all mapped, a sound heap, a process list with
  the caller alone on it, one more process struct preallocated for the next process to join, an
  empty cleanup log, the caller's local struct in the list and the root lock released.\<close>

theorem sc_init_correct:
  assumes "file_len s = 0" and "init_granted E B fd (vmap s)" and "layout_ok E B" and "5 \<le> first_count E B"
    and "kernel_ok E" and "page_ok E" and "unat (getpagesize E) dvd 2 ^ 20" and "lock_query_ok E"
    and "0 < sint (sizeof_sc_process E)" and "2 * unat (grow_size E (sizeof_sc_process E)) < 2 ^ 20"
  shows "\<exists>page s'. sc_init E B fd s = (Inr page, s') \<and> page \<noteq> 0 \<and> initialised E fd (os_child_tid B) page (pid s) s'"
  using sc_init_ok [OF assms] by blast

theorem sc_init_correct_witness:
  "\<exists>page s'. sc_init boot_env demo_boot 5 demo_none_st = (Inr page, s') \<and> page \<noteq> 0 \<and> initialised boot_env 5 77 page 7 s'"
proof -
  have "layout_ok boot_env demo_boot" "first_count boot_env demo_boot = 60"
    by (simp_all add: layout_ok_def first_count_def demo_boot_def)
  moreover have "unat (getpagesize boot_env) dvd 2 ^ 20" by simp
  moreover have "0 < sint (sizeof_sc_process boot_env)" "2 * unat (grow_size boot_env (sizeof_sc_process boot_env)) < 2 ^ 20"
    by (simp_all add: malloc_mmap_size_def malloc_alloc_size_def)
  ultimately show ?thesis
    using sc_init_correct [of demo_none_st boot_env demo_boot 5] boot_granted boot_env_ok
    by (simp add: demo_none_st_def demo_defs demo_boot_def)
qed

lemma join_space_final:
  assumes "kernel_ok E" "handlers_ok E B vm" "thread_ok E B (handlers_vm E vm)" "unat (getpagesize E) \<le> 2 ^ 20" "vm x = Some m"
  shows "thread_vm E (handlers_vm E vm) x = Some m"
proof -
  have "handlers_vm E vm x = Some m" using handlers_vm_same [OF assms(1,2), of x] assms(5) by simp
  with thread_vm_same [OF assms(1,3) _ assms(4), of x] show ?thesis by simp
qed

lemma demo_join_heap:
  "malloc_inv boot_env (demo_join_st 0x2040) [0x2040] {#(0x2000, 64)#} {#(0x1000, 0x1000), (0x2000, 0x2000)#}"
  "malloc_inv boot_env (demo_join_st 0) [] {#(0x2000, 64)#} {#(0x1000, 0x1000), (0x2000, 0x2000)#}"
proof -
  let ?m = "mem (demo_join_st 0)"
  have ok: "block_ok (0x2000, 64)" "block_ok (0x2040, 0x1fc0)" by (simp_all add: block_ok_def fits_def)
  have i: "intact ?m (0x2000, 64)"
    using header_footer(1) [OF ok(1), of "store64 (\<lambda>_. 0) 0x2040 0x1fc0"] by (simp add: demo_join_st_def)
  have z: "load64 (\<lambda>_. 0) a = 0" for a by (simp add: load64_def)
  have n: "node_len ?m 0x2040 = 0x1fc0" "node_next ?m 0x2040 = 0"
    by (simp_all add: node_len_def node_next_def demo_join_st_def load64_store64 load64_store64_other z)
  have "heap_wf ?m 0x2040 [0x2040] {#(0x2000, 64)#}" "heap_wf ?m 0 [] {#(0x2000, 64)#}"
    using ok i n by (simp_all add: heap_wf_def blk_def apart_def)
  moreover have "active_inv boot_env (demo_join_st fl) {#(0x1000, 0x1000), (0x2000, 0x2000)#}" for fl
    using demo_active by (simp add: active_inv_def region_core_def region_lists_def demo_join_st_def page_ok_def range_ok_def)
  ultimately show "malloc_inv boot_env (demo_join_st 0x2040) [0x2040] {#(0x2000, 64)#} {#(0x1000, 0x1000), (0x2000, 0x2000)#}"
  "malloc_inv boot_env (demo_join_st 0) [] {#(0x2000, 64)#} {#(0x1000, 0x1000), (0x2000, 0x2000)#}"
    using n by (simp_all add: malloc_inv_def demo_join_st_def inside_def blk_def)
qed

lemma demo_join_wf: "region_wf boot_env (demo_join_st fl) [0x1100, 0x1140] [0x1180] [0x11c0, 0x1200, 0x1240]"
proof -
  have "region_core boot_env (demo_join_st fl) [0x1100, 0x1140] [0x1180] [0x11c0, 0x1200, 0x1240]"
    using demo_core by (simp add: region_core_def region_lists_def demo_join_st_def range_ok_def)
  moreover have "region_files boot_env (demo_join_st fl) [0x1100, 0x1140] [0x1180]"
    by (simp add: region_files_def demo_join_st_def demo_defs active_file_ok_def reserved_ok_def file_ranges_def apart_def)
  ultimately show ?thesis by (simp add: region_wf_def)
qed

text \<open>The kernel of \<open>boot_env\<close> grants every call of a join into the example subcontext.\<close>

lemma demo_join_calls: "join_calls_ok boot_env demo_boot 5 (demo_join_st fl) [0x1140] [0x1180]"
proof -
  let ?s = "demo_join_st fl" and ?r = "root_req boot_env 0 5" and ?r' = "root_req boot_env 0x1000 5"
  have dest: "root_dest boot_env (rt ?s) = 0x1000" by (simp add: root_dest_def demo_join_st_def demo_root_def)
  have vm: "vmap ?s = Map.empty" by (simp add: demo_join_st_def demo_st_def)
  have fl: "q_flags (root_req boot_env a 5) AND MAP_FIXED = 0" for a by (simp add: mman_defs)
  have sel: "q_len (root_req boot_env a 5) = 0x1000" "q_addr (root_req boot_env a 5) = a" for a by (simp_all add: root_req_def)
  let ?v1 = "vm_map Map.empty 0x700000 ?r"
  have m1: "os_mmap boot_env Map.empty ?r = 0x700000" by (rule boot_mmap(2) [OF _ fl]) (simp_all add: sel fits_def)
  have m2: "os_mmap boot_env ?v1 ?r' = 0x1000"
    by (subst boot_mmap(1) [OF _ fl]) (simp_all add: sel fits_def free_at_map apart_def)
  have g: "root_granted boot_env 5 (vmap ?s) 0x1000"
    unfolding root_granted_def vm Let_def m1 using m2 by (simp add: MAP_FAILED_def)
  define v0 where "v0 = root_vm boot_env 5 Map.empty 0x1000"
  have v0: "v0 x = (if in_block x (0x1000, 0x1000) then Some (root_page 5 0x1000 x) else None)" for x
    unfolding v0_def root_vm_def Let_def m1
    by (auto simp: vm_map_def sel in_block_def root_page_def root_req_def mman_defs)
  let ?a = "demo_region 0 0x2000 0x2000 3 0x1000" and ?q = "demo_region 0 0x100000 0x80000 0 (- 1)"
  have rs: "regs ?s 0x1140 = Some ?a" "regs ?s 0x1180 = Some ?q" by (simp_all add: demo_join_st_def demo_st_def demo_regs_def)
  have jr: "q_len (join_req 5 i r) = r_len r" "q_addr (join_req 5 i r) = r_vaddr r" "q_flags (join_req 5 i r) AND MAP_FIXED = 0" for i r
    by (simp_all add: join_req_def anon_req_def mman_defs)
  let ?v2 = "vm_map v0 0x2000 (join_req 5 0 ?a)" let ?v3 = "vm_map ?v2 0x100000 (join_req 5 1 ?q)"
  have f1: "free_at v0 0x2000 0x2000" by (simp add: free_at_def fits_def v0 in_block_def)
  have m3: "os_mmap boot_env v0 (join_req 5 0 ?a) = 0x2000"
    by (subst boot_mmap(1) [OF _ jr(3)]) (simp_all add: jr(1,2) demo_region_def f1)
  have f2: "free_at ?v2 0x100000 0x80000" by (simp add: free_at_def fits_def vm_map_def jr v0 in_block_def demo_region_def)
  have m4: "os_mmap boot_env ?v2 (join_req 5 1 ?q) = 0x100000"
    by (subst boot_mmap(1) [OF _ jr(3)]) (use f2 in \<open>simp_all add: jr(1,2) demo_region_def\<close>)
  have sp: "join_space boot_env 5 ?s [0x1140] [0x1180] = ?v3"
    by (simp add: join_space_def dest vm v0_def rs) (simp add: demo_region_def)
  have f3: "free_at ?v3 0x700000 0x100000" "free_at ?v3 0x800000 0x100000"
    by (simp_all add: free_at_def fits_def vm_map_def jr v0 in_block_def demo_region_def)
  let ?t = "anon_req 0 (1024 * 1024) (PROT_READ OR PROT_WRITE) 0"
  have ss: "q_len sig_req = 0x100000" "q_addr sig_req = 0" "q_flags sig_req AND MAP_FIXED = 0"
    "q_len ?t = 0x100000" "q_addr ?t = 0" "q_flags ?t AND MAP_FIXED = 0" by (simp_all add: sig_req_def anon_req_def mman_defs)
  have m5: "os_mmap boot_env ?v3 sig_req = 0x700000" by (rule boot_mmap(2) [OF _ ss(3)]) (simp_all add: ss f3 del: One_nat_def)
  let ?v4 = "vm_map ?v3 0x700000 sig_req"
  have u: "?v4 0x700000 \<noteq> None" by (simp add: vm_map_def in_block_def ss)
  have m6: "os_mmap boot_env ?v4 ?t = 0x800000"
    by (rule boot_mmap(3) [OF _ ss(6)]) (simp_all add: ss free_at_used u free_at_map f3 apart_def del: One_nat_def)
  have m7: "os_mmap boot_env (vm_map ?v4 0x800000 ?t) (anon_req 0x800000 0x1000 PROT_NONE MAP_FIXED) = 0x800000"
    by (simp add: boot_env_def anon_req_def mman_defs)
  have hv: "handlers_vm boot_env ?v3 = ?v4" unfolding handlers_vm_def m5 ..
  have h: "handlers_ok boot_env demo_boot ?v3" unfolding handlers_ok_def m5 by (simp add: demo_boot_def MAP_FAILED_def)
  have t: "thread_ok boot_env demo_boot ?v4" unfolding thread_ok_def Let_def m6 boot_env_sel using m7
    by (simp add: demo_boot_def MAP_FAILED_def)
  have va: "r_vaddr ?a = 0x2000" "r_vaddr ?q = 0x100000" by (simp_all add: demo_region_def)
  have "malloc_ok demo_boot" by (simp add: demo_boot_def)
  then show ?thesis
    unfolding join_calls_ok_def Let_def dest sp hv using g h t vm m3 m4
    by (simp add: rs va v0_def [symmetric] MAP_FAILED_def del: One_nat_def)
qed

lemma malloc_pages_nolocal:
  assumes pg: "page_ok E" and l: "my_local s = None" and sz: "0 < sint sz"
  shows "\<exists>s'. malloc_pages E (grow_size E sz) (lock_exclusive LMalloc s) = (Inr MAP_FAILED, s') \<and> rt s' = rt s \<and> locals s' = locals s"
proof -
  have "unat (malloc_alloc_size sz + 24) + 2 ^ 31 < 2 ^ 64" "0 < unat (malloc_alloc_size sz + 24)"
    using alloc_size_bounds [OF less_imp_le [OF sz]] less_imp_le [OF sz] by (auto simp: unat_off sint_nonneg_unat)
  note n = mmap_size_value [OF pg this]
  have "grow_size E sz mod getpagesize E = 0" using n(2) by (simp add: word_mod_dvd)
  then show ?thesis using n(4) l
    by (simp add: sc_mmap_def guard_pass mmap_asserts_hold sc_mmap_body_def lookupScLocal_eq my_local_def)
qed

text \<open>C8: \<^verbatim>\<open>sc_join\<close> into a well-formed subcontext, with a preallocated process struct, no pending
  reservation, a free block for the next process struct and a kernel that grants the addresses asked
  for, returns the root page at the address it has in every process. The address space then shows
  the root page and, byte for byte, the file range of every active region at the address all other
  processes have it, and every reserved range is taken. The caller is on the process list, with its
  count, a fresh struct is preallocated in a heap buffer of its own, the local struct is in the list
  and the root lock is released.\<close>

theorem sc_join_correct:
  assumes "region_wf E s (a # b # act) (q # rsv) fre" and "region_range (regs s) a = (root_addr s, getpagesize E)"
    and "malloc_inv E s ns live R"
    and "root_dest E (rt s) = root_addr s" and "magic (rt s) = SUBCONTEXTS_ROOT_MAGIC"
    and "\<forall>l \<in> set (locals s). l_sc l \<noteq> root_addr s"
    and "pending_reservation (rt s) = 0" and "proc_chain s ps"
    and "prealloc_proc (rt s) \<noteq> 0" and "prealloc_proc (rt s) \<notin> set ps" and "procs s (prealloc_proc (rt s)) = Some pr"
    and "\<forall>x \<in> set (prealloc_proc (rt s) # ps). \<exists>n. n \<noteq> 0 \<and> (x, n) \<in># image_mset payload live"
    and "\<exists>x \<in> set ns. malloc_fits (malloc_alloc_size (sizeof_sc_process E)) (malloc_alloc_size (sizeof_sc_process E) + 24) (mem s) x"
    and "0 < sint (sizeof_sc_process E)" and "kernel_ok E" and "unat (getpagesize E) \<le> 2 ^ 20"
    and "join_calls_ok E B fd s (b # act) (q # rsv)"
  shows "\<exists>s'. sc_join E B fd s = (Inr (root_addr s), s') \<and> joined E B fd s ps (image_mset payload live) s' \<and>
     all_mapped s' (b # act @ q # rsv) (vmap s') \<and>
     (\<forall>x. in_block x (root_addr s, getpagesize E) \<longrightarrow> vmap s' x = Some (root_page fd (root_addr s) x)) \<and>
     (\<forall>p \<in> set (b # act). \<forall>r x. regs s' p = Some r \<and> r_prot r \<noteq> 0 \<and> in_block x (r_vaddr r, r_len r) \<longrightarrow>
        vmap s' x = Some (fault_page (hd (locals s')) r x))"
proof -
  let ?sp = "join_space E fd s (b # act) (q # rsv)"
  from sc_join_ok [OF assms(1,3-14,17)] obtain s' where s': "sc_join E B fd s = (Inr (root_addr s), s')"
    "joined E B fd s ps (image_mset payload live) s'" "vmap s' = thread_vm E (handlers_vm E ?sp)" by blast
  have core: "region_core E s (a # b # act) (q # rsv) fre" using assms(1) by (simp add: region_wf_def)
  have calls: "root_granted E fd (vmap s) (root_addr s)" "handlers_ok E B ?sp" "thread_ok E B (handlers_vm E ?sp)"
    using assms(4,17) by (simp_all add: join_calls_ok_def Let_def)
  note final = join_space_final [OF assms(15) calls(2,3) assms(16), folded s'(3)]
  have j: "regs s' = regs s" "l_shm_file (hd (locals s')) = fd" using s'(2) by (simp_all add: joined_def join_local_def)
  have "all_mapped s ((b # act) @ q # rsv) ?sp"
    by (rule join_space_mapped) (use core in \<open>auto simp: region_core_def region_lists_def\<close>)
  then have "all_mapped s' (b # act @ q # rsv) (vmap s')"
    unfolding all_mapped_def j(1) append_Cons [symmetric] using final by blast
  moreover have "vmap s' x = Some (root_page fd (root_addr s) x)" if "in_block x (root_addr s, getpagesize E)" for x
    by (rule final) (rule join_space_root [OF core assms(2,15) calls(1) assms(4) that])
  moreover have "vmap s' x = Some (fault_page (hd (locals s')) r x)"
    if "p \<in> set (b # act)" "regs s' p = Some r \<and> r_prot r \<noteq> 0 \<and> in_block x (r_vaddr r, r_len r)" for p r x
    by (rule final) (rule join_space_pages [OF core that(1)], use that j in auto)
  ultimately show ?thesis using s'(1,2) by blast
qed

theorem sc_join_correct_witness:
  "\<exists>s'. sc_join boot_env demo_boot 5 (demo_join_st 0x2040) = (Inr 0x1000, s') \<and> proc_chain s' [0x2010] \<and>
     vmap s' 0x2468 = Some \<lparr>m_prot = 3, m_shared = True, m_backing = FileBacked 5 0x1468\<rparr>"
proof -
  let ?s = "demo_join_st 0x2040"
  have s: "root_addr ?s = 0x1000" "prealloc_proc (rt ?s) = 0x2010" "locals ?s = []" "pending_reservation (rt ?s) = 0"
    "magic (rt ?s) = SUBCONTEXTS_ROOT_MAGIC" "root_dest boot_env (rt ?s) = 0x1000"
    by (simp_all add: demo_join_st_def demo_st_def demo_root_def root_dest_def)
  have r: "region_range (regs ?s) 0x1100 = (0x1000, 0x1000)" "regs ?s 0x1140 = Some (demo_region 0 0x2000 0x2000 3 0x1000)"
    by (simp_all add: demo_join_st_def demo_st_def demo_regs_def region_range_def demo_region_def)
  have p: "procs ?s 0x2010 = Some \<lparr>p_next = 0, p_state = SUBCONTEXTS_PROC_STATE_PREALLOC, p_pid = 0\<rparr>" "proc_chain ?s []"
    by (simp_all add: demo_join_st_def demo_root_def proc_chain_def)
  have n: "node_len (mem ?s) 0x2040 = 0x1fc0"
    by (simp add: node_len_def demo_join_st_def load64_store64 load64_store64_other)
  have "\<exists>s'. sc_join boot_env demo_boot 5 ?s = (Inr (root_addr ?s), s') \<and> joined boot_env demo_boot 5 ?s [] (image_mset payload {#(0x2000, 64)#}) s' \<and>
     all_mapped s' [0x1140, 0x1180] (vmap s') \<and>
     (\<forall>x. in_block x (root_addr ?s, getpagesize boot_env) \<longrightarrow> vmap s' x = Some (root_page 5 (root_addr ?s) x)) \<and>
     (\<forall>p \<in> set [0x1140]. \<forall>r x. regs s' p = Some r \<and> r_prot r \<noteq> 0 \<and> in_block x (r_vaddr r, r_len r) \<longrightarrow>
        vmap s' x = Some (fault_page (hd (locals s')) r x))"
    using sc_join_correct [OF demo_join_wf _ demo_join_heap(1), where B = demo_boot and fd = 5 and ps = "[]"] s r p n demo_join_calls boot_env_ok
    by (simp add: malloc_fits_def malloc_alloc_size_def payload_def)
  then obtain s' where s': "sc_join boot_env demo_boot 5 ?s = (Inr 0x1000, s')" "joined boot_env demo_boot 5 ?s [] (image_mset payload {#(0x2000, 64)#}) s'"
    and pg: "\<And>r x. regs s' 0x1140 = Some r \<and> r_prot r \<noteq> 0 \<and> in_block x (r_vaddr r, r_len r) \<Longrightarrow>
        vmap s' x = Some (fault_page (hd (locals s')) r x)" using s(1) by auto
  have "proc_chain s' [0x2010]" "regs s' = regs ?s" "l_shm_file (hd (locals s')) = 5"
    using s'(2) s(2) by (simp_all add: joined_def Let_def join_local_def)
  with s'(1) pg [of "demo_region 0 0x2000 0x2000 3 0x1000" "0x2468"] r show ?thesis
    by (simp add: demo_region_def in_block_def fault_page_def)
qed

text \<open>\<^verbatim>\<open>sc_join\<close> allocates the process struct of the next process to join before its own local struct is in
  the list, so the heap cannot grow then: when no free block can hold a process struct the join ends
  in the TODO of line 763, with the process already counted and listed but with no struct
  preallocated for the next process.\<close>

theorem sc_join_heap_full:
  assumes "region_wf E s (a # b # act) (q # rsv) fre" and "malloc_inv E s ns live R"
    and "root_dest E (rt s) = root_addr s" and "magic (rt s) = SUBCONTEXTS_ROOT_MAGIC"
    and "\<forall>l \<in> set (locals s). l_sc l \<noteq> root_addr s" and "pending_reservation (rt s) = 0"
    and "prealloc_proc (rt s) \<noteq> 0" and "procs s (prealloc_proc (rt s)) = Some pr"
    and "\<forall>x \<in> set ns. \<not> malloc_fits (malloc_alloc_size (sizeof_sc_process E)) (malloc_alloc_size (sizeof_sc_process E) + 24) (mem s) x"
    and "0 < sint (sizeof_sc_process E)"
    and "join_calls_ok E B fd s (b # act) (q # rsv)"
  shows "\<exists>s'. sc_join E B fd s = (Inl (Todo 763), s') \<and> proc_count (rt s') = proc_count (rt s) + 1 \<and>
     proc_list (rt s') = prealloc_proc (rt s) \<and> prealloc_proc (rt s') = 0 \<and> locals s' = locals s"
proof -
  let ?sz = "sizeof_sc_process E"
  from join_until_alloc [OF assms(1,3-8,11)] obtain s5 where
    s5: "sc_join E B fd s = join_finish E B fd (root_addr s) (cleanupLog_lastSeqNum (rt s)) s5"
    "regs s5 = regs s" "mem s5 = mem s" "freeList s5 = freeList s" "root_addr s5 = root_addr s" "locals s5 = locals s"
    "rt s5 = (rt s)\<lparr>prealloc_proc := 0, proc_count := proc_count (rt s) + 1, proc_list := prealloc_proc (rt s)\<rparr>" by blast
  let ?t = "lock_exclusive LMalloc s5"
  have inv: "malloc_inv E s5 ns live R" using assms(2) active_inv_rt [of s5 s] s5 by (simp add: malloc_inv_def)
  have nl: "my_local s5 = None" using assms(5) s5 by (simp add: my_local_def find_None_iff)
  have pg: "page_ok E" using inv by (simp add: malloc_inv_def active_inv_def)
  obtain s6 where m: "malloc_pages E (grow_size E ?sz) ?t = (Inr MAP_FAILED, s6)" "rt s6 = rt s5" "locals s6 = locals s5"
    using malloc_pages_nolocal [OF pg nl assms(10)] by blast
  have "sc_malloc E ?sz s5 = (Inr 0, unlock_exclusive LMalloc s6)"
    using sc_malloc_nofit(2) [OF inv, of ?sz] assms(9,10) s5(3) m(1) by simp
  then have "sc_join E B fd s = (Inl (Todo 763), unlock_exclusive LMalloc s6)"
    unfolding s5(1) join_finish_def by (simp add: scInit_setup_procListEntry_def)
  then show ?thesis using m(2,3) s5(6,7) by simp
qed

theorem sc_join_heap_full_witness:
  "\<exists>s'. sc_join boot_env demo_boot 5 (demo_join_st 0) = (Inl (Todo 763), s') \<and> proc_count (rt s') = 1 \<and> prealloc_proc (rt s') = 0"
proof -
  let ?s = "demo_join_st 0"
  have s: "root_addr ?s = 0x1000" "prealloc_proc (rt ?s) = 0x2010" "locals ?s = []" "pending_reservation (rt ?s) = 0"
    "magic (rt ?s) = SUBCONTEXTS_ROOT_MAGIC" "root_dest boot_env (rt ?s) = 0x1000" "proc_count (rt ?s) = 0"
    by (simp_all add: demo_join_st_def demo_st_def demo_root_def root_dest_def)
  have "procs ?s 0x2010 = Some \<lparr>p_next = 0, p_state = SUBCONTEXTS_PROC_STATE_PREALLOC, p_pid = 0\<rparr>" by (simp add: demo_join_st_def)
  then show ?thesis
    using sc_join_heap_full [OF demo_join_wf demo_join_heap(2), where B = demo_boot and fd = 5] s demo_join_calls by auto
qed

text \<open>Joining a subcontext that the process has already mapped fails, as documented, but the return leaves the
  root lock of the subcontext held in shared mode.\<close>

theorem sc_join_twice_keeps_lock:
  assumes "malloc_ok B" and "magic (rt s) = SUBCONTEXTS_ROOT_MAGIC" and "l \<in> set (locals s)" and "l_sc l = root_dest E (rt s)"
    and "os_mmap E (vmap s) (root_req E 0 fd) \<noteq> MAP_FAILED"
  shows "\<exists>s'. sc_join E B fd s = (Inr 0, s') \<and> heldS (lk s') LRoot = heldS (lk s) LRoot + 1 \<and> rt s' = rt s"
proof -
  have f: "find (\<lambda>l. l_sc l = root_dest E (rt s)) (locals s) \<noteq> None" using assms(3,4) by (auto simp: find_None_iff)
  show ?thesis unfolding sc_join_def join_root_def using assms(1,2,5) f
    by (auto simp: sys_mmap_def Let_def lookupScLocal_eq sys_munmap_def log_lock_def lock_simps)
qed

theorem sc_join_twice_keeps_lock_witness:
  "\<exists>s'. sc_join demo_env demo_boot 5 demo_st = (Inr 0, s') \<and> heldS (lk s') LRoot = 1"
proof -
  have "root_dest demo_env (rt demo_st) = 0x1000" "demo_local \<in> set (locals demo_st)" "l_sc demo_local = 0x1000"
    "magic (rt demo_st) = SUBCONTEXTS_ROOT_MAGIC" "lk demo_st = []" by (simp_all add: demo_defs root_dest_def)
  moreover have "os_mmap demo_env (vmap demo_st) (root_req demo_env 0 5) \<noteq> MAP_FAILED"
    by (simp add: demo_env_def mman_defs MAP_FAILED_def)
  moreover have "malloc_ok demo_boot" by (simp add: demo_boot_def)
  ultimately show ?thesis using sc_join_twice_keeps_lock [of demo_boot demo_st demo_local demo_env 5] by (auto simp: lock_simps)
qed

end
