(* ===== verification/SC_Registry.thy ===== *)
theory SC_Registry
  imports SC_Lifecycle
begin

text \<open>
  The subcontexts registry (\<^verbatim>\<open>trunk/subcontexts_registry.c\<close>): a process-independent table from symbol
  names to addresses, kept as a linked list in buffers of the subcontext heap, and the function of
  \<^verbatim>\<open>trunk/subcontexts_core.c\<close> that finds it (\<^verbatim>\<open>__subcontexts_registry_bootstrap\<close>).

  A \<^verbatim>\<open>registry_entry\<close> has three pointer fields and no lock, so the entries live in the bytes of \<open>mem\<close>, each
  followed by its copy of the name. A name is the list of its bytes, without the terminating zero.
  The head \<^verbatim>\<open>list\<close> is data of the library, which \<^verbatim>\<open>subcontexts_init\<close> has imported into the subcontext.
\<close>

section \<open>Definitions\<close>

record registry =
  base :: st
  reg_list :: u64

text \<open>The fields of the \<^verbatim>\<open>registry_entry\<close> at an address.\<close>

definition sizeof_registry_entry :: u64 where "sizeof_registry_entry = 24"

definition entry_next :: "memory \<Rightarrow> u64 \<Rightarrow> u64" where "entry_next m a = load64 m a"

definition entry_name :: "memory \<Rightarrow> u64 \<Rightarrow> u64" where "entry_name m a = load64 m (a + 8)"

definition entry_sym :: "memory \<Rightarrow> u64 \<Rightarrow> u64" where "entry_sym m a = load64 m (a + 16)"

definition set_entry :: "u64 \<Rightarrow> u64 \<Rightarrow> u64 \<Rightarrow> memory \<Rightarrow> memory" where
  "set_entry a off v m = store64 m (a + off) v"

text \<open>C strings: \<open>strcmp_eq m a bs\<close> is \<^verbatim>\<open>strcmp(a, bs) == 0\<close>, and \<open>strcpy\<close> writes the terminator too.\<close>

fun strcmp_eq :: "memory \<Rightarrow> u64 \<Rightarrow> u8 list \<Rightarrow> bool" where
  "strcmp_eq m a [] \<longleftrightarrow> m a = 0"
| "strcmp_eq m a (b # bs) \<longleftrightarrow> m a = b \<and> strcmp_eq m (a + 1) bs"

definition strcpy :: "u64 \<Rightarrow> u8 list \<Rightarrow> memory \<Rightarrow> memory" where
  "strcpy a bs m = mem_write m a (bs @ [0])"

definition EINVAL :: int where "EINVAL = 22"

definition upd_base :: "(st \<Rightarrow> st) \<Rightarrow> registry \<Rightarrow> registry" where
  "upd_base f R = R\<lparr>base := f (base R)\<rparr>"

definition on_base :: "(st \<Rightarrow> ('a, st) res) \<Rightarrow> registry \<Rightarrow> ('a, registry) res" where
  "on_base f R = (let (r, s) = f (base R) in (r, R\<lparr>base := s\<rparr>))"

partial_function (option) find_walk :: "memory \<Rightarrow> u8 list \<Rightarrow> u64 \<Rightarrow> u64 option" where
  "find_walk m name entry =
     (if entry = 0 then Some 0
      else if strcmp_eq m (entry_name m entry) name then Some (entry_sym m entry)
      else find_walk m name (entry_next m entry))"

definition registry_find :: "u8 list \<Rightarrow> registry \<Rightarrow> (u64, registry) res" where
  "registry_find name R =
     (let R = upd_base (lock_shared LRegistry) R
      in loops (find_walk (mem (base R)) name (reg_list R)) (\<lambda>retval R.
           (Inr retval, upd_base (unlock_shared LRegistry) R)) R)"

definition registry_post :: "env \<Rightarrow> u8 list \<Rightarrow> u64 \<Rightarrow> registry \<Rightarrow> (int, registry) res" where
  "registry_post E name symb =
     call (registry_find name) (\<lambda>found R.
       if found \<noteq> 0 then (Inr EINVAL, R)
       else
         let name_len = (of_nat (length name) :: u32)
         in call (on_base (sc_malloc E (sizeof_registry_entry + scast name_len + 1))) (\<lambda>newEntry.
              guard [(126, newEntry \<noteq> 0)] (\<lambda>R.
                let name_copy = newEntry + sizeof_registry_entry;
                    R = upd_base (set_mem (strcpy name_copy name)) R;
                    R = upd_base (set_mem (set_entry newEntry 8 name_copy)) R;
                    R = upd_base (set_mem (set_entry newEntry 16 symb)) R;
                    R = upd_base (lock_exclusive LRegistry) R;
                    R = upd_base (set_mem (set_entry newEntry 0 (reg_list R))) R;
                    R = R\<lparr>reg_list := newEntry\<rparr>
                in (Inr 0, upd_base (unlock_exclusive LRegistry) R))) R)"

text \<open>Addresses that the linker chose: the two functions, the struct \<^verbatim>\<open>funcs\<close> and the string constant.\<close>

record registry_image =
  addr_post :: u64
  addr_find :: u64
  addr_funcs :: u64
  addr_title :: u64

definition bytes_of :: "string \<Rightarrow> u8 list" where
  "bytes_of cs = map (\<lambda>c. of_char c) cs"

definition post_name :: "u8 list" where "post_name = bytes_of ''subcontexts_registry:post(char*,void*)''"

definition find_name :: "u8 list" where "find_name = bytes_of ''subcontexts_registry:find(char*)''"

definition registry_title :: "u8 list" where "registry_title = bytes_of ''subcontexts registry''"

text \<open>
  \<^verbatim>\<open>__subcontexts_registry_bootstrap\<close>, with the static \<^verbatim>\<open>retval\<close> as argument and result. For a first entry of
  \<^verbatim>\<open>sc_local_list\<close> that is not the modelled subcontext, \<open>other_root\<close> tells whether it is the registry and
  what its \<^verbatim>\<open>user_root\<close> is; \<open>reg_fd\<close> is the descriptor that \<^verbatim>\<open>fopen\<close> of the backing file gives, if any.
\<close>

definition sc_is_registry :: "(u64 \<Rightarrow> u64 option) \<Rightarrow> u64 \<Rightarrow> st \<Rightarrow> u64 option" where
  "sc_is_registry other_root a s =
     (if a = root_addr s
      then if descriptive_name (rt s) \<noteq> 0 \<and> strcmp_eq (mem s) (descriptive_name (rt s)) registry_title
           then Some (user_root (rt s)) else None
      else other_root a)"

definition subcontexts_registry_bootstrap ::
    "env \<Rightarrow> boot \<Rightarrow> (u64 \<Rightarrow> u64 option) \<Rightarrow> u32 option \<Rightarrow> u64 \<Rightarrow> st \<Rightarrow> (u64 \<times> u64, st) res" where
  "subcontexts_registry_bootstrap E B other_root reg_fd retval s =
     (if retval \<noteq> 0 then (Inr (retval, retval), s)
      else case (case locals s of [] \<Rightarrow> None | l # _ \<Rightarrow> sc_is_registry other_root (l_sc l) s) of
        Some r \<Rightarrow> (Inr (r, r), s)
      | None \<Rightarrow>
          (case reg_fd of
             None \<Rightarrow> (Inr (0, 0), s)
           | Some fd \<Rightarrow>
               call (sc_join E B fd) (\<lambda>regSc s.
                 if regSc = 0 then (Inr (0, 0), s)
                 else guard [(2695, strcmp_eq (mem s) (descriptive_name (rt s)) registry_title)]
                        (\<lambda>s. (Inr (user_root (rt s), user_root (rt s)), s)) s) s))"

text \<open>\<^verbatim>\<open>subcontext_main\<close> of the registry up to its endless reporting loop.\<close>

definition registry_main :: "env \<Rightarrow> boot \<Rightarrow> (u64 \<Rightarrow> u64 option) \<Rightarrow> u32 option \<Rightarrow> registry_image \<Rightarrow> registry \<Rightarrow> (unit, registry) res" where
  "registry_main E B other_root reg_fd A R =
     (let R = upd_base (lock_init LRegistry) R;
          R = R\<lparr>reg_list := 0\<rparr>
      in call (registry_post E post_name (addr_post A)) (\<lambda>_.
         call (registry_post E find_name (addr_find A)) (\<lambda>_ R.
           let R = upd_base (upd_rt (\<lambda>c. c\<lparr>descriptive_name := addr_title A, user_root := addr_funcs A\<rparr>)) R
           in call (on_base (subcontexts_registry_bootstrap E B other_root reg_fd 0)) (\<lambda>(f, _).
              guard [(72, f = addr_funcs A)] (
              call (registry_find post_name) (\<lambda>p.
              guard [(73, p = addr_post A)] (
              call (registry_find find_name) (\<lambda>q.
              guard [(74, q = addr_find A)] (\<lambda>R. (Inr (), R))))))) R)) R)"

text \<open>One round of the reporting loop that follows (lines 77 to 110): the lines that it prints, a name and a symbol for
  each entry. \<open>c_string\<close> is what \<^verbatim>\<open>%s\<close> prints.\<close>

partial_function (option) c_string :: "memory \<Rightarrow> u64 \<Rightarrow> u8 list option" where
  "c_string m a = (if m a = 0 then Some [] else Option.bind (c_string m (a + 1)) (\<lambda>bs. Some (m a # bs)))"

partial_function (option) report_walk :: "memory \<Rightarrow> u64 \<Rightarrow> (u8 list \<times> u64) list option" where
  "report_walk m entry =
     (if entry = 0 then Some []
      else Option.bind (c_string m (entry_name m entry)) (\<lambda>name.
           Option.bind (report_walk m (entry_next m entry)) (\<lambda>rest. Some ((name, entry_sym m entry) # rest))))"

definition registry_report :: "registry \<Rightarrow> ((u8 list \<times> u64) list, registry) res" where
  "registry_report R =
     (let R = upd_base (lock_shared LRegistry) R
      in loops (report_walk (mem (base R)) (reg_list R)) (\<lambda>lines R. (Inr lines, upd_base (unlock_shared LRegistry) R)) R)"

section \<open>Invariant and specification\<close>

type_synonym reg_entry = "u64 \<times> u8 list \<times> u64"

definition is_name :: "u8 list \<Rightarrow> bool" where
  "is_name bs \<longleftrightarrow> 0 \<notin> set bs \<and> length bs < 2 ^ 31"

definition entry_at :: "memory \<Rightarrow> reg_entry \<Rightarrow> bool" where
  "entry_at m = (\<lambda>(p, nm, v). entry_name m p = p + 24 \<and> entry_sym m p = v \<and> strcmp_eq m (p + 24) nm)"

text \<open>The entry is in a buffer of the heap that is large enough for it.\<close>

definition entry_buf :: "block multiset \<Rightarrow> reg_entry \<Rightarrow> bool" where
  "entry_buf L = (\<lambda>(p, nm, v). is_name nm \<and> (\<exists>n. (p, n) \<in># L \<and> 25 + length nm \<le> unat n))"

definition registry_inv :: "env \<Rightarrow> registry \<Rightarrow> reg_entry list \<Rightarrow> block multiset \<Rightarrow> bool" where
  "registry_inv E R es L \<longleftrightarrow> alloc_inv E (base R) L \<and>
     chain (entry_next (mem (base R))) (reg_list R) (map fst es) 0 \<and>
     (\<forall>e \<in> set es. entry_at (mem (base R)) e \<and> entry_buf L e)"

text \<open>The abstract registry: a finite map from names to symbols, in which 0 means absent.\<close>

definition spec_find :: "(u8 list \<rightharpoonup> u64) \<Rightarrow> u8 list \<Rightarrow> u64" where
  "spec_find M name = (case M name of None \<Rightarrow> 0 | Some v \<Rightarrow> v)"

definition spec_post :: "u8 list \<Rightarrow> u64 \<Rightarrow> (u8 list \<rightharpoonup> u64) \<Rightarrow> int \<times> (u8 list \<rightharpoonup> u64)" where
  "spec_post name v M = (if spec_find M name \<noteq> 0 then (EINVAL, M) else (0, M(name \<mapsto> v)))"

definition registry_rel :: "env \<Rightarrow> registry \<Rightarrow> block multiset \<Rightarrow> (u8 list \<rightharpoonup> u64) \<Rightarrow> bool" where
  "registry_rel E R L M \<longleftrightarrow> (\<exists>es. registry_inv E R es L \<and> M = map_of (map snd es))"

text \<open>\<^verbatim>\<open>sc_malloc\<close> will find or get a buffer of the given size.\<close>

definition malloc_enough :: "env \<Rightarrow> st \<Rightarrow> u64 \<Rightarrow> bool" where
  "malloc_enough E s sz \<longleftrightarrow> 0 \<le> sint sz \<and> (\<exists>ns live R. malloc_inv E s ns live R \<and>
     ((\<exists>a \<in> set ns. malloc_fits (malloc_alloc_size sz) (malloc_alloc_size sz + 24) (mem s) a) \<or>
      malloc_room E s (malloc_mmap_size E (malloc_alloc_size sz + 24))))"

text \<open>The memory of a new entry, written into its buffer.\<close>

definition write_entry :: "u64 \<Rightarrow> u8 list \<Rightarrow> u64 \<Rightarrow> u64 \<Rightarrow> memory \<Rightarrow> memory" where
  "write_entry p nm v nxt m = set_entry p 0 nxt (set_entry p 16 v (set_entry p 8 (p + 24) (strcpy (p + 24) nm m)))"

definition demo_registry :: registry where "demo_registry = \<lparr>base = demo_st, reg_list = 0\<rparr>"

section \<open>Lemmas\<close>

lemma upd_base_simps [simp]: "base (upd_base f R) = f (base R)" "reg_list (upd_base f R) = reg_list R"
  by (simp_all add: upd_base_def)

lemma set_mem_fields [simp]: "mem (set_mem f s) = f (mem s)" "lk (set_mem f s) = lk s"
  by (simp_all add: set_mem_def)

lemma strcmp_unique:
  assumes "strcmp_eq m a x" "strcmp_eq m a y" "0 \<notin> set x" "0 \<notin> set y" shows "x = y"
  using assms
proof (induction x arbitrary: a y)
  case Nil then show ?case by (cases y) auto
next
  case (Cons b bs) then show ?case by (cases y) auto
qed

lemma strcmp_cong:
  assumes "\<And>i. i \<le> length bs \<Longrightarrow> m' (a + of_nat i) = m (a + of_nat i)"
  shows "strcmp_eq m' a bs = strcmp_eq m a bs"
  using assms
proof (induction bs arbitrary: a)
  case Nil from Nil [of 0] show ?case by simp
next
  case (Cons b bs)
  have "m' (a + 1 + of_nat i) = m (a + 1 + of_nat i)" if "i \<le> length bs" for i
    using Cons.prems [of "Suc i"] that by (simp add: add.assoc)
  from Cons.IH [OF this] Cons.prems [of 0] show ?case by simp
qed

lemma strcpy_strcmp:
  assumes "unat a + length bs < 2 ^ 64" shows "strcmp_eq (strcpy a bs m) a bs"
proof -
  have "strcmp_eq m' b cs" if "\<And>i. i < length cs \<Longrightarrow> m' (b + of_nat i) = cs ! i" "m' (b + of_nat (length cs)) = 0" for m' b cs
    using that
  proof (induction cs arbitrary: b)
    case (Cons c cs)
    have "m' (b + 1 + of_nat i) = cs ! i" if "i < length cs" for i
      using Cons.prems(1) [of "Suc i"] that by (simp add: add.assoc)
    moreover have "m' (b + 1 + of_nat (length cs)) = 0" using Cons.prems(2) by (simp add: add.assoc)
    ultimately show ?case using Cons.IH [of "b + 1"] Cons.prems(1) [of 0] by simp
  qed simp
  then show ?thesis using assms
    by (simp add: strcpy_def mem_write_def unat_add_fits nth_append)
qed

lemma find_walk_spec:
  assumes "chain (entry_next m) cur (map fst es) 0" and "\<forall>e \<in> set es. entry_at m e \<and> entry_buf L e" and "is_name name"
  shows "find_walk m name cur = Some (spec_find (map_of (map snd es)) name)"
  using assms
proof (induction es arbitrary: cur)
  case Nil then show ?case by (subst find_walk.simps) (simp add: spec_find_def)
next
  case (Cons e es)
  obtain p nm v where e: "e = (p, nm, v)" by (cases e)
  with Cons.prems have p: "cur = p" "p \<noteq> 0" and c: "chain (entry_next m) (entry_next m p) (map fst es) 0"
    and at: "entry_name m p = p + 24" "entry_sym m p = v" "strcmp_eq m (p + 24) nm" "0 \<notin> set nm"
    by (auto simp: entry_at_def entry_buf_def is_name_def)
  show ?case
  proof (cases "nm = name")
    case True
    with p at show ?thesis by (subst find_walk.simps) (simp add: e spec_find_def)
  next
    case False
    then have "\<not> strcmp_eq m (p + 24) name" using strcmp_unique [OF at(3)] at(4) Cons.prems(3) by (auto simp: is_name_def)
    with p at Cons.IH [OF c] Cons.prems False show ?thesis
      by (subst find_walk.simps) (simp add: e spec_find_def)
  qed
qed

text \<open>An entry depends on the bytes of its own buffer only.\<close>

lemma entry_frame:
  assumes b: "(p, n) \<in># L" "25 + length nm \<le> unat n" "fits (p, n)" and eq: "\<And>x. in_block x (p, n) \<Longrightarrow> m' x = m x"
  shows "entry_next m' p = entry_next m p" "entry_at m' (p, nm, v) = entry_at m (p, nm, v)"
proof -
  have f: "unat p + unat n < 2 ^ 64" using b(3) by (simp add: fits_def)
  have at: "m' (p + of_nat i) = m (p + of_nat i)" if "i < 25 + length nm" for i
    using that b(2) f by (intro eq) (simp add: in_block_def unat_add_fits)
  have l: "load64 m' (p + of_nat k) = load64 m (p + of_nat k)" if "k + 8 \<le> 24" for k
    using at that by (intro load64_cong) (simp add: add.assoc flip: of_nat_add)
  have "m' (p + 24 + of_nat i) = m (p + 24 + of_nat i)" if "i \<le> length nm" for i
    using at [of "24 + i"] that by (simp add: add.assoc)
  then have "strcmp_eq m' (p + 24) nm = strcmp_eq m (p + 24) nm" by (rule strcmp_cong)
  with l [of 0] l [of 8] l [of 16] show "entry_next m' p = entry_next m p" "entry_at m' (p, nm, v) = entry_at m (p, nm, v)"
    by (simp_all add: entry_next_def entry_at_def entry_name_def entry_sym_def)
qed

lemma registry_frame:
  assumes inv: "registry_inv E R es L" and new: "alloc_inv E s' L'" "reg_list R' = reg_list R" "base R' = s'"
    and bufs: "\<And>e. e \<in> set es \<Longrightarrow> entry_buf L' e"
    and K: "K \<subseteq># L" "\<And>e. e \<in> set es \<Longrightarrow> entry_buf K e"
    and eq: "\<And>b x. b \<in># K \<Longrightarrow> in_block x b \<Longrightarrow> mem s' x = mem (base R) x"
  shows "registry_inv E R' es L'"
proof -
  have A: "alloc_inv E (base R) L" and c: "chain (entry_next (mem (base R))) (reg_list R) (map fst es) 0"
    and at: "\<forall>e \<in> set es. entry_at (mem (base R)) e \<and> entry_buf L e" using inv by (auto simp: registry_inv_def)
  have fr: "entry_next (mem s') p = entry_next (mem (base R)) p" "entry_at (mem s') (p, nm, v) = entry_at (mem (base R)) (p, nm, v)"
    if e: "(p, nm, v) \<in> set es" for p nm v
  proof -
    from K(2) [OF e] obtain n where n: "(p, n) \<in># K" "25 + length nm \<le> unat n" by (auto simp: entry_buf_def)
    then have "(p, n) \<in># L" using K(1) by (auto dest: mset_subset_eqD)
    then have "fits (p, n)" using sc_heap.live_fits [OF A] by fastforce
    note f = entry_frame [OF n this eq [OF n(1)]]
    from f show "entry_next (mem s') p = entry_next (mem (base R)) p" "entry_at (mem s') (p, nm, v) = entry_at (mem (base R)) (p, nm, v)"
      by simp_all
  qed
  have "chain (entry_next (mem s')) (reg_list R) (map fst es) 0 = chain (entry_next (mem (base R))) (reg_list R) (map fst es) 0"
    using fr(1) by (intro chain_cong) auto
  moreover have "entry_at (mem s') e" if "e \<in> set es" for e using fr(2) at that by (cases e) auto
  ultimately show ?thesis using new bufs c by (simp add: registry_inv_def)
qed

lemma registry_inv_lk: "registry_inv E (upd_base (log_lock e) R) es L = registry_inv E R es L"
  using alloc_inv_rt [of "log_lock e (base R)" "base R"] by (simp add: registry_inv_def)

lemma registry_rel_lk [simp]: "registry_rel E (upd_base (log_lock e) R) L M = registry_rel E R L M"
  by (simp add: registry_rel_def registry_inv_lk)

lemma registry_find_spec:
  assumes "registry_rel E R L M" "is_name name"
  shows "registry_find name R = (Inr (spec_find M name), upd_base (unlock_shared LRegistry) (upd_base (lock_shared LRegistry) R))"
proof -
  from assms obtain es where es: "registry_inv E R es L" "M = map_of (map snd es)" by (auto simp: registry_rel_def)
  then have "find_walk (mem (base R)) name (reg_list R) = Some (spec_find M name)"
    using find_walk_spec [of "mem (base R)" "reg_list R" es L name] assms(2) by (simp add: registry_inv_def)
  then show ?thesis by (simp add: registry_find_def)
qed

text \<open>The report shows every entry once, the newest first.\<close>

lemma c_string_eq: "strcmp_eq m a bs \<Longrightarrow> 0 \<notin> set bs \<Longrightarrow> c_string m a = Some bs"
  by (induction bs arbitrary: a) (subst c_string.simps, auto)+

lemma report_walk_eq:
  assumes "chain (entry_next m) cur (map fst es) 0" and "\<forall>e \<in> set es. entry_at m e \<and> entry_buf L e"
  shows "report_walk m cur = Some (map snd es)"
  using assms
proof (induction es arbitrary: cur)
  case Nil then show ?case by (subst report_walk.simps) simp
next
  case (Cons e es)
  obtain p nm v where e: "e = (p, nm, v)" by (cases e)
  with Cons.prems have "c_string m (entry_name m p) = Some nm" "entry_sym m p = v" "cur = p" "p \<noteq> 0"
    by (auto simp: entry_at_def entry_buf_def is_name_def c_string_eq)
  moreover from Cons.prems e have "report_walk m (entry_next m p) = Some (map snd es)" by (intro Cons.IH) auto
  ultimately show ?case by (subst report_walk.simps) (simp add: e)
qed

lemma registry_report_exact:
  assumes "registry_inv E R es L"
  shows "registry_report R = (Inr (map snd es), upd_base (unlock_shared LRegistry) (upd_base (lock_shared LRegistry) R))"
  using report_walk_eq [of "mem (base R)" "reg_list R" es L] assms by (simp add: registry_report_def registry_inv_def)

lemma write_entry_facts:
  assumes n: "25 + length nm \<le> unat n" "fits (p, n)"
  shows "same_outside (p, n) m (write_entry p nm v nxt m)" "entry_next (write_entry p nm v nxt m) p = nxt"
    "entry_at (write_entry p nm v nxt m) (p, nm, v)"
proof -
  have f: "unat p + unat n < 2 ^ 64" using n(2) by (simp add: fits_def)
  have u: "unat (p + 8) = unat p + 8" "unat (p + 16) = unat p + 16" "unat (p + 24) = unat p + 24"
    using f n(1) by (simp_all add: unat_off)
  show "same_outside (p, n) m (write_entry p nm v nxt m)"
    using n(1) by (auto simp: same_outside_def in_block_def write_entry_def set_entry_def strcpy_def store64_def mem_write_def u)
  show "entry_next (write_entry p nm v nxt m) p = nxt"
    using f n(1) by (simp add: write_entry_def set_entry_def entry_next_def load64_store64)
  have "strcmp_eq (write_entry p nm v nxt m) (p + 24) nm"
  proof -
    have "write_entry p nm v nxt m (p + 24 + of_nat i) = strcpy (p + 24) nm m (p + 24 + of_nat i)" if "i \<le> length nm" for i
      using that f n(1) u by (simp add: write_entry_def set_entry_def store64_outside unat_add_fits)
    then have "strcmp_eq (write_entry p nm v nxt m) (p + 24) nm = strcmp_eq (strcpy (p + 24) nm m) (p + 24) nm" by (rule strcmp_cong)
    then show ?thesis using strcpy_strcmp [of "p + 24" nm m] f n(1) u by simp
  qed
  then show "entry_at (write_entry p nm v nxt m) (p, nm, v)"
    using f n(1) u by (simp add: entry_at_def entry_name_def entry_sym_def write_entry_def set_entry_def load64_store64 load64_store64_other)
qed

lemma name_size:
  assumes "is_name name"
  shows "sizeof_registry_entry + scast (of_nat (length name) :: u32) + 1 = (25 + of_nat (length name) :: u64)"
    and "unat (25 + of_nat (length name) :: u64) = 25 + length name"
proof -
  have len: "length name < 2 ^ 31" using assms by (simp add: is_name_def)
  have "sint (of_nat (length name) :: u32) = int (length name)"
  proof -
    have "uint (of_nat (length name) :: u32) = int (length name)"
      using len by (simp add: uint_nat unat_of_nat take_bit_nat_eq_self_iff)
    then show ?thesis using len by (simp add: sint_uint signed_take_bit_int_eq_self_iff)
  qed
  then have "scast (of_nat (length name) :: u32) = (of_nat (length name) :: u64)"
    by (metis of_int_of_nat_eq of_int_sint)
  then show "sizeof_registry_entry + scast (of_nat (length name) :: u32) + 1 = (25 + of_nat (length name) :: u64)"
    by (simp add: sizeof_registry_entry_def)
  show "unat (25 + of_nat (length name) :: u64) = 25 + length name"
    using len unat_add_fits [of 25 "length name"] by simp
qed

lemma malloc_enough_ok:
  assumes "malloc_enough E s sz" "heldX (lk s') LRoot = heldX (lk s) LRoot" "rt s' = rt s" "regs s' = regs s" "mem s' = mem s"
    "freeList s' = freeList s" "locals s' = locals s" "root_addr s' = root_addr s"
  shows "\<exists>p t. sc_malloc E sz s' = (Inr p, t) \<and> p \<noteq> 0"
proof -
  from assms(1) obtain ns live R where inv: "malloc_inv E s ns live R" and sz: "0 \<le> sint sz" and
    room: "(\<exists>a \<in> set ns. malloc_fits (malloc_alloc_size sz) (malloc_alloc_size sz + 24) (mem s) a) \<or>
      malloc_room E s (malloc_mmap_size E (malloc_alloc_size sz + 24))" by (auto simp: malloc_enough_def)
  have "malloc_inv E s' ns live R" using inv malloc_inv_cong [of s' s] assms by simp
  moreover have "malloc_room E s' n = malloc_room E s n" for n
    using assms by (simp add: malloc_room_def region_core_def region_lists_def)
  ultimately show ?thesis using sc_malloc_enough [of E s' ns live R sz] sz room assms(5) malloc_new_nonnull by metis
qed

lemma registry_post_run:
  assumes es: "registry_inv E R es L" and nm: "is_name name" and absent: "spec_find (map_of (map snd es)) name = 0"
    and m: "sc_malloc E (25 + of_nat (length name)) (unlock_shared LRegistry (lock_shared LRegistry (base R))) = (Inr p, t)" "p \<noteq> 0"
  shows "\<exists>R' n. registry_post E name v R = (Inr 0, R') \<and> registry_inv E R' ((p, name, v) # es) (add_mset (p, n) L) \<and>
     25 + length name \<le> unat n \<and> (\<exists>m tr. base R' = t\<lparr>mem := m, lk := lk t @ tr\<rparr> \<and> heldX (lk t @ tr) LRoot = heldX (lk t) LRoot)"
proof -
  let ?R1 = "upd_base (unlock_shared LRegistry) (upd_base (lock_shared LRegistry) R)"
  note sz = name_size [OF nm]
  have rel: "registry_rel E R L (map_of (map snd es))" using es by (auto simp: registry_rel_def)
  have inv1: "registry_inv E ?R1 es L" using es by (simp add: registry_inv_lk)
  then have A1: "alloc_inv E (base ?R1) L" by (simp add: registry_inv_def)
  have m: "sc_malloc E (25 + of_nat (length name)) (base ?R1) = (Inr p, t)" "p \<noteq> 0" using m by simp_all
  let ?n = "usable t p"
  have A2: "alloc_inv E t (add_mset (p, ?n) L)" and n: "25 + length name \<le> unat ?n"
    using sc_heap.alloc_ok [OF A1 m] sz(2) by (auto simp: word_le_nat_alt)
  have fits: "fits (p, ?n)" using sc_heap.live_fits [OF A2, of "(p, ?n)"] by simp
  let ?m = "write_entry p name v (reg_list R) (mem t)"
  note w = write_entry_facts [OF n fits, where m = "mem t" and v = v and nxt = "reg_list R"]
  define R' where "R' = upd_base (unlock_exclusive LRegistry) (\<lparr>base = (lock_exclusive LRegistry t)\<lparr>mem := ?m\<rparr>, reg_list = p\<rparr>)"
  have run: "registry_post E name v R = (Inr 0, R')"
    unfolding registry_post_def using registry_find_spec [OF rel nm] absent m sz(1)
    by (simp add: on_base_def Let_def R'_def upd_base_def set_mem_def write_entry_def sizeof_registry_entry_def log_lock_def)
  have A3: "alloc_inv E (base R') (add_mset (p, ?n) L)"
    using sc_heap.put_ok [OF A2 _ w(1)] alloc_inv_rt [of "base R'" "t\<lparr>mem := ?m\<rparr>"] by (simp add: R'_def)
  have old: "registry_inv E (R'\<lparr>reg_list := reg_list R\<rparr>) es (add_mset (p, ?n) L)"
  proof (rule registry_frame [OF inv1])
    show "alloc_inv E (base R') (add_mset (p, ?n) L)" by (rule A3)
    show "entry_buf (add_mset (p, ?n) L) e" if "e \<in> set es" for e
      using inv1 that by (cases e) (auto simp: registry_inv_def entry_buf_def)
    show "entry_buf L e" if "e \<in> set es" for e using inv1 that by (simp add: registry_inv_def)
    show "mem (base R') x = mem (base ?R1) x" if b: "b \<in># L" "in_block x b" for b x
    proof -
      have "apart b (p, ?n)" using sc_heap.live_apart [OF A2] b(1) by (simp add: apart_sym [of _ "(p, usable t p)"])
      then have "\<not> in_block x (p, ?n)" using b(2) apart_not_in by blast
      then have "mem (base R') x = mem t x" using w(1) by (simp add: R'_def same_outside_def)
      with sc_heap.alloc_frame [OF A1 m(1) b] show ?thesis by simp
    qed
  qed simp_all
  have "registry_inv E R' ((p, name, v) # es) (add_mset (p, ?n) L)"
    using old w(2,3) m(2) nm n by (auto simp: registry_inv_def R'_def entry_buf_def)
  moreover have "base R' = t\<lparr>mem := ?m, lk := lk t @ [LkExcl LRegistry, UnExcl LRegistry]\<rparr>" by (simp add: R'_def log_lock_def)
  moreover have "heldX (lk t @ [LkExcl LRegistry, UnExcl LRegistry]) LRoot = heldX (lk t) LRoot" by (simp add: lock_simps)
  ultimately show ?thesis using run n by blast
qed

lemma registry_post_new:
  assumes "registry_inv E R es L" and "is_name name" and "spec_find (map_of (map snd es)) name = 0"
    and room: "malloc_enough E (base R) (25 + of_nat (length name))"
  shows "\<exists>R' p n. registry_post E name v R = (Inr 0, R') \<and> registry_inv E R' ((p, name, v) # es) (add_mset (p, n) L) \<and>
     25 + length name \<le> unat n"
proof -
  from malloc_enough_ok [OF room, of "unlock_shared LRegistry (lock_shared LRegistry (base R))"] obtain p t where
    "sc_malloc E (25 + of_nat (length name)) (unlock_shared LRegistry (lock_shared LRegistry (base R))) = (Inr p, t)" "p \<noteq> 0"
    by (auto simp: lock_simps)
  from registry_post_run [OF assms(1-3) this] show ?thesis by blast
qed

lemma demo_registry_rel: "registry_rel demo_env demo_registry {#} Map.empty"
  using demo_heap by (auto simp: registry_rel_def registry_inv_def demo_registry_def alloc_inv_def intro!: exI [of _ "[]"])

lemma demo_enough: "malloc_enough demo_env demo_st 28"
  unfolding malloc_enough_def
proof (intro conjI exI disjI2)
  show "0 \<le> sint (28 :: u64)" by (simp add: sint_nonneg_unat)
  show "malloc_inv demo_env demo_st [] {#} {#(0x1000, 0x1000), (0x2000, 0x2000)#}" by (rule demo_heap)
  show "malloc_room demo_env demo_st (malloc_mmap_size demo_env (malloc_alloc_size 28 + 24))"
    using demo_room by (simp add: malloc_mmap_size_def malloc_split_size_def malloc_alloc_size_def)
qed

section \<open>Properties\<close>

text \<open>C14: The registry refines a finite map: posting a name answers EINVAL and changes nothing when the name is taken
  by a non-NULL symbol, and otherwise answers 0 and binds it, in an entry that occupies one more
  buffer of the heap; after that, a lookup of any name answers exactly what the map holds.\<close>

theorem registry_refines_map:
  assumes "registry_rel E R L M" and "is_name name" and "malloc_enough E (base R) (25 + of_nat (length name))"
  shows "\<exists>R' L'. registry_post E name v R = (Inr (fst (spec_post name v M)), R') \<and>
     registry_rel E R' L' (snd (spec_post name v M)) \<and> L \<subseteq># L' \<and>
     (\<forall>nm. is_name nm \<longrightarrow> (\<exists>R''. registry_find nm R' = (Inr (spec_find (snd (spec_post name v M)) nm), R'') \<and>
        registry_rel E R'' L' (snd (spec_post name v M))))"
proof -
  have "\<exists>R' L'. registry_post E name v R = (Inr (fst (spec_post name v M)), R') \<and>
     registry_rel E R' L' (snd (spec_post name v M)) \<and> L \<subseteq># L'"
  proof (cases "spec_find M name = 0")
    case True
    from assms(1) obtain es where es: "registry_inv E R es L" "M = map_of (map snd es)" by (auto simp: registry_rel_def)
    from registry_post_new [OF es(1) assms(2) True [unfolded es(2)] assms(3)] obtain R' p n where
      R': "registry_post E name v R = (Inr 0, R')" "registry_inv E R' ((p, name, v) # es) (add_mset (p, n) L)" by blast
    then have "registry_rel E R' (add_mset (p, n) L) (M(name \<mapsto> v))" unfolding registry_rel_def
      by (intro exI [of _ "(p, name, v) # es"]) (simp add: es(2))
    then show ?thesis using True R'(1) by (intro exI [of _ R'] exI [of _ "add_mset (p, n) L"]) (simp add: spec_post_def)
  next
    case False
    then show ?thesis using registry_find_spec [OF assms(1,2)] assms(1)
      by (intro exI [of _ "upd_base (unlock_shared LRegistry) (upd_base (lock_shared LRegistry) R)"] exI [of _ L])
        (simp add: registry_post_def spec_post_def)
  qed
  then obtain R' L' where R': "registry_post E name v R = (Inr (fst (spec_post name v M)), R')"
    "registry_rel E R' L' (snd (spec_post name v M))" "L \<subseteq># L'" by blast
  have "\<exists>R''. registry_find nm R' = (Inr (spec_find (snd (spec_post name v M)) nm), R'') \<and> registry_rel E R'' L' (snd (spec_post name v M))"
    if "is_name nm" for nm using registry_find_spec [OF R'(2) that] R'(2) by simp
  with R' show ?thesis by blast
qed

theorem registry_refines_map_witness:
  "\<exists>R' R''. registry_post demo_env [0x61, 0x62, 0x63] 77 demo_registry = (Inr 0, R') \<and>
     registry_find [0x61, 0x62, 0x63] R' = (Inr 77, R'')"
proof -
  have n: "is_name [0x61, 0x62, 0x63]" by (simp add: is_name_def)
  have "malloc_enough demo_env (base demo_registry) (25 + of_nat (length [0x61, 0x62, 0x63 :: u8]))"
    using demo_enough by (simp add: demo_registry_def)
  from registry_refines_map [OF demo_registry_rel n this, of 77] n show ?thesis by (fastforce simp: spec_post_def spec_find_def)
qed

text \<open>C25: Whatever the other users of the subcontext heap allocate, free and write in their own buffers, every lookup
  in the registry keeps its answer.\<close>

theorem registry_survives_heap:
  assumes "registry_inv E R es (K + L)" and "\<forall>e \<in> set es. entry_buf K e" and "is_name name"
    and "heap_run (sc_malloc E) sc_free usable mem (\<lambda>m s. s\<lparr>mem := m\<rparr>) (base R) L t N"
  shows "registry_inv E (R\<lparr>base := t\<rparr>) es (K + N) \<and>
     (\<exists>R'. registry_find name (R\<lparr>base := t\<rparr>) = (Inr (spec_find (map_of (map snd es)) name), R'))"
proof -
  have A: "alloc_inv E (base R) (K + L)" using assms(1) by (simp add: registry_inv_def)
  note run = sc_heap.run_keeps [OF assms(4) A]
  have "registry_inv E (R\<lparr>base := t\<rparr>) es (K + N)"
  proof (rule registry_frame [OF assms(1), where s' = t and K = K])
    show "entry_buf (K + N) e" if "e \<in> set es" for e using assms(2) that by (fastforce simp: entry_buf_def)
  qed (use run assms(2) in auto)
  then show ?thesis using registry_find_spec [of E "R\<lparr>base := t\<rparr>" "K + N" "map_of (map snd es)" name] assms(3)
    by (auto simp: registry_rel_def)
qed

theorem registry_survives_heap_witness:
  "\<exists>R' R'' t. registry_post boot_env [0x61, 0x62, 0x63] 77 \<lparr>base = demo_join_st 0x2040, reg_list = 0\<rparr> = (Inr 0, R') \<and>
     sc_free 0x2010 ((base R')\<lparr>mem := (mem (base R'))(0x2010 := 42)\<rparr>) = (Inr (), t) \<and>
     registry_find [0x61, 0x62, 0x63] (R'\<lparr>base := t\<rparr>) = (Inr 77, R'')"
proof -
  let ?R = "\<lparr>base = demo_join_st 0x2040, reg_list = 0\<rparr>" and ?nm = "[0x61, 0x62, 0x63] :: u8 list" and ?b = "(0x2010, 40) :: block"
  have A: "alloc_inv boot_env (demo_join_st 0x2040) {#?b#}"
    unfolding alloc_inv_def by (rule exI [of _ "[0x2040]"], rule exI [of _ "{#(0x2000, 64)#}"], rule exI, rule conjI, rule demo_join_heap(1)) (simp add: payload_def)
  have nm: "is_name ?nm" by (simp add: is_name_def)
  have len: "node_len (mem (demo_join_st 0x2040)) 0x2040 = 0x1fc0"
    by (simp add: node_len_def demo_join_st_def load64_store64 load64_store64_other)
  have room: "malloc_enough boot_env (base ?R) (25 + of_nat (length ?nm))"
    unfolding malloc_enough_def
    by (intro conjI exI [of _ "[0x2040]"] exI disjI1, simp add: sint_nonneg_unat, simp, rule demo_join_heap(1))
      (simp add: len malloc_fits_def malloc_alloc_size_def)
  have "registry_inv boot_env ?R [] {#?b#}" using A by (simp add: registry_inv_def)
  from registry_post_new [OF this nm _ room, of 77] obtain R' p n where
    R': "registry_post boot_env ?nm 77 ?R = (Inr 0, R')" "registry_inv boot_env R' [(p, ?nm, 77)] {#(p, n), ?b#}" "28 \<le> unat n"
    by (auto simp: spec_find_def)
  let ?s = "(base R')\<lparr>mem := (mem (base R'))(0x2010 := 42)\<rparr>"
  have w: "same_outside ?b (mem (base R')) ((mem (base R'))(0x2010 := 42))" by (simp add: same_outside_def in_block_def)
  have A': "alloc_inv boot_env (base R') {#(p, n), ?b#}" using R'(2) by (simp add: registry_inv_def)
  from sc_heap.put_ok [OF this _ w] have "alloc_inv boot_env ?s (add_mset ?b {#(p, n)#})" by (simp add: add_mset_commute)
  from sc_heap.release_ok [OF this] obtain t where t: "sc_free 0x2010 ?s = (Inr (), t)" by auto
  let ?H = "heap_run (sc_malloc boot_env) sc_free usable mem (\<lambda>m s. s\<lparr>mem := m\<rparr>) (base R') {#?b#}"
  have 1: "?H (base R') {#?b#}" by (rule heap_run.start)
  have 2: "?H ?s {#?b#}" by (rule heap_run.overwrite [OF 1 _ w]) simp
  have run: "?H t {#}" by (rule heap_run.release [of _ _ _ _ _ _ _ _ ?b, OF 2]) (simp add: t)
  have inv: "registry_inv boot_env R' [(p, ?nm, 77)] ({#(p, n)#} + {#?b#})" using R'(2) by (simp add: add_mset_commute)
  have "\<forall>e \<in> set [(p, ?nm, 77)]. entry_buf {#(p, n)#} e" using nm R'(3) by (simp add: entry_buf_def)
  from registry_survives_heap [OF inv this nm run] obtain R'' where "registry_find ?nm (R'\<lparr>base := t\<rparr>) = (Inr 77, R'')"
    by (auto simp: spec_find_def)
  with R'(1) t show ?thesis by blast
qed

end
