(* ===== verification/SC_Loader.thy ===== *)
theory SC_Loader
  imports SC_Registry
begin

text \<open>
  The loader \<^verbatim>\<open>subcontexts_init\<close> (\<^verbatim>\<open>trunk/subcontexts_init.c\<close>), which opens an application as a shared library,
  creates a subcontext and imports the pages of the process into it.

  \<^verbatim>\<open>russ_parseProcMaps\<close> is not in the repository; it is a parameter of \<open>init_main\<close>, one for the first pass, which
  reads the copy of \<^verbatim>\<open>/proc/self/maps\<close> taken before the subcontext was created, and one for the later
  passes, which read the file itself. \<open>parse_ok\<close> states what the loader relies on: the callback is called for
  every line in turn.
\<close>

section \<open>Definitions\<close>

text \<open>The arguments of the callback: one line of \<^verbatim>\<open>/proc/self/maps\<close>.\<close>

record map_line =
  m_start :: u64
  m_end :: u64
  isR :: bool
  isW :: bool
  isX :: bool
  isP :: bool
  fileOffset :: u64
  devno :: "16 word"
  inode :: u64
  desc :: "string option"

text \<open>\<^verbatim>\<open>struct mapScanCallback_priv\<close>, with the state of the subcontext \<^verbatim>\<open>targSc\<close> and, of each ignored file, device
  and inode.\<close>

record scan =
  targ :: st
  rw_p_only :: bool
  ignoreFile1 :: "u64 \<times> u64"
  ignoreFile2 :: "u64 \<times> u64"
  importCount :: u32
  killed :: bool

definition on_targ :: "(st \<Rightarrow> ('a, st) res) \<Rightarrow> scan \<Rightarrow> ('a, scan) res" where
  "on_targ f t = (let (r, s) = f (targ t) in (r, t\<lparr>targ := s\<rparr>))"

definition is_file :: "map_line \<Rightarrow> u64 \<times> u64 \<Rightarrow> bool" where
  "is_file m fid \<longleftrightarrow> ucast (devno m) = fst fid \<and> inode m = snd fid"

definition line_prot :: "map_line \<Rightarrow> u32" where
  "line_prot m = (if isR m then PROT_READ else 0) OR (if isW m then PROT_WRITE else 0) OR (if isX m then PROT_EXEC else 0)"

definition mapScanCallback :: "env \<Rightarrow> map_line \<Rightarrow> scan \<Rightarrow> (bool, scan) res" where
  "mapScanCallback E m t =
     (if is_file m (ignoreFile1 t) then guard [(312, isP m)] (\<lambda>t. (Inr True, t)) t
      else if is_file m (ignoreFile2 t) then guard [(317, \<not> isP m)] (\<lambda>t. (Inr True, t)) t
      else guard [(320, isP m)] (\<lambda>t.
        if (case desc m of None \<Rightarrow> False | Some d \<Rightarrow> d \<noteq> [] \<and> hd d = CHR ''['') then (Inr True, t)
        else if rw_p_only t \<and> (\<not> isR m \<or> \<not> isW m \<or> isX m \<or> \<not> isP m) then (Inr True, t)
        else
          let done = (\<lambda>rc t. if rc \<noteq> 0 then (Inr False, t\<lparr>killed := True\<rparr>)
                             else (Inr True, t\<lparr>importCount := importCount t + 1\<rparr>))
          in if \<not> isR m
             then guard [(347, \<not> isW m), (348, \<not> isX m)]
                    (call (on_targ (sc_import_protNone E (m_start m) (m_end m - m_start m))) done) t
             else call (on_targ (sc_import E (m_start m) (m_end m - m_start m) (line_prot m))) done t) t)"



type_synonym maps_parser = "(map_line \<Rightarrow> scan \<Rightarrow> (bool, scan) res) \<Rightarrow> scan \<Rightarrow> (int, scan) res"

text \<open>The loop of the second pass (lines 265 to 280): the result is 1 after a failed import, 0 when a pass
  imported nothing.\<close>

partial_function (option) second_pass :: "env \<Rightarrow> maps_parser \<Rightarrow> scan \<Rightarrow> ((int, scan) res) option" where
  "second_pass E parse t =
     (case parse (mapScanCallback E) (t\<lparr>rw_p_only := True, importCount := 0\<rparr>) of
        (Inl e, t) \<Rightarrow> Some (Inl e, t)
      | (Inr _, t) \<Rightarrow>
          if killed t then Some (Inr 1, t)
          else if sint (importCount t) > 0 then second_pass E parse t
          else Some (Inr 0, t))"




section \<open>The scan of a maps file\<close>

text \<open>The callback on every line in turn, as long as it returns true.\<close>

fun all_lines :: "(map_line \<Rightarrow> scan \<Rightarrow> (bool, scan) res) \<Rightarrow> map_line list \<Rightarrow> scan \<Rightarrow> (bool, scan) res" where
  "all_lines cb [] t = (Inr True, t)"
| "all_lines cb (m # ms) t = call (cb m) (\<lambda>go t. if go then all_lines cb ms t else (Inr False, t)) t"

text \<open>A parser that hands every line of the file to the callback, when the callback accepts them all.\<close>

definition parse_ok :: "maps_parser \<Rightarrow> (scan \<Rightarrow> map_line list) \<Rightarrow> bool" where
  "parse_ok parse lns \<longleftrightarrow> (\<forall>cb t t'. all_lines cb (lns t) t = (Inr True, t') \<longrightarrow> (\<exists>n. parse cb t = (Inr n, t')))"

definition bracketed :: "map_line \<Rightarrow> bool" where
  "bracketed m \<longleftrightarrow> (case desc m of None \<Rightarrow> False | Some d \<Rightarrow> d \<noteq> [] \<and> hd d = CHR ''['')"

text \<open>The lines whose range is imported.\<close>

definition wanted :: "scan \<Rightarrow> map_line \<Rightarrow> bool" where
  "wanted t m \<longleftrightarrow> \<not> is_file m (ignoreFile1 t) \<and> \<not> is_file m (ignoreFile2 t) \<and> \<not> bracketed m \<and>
     (rw_p_only t \<longrightarrow> isR m \<and> isW m \<and> \<not> isX m)"

definition line_range :: "map_line \<Rightarrow> block" where
  "line_range m = (m_start m, m_end m - m_start m)"

text \<open>Lines as Linux writes them: the loader's own file is mapped privately and the backing file shared, all
  other mappings are private, ranges are made of pages, and no range is both writable and executable.\<close>

definition line_ok :: "env \<Rightarrow> scan \<Rightarrow> map_line \<Rightarrow> bool" where
  "line_ok E t m \<longleftrightarrow> isP m = (is_file m (ignoreFile1 t) \<or> \<not> is_file m (ignoreFile2 t)) \<and>
     (isR m \<longrightarrow> \<not> (isW m \<and> isX m)) \<and> (\<not> isR m \<longrightarrow> \<not> isW m \<and> \<not> isX m) \<and>
     m_start m mod getpagesize E = 0 \<and> (m_end m - m_start m) mod getpagesize E = 0 \<and>
     m_start m \<noteq> 0 \<and> 0 < m_end m - m_start m \<and> fits (line_range m)"

text \<open>The kernel grants what the imports of the lines ask for, for every file offset up to \<open>lim\<close>, while the process
  uses at most the addresses \<open>D\<close>, among them those of the line.\<close>

definition line_granted :: "env \<Rightarrow> u64 set \<Rightarrow> u32 \<Rightarrow> nat \<Rightarrow> map_line \<Rightarrow> bool" where
  "line_granted E D fd lim m \<longleftrightarrow> (\<forall>x. in_block x (line_range m) \<longrightarrow> x \<in> D) \<and>
     (if isR m then \<forall>off. unat off + unat (snd (line_range m)) \<le> lim \<longrightarrow>
        import_granted E D (m_start m) (snd (line_range m)) (line_prot m) fd off
      else \<forall>vm. os_mmap E vm \<lparr>q_addr = m_start m, q_len = snd (line_range m), q_prot = PROT_NONE,
        q_flags = MAP_PRIVATE OR MAP_FIXED OR MAP_ANONYMOUS, q_fd = - 1, q_off = 0\<rparr> = m_start m)"

definition file_need :: "map_line \<Rightarrow> nat" where
  "file_need m = (if isR m then unat (snd (line_range m)) else 0)"

text \<open>The state in which the loader imports: one process that uses at most the addresses \<open>D\<close>, a local struct, and the
  private pages \<open>pv\<close>.\<close>

definition importing :: "env \<Rightarrow> u64 set \<Rightarrow> u32 \<Rightarrow> (u64 \<Rightarrow> u8) \<Rightarrow> st \<Rightarrow> u64 list \<Rightarrow> u64 list \<Rightarrow> u64 list \<Rightarrow> bool" where
  "importing E D fd pv s act rsv fre \<longleftrightarrow> dom (vmap s) \<subseteq> D \<and> region_wf E s act rsv fre \<and> 2 \<le> length act \<and> proc_count (rt s) = 1 \<and>
     lock_query_ok E \<and> 0 \<le> heldX (lk s) LRoot \<and> priv s = pv \<and>
     (\<exists>l. find (\<lambda>l. l_sc l = root_addr s) (locals s) = Some l \<and> l_shm_file l = fd)"

definition ranges :: "st \<Rightarrow> u64 list \<Rightarrow> block multiset" where
  "ranges s ps = mset (map (region_range (regs s)) ps)"

section \<open>Lemmas\<close>

definition same_private :: "st \<Rightarrow> st \<Rightarrow> bool" where
  "same_private s s' \<longleftrightarrow> priv s' = priv s \<and> locals s' = locals s \<and> root_addr s' = root_addr s"

text \<open>What one import of the scan does to the subcontext.\<close>

definition imported :: "env \<Rightarrow> u64 set \<Rightarrow> u32 \<Rightarrow> (u64 \<Rightarrow> u8) \<Rightarrow> map_line \<Rightarrow> st \<Rightarrow> u64 list \<Rightarrow> u64 list \<Rightarrow> u64 list \<Rightarrow> st \<Rightarrow> bool" where
  "imported E D fd pv m s act rsv fre s' \<longleftrightarrow> (\<exists>act'. importing E D fd pv s' act' rsv fre \<and>
     ranges s' act' = add_mset (line_range m) (ranges s act)) \<and> ranges s' rsv = ranges s rsv \<and>
     unat (tmpfile_size (rt s')) = unat (tmpfile_size (rt s)) + file_need m \<and>
     mem s' = (if isR m then fill (mem s) (line_range m) pv else mem s)"

text \<open>The state after a pass over the lines \<open>ms\<close>.\<close>

definition scanned :: "env \<Rightarrow> u64 set \<Rightarrow> u32 \<Rightarrow> (u64 \<Rightarrow> u8) \<Rightarrow> map_line list \<Rightarrow> scan \<Rightarrow> u64 list \<Rightarrow> u64 list \<Rightarrow> scan \<Rightarrow> bool" where
  "scanned E D fd pv ms t act rsv t' \<longleftrightarrow>
     (let ws = filter (wanted t) ms
      in (\<exists>act' fre'. importing E D fd pv (targ t') act' rsv fre' \<and>
            ranges (targ t') act' = ranges (targ t) act + mset (map line_range ws)) \<and>
         t' = t\<lparr>targ := targ t', importCount := importCount t + of_nat (length ws)\<rparr> \<and>
         (\<forall>m \<in> set ws. isR m \<longrightarrow> (\<forall>x. in_block x (line_range m) \<longrightarrow> mem (targ t') x = pv x)) \<and>
         (\<forall>x. (\<forall>m \<in> set ws. \<not> in_block x (line_range m)) \<longrightarrow> mem (targ t') x = mem (targ t) x))"

text \<open>When the parser returns, it has called the callback on lines in turn, until the end or a false answer.\<close>

definition parse_runs :: "maps_parser \<Rightarrow> bool" where
  "parse_runs parse \<longleftrightarrow> (\<forall>cb t n t'. parse cb t = (Inr n, t') \<longrightarrow> (\<exists>ms go. all_lines cb ms t = (Inr go, t')))"

definition demo_parse :: "map_line list \<Rightarrow> maps_parser" where
  "demo_parse ms cb t = (case all_lines cb ms t of (Inl e, t') \<Rightarrow> (Inl e, t') | (Inr _, t') \<Rightarrow> (Inr (int (length ms)), t'))"

definition demo_lines :: "map_line list" where
  "demo_lines = [\<lparr>m_start = 0x5000, m_end = 0x6000, isR = True, isW = True, isX = False, isP = True, fileOffset = 0, devno = 0, inode = 0, desc = None\<rparr>,
     \<lparr>m_start = 0x8000, m_end = 0x9000, isR = True, isW = False, isX = True, isP = True, fileOffset = 0, devno = 1, inode = 8, desc = Some ''exe''\<rparr>,
     \<lparr>m_start = 0xa000, m_end = 0xb000, isR = False, isW = False, isX = False, isP = True, fileOffset = 0, devno = 1, inode = 9, desc = Some ''lib''\<rparr>,
     \<lparr>m_start = 0xc000, m_end = 0xd000, isR = True, isW = True, isX = False, isP = True, fileOffset = 0, devno = 0, inode = 0, desc = Some ''[stack]''\<rparr>]"

definition demo_scan :: scan where
  "demo_scan = \<lparr>targ = demo_st, rw_p_only = False, ignoreFile1 = (1, 8), ignoreFile2 = (1, 7), importCount = 0, killed = False\<rparr>"

lemma getFreeRegion_private: "sc_getFreeRegion E s = (r, s') \<Longrightarrow> same_private s s'"
  by (auto simp: sc_getFreeRegion_def guard_def deref_def Let_def put_region_def upd_rt_def same_private_def
      split: option.splits if_splits)

lemma import_copy_private: "sc_import_copy E addr len prot off s = (r, s') \<Longrightarrow> same_private s s'"
  by (auto simp: sc_import_copy_def lookupScLocal_eq Let_def sys_ftruncate_def sys_mmap_def sys_munmap_def log_lock_def same_private_def
      split: option.splits if_splits)

lemma import_post_private: "sc_import_post E addr len prot reg s = (r, s') \<Longrightarrow> same_private s s'"
  by (auto simp: sc_import_post_def deref_def Let_def put_region_def upd_rt_def log_lock_def same_private_def
      split: option.splits dest!: import_copy_private)

lemma sc_import_private:
  assumes "sc_import E addr len prot s = (r, s')"
  shows "priv s' = priv s \<and> locals s' = locals s \<and> root_addr s' = root_addr s"
  using assms unfolding sc_import_def guard_def loops_def call_def Let_def
  by (auto simp: log_lock_def same_private_def split: option.splits if_splits prod.splits sum.splits
      dest!: getFreeRegion_private import_post_private)

lemma sc_import_protNone_private:
  assumes "sc_import_protNone E addr len s = (r, s')"
  shows "priv s' = priv s \<and> locals s' = locals s \<and> root_addr s' = root_addr s"
  using assms
  by (auto simp: sc_import_protNone_def guard_def call_def deref_def Let_def sc_getFreeRegion_def
      sys_mmap_def put_region_def upd_rt_def log_lock_def split: option.splits if_splits prod.splits sum.splits)

lemma callback_skip:
  assumes "line_ok E t m" "\<not> wanted t m" shows "mapScanCallback E m t = (Inr True, t)"
  using assms by (auto simp: mapScanCallback_def line_ok_def wanted_def bracketed_def)

lemma line_prot_cases:
  assumes "line_ok E t m" "isR m"
  shows "line_prot m = PROT_READ \<or> line_prot m = (PROT_READ OR PROT_WRITE) \<or> line_prot m = (PROT_READ OR PROT_EXEC)"
  using assms by (auto simp: line_prot_def line_ok_def)

lemma ranges_new:
  assumes "\<forall>p. p \<noteq> f \<longrightarrow> region_range (regs s') p = region_range (regs s) p" "f \<notin> set ps"
  shows "ranges s' ps = ranges s ps"
  using assms unfolding ranges_def by (intro arg_cong [where f = mset] map_cong) auto

lemma import_step:
  assumes imp: "importing E D fd pv s act rsv (f # g # fre)" and ok: "line_ok E t m" and r: "isR m"
    and clear: "\<forall>p \<in> set (act @ rsv). apart (line_range m) (region_range (regs s) p)"
    and gr: "line_granted E D fd lim m" and lim: "unat (tmpfile_size (rt s)) + file_need m \<le> lim" "lim < 2 ^ 64"
  shows "\<exists>s'. sc_import E (m_start m) (m_end m - m_start m) (line_prot m) s = (Inr 0, s') \<and> imported E D fd pv m s act rsv (g # fre) s'"
proof -
  let ?a = "m_start m" and ?n = "m_end m - m_start m"
  from imp obtain l where wf: "region_wf E s act rsv (f # g # fre)" and l: "find (\<lambda>l. l_sc l = root_addr s) (locals s) = Some l" "l_shm_file l = fd"
    and st: "proc_count (rt s) = 1" "lock_query_ok E" "0 \<le> heldX (lk s) LRoot" "priv s = pv" "2 \<le> length act" "dom (vmap s) \<subseteq> D" by (auto simp: importing_def)
  have al: "?a mod getpagesize E = 0" "?n mod getpagesize E = 0" "?a \<noteq> 0" "0 < ?n" "fits (?a, ?n)"
    using ok by (auto simp: line_ok_def line_range_def)
  have need: "file_need m = unat ?n" using r by (simp add: file_need_def line_range_def)
  have g': "import_granted E D ?a ?n (line_prot m) (l_shm_file l) (tmpfile_size (rt s))"
    using gr r lim(1) need l(2) by (auto simp: line_granted_def line_range_def)
  have room: "unat (tmpfile_size (rt s)) + unat ?n < 2 ^ 64" using lim need by simp
  from sc_import_works [OF wf al line_prot_cases [OF ok r] clear [unfolded line_range_def] st(1-3) l(1) g' st(6) room] obtain s' where
    run: "sc_import E ?a ?n (line_prot m) s = (Inr 0, s')" and wf': "region_wf E s' (act @ [f]) rsv (g # fre)"
    and s': "region_range (regs s') f = (?a, ?n)" "mem s' = fill (mem s) (?a, ?n) (priv s)" "heldX (lk s') LRoot = heldX (lk s) LRoot"
      "rt s' = import_rt ?n s" and old: "\<forall>p. p \<noteq> f \<longrightarrow> region_range (regs s') p = region_range (regs s) p"
    and D: "dom (vmap s') \<subseteq> D \<union> {x. in_block x (?a, ?n)}" by blast
  have D': "dom (vmap s') \<subseteq> D" using D gr by (auto simp: line_granted_def line_range_def)
  have f: "f \<notin> set act" "f \<notin> set rsv" using wf by (auto simp: region_wf_def region_core_def region_lists_def)
  have "importing E D fd pv s' (act @ [f]) rsv (g # fre)"
    using wf' st s' l D' sc_import_private [OF run] by (simp add: importing_def import_rt_def)
  moreover have "ranges s' (act @ [f]) = add_mset (line_range m) (ranges s act)"
    using ranges_new [OF old f(1)] s'(1) by (simp add: ranges_def line_range_def)
  moreover have "unat (tmpfile_size (rt s')) = unat (tmpfile_size (rt s)) + file_need m"
    using room need by (simp add: s'(4) import_rt_def unat_off)
  ultimately have "imported E D fd pv m s act rsv (g # fre) s'"
    unfolding imported_def using ranges_new [OF old f(2)] s'(2) st(4) r by (auto simp: line_range_def)
  with run show ?thesis by blast
qed

lemma import_none_step:
  assumes imp: "importing E D fd pv s act rsv (f # g # fre)" and ok: "line_ok E t m" and r: "\<not> isR m"
    and clear: "\<forall>p \<in> set (act @ rsv). apart (line_range m) (region_range (regs s) p)"
    and gr: "line_granted E D fd lim m"
  shows "\<exists>s'. sc_import_protNone E (m_start m) (m_end m - m_start m) s = (Inr 0, s') \<and> imported E D fd pv m s act rsv (g # fre) s'"
proof -
  let ?a = "m_start m" and ?n = "m_end m - m_start m"
  from imp obtain a b act' where act: "act = a # b # act'" by (auto simp: importing_def numeral_2_eq_2 Suc_le_length_iff)
  from imp obtain l where wf: "region_wf E s (a # b # act') rsv (f # g # fre)" and l: "find (\<lambda>l. l_sc l = root_addr s) (locals s) = Some l" "l_shm_file l = fd"
    and st: "proc_count (rt s) = 1" "lock_query_ok E" "0 \<le> heldX (lk s) LRoot" "priv s = pv" "dom (vmap s) \<subseteq> D" by (auto simp: importing_def act)
  have al: "?a mod getpagesize E = 0" "?n mod getpagesize E = 0" "?a \<noteq> 0" "0 < ?n" "fits (?a, ?n)"
    using ok by (auto simp: line_ok_def line_range_def)
  have g': "os_mmap E vm \<lparr>q_addr = ?a, q_len = ?n, q_prot = PROT_NONE,
        q_flags = MAP_PRIVATE OR MAP_FIXED OR MAP_ANONYMOUS, q_fd = - 1, q_off = 0\<rparr> = ?a" for vm
    using gr r by (simp add: line_granted_def line_range_def)
  from sc_import_protNone_works [OF wf al clear [unfolded line_range_def act] st(1-3) g'] obtain s' where
    run: "sc_import_protNone E ?a ?n s = (Inr 0, s')" and wf': "region_wf E s' (a # f # b # act') rsv (g # fre)"
    and s': "region_range (regs s') f = (?a, ?n)" "mem s' = mem s" "heldX (lk s') LRoot = heldX (lk s) LRoot"
      "rt s' = (rt s)\<lparr>free_structs := g\<rparr>" and old: "\<forall>p. p \<noteq> f \<longrightarrow> region_range (regs s') p = region_range (regs s) p"
    and D: "dom (vmap s') \<subseteq> dom (vmap s) \<union> {x. in_block x (?a, ?n)}" by (auto simp: list.simps)
  have D': "dom (vmap s') \<subseteq> D" using D gr st(5) by (auto simp: line_granted_def line_range_def)
  have f: "f \<notin> set act" "f \<notin> set rsv" using wf by (auto simp: act region_wf_def region_core_def region_lists_def)
  have "importing E D fd pv s' (a # f # b # act') rsv (g # fre)"
    using wf' st s' l D' sc_import_protNone_private [OF run] by (simp add: importing_def)
  moreover have "ranges s' (a # f # b # act') = add_mset (line_range m) (ranges s act)"
    using ranges_new [OF old f(1)] s'(1) by (simp add: ranges_def line_range_def act add_mset_commute)
  ultimately have "imported E D fd pv m s act rsv (g # fre) s'"
    unfolding imported_def using ranges_new [OF old f(2)] s' r by (auto simp: file_need_def)
  with run show ?thesis by blast
qed

lemma callback_import:
  assumes imp: "importing E D fd pv (targ t) act rsv (f # g # fre)" and ok: "line_ok E t m" and w: "wanted t m"
    and clear: "\<forall>p \<in> set (act @ rsv). apart (line_range m) (region_range (regs (targ t)) p)"
    and gr: "line_granted E D fd lim m" and lim: "unat (tmpfile_size (rt (targ t))) + file_need m \<le> lim" "lim < 2 ^ 64"
  shows "\<exists>s'. mapScanCallback E m t = (Inr True, t\<lparr>targ := s', importCount := importCount t + 1\<rparr>) \<and>
     imported E D fd pv m (targ t) act rsv (g # fre) s'"
proof (cases "isR m")
  case True
  from import_step [OF imp ok True clear gr lim] show ?thesis
    using ok w True by (auto simp: mapScanCallback_def line_ok_def wanted_def bracketed_def on_targ_def)
next
  case False
  from import_none_step [OF imp ok False clear gr] show ?thesis
    using ok w False by (auto simp: mapScanCallback_def line_ok_def wanted_def bracketed_def on_targ_def)
qed

lemma wanted_upd [simp]: "wanted (t\<lparr>targ := s, importCount := n\<rparr>) m = wanted t m" "line_ok E (t\<lparr>targ := s, importCount := n\<rparr>) m = line_ok E t m"
  by (simp_all add: wanted_def line_ok_def)

lemma scan_pass:
  assumes "importing E D fd pv (targ t) act rsv fre" and "\<forall>m \<in> set ms. line_ok E t m \<and> (wanted t m \<longrightarrow> line_granted E D fd lim m)"
    and "apart_all (ranges (targ t) act + ranges (targ t) rsv + mset (map line_range (filter (wanted t) ms)))"
    and "length (filter (wanted t) ms) < length fre"
    and "unat (tmpfile_size (rt (targ t))) + sum_list (map file_need (filter (wanted t) ms)) \<le> lim" and "lim < 2 ^ 64"
  shows "\<exists>t'. all_lines (mapScanCallback E) ms t = (Inr True, t') \<and> scanned E D fd pv ms t act rsv t'"
  using assms
proof (induction ms arbitrary: t act fre)
  case Nil
  then show ?case by (auto simp: scanned_def)
next
  case (Cons m ms)
  note [simp del] = split_paired_All split_paired_Ex
  have ok: "line_ok E t m" using Cons.prems(2) by simp
  show ?case
  proof (cases "wanted t m")
    case False
    with Cons.prems have "\<exists>t'. all_lines (mapScanCallback E) ms t = (Inr True, t') \<and> scanned E D fd pv ms t act rsv t'"
      by (intro Cons.IH) auto
    then show ?thesis using callback_skip [OF ok False] False by (auto simp: scanned_def)
  next
    case True
    let ?ws = "filter (wanted t) ms" and ?s = "targ t"
    from Cons.prems(4) True obtain f g fre' where fre: "fre = f # g # fre'" "length ?ws < length (g # fre')"
      by (cases fre; cases "tl fre") auto
    have clear: "\<forall>p \<in> set (act @ rsv). apart (line_range m) (region_range (regs ?s) p)"
      using Cons.prems(3) True by (auto simp: apart_all_union ranges_def apart_sym)
    have "\<exists>s'. mapScanCallback E m t = (Inr True, t\<lparr>targ := s', importCount := importCount t + 1\<rparr>) \<and> imported E D fd pv m ?s act rsv (g # fre') s'"
      by (rule callback_import [OF _ ok True clear, where lim = lim]) (use Cons.prems True fre in auto)
    then obtain s1 where cb: "mapScanCallback E m t = (Inr True, t\<lparr>targ := s1, importCount := importCount t + 1\<rparr>)"
      and I: "imported E D fd pv m ?s act rsv (g # fre') s1" by blast
    let ?t1 = "t\<lparr>targ := s1, importCount := importCount t + 1\<rparr>"
    from I obtain act1 where act1: "importing E D fd pv s1 act1 rsv (g # fre')" "ranges s1 act1 = add_mset (line_range m) (ranges ?s act)"
      and rsv: "ranges s1 rsv = ranges ?s rsv" and sz: "unat (tmpfile_size (rt s1)) = unat (tmpfile_size (rt ?s)) + file_need m"
      and mem: "mem s1 = (if isR m then fill (mem ?s) (line_range m) pv else mem ?s)" by (auto simp: imported_def)
    have fl: "filter (wanted ?t1) ms = ?ws" by (rule filter_cong) simp_all
    have "\<exists>t'. all_lines (mapScanCallback E) ms ?t1 = (Inr True, t') \<and> scanned E D fd pv ms ?t1 act1 rsv t'"
      by (rule Cons.IH [of _ _ "g # fre'"]) (use Cons.prems True act1 rsv sz fre in \<open>simp_all add: fl\<close>)
    then obtain t' where run: "all_lines (mapScanCallback E) ms ?t1 = (Inr True, t')" and sc: "scanned E D fd pv ms ?t1 act1 rsv t'" by blast
    have far: "\<not> in_block x (line_range k)" if "in_block x (line_range m)" "k \<in> set ?ws" for x k
      using Cons.prems(3) True that apart_not_in [of "line_range m" "line_range k" x] by (auto simp: apart_all_union)
    have S: "\<exists>act' fre'. importing E D fd pv (targ t') act' rsv fre' \<and> ranges (targ t') act' = ranges s1 act1 + mset (map line_range ?ws)"
      "t' = t\<lparr>targ := targ t', importCount := importCount t + 1 + of_nat (length ?ws)\<rparr>"
      "\<forall>m \<in> set ?ws. isR m \<longrightarrow> (\<forall>x. in_block x (line_range m) \<longrightarrow> mem (targ t') x = pv x)"
      "\<And>x. (\<forall>m \<in> set ?ws. \<not> in_block x (line_range m)) \<Longrightarrow> mem (targ t') x = mem s1 x"
      using sc unfolding scanned_def Let_def fl by simp_all
    have "scanned E D fd pv (m # ms) t act rsv t'"
      unfolding scanned_def Let_def
    proof (intro conjI)
      show "\<exists>act' fre'. importing E D fd pv (targ t') act' rsv fre' \<and> ranges (targ t') act' = ranges ?s act + mset (map line_range (filter (wanted t) (m # ms)))"
        using S(1) True by (simp add: act1(2))
      show "t' = t\<lparr>targ := targ t', importCount := importCount t + of_nat (length (filter (wanted t) (m # ms)))\<rparr>"
        using S(2) True by (simp add: add.assoc)
      show "\<forall>k \<in> set (filter (wanted t) (m # ms)). isR k \<longrightarrow> (\<forall>x. in_block x (line_range k) \<longrightarrow> mem (targ t') x = pv x)"
        using S(3) S(4) far True by (auto simp: mem fill_def)
      show "\<forall>x. (\<forall>k \<in> set (filter (wanted t) (m # ms)). \<not> in_block x (line_range k)) \<longrightarrow> mem (targ t') x = mem ?s x"
        using S(4) True by (simp add: mem fill_def)
    qed
    with run cb show ?thesis by auto
  qed
qed

lemma sc_import_copy_0D:
  assumes "sc_import_copy E addr len prot off s = (Inr 0, s')" shows "regs s' = regs s \<and> rt s' = rt s"
  using assms by (auto simp: sc_import_copy_def lookupScLocal_eq Let_def sys_ftruncate_def sys_mmap_def sys_munmap_def
      split: option.splits if_splits)

lemma sc_import_lists:
  assumes lists: "region_lists s act rsv fre" and run: "sc_import E addr len prot s = (Inr 0, s')"
  shows "\<exists>act' fre'. region_lists s' act' rsv fre' \<and> length fre' < length fre"
proof -
  let ?t = "active_regionsTail (rt s)" and ?f = "free_structs (rt s)"
  from region_listsD [OF lists] obtain T where T: "regs s ?t = Some T" by blast
  from guard_InrD [OF run [unfolded sc_import_def]] obtain reg s1 s2 where
    g: "sc_getFreeRegion E s1 = (Inr reg, s2)" "regs s1 = regs s" "rt s1 = rt s" and post: "sc_import_post E addr len prot reg s2 = (Inr 0, s')"
    by (auto simp: Let_def loops_def split: if_splits option.splits sum.splits elim!: call_InrE)
  from getFreeRegion_InrD [OF g(1)] obtain F where F: "regs s ?f = Some F" "reg = ?f" "?f \<noteq> 0" "r_next F \<noteq> 0"
    "s2 = put_region ?f (F\<lparr>r_next := 0\<rparr>) (upd_rt (\<lambda>c. c\<lparr>free_structs := r_next F\<rparr>) s1)" by (auto simp: g)
  have "chain (region_next (regs s)) ?f fre 0" using lists by (simp add: region_lists_def)
  with F(1,3,4) obtain g' fre' where fre: "fre = ?f # g' # fre'"
    by (cases fre; cases "tl fre") (auto simp: region_next_def)
  then have ft: "?f \<noteq> ?t" using lists region_listsD [OF lists] by (auto simp: region_lists_def)
  have "regs s' = import_regs addr len prot s \<and> rt s' = import_rt len s"
    using post F T ft g by (auto simp: sc_import_post_def Let_def import_regs_def import_rt_def fun_upd_twist dest!: sc_import_copy_0D)
  with import_lists [OF lists [unfolded fre]] fre show ?thesis by (intro exI [of _ "act @ [?f]"] exI [of _ "g' # fre'"]) simp
qed

lemma callback_second:
  assumes "rw_p_only t" "region_lists (targ t) act rsv fre" "mapScanCallback E m t = (Inr go, t')"
  obtains (skip) "go" "t' = t"
    | (failed) "\<not> go" "killed t'"
    | (moved) act' fre' where "go" "rw_p_only t'" "region_lists (targ t') act' rsv fre'" "length fre' < length fre"
proof -
  show thesis
  proof (cases "\<exists>s'. sc_import E (m_start m) (m_end m - m_start m) (line_prot m) (targ t) = (Inr 0, s') \<and> go \<and> targ t' = s' \<and> rw_p_only t'")
    case True
    then obtain s' where "sc_import E (m_start m) (m_end m - m_start m) (line_prot m) (targ t) = (Inr 0, s')" "go" "targ t' = s'" "rw_p_only t'" by blast
    with sc_import_lists [OF assms(2)] moved show thesis by blast
  next
    case False
    with assms(1,3) have "(go \<and> t' = t) \<or> (\<not> go \<and> killed t')"
      by (auto simp: mapScanCallback_def on_targ_def Let_def split: if_splits prod.splits elim!: call_InrE)
    then show thesis using skip failed by blast
  qed
qed

lemma lines_second:
  assumes "rw_p_only t" "region_lists (targ t) act rsv fre" "all_lines (mapScanCallback E) ms t = (Inr go, t')"
  shows "killed t' \<or> t' = t \<or> (\<exists>act' fre'. region_lists (targ t') act' rsv fre' \<and> length fre' < length fre)"
  using assms
proof (induction ms arbitrary: t act fre)
  case (Cons m ms)
  from Cons.prems(3) obtain c u where cb: "mapScanCallback E m t = (Inr c, u)"
    and rest: "(if c then all_lines (mapScanCallback E) ms u else (Inr False, u)) = (Inr go, t')" by (auto elim: call_InrE)
  from Cons.prems(1,2) cb show ?case
  proof (cases rule: callback_second)
    case skip
    with rest Cons.IH [OF Cons.prems(1,2)] show ?thesis by simp
  next
    case failed
    with rest show ?thesis by simp
  next
    case (moved act' fre')
    with rest Cons.IH [OF moved(2,3)] show ?thesis by (auto intro: less_trans)
  qed
qed simp

lemma second_pass_total:
  assumes "parse_runs parse" "region_lists (targ t) act rsv fre"
  shows "\<exists>r. second_pass E parse t = Some r"
  using assms(2)
proof (induction "length fre" arbitrary: t act fre rule: less_induct)
  case less
  let ?t0 = "t\<lparr>rw_p_only := True, importCount := 0\<rparr>"
  obtain r t' where p: "parse (mapScanCallback E) ?t0 = (r, t')" by fastforce
  show ?case
  proof (cases "\<exists>n. r = Inr n \<and> \<not> killed t' \<and> sint (importCount t') > 0")
    case False
    with p show ?thesis by (subst second_pass.simps) (auto split: sum.splits)
  next
    case True
    then obtain n where r: "r = Inr n" "\<not> killed t'" "sint (importCount t') > 0" by blast
    from assms(1) p r(1) obtain ms go where "all_lines (mapScanCallback E) ms ?t0 = (Inr go, t')" unfolding parse_runs_def by blast
    from lines_second [OF _ _ this, of act rsv fre] less.prems r(2,3) obtain act' fre' where
      "region_lists (targ t') act' rsv fre'" "length fre' < length fre" by auto
    from less.hyps [OF this(2,1)] p r show ?thesis by (subst second_pass.simps) simp
  qed
qed

section \<open>Properties\<close>

text \<open>C19: The pass of the loader over the maps file imports exactly the wanted ranges: when the lines are well formed and
  their ranges disjoint from each other and from every region, and region structs, file space and
  kernel permit, then afterwards the active regions are those from before and one for each wanted line,
  the subcontext holds the bytes that the process had in the readable ones and is unchanged elsewhere,
  the count is right, and the invariant of the region lists holds.\<close>

theorem loader_pass_imports:
  assumes "parse_ok parse lns"
    and "importing E D fd pv (targ t) act rsv fre" and "\<forall>m \<in> set (lns t). line_ok E t m \<and> (wanted t m \<longrightarrow> line_granted E D fd lim m)"
    and "apart_all (ranges (targ t) act + ranges (targ t) rsv + mset (map line_range (filter (wanted t) (lns t))))"
    and "length (filter (wanted t) (lns t)) < length fre"
    and "unat (tmpfile_size (rt (targ t))) + sum_list (map file_need (filter (wanted t) (lns t))) \<le> lim" and "lim < 2 ^ 64"
  shows "\<exists>n t'. parse (mapScanCallback E) t = (Inr n, t') \<and> scanned E D fd pv (lns t) t act rsv t'"
  using scan_pass [OF assms(2-7)] assms(1) unfolding parse_ok_def by blast

lemma demo_parse_ok: "parse_ok (demo_parse ms) (\<lambda>_. ms)" "parse_runs (demo_parse ms)"
  by (auto simp: parse_ok_def parse_runs_def demo_parse_def split: prod.splits sum.splits)

lemma demo_importing: "importing demo_env UNIV 5 (\<lambda>a. ucast a) demo_st [0x1100, 0x1140] [0x1180] [0x11c0, 0x1200, 0x1240]"
  using demo_wf demo_env_ok demo_local_find by (simp add: importing_def demo_root_def demo_local_def)

theorem loader_pass_imports_witness:
  "\<exists>n t'. demo_parse demo_lines (mapScanCallback demo_env) demo_scan = (Inr n, t') \<and> importCount t' = 2 \<and> mem (targ t') 0x5007 = 7"
proof -
  have w: "filter (wanted demo_scan) demo_lines = [demo_lines ! 0, demo_lines ! 2]"
    by (simp add: demo_lines_def wanted_def demo_scan_def is_file_def bracketed_def)
  have r: "line_range (demo_lines ! 0) = (0x5000, 0x1000)" "line_range (demo_lines ! 2) = (0xa000, 0x1000)"
    "isR (demo_lines ! 0)" "\<not> isR (demo_lines ! 2)" by (simp_all add: demo_lines_def line_range_def)
  have t: "targ demo_scan = demo_st" "importCount demo_scan = 0" by (simp_all add: demo_scan_def)
  have "\<forall>m \<in> set demo_lines. line_ok demo_env demo_scan m"
    by (simp add: demo_lines_def line_ok_def line_range_def demo_scan_def is_file_def fits_def)
  moreover have "\<forall>m \<in> set demo_lines. line_granted demo_env UNIV 5 0x10000 m"
    by (auto simp: demo_lines_def line_granted_def line_range_def import_granted_def import_req_def mman_defs demo_env_def
        word_less_nat_alt unat_word_ariths intro: le_less_trans [OF mod_less_eq_dividend])
  moreover have "apart_all (ranges demo_st [0x1100, 0x1140] + ranges demo_st [0x1180] + mset (map line_range (filter (wanted demo_scan) demo_lines)))"
    by (simp add: w r ranges_def demo_regs_def demo_region_def region_range_def apart_def)
  moreover have "unat (tmpfile_size (rt demo_st)) + sum_list (map file_need (filter (wanted demo_scan) demo_lines)) \<le> 0x10000"
    by (simp add: w r file_need_def demo_root_def)
  ultimately have "\<exists>n t'. demo_parse demo_lines (mapScanCallback demo_env) demo_scan = (Inr n, t') \<and>
      scanned demo_env UNIV 5 (\<lambda>a. ucast a) demo_lines demo_scan [0x1100, 0x1140] [0x1180] t'"
    using loader_pass_imports [OF demo_parse_ok(1), of demo_env UNIV 5 "\<lambda>a. ucast a" demo_scan _ _ _ demo_lines "0x10000"] demo_importing
    by (simp add: t w)
  then obtain n t' where run: "demo_parse demo_lines (mapScanCallback demo_env) demo_scan = (Inr n, t')"
    and sc: "scanned demo_env UNIV 5 (\<lambda>a. ucast a) demo_lines demo_scan [0x1100, 0x1140] [0x1180] t'" by blast
  have e: "t' = demo_scan\<lparr>targ := targ t', importCount := importCount demo_scan + of_nat (length [demo_lines ! 0, demo_lines ! 2])\<rparr>"
    using sc unfolding scanned_def Let_def w by blast
  have "importCount t' = 2" by (subst e) (simp add: t)
  moreover have "mem (targ t') 0x5007 = 7" using sc unfolding scanned_def Let_def w by (simp add: r in_block_def)
  ultimately show ?thesis using run by blast
qed

text \<open>C35: The repeated second pass of the loader comes to an end, whatever the maps file shows in each round: a round that
  imports something takes a region struct off the free list, and an import that does not succeed stops
  the loop.\<close>

theorem second_pass_ends:
  assumes "parse_runs parse" and "region_lists (targ t) act rsv fre"
  shows "\<exists>r t'. second_pass E parse t = Some (r, t')"
  using second_pass_total [OF assms, of E] by auto

theorem second_pass_ends_witness: "\<exists>r t'. second_pass demo_env (demo_parse demo_lines) demo_scan = Some (r, t')"
  by (rule second_pass_ends [OF demo_parse_ok(2), of demo_scan "[0x1100, 0x1140]" "[0x1180]" "[0x11c0, 0x1200, 0x1240]"])
    (use demo_lists in \<open>simp add: demo_scan_def\<close>)

subsection \<open>The loader as a whole\<close>










end
