(* ===== verification/SC_Ipc.thy ===== *)
theory SC_Ipc
  imports SC_Registry
begin

text \<open>
  The IPC subcontext (\<^verbatim>\<open>trunk/subcontexts_ipc.c\<close>): sockets that live in the shared heap, so that every
  process of the subcontext sees the same ones.

  A \<^verbatim>\<open>sc_ipc_sockState\<close> has no lock, so the sockets live in the bytes of \<open>mem\<close>: \<^verbatim>\<open>nextSock\<close> at offset 0,
  \<^verbatim>\<open>sockNo\<close> at 8, \<^verbatim>\<open>type\<close> at 12, the union, whose largest member is the 256 bytes of \<^verbatim>\<open>bind.addr\<close>, at 16,
  and \<^verbatim>\<open>recv_buffer\<close> at 272. The note that the source has outside a comment inside the struct
  (line 67) is left out. A \<^verbatim>\<open>sockaddr_un\<close> argument is the list of the 108 bytes of its \<^verbatim>\<open>sun_path\<close>.
\<close>

section \<open>Definitions\<close>

definition enc32 :: "u32 \<Rightarrow> u8 list" where
  "enc32 v = map (\<lambda>i. ucast (drop_bit (8 * i) v)) [0..<4]"

definition dec32 :: "u8 list \<Rightarrow> u32" where
  "dec32 bs = foldr (\<lambda>b acc. ucast b OR push_bit 8 acc) bs 0"

definition load32 :: "memory \<Rightarrow> u64 \<Rightarrow> u32" where "load32 m a = dec32 (mem_read m a 4)"

definition store32 :: "memory \<Rightarrow> u64 \<Rightarrow> u32 \<Rightarrow> memory" where "store32 m a v = mem_write m a (enc32 v)"

definition SC_IPC_NEW :: u32 where "SC_IPC_NEW = 1"

definition SC_IPC_BIND :: u32 where "SC_IPC_BIND = 2"

definition SC_IPC_LISTEN :: u32 where "SC_IPC_LISTEN = 3"

definition sizeof_sockState :: u64 where "sizeof_sockState = 280"

definition sizeof_sockaddr_un :: u32 where "sizeof_sockaddr_un = 110"

definition sizeof_sun_path :: nat where "sizeof_sun_path = 108"

definition sizeof_bind_addr :: nat where "sizeof_bind_addr = 256"

text \<open>The subcontext and the two variables of the library that \<^verbatim>\<open>subcontexts_init\<close> has imported into it.\<close>

record ipc =
  ipc_st :: st
  activeSocket_list :: u64
  nextSockNo :: u32

definition sock_next :: "memory \<Rightarrow> u64 \<Rightarrow> u64" where "sock_next m p = load64 m p"

definition sock_no :: "memory \<Rightarrow> u64 \<Rightarrow> u32" where "sock_no m p = load32 m (p + 8)"

definition sock_type :: "memory \<Rightarrow> u64 \<Rightarrow> u32" where "sock_type m p = load32 m (p + 12)"

definition on_ipc :: "(st \<Rightarrow> ('a, st) res) \<Rightarrow> ipc \<Rightarrow> ('a, ipc) res" where
  "on_ipc f I = (let (r, s) = f (ipc_st I) in (r, I\<lparr>ipc_st := s\<rparr>))"

definition upd_mem :: "(memory \<Rightarrow> memory) \<Rightarrow> ipc \<Rightarrow> ipc" where
  "upd_mem f I = I\<lparr>ipc_st := set_mem f (ipc_st I)\<rparr>"

partial_function (option) sock_walk :: "memory \<Rightarrow> u32 \<Rightarrow> u64 \<Rightarrow> u64 option" where
  "sock_walk m no cur =
     (if cur = 0 then Some 0
      else if sock_no m cur = no then Some cur
      else sock_walk m no (sock_next m cur))"

definition findSockState :: "u32 \<Rightarrow> ipc \<Rightarrow> (u64, ipc) res" where
  "findSockState no I = loops (sock_walk (mem (ipc_st I)) no (activeSocket_list I)) (\<lambda>p I. (Inr p, I)) I"

text \<open>The results of the operations are \<^verbatim>\<open>int\<close>; \<open>- 1\<close> is the error.\<close>

definition sc_ipc_socket :: "env \<Rightarrow> ipc \<Rightarrow> (u32, ipc) res" where
  "sc_ipc_socket E =
     call (on_ipc (sc_malloc E sizeof_sockState)) (\<lambda>sock I.
       if sock = 0 then (Inr (- 1), I)
       else
         let I = upd_mem (\<lambda>m. mem_write m sock (replicate (unat sizeof_sockState) 0)) I;
             I = upd_mem (\<lambda>m. store64 m sock (activeSocket_list I)) I;
             I = I\<lparr>activeSocket_list := sock\<rparr>;
             I = upd_mem (\<lambda>m. store32 m (sock + 8) (nextSockNo I)) I;
             I = I\<lparr>nextSockNo := nextSockNo I + 1\<rparr>;
             I = upd_mem (\<lambda>m. store32 m (sock + 12) SC_IPC_NEW) I
         in (Inr (sock_no (mem (ipc_st I)) sock), I))"

definition strnlen :: "u8 list \<Rightarrow> nat" where "strnlen path = length (takeWhile (\<lambda>b. b \<noteq> 0) path)"

definition sc_ipc_bind :: "u32 \<Rightarrow> u8 list \<Rightarrow> u32 \<Rightarrow> ipc \<Rightarrow> (u32, ipc) res" where
  "sc_ipc_bind no sun_path addrlen =
     call (findSockState no) (\<lambda>sockState I.
       if sockState = 0 then (Inr (- 1), I)
       else if sock_type (mem (ipc_st I)) sockState \<noteq> SC_IPC_NEW then (Inr (- 1), I)
       else if addrlen \<noteq> sizeof_sockaddr_un then (Inr (- 1), I)
       else
         let name_len = strnlen sun_path
         in if name_len = sizeof_sun_path then (Inr (- 1), I)
            else if name_len \<ge> sizeof_bind_addr then (Inr (- 1), I)
            else
              let I = upd_mem (\<lambda>m. store32 m (sockState + 12) SC_IPC_BIND) I;
                  I = upd_mem (strcpy (sockState + 16) (take name_len sun_path)) I
              in (Inr 0, I))"

definition sc_ipc_listen :: "u32 \<Rightarrow> u32 \<Rightarrow> ipc \<Rightarrow> (u32, ipc) res" where
  "sc_ipc_listen no backlog =
     call (findSockState no) (\<lambda>sockState I.
       if sockState = 0 then (Inr (- 1), I)
       else if sock_type (mem (ipc_st I)) sockState \<noteq> SC_IPC_BIND then (Inr (- 1), I)
       else (Inr 0, upd_mem (\<lambda>m. store32 m (sockState + 12) SC_IPC_LISTEN) I))"

definition sc_ipc_accept :: "u32 \<Rightarrow> u64 \<Rightarrow> u64 \<Rightarrow> ipc \<Rightarrow> (u32, ipc) res" where
  "sc_ipc_accept no address addrlen I = (if address \<noteq> 0 \<or> addrlen \<noteq> 0 then (Inr (- 1), I) else (Inl (Todo 279), I))"

definition sc_ipc_connect :: "u32 \<Rightarrow> u64 \<Rightarrow> u32 \<Rightarrow> ipc \<Rightarrow> (u32, ipc) res" where
  "sc_ipc_connect no address addrlen I = (Inl (Todo 288), I)"

definition sc_ipc_send :: "u32 \<Rightarrow> u64 \<Rightarrow> u64 \<Rightarrow> u32 \<Rightarrow> ipc \<Rightarrow> (u32, ipc) res" where
  "sc_ipc_send no buffer len flags I = (Inl (Todo 297), I)"

definition sc_ipc_recv :: "u32 \<Rightarrow> u64 \<Rightarrow> u64 \<Rightarrow> u32 \<Rightarrow> ipc \<Rightarrow> (u32, ipc) res" where
  "sc_ipc_recv no buffer len flags I = (Inl (Todo 306), I)"

text \<open>The addresses at which the linker placed the functions that \<^verbatim>\<open>subcontext_main\<close> posts.\<close>

record ipc_image =
  addr_socket :: u64
  addr_bind :: u64
  addr_listen :: u64
  addr_send :: u64
  addr_recv :: u64

definition ipc_symbols :: "ipc_image \<Rightarrow> (string \<times> u64 \<times> nat) list" where
  "ipc_symbols A =
     [(''ipc:sc_ipc_socket(int,int,int)'', addr_socket A, 144),
      (''ipc:sc_ipc_bind(int,const struct sockaddr*,socklen_t)'', addr_bind A, 150),
      (''ipc:sc_ipc_listen(int,int)'', addr_listen A, 155),
      (''ipc:sc_ipc_accept(int,struct sockaddr*,socklen_t*)'', addr_listen A, 160),
      (''ipc:sc_ipc_connect(int,const struct sockaddr*,socklen_t)'', addr_listen A, 165),
      (''ipc:sc_ipc_send(int,const void*,size_t,int)'', addr_send A, 170),
      (''ipc:sc_ipc_recv(int,void*,size_t,int)'', addr_recv A, 175)]"

fun post_all :: "env \<Rightarrow> (string \<times> u64 \<times> nat) list \<Rightarrow> registry \<Rightarrow> (unit, registry) res" where
  "post_all E [] R = (Inr (), R)"
| "post_all E ((name, symb, line) # ps) R =
     call (registry_post E (bytes_of name) symb) (\<lambda>rc R. if rc \<noteq> 0 then (Inl (Todo line), R) else post_all E ps R) R"

text \<open>A process that has two subcontexts mapped has two entries on \<^verbatim>\<open>sc_local_list\<close>, and the fault handler asserts that
  there is one (\<^verbatim>\<open>subcontexts_core.c\<close>, line 986): the process aborts at its first fault. An active region is reached
  without a fault when its pages are in the address space with the protection of the region, as \<^verbatim>\<open>sc_join\<close> leaves
  them. The pages that \<^verbatim>\<open>sc_mmap\<close> adds for \<^verbatim>\<open>sc_malloc\<close> are not, and \<^verbatim>\<open>sc_malloc\<close> writes to them at once. \<open>two_entries\<close> runs
  a function in such a process: when there is a region that it cannot reach afterwards, it has aborted.\<close>

definition reachable_region :: "vmem \<Rightarrow> sc_region \<Rightarrow> bool" where
  "reachable_region vm r \<longleftrightarrow> r_prot r = 0 \<or> (case vm (r_vaddr r) of None \<Rightarrow> False | Some m \<Rightarrow> m_prot m = ucast (r_prot r))"

partial_function (option) all_reachable :: "(u64 \<rightharpoonup> sc_region) \<Rightarrow> vmem \<Rightarrow> u64 \<Rightarrow> bool option" where
  "all_reachable m vm cur =
     (if cur = 0 then Some True
      else case m cur of
        None \<Rightarrow> Some False
      | Some r \<Rightarrow> if reachable_region vm r then all_reachable m vm (r_next r) else Some False)"

definition two_entries :: "('s \<Rightarrow> st) \<Rightarrow> ('s \<Rightarrow> ('a, 's) res) \<Rightarrow> 's \<Rightarrow> ('a, 's) res" where
  "two_entries st_of f S =
     (let (r, S) = f S; s = st_of S
      in if all_reachable (regs s) (vmap s) (active_regions (rt s)) = Some True then (r, S) else (Inl (AssertFail 986), S))"

text \<open>\<^verbatim>\<open>subcontext_main\<close>, run by the loader in a process that has a subcontext already, on the subcontext of the registry as this process has it: \<open>Some rc\<close> when it returns \<open>rc\<close>, \<open>None\<close>
  when it has reached its endless loop.\<close>

definition ipc_main :: "env \<Rightarrow> boot \<Rightarrow> (u64 \<Rightarrow> u64 option) \<Rightarrow> u32 option \<Rightarrow> ipc_image \<Rightarrow> registry \<Rightarrow> (int option, registry) res" where
  "ipc_main E B other_root reg_fd A =
     call (on_base (subcontexts_registry_bootstrap E B other_root reg_fd 0)) (\<lambda>(registry_funcs, _) R.
       if registry_funcs = 0 then (Inr (Some 2), R)
       else call (two_entries base (post_all E (ipc_symbols A))) (\<lambda>_ R. (Inr None, R)) R)"

section \<open>Specification and invariant\<close>

text \<open>The life of a socket. A listening socket keeps the name it was bound to.\<close>

datatype sock_state = Fresh | Bound "u8 list" | Listening "u8 list"

text \<open>The abstract service: the next number to give out and the sockets by number.\<close>

type_synonym socks = "u32 \<times> (u32 \<rightharpoonup> sock_state)"

datatype ipc_call = Socket | Bind u32 "u8 list" u32 | Listen u32 u32

fun ipc_exec :: "env \<Rightarrow> ipc_call \<Rightarrow> ipc \<Rightarrow> (u32, ipc) res" where
  "ipc_exec E Socket = sc_ipc_socket E"
| "ipc_exec E (Bind no path addrlen) = sc_ipc_bind no path addrlen"
| "ipc_exec E (Listen no backlog) = sc_ipc_listen no backlog"

definition path_ok :: "u8 list \<Rightarrow> u32 \<Rightarrow> bool" where
  "path_ok path addrlen \<longleftrightarrow> addrlen = sizeof_sockaddr_un \<and> 0 \<in> set path"

inductive sock_step :: "socks \<Rightarrow> ipc_call \<Rightarrow> u32 \<Rightarrow> socks \<Rightarrow> bool" where
  socket: "sock_step (n, S) Socket n (n + 1, S(n \<mapsto> Fresh))"
| no_memory: "sock_step (n, S) Socket (- 1) (n, S)"
| bind: "S no = Some Fresh \<Longrightarrow> path_ok path addrlen \<Longrightarrow>
    sock_step (n, S) (Bind no path addrlen) 0 (n, S(no \<mapsto> Bound (takeWhile (\<lambda>b. b \<noteq> 0) path)))"
| bind_refused: "S no \<noteq> Some Fresh \<or> \<not> path_ok path addrlen \<Longrightarrow> sock_step (n, S) (Bind no path addrlen) (- 1) (n, S)"
| listen: "S no = Some (Bound nm) \<Longrightarrow> sock_step (n, S) (Listen no backlog) 0 (n, S(no \<mapsto> Listening nm))"
| listen_refused: "\<forall>nm. S no \<noteq> Some (Bound nm) \<Longrightarrow> sock_step (n, S) (Listen no backlog) (- 1) (n, S)"

inductive_simps sock_step_Socket: "sock_step (n, S) Socket r A"

inductive_simps sock_step_Bind: "sock_step (n, S) (Bind no path addrlen) r A"

inductive_simps sock_step_Listen: "sock_step (n, S) (Listen no backlog) r A"

text \<open>Sequences of calls: by the code, stopping at a trap, and by the specification.\<close>

fun ipc_run :: "env \<Rightarrow> ipc_call list \<Rightarrow> ipc \<Rightarrow> (u32 list, ipc) res" where
  "ipc_run E [] I = (Inr [], I)"
| "ipc_run E (c # cs) I = call (ipc_exec E c) (\<lambda>r. call (ipc_run E cs) (\<lambda>rs I. (Inr (r # rs), I))) I"

inductive sock_steps :: "socks \<Rightarrow> ipc_call list \<Rightarrow> u32 list \<Rightarrow> socks \<Rightarrow> bool" where
  stop: "sock_steps A [] [] A"
| step: "sock_step A c r B \<Longrightarrow> sock_steps B cs rs C \<Longrightarrow> sock_steps A (c # cs) (r # rs) C"

type_synonym sock_entry = "u64 \<times> u32 \<times> sock_state"

fun state_at :: "memory \<Rightarrow> u64 \<Rightarrow> sock_state \<Rightarrow> bool" where
  "state_at m p Fresh \<longleftrightarrow> sock_type m p = SC_IPC_NEW"
| "state_at m p (Bound nm) \<longleftrightarrow> sock_type m p = SC_IPC_BIND \<and> length nm < 108 \<and> 0 \<notin> set nm \<and> strcmp_eq m (p + 16) nm"
| "state_at m p (Listening nm) \<longleftrightarrow> sock_type m p = SC_IPC_LISTEN \<and> length nm < 108 \<and> 0 \<notin> set nm \<and> strcmp_eq m (p + 16) nm"

definition sock_at :: "memory \<Rightarrow> sock_entry \<Rightarrow> bool" where
  "sock_at m = (\<lambda>(p, no, st). sock_no m p = no \<and> state_at m p st \<and> load64 m (p + 272) = 0)"

definition sock_buf :: "block multiset \<Rightarrow> u64 \<Rightarrow> bool" where
  "sock_buf L p \<longleftrightarrow> (\<exists>n. (p, n) \<in># L \<and> 280 \<le> unat n)"

definition ipc_inv :: "env \<Rightarrow> ipc \<Rightarrow> sock_entry list \<Rightarrow> block multiset \<Rightarrow> bool" where
  "ipc_inv E I ss L \<longleftrightarrow> alloc_inv E (ipc_st I) L \<and> chain (sock_next (mem (ipc_st I))) (activeSocket_list I) (map fst ss) 0 \<and>
     (\<forall>e \<in> set ss. sock_at (mem (ipc_st I)) e \<and> sock_buf L (fst e)) \<and> distinct (map (fst \<circ> snd) ss) \<and>
     (\<forall>e \<in> set ss. fst (snd e) < nextSockNo I)"

text \<open>The sockets on the list, by number, and the next number.\<close>

definition ipc_rel :: "env \<Rightarrow> ipc \<Rightarrow> block multiset \<Rightarrow> socks \<Rightarrow> bool" where
  "ipc_rel E I L A \<longleftrightarrow> (\<exists>ss. ipc_inv E I ss L \<and> A = (nextSockNo I, map_of (map snd ss)))"

definition new_sock :: "u64 \<Rightarrow> u64 \<Rightarrow> u32 \<Rightarrow> memory \<Rightarrow> memory" where
  "new_sock p nxt no m = store32 (store32 (store64 (mem_write m p (replicate 280 0)) p nxt) (p + 8) no) (p + 12) SC_IPC_NEW"

definition bound_sock :: "u64 \<Rightarrow> u8 list \<Rightarrow> memory \<Rightarrow> memory" where
  "bound_sock p nm m = strcpy (p + 16) nm (store32 m (p + 12) SC_IPC_BIND)"

definition listening_sock :: "u64 \<Rightarrow> memory \<Rightarrow> memory" where
  "listening_sock p m = store32 m (p + 12) SC_IPC_LISTEN"

text \<open>The argument of a call of \<^verbatim>\<open>bind\<close> is a whole \<^verbatim>\<open>sun_path\<close>.\<close>

fun call_ok :: "ipc_call \<Rightarrow> bool" where
  "call_ok (Bind no path addrlen) \<longleftrightarrow> length path = sizeof_sun_path"
| "call_ok _ \<longleftrightarrow> True"

definition demo_ipc :: ipc where "demo_ipc = \<lparr>ipc_st = demo_st, activeSocket_list = 0, nextSockNo = 1\<rparr>"

definition demo_path :: "u8 list" where "demo_path = [0x2f, 0x73] @ replicate 106 0"

section \<open>Lemmas\<close>

lemma length_enc32 [simp]: "length (enc32 v) = 4"
  by (simp add: enc32_def)

lemma dec32_enc32 [simp]: "dec32 (enc32 v) = v"
proof -
  have "bit (dec32 (enc32 v)) n \<longleftrightarrow> bit v n" if "n < 32" for n
  proof -
    have "[0..<4] = [0, 1, 2, 3 :: nat]" by (simp add: upt_rec)
    with that show ?thesis by (simp add: dec32_def enc32_def bit_simps) (cases "n < 8"; cases "n < 16"; cases "n < 24"; auto)
  qed
  then show ?thesis by (intro bit_word_eqI) simp
qed

lemma load32_store32: "unat a + 4 \<le> 2 ^ 64 \<Longrightarrow> load32 (store32 m a v) a = v"
  using mem_read_write_same [of a "enc32 v" m] by (simp add: load32_def store32_def)

lemma load32_write_other:
  "unat b + 4 \<le> unat a \<or> unat a + length bs \<le> unat b \<Longrightarrow> unat b + 4 \<le> 2 ^ 64 \<Longrightarrow> load32 (mem_write m a bs) b = load32 m b"
  by (simp add: load32_def mem_read_write_other)

lemma load64_write_other:
  "unat b + 8 \<le> unat a \<or> unat a + length bs \<le> unat b \<Longrightarrow> unat b + 8 \<le> 2 ^ 64 \<Longrightarrow> load64 (mem_write m a bs) b = load64 m b"
  by (simp add: load64_def mem_read_write_other)

lemma load32_store32_other:
  "unat b + 4 \<le> unat a \<or> unat a + 4 \<le> unat b \<Longrightarrow> unat b + 4 \<le> 2 ^ 64 \<Longrightarrow> load32 (store32 m a v) b = load32 m b"
  by (simp add: store32_def load32_write_other)

lemmas write_defs = store32_def store64_def strcpy_def

lemma mem_read_write_part:
  assumes "k + n \<le> length bs" "unat a + length bs \<le> 2 ^ 64"
  shows "mem_read (mem_write m a bs) (a + of_nat k) n = take n (drop k bs)"
proof (rule nth_equalityI)
  fix i assume "i < length (mem_read (mem_write m a bs) (a + of_nat k) n)"
  then have i: "i < n" by simp
  then have "unat (a + of_nat (k + i)) = unat a + (k + i)" using assms by (intro unat_add_fits) simp
  then have "mem_write m a bs (a + of_nat (k + i)) = bs ! (k + i)" using i assms by (simp add: mem_write_def)
  then show "mem_read (mem_write m a bs) (a + of_nat k) n ! i = take n (drop k bs) ! i"
    using i assms by (simp add: mem_read_def add.assoc)
qed (use assms in simp)

lemma load64_zeros:
  assumes "k + 8 \<le> n" "unat a + n \<le> 2 ^ 64" shows "load64 (mem_write m a (replicate n 0)) (a + of_nat k) = 0"
proof -
  have "dec64 (replicate l 0) = 0" for l by (induction l) (simp_all add: dec64_def)
  then show ?thesis using mem_read_write_part [of k 8 "replicate n 0" a m] assms by (simp add: load64_def)
qed

text \<open>The addresses of the fields of a socket.\<close>

lemma sock_fields:
  assumes "280 \<le> unat n" "fits (p, n)"
  shows "unat (p + 8) = unat p + 8" "unat (p + 12) = unat p + 12" "unat (p + 16) = unat p + 16" "unat (p + 272) = unat p + 272"
    "unat p + 280 < 2 ^ 64"
  using assms by (auto simp: fits_def unat_off)

lemma sock_write:
  assumes "280 \<le> unat n" "fits (p, n)" "k + length bs \<le> 280"
  shows "same_outside (p, n) m (mem_write m (p + of_nat k) bs)"
proof -
  have "unat (p + of_nat k) = unat p + k" using assms by (intro unat_add_fits) (simp add: fits_def)
  then show ?thesis using assms by (auto simp: same_outside_def in_block_def mem_write_def)
qed

lemma sock_frame:
  assumes b: "280 \<le> unat n" "fits (p, n)" and eq: "\<And>x. in_block x (p, n) \<Longrightarrow> m' x = m x"
  shows "sock_next m' p = sock_next m p" "sock_at m' (p, no, s) = sock_at m (p, no, s)"
proof -
  note f = sock_fields [OF b]
  have at: "m' (p + of_nat i) = m (p + of_nat i)" if "i < 280" for i
    using that b f(5) by (intro eq) (simp add: in_block_def unat_add_fits)
  have r: "mem_read m' (p + of_nat k) l = mem_read m (p + of_nat k) l" if "k + l \<le> 280" for k l
    using at that by (intro mem_read_cong) (simp add: add.assoc flip: of_nat_add)
  have c: "strcmp_eq m' (p + 16) nm = strcmp_eq m (p + 16) nm" if "length nm < 108" for nm
  proof (rule strcmp_cong)
    fix i assume "i \<le> length nm"
    then show "m' (p + 16 + of_nat i) = m (p + 16 + of_nat i)" using at [of "16 + i"] that by (simp add: add.assoc)
  qed
  have "sock_no m' p = sock_no m p" "sock_type m' p = sock_type m p" "load64 m' (p + 272) = load64 m (p + 272)"
    using r [of 8 4] r [of 12 4] r [of 272 8] by (simp_all add: sock_no_def sock_type_def load32_def load64_def)
  with c show "sock_at m' (p, no, s) = sock_at m (p, no, s)" by (cases s) (auto simp: sock_at_def)
  show "sock_next m' p = sock_next m p" using r [of 0 8] by (simp add: sock_next_def load64_def)
qed

lemma new_sock_facts:
  assumes b: "280 \<le> unat n" "fits (p, n)"
  shows "same_outside (p, n) m (new_sock p nxt no m)" "sock_next (new_sock p nxt no m) p = nxt"
    "sock_at (new_sock p nxt no m) (p, no, Fresh)"
proof -
  note f = sock_fields [OF b]
  show "same_outside (p, n) m (new_sock p nxt no m)"
    using sock_write [OF b, of 0 "replicate 280 0"] sock_write [OF b, of 0 "enc64 nxt"] sock_write [OF b, of 8 "enc32 no"]
      sock_write [OF b, of 12 "enc32 SC_IPC_NEW"]
    unfolding new_sock_def write_defs by (simp add: same_outside_def)
  show "sock_next (new_sock p nxt no m) p = nxt"
    using f by (simp add: new_sock_def sock_next_def store32_def load64_write_other load64_store64)
  have "load64 (new_sock p nxt no m) (p + 272) = 0"
    using f load64_zeros [of 272 280 p m] by (simp add: new_sock_def write_defs load64_write_other)
  then show "sock_at (new_sock p nxt no m) (p, no, Fresh)"
    using f by (simp add: new_sock_def sock_at_def sock_no_def sock_type_def load32_store32 load32_store32_other)
qed

lemma bound_sock_facts:
  assumes b: "280 \<le> unat n" "fits (p, n)" and nm: "length nm < 108" "0 \<notin> set nm" and at: "sock_at m (p, no, st)"
  shows "same_outside (p, n) m (bound_sock p nm m)" "sock_next (bound_sock p nm m) p = sock_next m p"
    "sock_at (bound_sock p nm m) (p, no, Bound nm)"
proof -
  note f = sock_fields [OF b]
  show "same_outside (p, n) m (bound_sock p nm m)"
    using sock_write [OF b, of 12 "enc32 SC_IPC_BIND"] sock_write [OF b, of 16 "nm @ [0]"] nm
    unfolding bound_sock_def write_defs by (simp add: same_outside_def)
  show "sock_next (bound_sock p nm m) p = sock_next m p"
    using f by (simp add: bound_sock_def sock_next_def write_defs load64_write_other)
  have "strcmp_eq (bound_sock p nm m) (p + 16) nm"
    unfolding bound_sock_def using f nm by (intro strcpy_strcmp) simp
  moreover have "sock_type (bound_sock p nm m) p = SC_IPC_BIND" "sock_no (bound_sock p nm m) p = sock_no m p"
    "load64 (bound_sock p nm m) (p + 272) = load64 m (p + 272)"
    using f nm by (simp_all add: bound_sock_def sock_no_def sock_type_def strcpy_def load32_write_other load64_write_other load32_store32)
      (simp_all add: store32_def load32_write_other load64_write_other)
  ultimately show "sock_at (bound_sock p nm m) (p, no, Bound nm)" using at nm by (simp add: sock_at_def)
qed

lemma listening_sock_facts:
  assumes b: "280 \<le> unat n" "fits (p, n)" and at: "sock_at m (p, no, Bound nm)"
  shows "same_outside (p, n) m (listening_sock p m)" "sock_next (listening_sock p m) p = sock_next m p"
    "sock_at (listening_sock p m) (p, no, Listening nm)"
proof -
  note f = sock_fields [OF b]
  show "same_outside (p, n) m (listening_sock p m)"
    using sock_write [OF b, of 12 "enc32 SC_IPC_LISTEN"] by (simp add: listening_sock_def store32_def)
  show "sock_next (listening_sock p m) p = sock_next m p"
    using f by (simp add: listening_sock_def sock_next_def write_defs load64_write_other)
  have nm: "length nm < 108" using at by (simp add: sock_at_def)
  have "strcmp_eq (listening_sock p m) (p + 16) nm = strcmp_eq m (p + 16) nm"
  proof (rule strcmp_cong)
    fix i assume "i \<le> length nm"
    then have "unat (p + 16 + of_nat i) = unat p + 16 + i" using f nm by (subst unat_add_fits) simp_all
    then show "listening_sock p m (p + 16 + of_nat i) = m (p + 16 + of_nat i)"
      using f by (simp add: listening_sock_def store32_def mem_write_def)
  qed
  moreover have "sock_type (listening_sock p m) p = SC_IPC_LISTEN" "sock_no (listening_sock p m) p = sock_no m p"
    "load64 (listening_sock p m) (p + 272) = load64 m (p + 272)"
    using f by (simp_all add: listening_sock_def sock_no_def sock_type_def load32_store32)
      (simp_all add: store32_def load32_write_other load64_write_other)
  ultimately show "sock_at (listening_sock p m) (p, no, Listening nm)" using at by (simp add: sock_at_def)
qed

lemma ipc_inv_blocks:
  assumes "ipc_inv E I ss L" "(p, no, st) \<in> set ss"
  obtains n where "(p, n) \<in># L" "280 \<le> unat n" "fits (p, n)" "p \<noteq> 0" "sock_at (mem (ipc_st I)) (p, no, st)"
proof -
  from assms obtain n where n: "(p, n) \<in># L" "280 \<le> unat n" "sock_at (mem (ipc_st I)) (p, no, st)" "alloc_inv E (ipc_st I) L"
    by (fastforce simp: ipc_inv_def sock_buf_def)
  with sc_heap.live_fits [OF n(4,1)] that show thesis by simp
qed

text \<open>Sockets whose buffers keep their bytes stay as they are.\<close>

lemma ipc_frame:
  assumes inv: "ipc_inv E I ss L" and sub: "set ts \<subseteq> set ss"
    and eq: "\<And>b x p. p \<in> fst ` set ts \<Longrightarrow> b \<in># L \<Longrightarrow> fst b = p \<Longrightarrow> in_block x b \<Longrightarrow> m x = mem (ipc_st I) x"
  shows "\<forall>e \<in> set ts. sock_at m e \<and> sock_next m (fst e) = sock_next (mem (ipc_st I)) (fst e)"
proof
  fix e assume e: "e \<in> set ts"
  obtain p no st where ep: "e = (p, no, st)" by (cases e)
  with e sub have "(p, no, st) \<in> set ss" by auto
  from ipc_inv_blocks [OF inv this] obtain n where n: "(p, n) \<in># L" "280 \<le> unat n" "fits (p, n)" "sock_at (mem (ipc_st I)) (p, no, st)" by metis
  have "m x = mem (ipc_st I) x" if "in_block x (p, n)" for x using eq [of p "(p, n)" x] e n(1) that by (force simp: ep)
  from sock_frame [OF n(2,3) this] n(4) show "sock_at m e \<and> sock_next m (fst e) = sock_next (mem (ipc_st I)) (fst e)"
    by (simp add: ep)
qed

lemma ipc_update:
  assumes inv: "ipc_inv E I (as @ (p, no, st) # bs) L" and n: "(p, n) \<in># L" "280 \<le> unat n"
    and m: "same_outside (p, n) (mem (ipc_st I)) m" "sock_next m p = sock_next (mem (ipc_st I)) p" "sock_at m (p, no, st')"
  shows "ipc_inv E (upd_mem (\<lambda>_. m) I) (as @ (p, no, st') # bs) L"
proof -
  let ?m = "mem (ipc_st I)"
  have A: "alloc_inv E (ipc_st I) L" and c: "chain (sock_next ?m) (activeSocket_list I) (map fst (as @ (p, no, st) # bs)) 0"
    using inv by (auto simp: ipc_inv_def)
  have "distinct (map fst (as @ (p, no, st) # bs))" by (rule chain_distinct [OF c])
  then have ne: "q \<noteq> p" if "q \<in> fst ` set (as @ bs)" for q using that by auto
  have others: "\<forall>e \<in> set (as @ bs). sock_at m e \<and> sock_next m (fst e) = sock_next ?m (fst e)"
  proof (rule ipc_frame [OF inv])
    fix b x q assume q: "q \<in> fst ` set (as @ bs)" "b \<in># L" "fst b = q" "in_block x b"
    obtain M where M: "L = add_mset (p, n) M" using n(1) by (metis multi_member_split)
    have "b \<noteq> (p, n)" using q(3) ne [OF q(1)] by auto
    then have "b \<in># M" using q(2) by (simp add: M)
    then have "apart (p, n) b" using sc_heap.live_apart [OF A] by (simp add: M)
    then have "\<not> in_block x (p, n)" using q(4) apart_not_in [of b "(p, n)" x] by (simp add: apart_sym)
    then show "m x = ?m x" using m(1) by (simp add: same_outside_def)
  qed auto
  have "chain (sock_next m) (activeSocket_list I) (map fst (as @ (p, no, st') # bs)) 0"
    using c chain_cong [of "map fst (as @ (p, no, st') # bs)" "sock_next m" "sock_next ?m"] others m(2) by auto
  moreover have "alloc_inv E (ipc_st (upd_mem (\<lambda>_. m) I)) L"
    using sc_heap.put_ok [OF A n(1) m(1)] by (simp add: upd_mem_def set_mem_def)
  ultimately show ?thesis using inv others m(3) by (auto simp: ipc_inv_def upd_mem_def)
qed

lemma ipc_map_update:
  assumes "distinct (map (fst \<circ> snd) (as @ (p, no, st) # bs))"
  shows "map_of (map snd (as @ (p, no, st') # bs)) = (map_of (map snd (as @ (p, no, st) # bs)))(no \<mapsto> st')"
proof -
  have "no \<notin> dom (map_of (map snd as))" using assms by (auto simp: dom_map_of_conv_image_fst image_image)
  then show ?thesis by (auto simp: map_add_def fun_eq_iff split: option.splits)
qed

lemma sock_walk_spec:
  assumes "chain (sock_next m) cur (map fst ss) 0" and "\<forall>e \<in> set ss. sock_at m e"
  shows "\<exists>p. sock_walk m no cur = Some p \<and> (if p = 0 then map_of (map snd ss) no = None
     else (\<exists>st as bs. ss = as @ (p, no, st) # bs \<and> map_of (map snd ss) no = Some st))"
  using assms
proof (induction ss arbitrary: cur)
  case Nil then show ?case by (subst sock_walk.simps) simp
next
  case (Cons e ss)
  obtain p k st where e: "e = (p, k, st)" by (cases e)
  with Cons.prems have p: "cur = p" "p \<noteq> 0" "sock_no m p = k" and c: "chain (sock_next m) (sock_next m p) (map fst ss) 0"
    by (auto simp: sock_at_def)
  show ?case
  proof (cases "k = no")
    case True
    with p show ?thesis by (subst sock_walk.simps) (auto simp: e)
  next
    case False
    from Cons.IH [OF c] Cons.prems obtain q where q: "sock_walk m no (sock_next m p) = Some q"
      "if q = 0 then map_of (map snd ss) no = None
       else (\<exists>st as bs. ss = as @ (q, no, st) # bs \<and> map_of (map snd ss) no = Some st)" by auto
    have "\<exists>st as bs. e # ss = as @ (q, no, st) # bs \<and> map_of (map snd (e # ss)) no = Some st" if "q \<noteq> 0"
    proof -
      from q(2) that obtain st' as bs where "ss = as @ (q, no, st') # bs" "map_of (map snd ss) no = Some st'" by auto
      then have "e # ss = (e # as) @ (q, no, st') # bs" "map_of (map snd (e # ss)) no = Some st'" using False by (simp_all add: e)
      then show ?thesis by blast
    qed
    with q p False show ?thesis by (subst sock_walk.simps) (simp add: e)
  qed
qed

lemma findSockState_spec:
  assumes "ipc_inv E I ss L"
  obtains (absent) "findSockState no I = (Inr 0, I)" "map_of (map snd ss) no = None"
    | (found) p n st as bs where "findSockState no I = (Inr p, I)" "p \<noteq> 0" "ss = as @ (p, no, st) # bs"
      "map_of (map snd ss) no = Some st" "(p, n) \<in># L" "280 \<le> unat n" "fits (p, n)" "sock_at (mem (ipc_st I)) (p, no, st)"
proof -
  from sock_walk_spec [of "mem (ipc_st I)" "activeSocket_list I" ss no] assms
  obtain p where p: "sock_walk (mem (ipc_st I)) no (activeSocket_list I) = Some p"
    "if p = 0 then map_of (map snd ss) no = None else (\<exists>st as bs. ss = as @ (p, no, st) # bs \<and> map_of (map snd ss) no = Some st)"
    by (auto simp: ipc_inv_def)
  from p(1) have run: "findSockState no I = (Inr p, I)" by (simp add: findSockState_def)
  show thesis
  proof (cases "p = 0")
    case True with run p absent show thesis by simp
  next
    case False
    with p(2) obtain st as bs where s: "ss = as @ (p, no, st) # bs" "map_of (map snd ss) no = Some st" by auto
    then have "(p, no, st) \<in> set ss" by simp
    from ipc_inv_blocks [OF assms this] found [OF run False s] show thesis by metis
  qed
qed

lemma upd_mem_upd [simp]: "upd_mem f (upd_mem g I) = upd_mem (f \<circ> g) I"
  by (simp add: upd_mem_def set_mem_def)

lemma upd_mem_simps [simp]:
  "mem (ipc_st (upd_mem f I)) = f (mem (ipc_st I))" "activeSocket_list (upd_mem f I) = activeSocket_list I"
  "nextSockNo (upd_mem f I) = nextSockNo I"
  by (simp_all add: upd_mem_def)

lemma sc_ipc_socket_cases:
  assumes inv: "ipc_inv E I ss L" and lim: "unat (nextSockNo I) + 1 < 2 ^ 32"
    and m: "sc_malloc E 280 (ipc_st I) = (Inr p, t)"
  obtains (none) "p = 0" "sc_ipc_socket E I = (Inr (- 1), I\<lparr>ipc_st := t\<rparr>)" "ipc_inv E (I\<lparr>ipc_st := t\<rparr>) ss L"
    | (new) n I' where "p \<noteq> 0" "sc_ipc_socket E I = (Inr (nextSockNo I), I')" "nextSockNo I' = nextSockNo I + 1"
       "ipc_inv E I' ((p, nextSockNo I, Fresh) # ss) (add_mset (p, n) L)"
proof -
  let ?no = "nextSockNo I"
  have A: "alloc_inv E (ipc_st I) L" using inv by (simp add: ipc_inv_def)
  have keeps: "\<forall>e \<in> set ss. sock_at m' e \<and> sock_next m' (fst e) = sock_next (mem (ipc_st I)) (fst e)"
    if "\<And>b x. b \<in># L \<Longrightarrow> in_block x b \<Longrightarrow> m' x = mem t x" for m'
    by (rule ipc_frame [OF inv]) (use that sc_heap.alloc_frame [OF A m] in auto)
  have chn: "chain (sock_next m') (activeSocket_list I) (map fst ss) 0"
    if "\<forall>e \<in> set ss. sock_next m' (fst e) = sock_next (mem (ipc_st I)) (fst e)" for m'
  proof -
    have "chain (sock_next m') (activeSocket_list I) (map fst ss) 0 =
      chain (sock_next (mem (ipc_st I))) (activeSocket_list I) (map fst ss) 0" by (rule chain_cong) (use that in auto)
    then show ?thesis using inv by (simp add: ipc_inv_def)
  qed
  show thesis
  proof (cases "p = 0")
    case True
    from m True have "sc_ipc_socket E I = (Inr (- 1), I\<lparr>ipc_st := t\<rparr>)"
      by (simp add: sc_ipc_socket_def on_ipc_def sizeof_sockState_def call_def)
    moreover have "ipc_inv E (I\<lparr>ipc_st := t\<rparr>) ss L"
      using inv sc_heap.alloc_failed [OF A] m True keeps [of "mem t"] chn [of "mem t"] by (auto simp: ipc_inv_def)
    ultimately show thesis using True none by blast
  next
    case False
    let ?n = "usable t p"
    have A2: "alloc_inv E t (add_mset (p, ?n) L)" and n: "280 \<le> unat ?n"
      using sc_heap.alloc_ok [OF A m False] by (auto simp: word_le_nat_alt)
    have fits: "fits (p, ?n)" using sc_heap.live_fits [OF A2, of "(p, ?n)"] by simp
    let ?m = "new_sock p (activeSocket_list I) ?no (mem t)"
    note w = new_sock_facts [OF n fits, where m = "mem t" and nxt = "activeSocket_list I" and no = ?no]
    define I' where "I' = I\<lparr>ipc_st := t\<lparr>mem := ?m\<rparr>, activeSocket_list := p, nextSockNo := ?no + 1\<rparr>"
    have "sock_no ?m p = ?no" using w(3) by (simp add: sock_at_def)
    then have run: "sc_ipc_socket E I = (Inr ?no, I')" using m False
      by (simp add: sc_ipc_socket_def on_ipc_def sizeof_sockState_def call_def Let_def I'_def upd_mem_def set_mem_def new_sock_def)
    have "alloc_inv E (ipc_st I') (add_mset (p, ?n) L)" using sc_heap.put_ok [OF A2 _ w(1)] by (simp add: I'_def)
    moreover have old: "\<forall>e \<in> set ss. sock_at ?m e \<and> sock_next ?m (fst e) = sock_next (mem (ipc_st I)) (fst e)"
    proof (rule keeps)
      fix b x assume b: "b \<in># L" "in_block x b"
      have "apart b (p, ?n)" using sc_heap.live_apart [OF A2] b(1) by (simp add: apart_sym [of _ "(p, usable t p)"])
      then show "?m x = mem t x" using b(2) apart_not_in [of b] w(1) by (auto simp: same_outside_def)
    qed
    moreover have "unat (?no + 1) = unat ?no + 1" using lim by (simp add: unat_word_ariths)
    moreover have "\<forall>e \<in> set ss. unat (fst (snd e)) < unat ?no" using inv by (simp add: ipc_inv_def word_less_nat_alt)
    ultimately have "ipc_inv E I' ((p, ?no, Fresh) # ss) (add_mset (p, ?n) L)"
      using inv False w(2,3) n chn [of ?m] by (fastforce simp: ipc_inv_def I'_def sock_buf_def word_less_nat_alt)
    then show thesis using run False by (intro new) (simp_all add: I'_def)
  qed
qed

lemma path_name_len:
  "length (takeWhile (\<lambda>b. b \<noteq> 0) path) = length path \<longleftrightarrow> 0 \<notin> set path"
  "length (takeWhile (\<lambda>b. b \<noteq> 0) path) \<le> length path"
  by (induction path) auto

lemma sc_ipc_bind_refines:
  assumes inv: "ipc_inv E I ss L" and path: "length path = 108"
  shows "\<exists>r I' ss'. sc_ipc_bind no path addrlen I = (Inr r, I') \<and> ipc_inv E I' ss' L \<and> nextSockNo I' = nextSockNo I \<and>
     sock_step (nextSockNo I, map_of (map snd ss)) (Bind no path addrlen) r (nextSockNo I, map_of (map snd ss'))"
  using inv
proof (cases rule: findSockState_spec [where no = no])
  case absent
  then have "sc_ipc_bind no path addrlen I = (Inr (- 1), I)" by (simp add: sc_ipc_bind_def)
  with inv absent show ?thesis by (intro exI [of _ "- 1"] exI [of _ I] exI [of _ ss]) (simp add: sock_step_Bind)
next
  case (found p n st as bs)
  let ?nm = "takeWhile (\<lambda>b. b \<noteq> 0) path" and ?m = "mem (ipc_st I)"
  have nm: "take (length ?nm) path = ?nm" using takeWhile_eq_take [of "\<lambda>b. b \<noteq> 0" path] by simp
  have len: "length ?nm = 108 \<longleftrightarrow> 0 \<notin> set path" "length ?nm \<le> 108"
    using path_name_len [of path] path by auto
  have ty: "sock_type ?m p = SC_IPC_NEW \<longleftrightarrow> st = Fresh"
    using found(8) by (cases st) (auto simp: sock_at_def SC_IPC_NEW_def SC_IPC_BIND_def SC_IPC_LISTEN_def)
  show ?thesis
  proof (cases "st = Fresh \<and> path_ok path addrlen")
    case True
    then have l: "length ?nm < 108" using len by (auto simp: path_ok_def)
    have run: "sc_ipc_bind no path addrlen I = (Inr 0, upd_mem (\<lambda>_. bound_sock p ?nm ?m) I)"
      using found(1,2) ty True l nm
      by (simp add: sc_ipc_bind_def path_ok_def strnlen_def sizeof_sun_path_def sizeof_bind_addr_def Let_def)
        (simp add: upd_mem_def set_mem_def bound_sock_def)
    have "0 \<notin> set ?nm" by (auto dest: set_takeWhileD)
    note w = bound_sock_facts [OF found(6,7) l this found(8)]
    from ipc_update [OF inv [unfolded found(3)] found(5,6) w]
    have "ipc_inv E (upd_mem (\<lambda>_. bound_sock p ?nm ?m) I) (as @ (p, no, Bound ?nm) # bs) L" .
    moreover have "map_of (map snd (as @ (p, no, Bound ?nm) # bs)) = (map_of (map snd ss))(no \<mapsto> Bound ?nm)"
      using inv unfolding found(3) by (intro ipc_map_update) (simp add: ipc_inv_def)
    ultimately show ?thesis using run True found(4)
      by (intro exI [of _ 0] exI [of _ "upd_mem (\<lambda>_. bound_sock p ?nm ?m) I"] exI [of _ "as @ (p, no, Bound ?nm) # bs"])
        (auto simp: sock_step_Bind)
  next
    case False
    then have "sc_ipc_bind no path addrlen I = (Inr (- 1), I)"
      using found(1,2) ty len by (auto simp: sc_ipc_bind_def path_ok_def strnlen_def sizeof_sun_path_def)
    with inv found(4) False show ?thesis by (intro exI [of _ "- 1"] exI [of _ I] exI [of _ ss]) (auto simp: sock_step_Bind)
  qed
qed

lemma sc_ipc_listen_refines:
  assumes inv: "ipc_inv E I ss L"
  shows "\<exists>r I' ss'. sc_ipc_listen no backlog I = (Inr r, I') \<and> ipc_inv E I' ss' L \<and> nextSockNo I' = nextSockNo I \<and>
     sock_step (nextSockNo I, map_of (map snd ss)) (Listen no backlog) r (nextSockNo I, map_of (map snd ss'))"
  using inv
proof (cases rule: findSockState_spec [where no = no])
  case absent
  then have "sc_ipc_listen no backlog I = (Inr (- 1), I)" by (simp add: sc_ipc_listen_def)
  with inv absent show ?thesis by (intro exI [of _ "- 1"] exI [of _ I] exI [of _ ss]) (simp add: sock_step_Listen)
next
  case (found p n st as bs)
  let ?m = "mem (ipc_st I)"
  have ty: "sock_type ?m p = SC_IPC_BIND \<longleftrightarrow> (\<exists>nm. st = Bound nm)"
    using found(8) by (cases st) (auto simp: sock_at_def SC_IPC_NEW_def SC_IPC_BIND_def SC_IPC_LISTEN_def)
  show ?thesis
  proof (cases "\<exists>nm. st = Bound nm")
    case True
    then obtain nm where st: "st = Bound nm" ..
    have run: "sc_ipc_listen no backlog I = (Inr 0, upd_mem (\<lambda>_. listening_sock p ?m) I)"
      using found(1,2) ty True by (simp add: sc_ipc_listen_def upd_mem_def set_mem_def listening_sock_def)
    note w = listening_sock_facts [OF found(6,7) found(8) [unfolded st]]
    from ipc_update [OF inv [unfolded found(3)] found(5,6) w]
    have "ipc_inv E (upd_mem (\<lambda>_. listening_sock p ?m) I) (as @ (p, no, Listening nm) # bs) L" .
    moreover have "map_of (map snd (as @ (p, no, Listening nm) # bs)) = (map_of (map snd ss))(no \<mapsto> Listening nm)"
      using inv unfolding found(3) by (intro ipc_map_update) (simp add: ipc_inv_def)
    ultimately show ?thesis using run st found(4)
      by (intro exI [of _ 0] exI [of _ "upd_mem (\<lambda>_. listening_sock p ?m) I"] exI [of _ "as @ (p, no, Listening nm) # bs"])
        (auto simp: sock_step_Listen)
  next
    case False
    then have "sc_ipc_listen no backlog I = (Inr (- 1), I)" using found(1,2) ty by (auto simp: sc_ipc_listen_def)
    with inv found(4) False show ?thesis by (intro exI [of _ "- 1"] exI [of _ I] exI [of _ ss]) (auto simp: sock_step_Listen)
  qed
qed

lemma ipc_relI: "ipc_inv E I ss L \<Longrightarrow> n = nextSockNo I \<Longrightarrow> S = map_of (map snd ss) \<Longrightarrow> ipc_rel E I L (n, S)"
  by (auto simp: ipc_rel_def)

lemma ipc_bind_listen_work:
  assumes rel: "ipc_rel E I L A" and ok: "call_ok c" "c \<noteq> Socket"
  shows "\<exists>r I' A'. ipc_exec E c I = (Inr r, I') \<and> sock_step A c r A' \<and> ipc_rel E I' L A' \<and> nextSockNo I' = nextSockNo I"
proof -
  from rel obtain ss where inv: "ipc_inv E I ss L" and A: "A = (nextSockNo I, map_of (map snd ss))" by (auto simp: ipc_rel_def)
  show ?thesis
  proof (cases c)
    case (Bind no path addrlen)
    with ok have "length path = 108" by (simp add: sizeof_sun_path_def)
    from sc_ipc_bind_refines [OF inv this, of no addrlen] Bind show ?thesis
      unfolding A by (metis ipc_exec.simps(2) ipc_relI)
  next
    case (Listen no backlog)
    from sc_ipc_listen_refines [OF inv, of no backlog] Listen show ?thesis
      unfolding A by (metis ipc_exec.simps(3) ipc_relI)
  qed (use ok in simp)
qed

lemma ipc_exec_refines:
  assumes rel: "ipc_rel E I L A" and ok: "call_ok c" and lim: "unat (nextSockNo I) + 1 < 2 ^ 32"
    and run: "ipc_exec E c I = (Inr r, I')"
  shows "\<exists>A' L'. sock_step A c r A' \<and> ipc_rel E I' L' A' \<and> L \<subseteq># L' \<and> unat (nextSockNo I') \<le> unat (nextSockNo I) + 1"
proof -
  from rel obtain ss where inv: "ipc_inv E I ss L" and A: "A = (nextSockNo I, map_of (map snd ss))" by (auto simp: ipc_rel_def)
  show ?thesis
  proof (cases c)
    case Socket
    with run obtain p t where m: "sc_malloc E 280 (ipc_st I) = (Inr p, t)"
      by (auto simp: sc_ipc_socket_def on_ipc_def sizeof_sockState_def elim!: call_InrE split: prod.splits)
    from inv lim m show ?thesis
    proof (cases rule: sc_ipc_socket_cases)
      case none
      with run Socket show ?thesis by (intro exI [of _ A] exI [of _ L]) (auto simp: A sock_step_Socket ipc_rel_def)
    next
      case (new n J)
      have "unat (nextSockNo I + 1) = unat (nextSockNo I) + 1" using lim by (simp add: unat_word_ariths)
      with new run Socket show ?thesis
        by (intro exI [of _ "(nextSockNo I + 1, map_of (map snd ((p, nextSockNo I, Fresh) # ss)))"] exI [of _ "add_mset (p, n) L"])
          (auto simp: A sock_step_Socket ipc_rel_def intro!: exI [of _ "(p, nextSockNo I, Fresh) # ss"])
    qed
  qed (use ipc_bind_listen_work [OF rel ok] run in force)+
qed

lemma ipc_socket_works:
  assumes rel: "ipc_rel E I L (n, S)" and room: "malloc_enough E (ipc_st I) 280" and lim: "unat n + 1 < 2 ^ 32"
  shows "\<exists>I' L'. sc_ipc_socket E I = (Inr n, I') \<and> ipc_rel E I' L' (n + 1, S(n \<mapsto> Fresh))"
proof -
  from rel obtain ss where inv: "ipc_inv E I ss L" and A: "n = nextSockNo I" "S = map_of (map snd ss)" by (auto simp: ipc_rel_def)
  from malloc_enough_ok [OF room, of "ipc_st I"] obtain p t where m: "sc_malloc E 280 (ipc_st I) = (Inr p, t)" "p \<noteq> 0" by auto
  from inv lim [unfolded A] m(1) show ?thesis
  proof (cases rule: sc_ipc_socket_cases)
    case (new k J)
    then show ?thesis using A by (intro exI [of _ J] exI [of _ "add_mset (p, k) L"])
      (auto simp: ipc_rel_def intro!: exI [of _ "(p, nextSockNo I, Fresh) # ss"])
  qed (use m in simp)
qed

lemma ipc_socket_to_listen:
  assumes rel: "ipc_rel E I L (n, S)" and room: "malloc_enough E (ipc_st I) 280" and lim: "unat n + 1 < 2 ^ 32"
    and path: "length path = 108" "0 \<in> set path"
  shows "\<exists>I' L'. ipc_run E [Socket, Bind n path 110, Listen n backlog, Bind n path 110] I = (Inr [n, 0, 0, - 1], I') \<and>
     ipc_rel E I' L' (n + 1, S(n \<mapsto> Listening (takeWhile (\<lambda>b. b \<noteq> 0) path)))"
proof -
  let ?nm = "takeWhile (\<lambda>b. b \<noteq> 0) path"
  have ok: "path_ok path 110" "call_ok (Bind n path 110)" using path by (simp_all add: path_ok_def sizeof_sockaddr_un_def sizeof_sun_path_def)
  from ipc_socket_works [OF rel room lim] obtain I1 L1 where
    1: "sc_ipc_socket E I = (Inr n, I1)" "ipc_rel E I1 L1 (n + 1, S(n \<mapsto> Fresh))" by blast
  from ipc_bind_listen_work [OF 1(2) ok(2)] ok(1) obtain I2 where
    2: "sc_ipc_bind n path 110 I1 = (Inr 0, I2)" "ipc_rel E I2 L1 (n + 1, S(n \<mapsto> Bound ?nm))" by (auto simp: sock_step_Bind)
  from ipc_bind_listen_work [OF 2(2), of "Listen n backlog"] obtain I3 where
    3: "sc_ipc_listen n backlog I2 = (Inr 0, I3)" "ipc_rel E I3 L1 (n + 1, S(n \<mapsto> Listening ?nm))" by (auto simp: sock_step_Listen)
  from ipc_bind_listen_work [OF 3(2) ok(2)] obtain I4 where
    4: "sc_ipc_bind n path 110 I3 = (Inr (- 1), I4)" "ipc_rel E I4 L1 (n + 1, S(n \<mapsto> Listening ?nm))" by (auto simp: sock_step_Bind)
  from 1 2 3 4 show ?thesis by auto
qed

lemma demo_ipc_rel: "ipc_rel demo_env demo_ipc {#} (1, Map.empty)"
  using demo_heap by (auto simp: ipc_rel_def ipc_inv_def demo_ipc_def alloc_inv_def intro!: exI [of _ "[]"])

lemma demo_ipc_room: "malloc_enough demo_env (ipc_st demo_ipc) 280"
  unfolding malloc_enough_def
proof (intro conjI exI disjI2)
  show "0 \<le> sint (280 :: u64)" by (simp add: sint_nonneg_unat)
  show "malloc_inv demo_env (ipc_st demo_ipc) [] {#} {#(0x1000, 0x1000), (0x2000, 0x2000)#}" using demo_heap by (simp add: demo_ipc_def)
  show "malloc_room demo_env (ipc_st demo_ipc) (malloc_mmap_size demo_env (malloc_alloc_size 280 + 24))"
    using demo_room by (simp add: demo_ipc_def malloc_mmap_size_def malloc_split_size_def malloc_alloc_size_def)
qed

lemma demo_path_facts: "length demo_path = 108" "0 \<in> set demo_path" "takeWhile (\<lambda>b. b \<noteq> 0) demo_path = [0x2f, 0x73]"
  by (simp_all add: demo_path_def)

lemma registry_post_answers:
  assumes rel: "registry_rel E R L M" and nm: "is_name name" and run: "registry_post E name v R = (Inr rc, R')"
  shows "\<exists>L'. registry_rel E R' L' (snd (spec_post name v M)) \<and> rc = fst (spec_post name v M)"
proof (cases "spec_find M name = 0")
  case True
  from rel obtain es where es: "registry_inv E R es L" "M = map_of (map snd es)" by (auto simp: registry_rel_def)
  note find = registry_find_spec [OF rel nm, unfolded True]
  let ?s = "unlock_shared LRegistry (lock_shared LRegistry (base R))"
  from run obtain p t where m: "sc_malloc E (25 + of_nat (length name)) ?s = (Inr p, t)" "p \<noteq> 0"
    unfolding registry_post_def using find name_size(1) [OF nm]
    by (auto simp: on_base_def Let_def elim!: call_InrE dest!: guard_InrD split: prod.splits if_splits)
  from registry_post_run [OF es(1) nm True [unfolded es(2)] m, of v] run obtain n where
    "registry_inv E R' ((p, name, v) # es) (add_mset (p, n) L)" "rc = 0" by auto
  then show ?thesis using True unfolding registry_rel_def
    by (intro exI [of _ "add_mset (p, n) L"] conjI exI [of _ "(p, name, v) # es"]) (simp_all add: spec_post_def es(2))
next
  case False
  then show ?thesis using registry_find_spec [OF rel nm] run rel by (auto simp: registry_post_def spec_post_def)
qed

lemma post_all_answers:
  assumes "registry_rel E R L M" and "\<forall>(nm, v, l) \<in> set ps. is_name (bytes_of nm)" and "post_all E ps R = (Inr (), R')"
  shows "\<exists>L'. registry_rel E R' L' (foldl (\<lambda>M (nm, v, l). M(bytes_of nm \<mapsto> v)) M ps)"
  using assms
proof (induction ps arbitrary: R L M)
  case (Cons a ps)
  obtain nm v l where a: "a = (nm, v, l)" by (cases a)
  from Cons.prems(3) obtain R1 where 1: "registry_post E (bytes_of nm) v R = (Inr 0, R1)" "post_all E ps R1 = (Inr (), R')"
    by (auto simp: a elim!: call_InrE split: if_splits)
  have "is_name (bytes_of nm)" using Cons.prems(2) by (simp add: a)
  from registry_post_answers [OF Cons.prems(1) this 1(1)] obtain L1 where "registry_rel E R1 L1 (M(bytes_of nm \<mapsto> v))"
    by (auto simp: spec_post_def EINVAL_def split: if_splits)
  from Cons.IH [OF this _ 1(2)] Cons.prems(2) show ?case by (simp add: a)
qed auto

lemma ipc_names: "\<forall>(nm, v, l) \<in> set (ipc_symbols A). is_name (bytes_of nm)"
  by (simp add: ipc_symbols_def is_name_def bytes_of_def of_char_of)

text \<open>A client that asks the registry for the accept or the connect operation of the IPC subcontext gets the
  listen operation.\<close>

theorem ipc_accept_is_listen:
  assumes "registry_rel E R L M" and "post_all E (ipc_symbols A) R = (Inr (), R')"
  shows "\<exists>R1 R2. registry_find (bytes_of ''ipc:sc_ipc_accept(int,struct sockaddr*,socklen_t*)'') R' = (Inr (addr_listen A), R1) \<and>
     registry_find (bytes_of ''ipc:sc_ipc_connect(int,const struct sockaddr*,socklen_t)'') R' = (Inr (addr_listen A), R2)"
proof -
  from post_all_answers [OF assms(1) ipc_names assms(2)] obtain L' where
    rel: "registry_rel E R' L' (foldl (\<lambda>M (nm, v, l). M(bytes_of nm \<mapsto> v)) M (ipc_symbols A))" by blast
  have nm: "is_name (bytes_of ''ipc:sc_ipc_accept(int,struct sockaddr*,socklen_t*)'')"
    "is_name (bytes_of ''ipc:sc_ipc_connect(int,const struct sockaddr*,socklen_t)'')"
    using ipc_names [of A] by (simp_all add: ipc_symbols_def)
  from registry_find_spec [OF rel nm(1)] registry_find_spec [OF rel nm(2)] show ?thesis
    by (simp add: ipc_symbols_def spec_find_def bytes_of_def)
qed

section \<open>Properties\<close>

text \<open>C16: Any sequence of socket, bind and listen calls of which none ends in a trap answers as the abstract
  socket service does: every successful socket call gives out the next number, bind succeeds exactly on
  a fresh socket with a terminated path in an address of the right length, listen exactly on a bound
  one, every other call answers -1 and changes nothing, and the bytes of the sockets on the list
  are those of the sockets of the service.\<close>

theorem ipc_refines_sockets:
  assumes "ipc_rel E I L A" and "list_all call_ok cs" and "unat (nextSockNo I) + length cs < 2 ^ 31" and "ipc_run E cs I = (Inr rs, I')"
  shows "\<exists>A' L'. sock_steps A cs rs A' \<and> ipc_rel E I' L' A' \<and> L \<subseteq># L'"
  using assms
proof (induction cs arbitrary: I L A rs)
  case Nil
  then have "sock_steps A [] rs A" "I = I'" by (auto intro: sock_steps.stop)
  with Nil.prems(1) show ?case by blast
next
  case (Cons c cs)
  from Cons.prems(4) obtain r J rs' where J: "ipc_exec E c I = (Inr r, J)" "ipc_run E cs J = (Inr rs', I')" "rs = r # rs'"
    by (auto elim!: call_InrE)
  from ipc_exec_refines [OF Cons.prems(1) _ _ J(1)] Cons.prems obtain B L1 where
    B: "sock_step A c r B" "ipc_rel E J L1 B" "L \<subseteq># L1" "unat (nextSockNo J) \<le> unat (nextSockNo I) + 1" by auto
  from Cons.IH [OF B(2) _ _ J(2)] Cons.prems B(4) obtain A' L' where
    "sock_steps B cs rs' A'" "ipc_rel E I' L' A'" "L1 \<subseteq># L'" by auto
  with B J(3) show ?case by (blast intro: sock_steps.step subset_mset.order_trans)
qed

theorem ipc_refines_sockets_witness:
  "\<exists>rs I' A' L'. ipc_run demo_env [Socket, Bind 1 demo_path 110, Listen 1 5, Bind 1 demo_path 110] demo_ipc = (Inr rs, I') \<and>
     sock_steps (1, Map.empty) [Socket, Bind 1 demo_path 110, Listen 1 5, Bind 1 demo_path 110] rs A' \<and> ipc_rel demo_env I' L' A'"
proof -
  let ?cs = "[Socket, Bind 1 demo_path 110, Listen 1 5, Bind 1 demo_path 110]"
  from ipc_socket_to_listen [OF demo_ipc_rel demo_ipc_room _ demo_path_facts(1,2), of 5] obtain rs I' where
    run: "ipc_run demo_env ?cs demo_ipc = (Inr rs, I')" by auto
  have "list_all call_ok ?cs" using demo_path_facts(1) by (simp add: sizeof_sun_path_def)
  from ipc_refines_sockets [OF demo_ipc_rel this _ run] run show ?thesis by (auto simp: demo_ipc_def)
qed



end
