(* ===== verification/SC_Client.thy ===== *)
theory SC_Client
  imports SC_Ipc
begin

text \<open>
  The client \<^verbatim>\<open>ipc_send\<close> (\<^verbatim>\<open>trunk/ipc_send.c\<close>): it attaches to the registry, joins the IPC subcontext, looks
  up the operations of the IPC service and calls them through the pointers it got.

  The process has two subcontexts mapped, that of the registry and that of the IPC service; the state
  has a part for each. It has two entries on \<^verbatim>\<open>sc_local_list\<close>, so that a fault ends it (\<open>two_entries\<close>). A call through a pointer runs the function that the linker placed at the
  address; its arguments are those in the registers, and a pointer to a \<^verbatim>\<open>sockaddr_un\<close> stands for the
  108 bytes of its \<^verbatim>\<open>sun_path\<close>.
\<close>

section \<open>Definitions\<close>

record session =
  s_reg :: registry
  s_ipc :: ipc

definition on_reg :: "(registry \<Rightarrow> ('a, registry) res) \<Rightarrow> session \<Rightarrow> ('a, session) res" where
  "on_reg f S = (let (r, R) = f (s_reg S) in (r, S\<lparr>s_reg := R\<rparr>))"

definition on_sock :: "(ipc \<Rightarrow> ('a, ipc) res) \<Rightarrow> session \<Rightarrow> ('a, session) res" where
  "on_sock f S = (let (r, I) = f (s_ipc S) in (r, S\<lparr>s_ipc := I\<rparr>))"

text \<open>The functions of the IPC service that have an address; \<open>addr_accept\<close> and \<open>addr_connect\<close> are those that are not
  posted.\<close>

record ipc_code = ipc_image +
  addr_accept :: u64
  addr_connect :: u64


definition invoke :: "env \<Rightarrow> ipc_code \<Rightarrow> u64 \<Rightarrow> u64 \<Rightarrow> u64 \<Rightarrow> u64 \<Rightarrow> u64 \<Rightarrow> u8 list \<Rightarrow> ipc \<Rightarrow> (u32, ipc) res" where
  "invoke E A f x1 x2 x3 x4 sun_path =
     two_entries ipc_st (if f = addr_socket A then sc_ipc_socket E
      else if f = addr_bind A then sc_ipc_bind (ucast x1) sun_path (ucast x3)
      else if f = addr_listen A then sc_ipc_listen (ucast x1) (ucast x2)
      else if f = addr_accept A then sc_ipc_accept (ucast x1) x2 x3
      else if f = addr_connect A then sc_ipc_connect (ucast x1) x2 (ucast x3)
      else if f = addr_send A then sc_ipc_send (ucast x1) x2 x3 (ucast x4)
      else if f = addr_recv A then sc_ipc_recv (ucast x1) x2 x3 (ucast x4)
      else (\<lambda>I. (Inl Segv, I)))"

definition AF_UNIX :: u64 where "AF_UNIX = 1"

definition SOCK_STREAM :: u64 where "SOCK_STREAM = 1"

definition SOCK_DGRAM :: u64 where "SOCK_DGRAM = 2"

fun find_all :: "string list \<Rightarrow> registry \<Rightarrow> (u64 list, registry) res" where
  "find_all [] R = (Inr [], R)"
| "find_all (nm # nms) R = call (registry_find (bytes_of nm)) (\<lambda>p. call (find_all nms) (\<lambda>ps R. (Inr (p # ps), R))) R"

definition ipc_names_wanted :: "string list" where
  "ipc_names_wanted =
     [''ipc:sc_ipc_socket(int,int,int)'',
      ''ipc:sc_ipc_bind(int,const struct sockaddr*,socklen_t)'',
      ''ipc:sc_ipc_listen(int,int)'',
      ''ipc:sc_ipc_accept(int,struct sockaddr*,socklen_t*)'',
      ''ipc:sc_ipc_connect(int,const struct sockaddr*,socklen_t)'',
      ''ipc:sc_ipc_send(int,const void*,size_t,int)'',
      ''ipc:sc_ipc_recv(int,void*,size_t,int)'']"

text \<open>The calls of lines 81 to 123, through the pointers \<open>f\<close>. \<open>junk\<close> is what the bytes of the local variable \<^verbatim>\<open>addr\<close>
  held before.\<close>

definition path_bytes :: "u8 list \<Rightarrow> u8 list \<Rightarrow> u8 list" where
  "path_bytes file junk = file @ 0 # drop (Suc (length file)) junk"

definition ipc_send_calls :: "env \<Rightarrow> ipc_code \<Rightarrow> u64 list \<Rightarrow> u8 list \<Rightarrow> u8 list \<Rightarrow> ipc \<Rightarrow> (int, ipc) res" where
  "ipc_send_calls E A f file junk =
     call (invoke E A (f ! 0) AF_UNIX SOCK_STREAM SOCK_DGRAM 0 []) (\<lambda>serv I.
       if serv = - 1 then (Inr 3, I)
       else if length file \<ge> sizeof_sun_path then (Inr 2, I)
       else call (invoke E A (f ! 1) (ucast serv) 0 (ucast sizeof_sockaddr_un) 0 (path_bytes file junk)) (\<lambda>rc I.
         if rc \<noteq> 0 then (Inr 3, I)
         else call (invoke E A (f ! 2) (ucast serv) 5 0 0 []) (\<lambda>rc I.
           if rc \<noteq> 0 then (Inr 3, I)
           else call (invoke E A (f ! 3) (ucast serv) 0 0 0 []) (\<lambda>sock I.
             if sint sock < 0 then (Inr 3, I) else (Inl (Todo 123), I)) I) I) I)"

definition ipc_send_session :: "env \<Rightarrow> ipc_code \<Rightarrow> u8 list \<Rightarrow> u8 list \<Rightarrow> session \<Rightarrow> (int, session) res" where
  "ipc_send_session E A file junk =
     call (on_reg (two_entries base (find_all ipc_names_wanted))) (\<lambda>f S.
       if 0 \<in> set f then (Inr 3, S) else on_sock (ipc_send_calls E A f file junk) S)"

text \<open>\<^verbatim>\<open>main\<close>; \<open>argv\<close> are the arguments after the program name, \<open>ipc_fd\<close> the descriptor of the backing file of the
  IPC subcontext, if it can be opened.\<close>

definition ipc_send_main :: "env \<Rightarrow> boot \<Rightarrow> (u64 \<Rightarrow> u64 option) \<Rightarrow> u32 option \<Rightarrow> u32 option \<Rightarrow> ipc_code \<Rightarrow> u8 list \<Rightarrow> u8 list list \<Rightarrow>
    session \<Rightarrow> (int, session) res" where
  "ipc_send_main E B other_root reg_fd ipc_fd A junk argv S =
     (case argv of
        [file] \<Rightarrow>
          call (on_reg (on_base (subcontexts_registry_bootstrap E B other_root reg_fd 0))) (\<lambda>(registry, _) S.
            if registry = 0 then (Inr 2, S)
            else case ipc_fd of
              None \<Rightarrow> (Inr 2, S)
            | Some fd \<Rightarrow>
                call (on_sock (on_ipc (sc_join E B fd))) (\<lambda>ipc_sc S.
                  if ipc_sc = 0 then (Inr 2, S) else ipc_send_session E A file junk S) S) S
      | _ \<Rightarrow> (Inr 1, S))"










section \<open>Lemmas\<close>





























section \<open>Properties\<close>










end
