(* ===== verification/SC_Text.thy ===== *)
theory SC_Text
  imports SC_Prelude
begin

text \<open>
  Numbers and pointers as the C library prints them, and its white space. The maps parser reads such text, and the dump
  tool prints it.
\<close>

definition isspace :: "char \<Rightarrow> bool" where
  "isspace c \<longleftrightarrow> c \<in> {CHR '' '', CHR 0x09, CHR 0x0A, CHR 0x0B, CHR 0x0C, CHR 0x0D}"

definition hexchar :: "nat \<Rightarrow> char" where
  "hexchar k = char_of (if k < 10 then k + 48 else k + 87)"

fun numeral_str :: "nat \<Rightarrow> nat \<Rightarrow> string" where
  "numeral_str base n = (if base < 2 \<or> n < base then [hexchar n] else numeral_str base (n div base) @ [hexchar (n mod base)])"

declare numeral_str.simps [simp del]

lemma numeral_str_run:
  "n < base \<Longrightarrow> numeral_str base n = [hexchar n]"
  "2 \<le> base \<Longrightarrow> base \<le> n \<Longrightarrow> numeral_str base n = numeral_str base (n div base) @ [hexchar (n mod base)]"
  by (subst numeral_str.simps, simp)+

text \<open>\<^verbatim>\<open>%0wx\<close>: hexadecimal digits, filled up with zeros to the width \<open>w\<close>.\<close>

definition hex_str :: "nat \<Rightarrow> nat \<Rightarrow> string" where
  "hex_str w n = (let s = numeral_str 16 n in replicate (w - length s) (CHR ''0'') @ s)"

text \<open>\<^verbatim>\<open>%d\<close> and \<^verbatim>\<open>%lld\<close>, and \<^verbatim>\<open>%p\<close> as the GNU C library prints it.\<close>

definition dec_str :: "int \<Rightarrow> string" where
  "dec_str i = (if i < 0 then CHR ''-'' # numeral_str 10 (nat (- i)) else numeral_str 10 (nat i))"

definition ptr_str :: "u64 \<Rightarrow> string" where
  "ptr_str p = (if p = 0 then ''(nil)'' else ''0x'' @ numeral_str 16 (unat p))"

text \<open>Evaluation on concrete numbers.\<close>

lemma hexchar_simps:
  "hexchar 0 = CHR ''0''" "hexchar (Suc 0) = CHR ''1''" "hexchar 2 = CHR ''2''" "hexchar 3 = CHR ''3''" "hexchar 4 = CHR ''4''"
  "hexchar 5 = CHR ''5''" "hexchar 6 = CHR ''6''" "hexchar 7 = CHR ''7''" "hexchar 8 = CHR ''8''" "hexchar 9 = CHR ''9''"
  "hexchar 10 = CHR ''a''" "hexchar 11 = CHR ''b''" "hexchar 12 = CHR ''c''" "hexchar 13 = CHR ''d''" "hexchar 14 = CHR ''e''"
  "hexchar 15 = CHR ''f''"
  by code_simp+

lemma replicate_numeral: "replicate (numeral k) x = x # replicate (pred_numeral k) x"
  by (simp add: numeral_eq_Suc)

lemmas text_simps = hex_str_def dec_str_def ptr_str_def numeral_str_run hexchar_simps replicate_numeral

end
