(* ===== verification/SC_Tools.thy ===== *)
theory SC_Tools
  imports SC_Lifecycle SC_Text
begin

text \<open>
  The command-line tools that join a running subcontext: \<^verbatim>\<open>subcontexts_ctl\<close> (\<^verbatim>\<open>trunk/subcontexts_ctl.c\<close>), which
  posts a reservation, and \<^verbatim>\<open>subcontexts_dump\<close> (\<^verbatim>\<open>trunk/subcontexts_dump.c\<close>), which prints the control
  structs; one turn of the loop of the demo (\<^verbatim>\<open>trunk/subcontexts_demo.c\<close>); and the mmap of the overrides
  (\<^verbatim>\<open>trunk/subcontexts_v1_overrides.h\<close>).

  What the dump tool prints is part of its result, line by line; what the others print is left out. \<open>open_fd\<close> is the descriptor that opening \<^verbatim>\<open>/proc/<pid>/fd/<n>\<close> gives, if it can be
  opened, and \<open>others\<close> is what the other processes have made of the subcontext when a wait for
  \<^verbatim>\<open>pending_reservation\<close> to change returns, \<open>None\<close> when it never does.
\<close>

section \<open>Definitions\<close>

text \<open>\<^verbatim>\<open>atoi\<close>: white space, a sign, decimal digits. The result is that of the C library as long as it fits an \<^verbatim>\<open>int\<close>.\<close>

definition isdigit :: "char \<Rightarrow> bool" where
  "isdigit c \<longleftrightarrow> 48 \<le> (of_char c :: nat) \<and> (of_char c :: nat) \<le> 57"

definition digits :: "string \<Rightarrow> int" where
  "digits cs = foldl (\<lambda>n c. 10 * n + (of_char c - 48)) 0 (takeWhile isdigit cs)"

definition atoi :: "string \<Rightarrow> u32" where
  "atoi cs = (case dropWhile isspace cs of
     [] \<Rightarrow> 0
   | c # rest \<Rightarrow> if c = CHR ''-'' then of_int (- digits rest)
                 else if c = CHR ''+'' then of_int (digits rest) else of_int (digits (c # rest)))"

subsection \<open>The control tool\<close>

text \<open>Waiting until no reservation is pending (lines 86 to 95), with the root lock held before and after.\<close>

partial_function (option) ctl_wait :: "(st \<Rightarrow> st option) \<Rightarrow> st \<Rightarrow> st option" where
  "ctl_wait others s =
     (if pending_reservation (rt s) = 0 then Some s
      else case others (unlock_exclusive LRoot s) of
        None \<Rightarrow> None
      | Some s \<Rightarrow> ctl_wait others (lock_exclusive LRoot s))"

definition ctl_addReserved :: "env \<Rightarrow> (st \<Rightarrow> st option) \<Rightarrow> u32 \<Rightarrow> st \<Rightarrow> (unit, st) res" where
  "ctl_addReserved E others pages =
     guard [(80, 0 < sint pages)] (\<lambda>s.
       let s = lock_exclusive LRoot s
       in loops (ctl_wait others s) (\<lambda>s _.
            call (sc_postNewReservation E (scast pages)) (\<lambda>rc s. (Inr (), unlock_exclusive LRoot s)) s) s)"

text \<open>\<^verbatim>\<open>main\<close>; \<open>argv\<close> are the arguments after the program name, \<open>junk\<close> is the value of the variable \<^verbatim>\<open>mySc\<close> when nothing has
  been assigned to it.\<close>

definition ctl_join :: "env \<Rightarrow> boot \<Rightarrow> (u32 \<Rightarrow> u32 \<Rightarrow> u32 option) \<Rightarrow> u64 \<Rightarrow> string list \<Rightarrow> st \<Rightarrow> (u64 option, st) res" where
  "ctl_join E B open_fd junk argv s =
     (case argv of
        a1 # a2 # _ \<Rightarrow>
          (case open_fd (atoi a1) (atoi a2) of
             None \<Rightarrow> (Inr None, s)
           | Some fd \<Rightarrow> call (sc_join E B fd) (\<lambda>mySc s. (Inr (if mySc = 0 then None else Some mySc), s)) s)
      | _ \<Rightarrow> (Inr (Some junk), s))"

definition ctl_main :: "env \<Rightarrow> boot \<Rightarrow> (u32 \<Rightarrow> u32 \<Rightarrow> u32 option) \<Rightarrow> (st \<Rightarrow> st option) \<Rightarrow> u64 \<Rightarrow> string list \<Rightarrow> st \<Rightarrow> (int, st) res" where
  "ctl_main E B open_fd others junk argv =
     call (ctl_join E B open_fd junk argv) (\<lambda>joined s.
       case joined of
         None \<Rightarrow> (Inr 2, s)
       | Some mySc \<Rightarrow>
           let (myScLocal, s) = lookupScLocal mySc s
           in if myScLocal = None then (Inr 2, s)
              else if length argv = 4 \<and> argv ! 2 = ''--addReserved''
              then call (ctl_addReserved E others (atoi (argv ! 3))) (\<lambda>_ s. (Inl (Todo 111), s)) s
              else (Inr 1, s))"

subsection \<open>The dump tool\<close>

text \<open>One of the four loops over a list of regions. What the tool prints is a list of lines; \<open>printed\<close> are the
  lines before the loop. \<open>lockval\<close> is the field \<^verbatim>\<open>val\<close> of a lock.\<close>

definition dump_region :: "(lock_id \<Rightarrow> u32) \<Rightarrow> string \<Rightarrow> u64 \<Rightarrow> sc_region \<Rightarrow> string list" where
  "dump_region lockval title p r =
     [title @ '' ('' @ ptr_str p @ ''):'',
      replicate (length title) (CHR ''-''),
      ''  lock=0x'' @ hex_str 8 (unat (lockval (LRegion p))),
      ''  next='' @ ptr_str (r_next r),
      ''  vaddr=0x'' @ hex_str 16 (unat (r_vaddr r)),
      ''  len=0x'' @ hex_str 16 (unat (r_len r)),
      ''  prot=0x'' @ hex_str 0 (unat (r_prot r)) @ '' (READ=0x'' @ hex_str 0 (unat PROT_READ) @ '' WRITE=0x'' @
        hex_str 0 (unat PROT_WRITE) @ '')'',
      ''  permaPin='' @ dec_str (if r_permaPin r then 1 else 0),
      ''  tmpfile_offset=0x'' @ hex_str 16 (unat (r_tmpfile_offset r)),
      '''']"

partial_function (option) dump_list :: "(lock_id \<Rightarrow> u32) \<Rightarrow> string \<Rightarrow> (u64 \<rightharpoonup> sc_region) \<Rightarrow> string list \<Rightarrow> u64 \<Rightarrow>
    (string list option) option" where
  "dump_list lockval title m printed cur =
     (if cur = 0 then Some (Some printed)
      else case m cur of
        None \<Rightarrow> Some None
      | Some r \<Rightarrow> dump_list lockval title m (printed @ dump_region lockval title cur r) (r_next r))"

definition dump_regions :: "(lock_id \<Rightarrow> u32) \<Rightarrow> string \<Rightarrow> u64 \<Rightarrow> string list \<Rightarrow> st \<Rightarrow> (string list, st) res" where
  "dump_regions lockval title cur printed s =
     loops (dump_list lockval title (regs s) printed cur) (\<lambda>ls. deref ls (\<lambda>ls s. (Inr ls, s))) s"

text \<open>The root struct. The line of \<^verbatim>\<open>tmpfile_size\<close> has no conversion: the format \<^verbatim>\<open>"0x016llx"\<close> lacks the percent sign.
  \<^verbatim>\<open>pending_reservation\<close> and \<^verbatim>\<open>descriptive_name\<close> have no line.\<close>

definition dump_header :: "(lock_id \<Rightarrow> u32) \<Rightarrow> u64 \<Rightarrow> sc \<Rightarrow> string list" where
  "dump_header lockval mySc r =
     [''ROOT CONTROL STRUCT ('' @ ptr_str mySc @ ''):'',
      ''-------------------'',
      ''  magic=0x'' @ hex_str 8 (unat (magic r)) @ '' (ROOT_MAGIC=0x'' @ hex_str 8 (unat SUBCONTEXTS_ROOT_MAGIC) @ '')'',
      ''  lock=0x'' @ hex_str 8 (unat (lockval LRoot)),
      ''  active_regions='' @ ptr_str (active_regions r),
      ''  active_regionsTail='' @ ptr_str (active_regionsTail r),
      ''  reserved_regions='' @ ptr_str (reserved_regions r),
      ''  unmapped_regions='' @ ptr_str (unmapped_regions r),
      ''  free_structs='' @ ptr_str (free_structs r),
      ''  tmpfile_size=0x016llx'',
      ''  proc_count='' @ dec_str (sint (proc_count r)),
      ''  proc_list='' @ ptr_str (proc_list r),
      ''  proc_list__deadFlagPending='' @ dec_str (if proc_list_deadFlagPending r then 1 else 0),
      ''  prealloc_proc='' @ ptr_str (prealloc_proc r),
      ''  cleanupLog_lastSeqNum='' @ dec_str (sint (cleanupLog_lastSeqNum r)),
      ''  cleanupLog='' @ ptr_str (cleanupLog r),
      ''  cleanupLog_tail='' @ ptr_str (cleanupLog_tail r),
      ''  malloc_metadata='' @ ptr_str (malloc_md r),
      ''  user_mySc='' @ ptr_str (user_root r),
      '''']"

definition dump_root :: "(lock_id \<Rightarrow> u32) \<Rightarrow> u64 \<Rightarrow> st \<Rightarrow> (string list, st) res" where
  "dump_root lockval mySc s =
     call (dump_regions lockval ''ACTIVE REGION'' (active_regions (rt s)) (dump_header lockval mySc (rt s))) (\<lambda>ls s.
     call (dump_regions lockval ''RESERVED REGION'' (reserved_regions (rt s)) ls) (\<lambda>ls s.
     call (dump_regions lockval ''UNMAPPED REGION'' (unmapped_regions (rt s)) ls) (\<lambda>ls s.
       dump_regions lockval ''FREE STRUCT'' (free_structs (rt s)) ls s) s) s) s"

text \<open>The result is the status, with the lines on the standard output.\<close>

definition dump_main :: "env \<Rightarrow> boot \<Rightarrow> (u32 \<Rightarrow> u32 \<Rightarrow> u32 option) \<Rightarrow> (lock_id \<Rightarrow> u32) \<Rightarrow> string list \<Rightarrow> st \<Rightarrow>
    (int \<times> string list, st) res" where
  "dump_main E B open_fd lockval argv s =
     (case argv of
        [a1, a2] \<Rightarrow>
          (case open_fd (atoi a1) (atoi a2) of
             None \<Rightarrow> (Inr (2, []), s)
           | Some fd \<Rightarrow>
               call (sc_join E B fd) (\<lambda>mySc s.
                 if mySc = 0 then (Inr (2, []), s)
                 else call (dump_root lockval mySc) (\<lambda>ls s. (Inr (0, ls), s)) s) s)
      | _ \<Rightarrow> (Inr (1, []), s))"

subsection \<open>The demo and the overrides\<close>

text \<open>One turn of the demo's loop: the fields it prints while it holds the root lock in shared mode.\<close>

definition demo_turn :: "st \<Rightarrow> (u32 \<times> u64 \<times> u32 \<times> u64) \<times> st" where
  "demo_turn s =
     (let s = lock_shared LRoot s;
          shown = (magic (rt s), tmpfile_size (rt s), proc_count (rt s), cleanupLog_lastSeqNum (rt s));
          s = unlock_shared LRoot s
      in (shown, s))"

definition sc_emulation_mmap :: "env \<Rightarrow> u64 \<Rightarrow> u64 \<Rightarrow> u32 \<Rightarrow> u32 \<Rightarrow> u32 \<Rightarrow> u64 \<Rightarrow> st \<Rightarrow> (u64, st) res" where
  "sc_emulation_mmap E addr len prot flags fd offset = sc_mmap E addr len prot flags fd (ucast offset)"

section \<open>Lemmas\<close>

lemma dump_list_chain:
  assumes "chain (region_next m) cur ps 0" "set ps \<subseteq> dom m"
  shows "dump_list lockval title m out cur = Some (Some (out @ concat (map (\<lambda>p. dump_region lockval title p (the (m p))) ps)))"
  using assms
proof (induction ps arbitrary: cur out)
  case Nil then show ?case by (subst dump_list.simps) simp
next
  case (Cons p ps)
  then obtain r where r: "m p = Some r" "cur = p" "p \<noteq> 0" by auto
  from Cons.prems r have "chain (region_next m) (r_next r) ps 0" "set ps \<subseteq> dom m" by (simp_all add: region_next_at)
  note Cons.IH [OF this, of "out @ dump_region lockval title p r"]
  with r show ?case by (subst dump_list.simps) simp
qed

lemma dump_regions_chain:
  assumes "chain (region_next (regs s)) cur ps 0" "set ps \<subseteq> dom (regs s)"
  shows "dump_regions lockval title cur out s = (Inr (out @ concat (map (\<lambda>p. dump_region lockval title p (the (regs s p))) ps)), s)"
  by (simp add: dump_regions_def dump_list_chain [OF assms])

lemma ctl_wait_none: "pending_reservation (rt s) = 0 \<Longrightarrow> ctl_wait others s = Some s"
  by (subst ctl_wait.simps) simp

text \<open>A wait that ends, ends with no reservation pending.\<close>

lemma ctl_wait_some: "ctl_wait others s = Some s' \<Longrightarrow> pending_reservation (rt s') = 0"
  by (rule ctl_wait.raw_induct [of "\<lambda>_ s s'. pending_reservation (rt s') = 0" others s s']) (auto split: if_splits option.splits)

lemma ctl_addReserved_eq:
  assumes "pending_reservation (rt s) = 0" "0 < sint pages"
  shows "ctl_addReserved E others pages s =
    call (sc_postNewReservation E (scast pages)) (\<lambda>_ s. (Inr (), unlock_exclusive LRoot s)) (lock_exclusive LRoot s)"
  using assms ctl_wait_none [of "lock_exclusive LRoot s" others] by (simp add: ctl_addReserved_def)

lemma scast_pos:
  assumes "0 < sint (p :: u32)" shows "0 < (scast p :: u64)"
proof -
  have "sint p < 2 ^ 31" using sint_lt [of p] by simp
  then have "take_bit 64 (sint p) = sint p" using assms by (simp add: take_bit_int_eq_self_iff)
  then have "uint (scast p :: u64) = sint p" unfolding scast_eq uint_word_of_int_eq by simp
  with assms show ?thesis by (simp add: word_less_def)
qed

section \<open>Properties\<close>

text \<open>C28: What the dump tool prints: the lines of the root struct, then the lines of each struct of the active, the reserved and
  the free list, each once and in the order of its list (nothing is on the list of unmapped regions, which no code ever
  fills). Its four loops end, and it changes nothing. By a defect of one format string and for the lack of a line, the output
  does not tell \<^verbatim>\<open>tmpfile_size\<close>, \<^verbatim>\<open>pending_reservation\<close> and \<^verbatim>\<open>descriptive_name\<close>: it is the same for all their values.\<close>

theorem dump_root_exact:
  assumes "region_core E s act rsv fre" and "unmapped_regions (rt s) = 0"
  shows "dump_root lockval mySc s = (Inr (dump_header lockval mySc (rt s) @
       concat (map (\<lambda>p. dump_region lockval ''ACTIVE REGION'' p (the (regs s p))) act) @
       concat (map (\<lambda>p. dump_region lockval ''RESERVED REGION'' p (the (regs s p))) rsv) @
       concat (map (\<lambda>p. dump_region lockval ''FREE STRUCT'' p (the (regs s p))) fre)), s) \<and>
    fst (dump_root lockval mySc (s\<lparr>rt := (rt s)\<lparr>tmpfile_size := n, pending_reservation := q, descriptive_name := d\<rparr>\<rparr>)) =
      fst (dump_root lockval mySc s)"
proof -
  have l: "region_lists s act rsv fre" using assms(1) by (simp add: region_core_def)
  have out: "dump_root lockval mySc t = (Inr (dump_header lockval mySc (rt t) @
       concat (map (\<lambda>p. dump_region lockval ''ACTIVE REGION'' p (the (regs s p))) act) @
       concat (map (\<lambda>p. dump_region lockval ''RESERVED REGION'' p (the (regs s p))) rsv) @
       concat (map (\<lambda>p. dump_region lockval ''FREE STRUCT'' p (the (regs s p))) fre)), t)"
    if t: "regs t = regs s" "active_regions (rt t) = active_regions (rt s)" "reserved_regions (rt t) = reserved_regions (rt s)"
      "unmapped_regions (rt t) = 0" "free_structs (rt t) = free_structs (rt s)" for t
  proof -
    note d = dump_regions_chain [of t, unfolded t(1)]
    have c: "chain (region_next (regs s)) (active_regions (rt s)) act 0" "set act \<subseteq> dom (regs s)"
      "chain (region_next (regs s)) (reserved_regions (rt s)) rsv 0" "set rsv \<subseteq> dom (regs s)"
      "chain (region_next (regs s)) (free_structs (rt s)) fre 0" "set fre \<subseteq> dom (regs s)" using l by (simp_all add: region_lists_def)
    show ?thesis by (simp add: dump_root_def t d [OF c(1,2)] d [OF c(3,4)] d [OF c(5,6)] d [of 0 "[]"])
  qed
  have "dump_root lockval mySc s = (Inr (dump_header lockval mySc (rt s) @
       concat (map (\<lambda>p. dump_region lockval ''ACTIVE REGION'' p (the (regs s p))) act) @
       concat (map (\<lambda>p. dump_region lockval ''RESERVED REGION'' p (the (regs s p))) rsv) @
       concat (map (\<lambda>p. dump_region lockval ''FREE STRUCT'' p (the (regs s p))) fre)), s)" using assms(2) by (intro out) simp_all
  moreover have "fst (dump_root lockval mySc (s\<lparr>rt := (rt s)\<lparr>tmpfile_size := n, pending_reservation := q, descriptive_name := d\<rparr>\<rparr>)) =
       fst (dump_root lockval mySc s)" using assms(2) by (simp add: out dump_header_def)
  ultimately show ?thesis by blast
qed

theorem dump_root_exact_witness:
  "\<exists>ls. dump_root (\<lambda>_. 0) 0x1000 demo_st = (Inr ls, demo_st) \<and> length ls = 20 + 6 * 10 \<and> ls ! 9 = ''  tmpfile_size=0x016llx'' \<and>
     ls ! 20 = ''ACTIVE REGION (0x1100):'' \<and> ls ! 24 = ''  vaddr=0x0000000000001000'' \<and> ls ! 40 = ''RESERVED REGION (0x1180):'' \<and>
     ls ! 76 = ''  prot=0x0 (READ=0x1 WRITE=0x2)''"
proof -
  have u: "unmapped_regions (rt demo_st) = 0" by (simp add: demo_root_def)
  have "dump_root (\<lambda>_. 0) 0x1000 demo_st = (Inr (dump_header (\<lambda>_. 0) 0x1000 demo_root @
       concat (map (\<lambda>p. dump_region (\<lambda>_. 0) ''ACTIVE REGION'' p (the (demo_regs p))) [0x1100, 0x1140]) @
       concat (map (\<lambda>p. dump_region (\<lambda>_. 0) ''RESERVED REGION'' p (the (demo_regs p))) [0x1180]) @
       concat (map (\<lambda>p. dump_region (\<lambda>_. 0) ''FREE STRUCT'' p (the (demo_regs p))) [0x11c0, 0x1200, 0x1240])), demo_st)"
    using dump_root_exact [OF demo_core u, of "\<lambda>_. 0" "0x1000"] by simp
  then show ?thesis
    by (simp add: demo_regs_def dump_header_def dump_region_def)
      (simp add: text_simps mman_defs demo_region_def)
qed

end
