(* ===== verification/SC_World.thy ===== *)
theory SC_World
  imports SC_Tools
begin

text \<open>
  Several processes that work on one subcontext.

  A world has the shared part of the state, which is the contents of the backing file and of the
  pages mapped from it, and a private part for every process that has joined. A step is one operation
  of one process, run on the shared part and on its own private part; between two operations a
  process holds no lock, so the record of lock calls starts empty. A step is an operation that returns,
  or the orderly end of a process. \<open>owned\<close> are the heap buffers that the users of the subcontext have
  allocated and not freed.
\<close>

section \<open>Definitions\<close>

record world =
  common :: shared
  part :: "u32 \<rightharpoonup> st"
  owned :: "block multiset"

definition view :: "shared \<Rightarrow> st \<Rightarrow> st" where
  "view c s = s\<lparr>root_addr := root_addr c, rt := rt c, regs := regs c, procs := procs c, steps := steps c,
     freeList := freeList c, mem := mem c, file_len := file_len c, lk := []\<rparr>"

definition common_of :: "st \<Rightarrow> shared" where
  "common_of s = \<lparr>root_addr = root_addr s, rt = rt s, regs = regs s, procs = procs s, steps = steps s,
     freeList = freeList s, mem = mem s, file_len = file_len s\<rparr>"

definition commit :: "u32 \<Rightarrow> st \<Rightarrow> world \<Rightarrow> world" where
  "commit p s w = w\<lparr>common := common_of s, part := (part w)(p \<mapsto> s)\<rparr>"

datatype event = Mmap u32 u64 u32 | Malloc u32 u64 | Free u32 block | Write u32 block memory
  | Fault u32 siginfo | Post u32 u32 | Turn u32 | Join u32 u32 | Leave u32

inductive world_step :: "env \<Rightarrow> boot \<Rightarrow> world \<Rightarrow> event \<Rightarrow> world \<Rightarrow> bool" for E B where
  do_mmap: "part w p = Some s \<Longrightarrow>
    sc_mmap E 0 len prot (MAP_PRIVATE OR MAP_ANONYMOUS) (- 1) 0 (view (common w) s) = (Inr r, s') \<Longrightarrow>
    world_step E B w (Mmap p len prot) (commit p s' w)"
| do_malloc: "part w p = Some s \<Longrightarrow> sc_malloc E n (view (common w) s) = (Inr a, s') \<Longrightarrow>
    world_step E B w (Malloc p n)
      ((commit p s' w)\<lparr>owned := (if a = 0 then owned w else add_mset (a, usable s' a) (owned w))\<rparr>)"
| do_free: "part w p = Some s \<Longrightarrow> b \<in># owned w \<Longrightarrow> sc_free (fst b) (view (common w) s) = (Inr (), s') \<Longrightarrow>
    world_step E B w (Free p b) ((commit p s' w)\<lparr>owned := owned w - {#b#}\<rparr>)"
| do_write: "part w p = Some s \<Longrightarrow> b \<in># owned w \<Longrightarrow> same_outside b (mem (common w)) m \<Longrightarrow>
    world_step E B w (Write p b m) (commit p ((view (common w) s)\<lparr>mem := m\<rparr>) w)"
| do_fault: "part w p = Some s \<Longrightarrow> sc_signal_handler_SEGV E SIGSEGV info (view (common w) s) = (Inr (), s') \<Longrightarrow>
    world_step E B w (Fault p info) (commit p s' w)"
| do_post: "part w p = Some s \<Longrightarrow> pending_reservation (rt (common w)) = 0 \<Longrightarrow>
    ctl_addReserved E (\<lambda>_. None) pages (view (common w) s) = (Inr (), s') \<Longrightarrow>
    world_step E B w (Post p pages) (commit p s' w)"
| do_turn: "part w p = Some s \<Longrightarrow> bg_turn E (view (common w) s) = (Inr (), s') \<Longrightarrow>
    world_step E B w (Turn p) (commit p s' w)"
| do_join: "part w p = None \<Longrightarrow> pid s = p \<Longrightarrow> locals s = [] \<Longrightarrow>
    sc_join E B fd (view (common w) s) = (Inr r, s') \<Longrightarrow> r \<noteq> 0 \<Longrightarrow>
    world_step E B w (Join p fd) (commit p s' w)"
| do_leave: "part w p = Some s \<Longrightarrow> sc_killLocalProc (view (common w) s) = (Inl (Exit (- 1)), s') \<Longrightarrow>
    world_step E B w (Leave p) (w\<lparr>common := common_of s', part := (part w)(p := None)\<rparr>)"

inductive world_run :: "env \<Rightarrow> boot \<Rightarrow> world \<Rightarrow> event list \<Rightarrow> world \<Rightarrow> bool" for E B where
  stop: "world_run E B w [] w"
| step: "world_run E B w es w' \<Longrightarrow> world_step E B w' e w'' \<Longrightarrow> world_run E B w (es @ [e]) w''"

section \<open>Invariant\<close>

text \<open>A state in which nobody runs, to state what depends on the shared part alone.\<close>

definition nobody :: "shared \<Rightarrow> st" where
  "nobody c = \<lparr>root_addr = root_addr c, rt = rt c, regs = regs c, procs = procs c, steps = steps c, freeList = freeList c,
     mem = mem c, file_len = file_len c, pid = 0, locals = [], vmap = Map.empty, priv = (\<lambda>_. 0), prev_vaddr = 0, curSc = 0, lk = []\<rparr>"

definition flushed_to :: "st \<Rightarrow> u64" where
  "flushed_to s = l_flushPoint (hd (locals s))"

definition lastSeq :: "world \<Rightarrow> u64" where
  "lastSeq w = cleanupLog_lastSeqNum (rt (common w))"

definition flushed :: "world \<Rightarrow> u32 set" where
  "flushed w = {p. \<exists>s. part w p = Some s \<and> flushed_to s = lastSeq w}"

text \<open>Every process has its local struct and every active and reserved range in its address space.\<close>

definition parts_ok :: "world \<Rightarrow> u64 list \<Rightarrow> bool" where
  "parts_ok w rs \<longleftrightarrow> finite (dom (part w)) \<and> (\<forall>p s. part w p = Some s \<longrightarrow> pid s = p \<and>
     map l_sc (locals s) = [root_addr (common w)] \<and> all_mapped (nobody (common w)) rs (vmap s))"

text \<open>The process list has exactly the processes of the world, and its structs and the preallocated one are in
  heap buffers, of the sizes \<open>sz\<close>.\<close>

definition proc_bufs :: "(u64 \<Rightarrow> u64) \<Rightarrow> sc \<Rightarrow> u64 list \<Rightarrow> block multiset" where
  "proc_bufs sz r ps = image_mset (\<lambda>a. (a, sz a)) (mset ((if prealloc_proc r = 0 then [] else [prealloc_proc r]) @ ps))"

definition procs_ok :: "world \<Rightarrow> u64 list \<Rightarrow> bool" where
  "procs_ok w ps \<longleftrightarrow> proc_chain (nobody (common w)) ps \<and> distinct (map (walk_pid (procs (common w))) ps) \<and>
     set (map (walk_pid (procs (common w))) ps) = dom (part w) \<and>
     sint (proc_count (rt (common w))) = int (card (dom (part w))) \<and>
     (prealloc_proc (rt (common w)) \<noteq> 0 \<longrightarrow> prealloc_proc (rt (common w)) \<notin> set ps \<and> prealloc_proc (rt (common w)) \<in> dom (procs (common w)))"

text \<open>No reservation is pending and everybody has handled all of the log.\<close>

definition log_idle :: "world \<Rightarrow> bool" where
  "log_idle w \<longleftrightarrow> pending_reservation (rt (common w)) = 0 \<and> cleanupLog (rt (common w)) = 0 \<and> cleanupLog_tail (rt (common w)) = 0 \<and>
     flushed w = dom (part w)"

text \<open>
  A reservation is pending in the struct \<open>q\<close> and proposed by the entry \<open>c\<close>, which is the whole log.
  Those that have handled it have blocked the range and are counted, with the \<open>g\<close> processes that have
  left since, in its count of acknowledgements; the others lag by exactly this entry.
\<close>

definition log_busy :: "env \<Rightarrow> world \<Rightarrow> u64 list \<Rightarrow> u64 list \<Rightarrow> u64 list \<Rightarrow> u64 \<Rightarrow> sc_cleanupLogStep \<Rightarrow> nat \<Rightarrow> bool" where
  "log_busy E w act rsv fre q c g \<longleftrightarrow> pending_reservation (rt (common w)) = q \<and> pending_ok E (nobody (common w)) act rsv fre q \<and>
     cleanupLog (rt (common w)) \<noteq> 0 \<and> cleanupLog_tail (rt (common w)) = cleanupLog (rt (common w)) \<and>
     steps (common w) (cleanupLog (rt (common w))) = Some c \<and> c_next c = 0 \<and> c_op c = SC_CLS_RESERVE_MEMORY \<and>
     c_seqNum c = lastSeq w \<and> step_range c = region_range (regs (common w)) q \<and>
     sint (c_ack_count c) = int (card (flushed w) + g) \<and> sint (c_ack_targ c) = int (card (dom (part w)) + g) \<and>
     flushed w \<subset> dom (part w) \<and> 0 < lastSeq w \<and>
     (\<forall>p s. part w p = Some s \<longrightarrow> p \<notin> flushed w \<longrightarrow> flushed_to s + 1 = lastSeq w) \<and>
     (\<forall>p s x. part w p = Some s \<longrightarrow> p \<in> flushed w \<longrightarrow> in_block x (step_range c) \<longrightarrow> vmap s x \<noteq> None)"

definition log_ok :: "env \<Rightarrow> world \<Rightarrow> u64 list \<Rightarrow> u64 list \<Rightarrow> u64 list \<Rightarrow> block multiset \<Rightarrow> bool" where
  "log_ok E w act rsv fre G \<longleftrightarrow> log_idle w \<and> G = {#} \<or>
     (\<exists>q c g n. log_busy E w act rsv fre q c g \<and> G = {#(cleanupLog (rt (common w)), n)#})"

definition world_ok :: "env \<Rightarrow> world \<Rightarrow> bool" where
  "world_ok E w \<longleftrightarrow> (\<exists>act rsv fre ps sz G. region_core E (nobody (common w)) act rsv fre \<and> parts_ok w (act @ rsv) \<and>
     procs_ok w ps \<and> log_ok E w act rsv fre G \<and>
     alloc_inv E (nobody (common w)) (owned w + proc_bufs sz (rt (common w)) ps + G) \<and>
     region_range (regs (common w)) (active_regions (rt (common w))) = (root_addr (common w), getpagesize E) \<and>
     root_dest E (rt (common w)) = root_addr (common w))"

text \<open>A step that leaves the log and the process list alone, and by which the process that takes it loses
  no mapping.\<close>

definition calm :: "world \<Rightarrow> st \<Rightarrow> st \<Rightarrow> bool" where
  "calm w s s' \<longleftrightarrow> procs s' = procs (common w) \<and> steps s' = steps (common w) \<and> root_addr s' = root_addr (common w) \<and>
     rt_rest (rt s') = rt_rest (rt (common w)) \<and> locals s' = locals s \<and> pid s' = pid s \<and>
     (\<forall>x. vmap s x \<noteq> None \<longrightarrow> vmap s' x \<noteq> None)"

text \<open>The orderly end of a process.\<close>

definition without :: "u32 \<Rightarrow> st \<Rightarrow> world \<Rightarrow> world" where
  "without p s w = w\<lparr>common := common_of s, part := (part w)(p := None)\<rparr>"

text \<open>Joining. What the first part of \<^verbatim>\<open>sc_join\<close> changes is the address space of the process.\<close>

definition remapped :: "st \<Rightarrow> st \<Rightarrow> bool" where
  "remapped s s' \<longleftrightarrow> s' = s\<lparr>vmap := vmap s', lk := lk s'\<rparr> \<and> (\<forall>x. vmap s x \<noteq> None \<longrightarrow> vmap s' x \<noteq> None)"

text \<open>The pages of the regions \<open>ps\<close> are mapped as the walk over list \<open>i\<close> asks for.\<close>

definition joined :: "u32 \<Rightarrow> nat \<Rightarrow> (u64 \<rightharpoonup> sc_region) \<Rightarrow> u64 list \<Rightarrow> vmem \<Rightarrow> bool" where
  "joined fd i m ps vm \<longleftrightarrow> (\<forall>p \<in> set ps. \<forall>x. in_block x (region_range m p) \<longrightarrow>
     vm x = vm_map vm (r_vaddr (the (m p))) (join_req fd i (the (m p))) x)"

text \<open>The state before the last part of \<^verbatim>\<open>sc_join\<close>: the process struct that was preallocated is on the list.\<close>

definition listed :: "st \<Rightarrow> u64 \<Rightarrow> sc_process \<Rightarrow> st \<Rightarrow> bool" where
  "listed s my pr t \<longleftrightarrow> regs t = regs s \<and> steps t = steps s \<and> mem t = mem s \<and> freeList t = freeList s \<and> root_addr t = root_addr s \<and>
     pid t = pid s \<and> locals t = locals s \<and> procs t = (procs s)(my \<mapsto> pr) \<and> p_pid pr = pid s \<and> p_next pr = proc_list (rt s) \<and>
     rt t = (rt s)\<lparr>prealloc_proc := 0, proc_count := proc_count (rt s) + 1, proc_list := my\<rparr>"

text \<open>The world is well formed and \<open>n\<close> more steps cannot wrap the sequence numbers or the process count.\<close>

definition world_inv :: "env \<Rightarrow> nat \<Rightarrow> world \<Rightarrow> bool" where
  "world_inv E n w \<longleftrightarrow> world_ok E w \<and> unat (lastSeq w) + n < 2 ^ 64 \<and> card (dom (part w)) + n < 2 ^ 31"

text \<open>The world in which a process has just created a subcontext.\<close>

definition first_world :: "st \<Rightarrow> world" where
  "first_world s = \<lparr>common = common_of s, part = [pid s \<mapsto> s], owned = {#}\<rparr>"

text \<open>A reservation of the range \<open>b\<close>, in the struct \<open>q\<close>, is pending; and it has been published.\<close>

definition awaited :: "world \<Rightarrow> u64 \<Rightarrow> block \<Rightarrow> bool" where
  "awaited w q b \<longleftrightarrow> pending_reservation (rt (common w)) = q \<and> q \<noteq> 0 \<and> region_range (regs (common w)) q = b"

definition published :: "world \<Rightarrow> u64 \<Rightarrow> block \<Rightarrow> bool" where
  "published w q b \<longleftrightarrow> log_idle w \<and> reserved_regions (rt (common w)) = q \<and> region_range (regs (common w)) q = b"

text \<open>The kernel maps the range where it is asked for, in every process that has not blocked it yet.\<close>

definition grants :: "env \<Rightarrow> world \<Rightarrow> block \<Rightarrow> bool" where
  "grants E w b \<longleftrightarrow> (\<forall>p s. part w p = Some s \<longrightarrow> p \<notin> flushed w \<longrightarrow> os_mmap E (vmap s) (reserve_req (fst b) (snd b)) = fst b)"

text \<open>The events that write to the buffer \<open>b\<close> or free it.\<close>

fun touches :: "event \<Rightarrow> block \<Rightarrow> bool" where
  "touches (Free p c) b \<longleftrightarrow> c = b"
| "touches (Write p c m) b \<longleftrightarrow> c = b"
| "touches _ b \<longleftrightarrow> False"

text \<open>Two processes, of which process 7 has blocked the proposed range and process 9 has not. The two process
  structs, the entry of the log and a buffer of a user are the live blocks of the heap.\<close>

definition live_block :: "u64 \<Rightarrow> memory \<Rightarrow> memory" where
  "live_block a m = store64 (store64 (store64 m a 64) (a + 8) SUBCONTEXTS_MALLOC_HEAD_MAGIC) (a + 64 - 8) SUBCONTEXTS_MALLOC_FOOT_MAGIC"

definition two_common :: shared where
  "two_common = (common_of demo_st)\<lparr>
     rt := demo_root\<lparr>proc_list := 0x2010, proc_count := 2, cleanupLog := 0x2090, cleanupLog_tail := 0x2090,
       cleanupLog_lastSeqNum := 1, pending_reservation := 0x1300\<rparr>,
     regs := demo_regs(0x1300 \<mapsto> demo_region 0 0x700000 0x2000 0 (- 1)),
     procs := [0x2010 \<mapsto> \<lparr>p_next = 0x2050, p_state = SUBCONTEXTS_PROC_STATE_ALIVE, p_pid = 7\<rparr>,
               0x2050 \<mapsto> \<lparr>p_next = 0, p_state = SUBCONTEXTS_PROC_STATE_ALIVE, p_pid = 9\<rparr>],
     steps := [0x2090 \<mapsto> demo_step 1 0 1 2 0x700000 0x2000],
     mem := live_block 0x20c0 (live_block 0x2080 (live_block 0x2040 (live_block 0x2000 (\<lambda>_. 0))))\<rparr>"

definition two_part :: "u32 \<Rightarrow> u64 \<Rightarrow> st" where
  "two_part p f = demo_st\<lparr>pid := p, locals := [demo_local\<lparr>l_flushPoint := f\<rparr>],
     vmap := (\<lambda>x. if f = 1 \<and> in_block x (0x700000, 0x2000) then demo_vmap 0 else demo_vmap x)\<rparr>"

definition two_world :: world where
  "two_world = \<lparr>common = two_common, part = [7 \<mapsto> two_part 7 1, 9 \<mapsto> two_part 9 0], owned = {#(0x20d0, 40)#}\<rparr>"

section \<open>Lemmas\<close>

lemma view_simps [simp]:
  "root_addr (view c s) = root_addr c" "rt (view c s) = rt c" "regs (view c s) = regs c" "procs (view c s) = procs c"
  "steps (view c s) = steps c" "freeList (view c s) = freeList c" "mem (view c s) = mem c" "file_len (view c s) = file_len c"
  "pid (view c s) = pid s" "locals (view c s) = locals s" "vmap (view c s) = vmap s" "priv (view c s) = priv s"
  "prev_vaddr (view c s) = prev_vaddr s" "curSc (view c s) = curSc s" "lk (view c s) = []"
  by (simp_all add: view_def)

lemma common_of_simps [simp]:
  "root_addr (common_of s) = root_addr s" "rt (common_of s) = rt s" "regs (common_of s) = regs s" "procs (common_of s) = procs s"
  "steps (common_of s) = steps s" "freeList (common_of s) = freeList s" "mem (common_of s) = mem s" "file_len (common_of s) = file_len s"
  by (simp_all add: common_of_def)

lemma nobody_simps [simp]:
  "root_addr (nobody c) = root_addr c" "rt (nobody c) = rt c" "regs (nobody c) = regs c" "procs (nobody c) = procs c"
  "steps (nobody c) = steps c" "freeList (nobody c) = freeList c" "mem (nobody c) = mem c"
  by (simp_all add: nobody_def)

lemma commit_simps [simp]:
  "common (commit p s w) = common_of s" "part (commit p s w) = (part w)(p \<mapsto> s)" "owned (commit p s w) = owned w"
  by (simp_all add: commit_def)

lemma nobody_core: "region_core E (nobody (common_of s)) act rsv fre = region_core E s act rsv fre"
  by (rule region_core_cong) simp_all

lemma view_core: "region_core E (view c s) act rsv fre = region_core E (nobody c) act rsv fre"
  by (rule region_core_cong) simp_all

lemma nobody_heap: "alloc_inv E (nobody (common_of s)) L = alloc_inv E s L"
  by (rule alloc_inv_rt) simp_all

lemma view_heap: "alloc_inv E (view c s) L = alloc_inv E (nobody c) L"
  by (rule alloc_inv_rt) simp_all

lemma nobody_mapped: "all_mapped (nobody (common_of s)) rs vm = all_mapped s rs vm"
  by (simp add: all_mapped_def)

lemma view_mapped: "all_mapped (view c s) rs vm = all_mapped (nobody c) rs vm"
  by (simp add: all_mapped_def)

lemma nobody_pending: "pending_ok E (nobody (common_of s)) act rsv fre q = pending_ok E s act rsv fre q"
  by (simp add: pending_ok_def)

lemma view_pending: "pending_ok E (view c s) act rsv fre q = pending_ok E (nobody c) act rsv fre q"
  by (simp add: pending_ok_def)

lemma nobody_chain: "proc_chain (nobody (common_of s)) ps = proc_chain s ps"
  by (simp add: proc_chain_def)

lemma view_chain: "proc_chain (view c s) ps = proc_chain (nobody c) ps"
  by (simp add: proc_chain_def)

lemmas shared_views = nobody_core view_core nobody_heap view_heap nobody_mapped view_mapped nobody_pending view_pending
  nobody_chain view_chain

lemma world_okE:
  assumes "world_ok E w"
  obtains act rsv fre ps sz G where "region_core E (nobody (common w)) act rsv fre" "parts_ok w (act @ rsv)" "procs_ok w ps"
    "log_ok E w act rsv fre G" "alloc_inv E (nobody (common w)) (owned w + proc_bufs sz (rt (common w)) ps + G)"
    "region_range (regs (common w)) (active_regions (rt (common w))) = (root_addr (common w), getpagesize E)"
    "root_dest E (rt (common w)) = root_addr (common w)"
  using assms unfolding world_ok_def by blast

lemma part_local:
  assumes "parts_ok w rs" "part w p = Some s"
  obtains l where "locals s = [l]" "l_sc l = root_addr (common w)" "flushed_to s = l_flushPoint l" "pid s = p"
    "all_mapped (nobody (common w)) rs (vmap s)" "my_local (view (common w) s) = Some l"
proof -
  have "map l_sc (locals s) = [root_addr (common w)]" and o: "pid s = p" "all_mapped (nobody (common w)) rs (vmap s)"
    using assms by (auto simp: parts_ok_def)
  then obtain l where "locals s = [l]" "l_sc l = root_addr (common w)" by auto
  with o that show thesis by (simp add: flushed_to_def my_local_def)
qed

lemma keeps_calm: "keeps (view (common w) s) s' \<Longrightarrow> calm w s s'"
  by (simp add: keeps_def calm_def)

lemma rt_rest_fields:
  assumes "rt_rest r = rt_rest r'"
  shows "proc_list r = proc_list r'" "proc_count r = proc_count r'" "prealloc_proc r = prealloc_proc r'"
    "pending_reservation r = pending_reservation r'" "cleanupLog r = cleanupLog r'" "cleanupLog_tail r = cleanupLog_tail r'"
    "cleanupLog_lastSeqNum r = cleanupLog_lastSeqNum r'" "active_regions r = active_regions r'"
    "root_dest E r = root_dest E r'"
  using assms by (cases r; cases r'; simp add: rt_rest_def root_dest_def)+

lemma flushed_commit:
  assumes "part w p = Some s" "locals s' = locals s" "cleanupLog_lastSeqNum (rt s') = lastSeq w"
  shows "flushed ((commit p s' w)\<lparr>owned := W\<rparr>) = flushed w" "flushed (commit p s' w) = flushed w"
  using assms by (auto simp: flushed_def flushed_to_def lastSeq_def)

lemma pending_move:
  assumes "regions_move E s act rsv fre s' act' rsv' fre'" and "pending_ok E s act rsv fre q"
  shows "pending_ok E s' act' rsv' fre' q" "regs s' q = regs s q"
proof -
  have q: "q \<notin> set (act @ rsv @ fre)" "q \<noteq> 0" "q \<in> dom (regs s)" "range_ok E (the (regs s q))"
    "\<And>p. p \<in> set (act @ rsv) \<Longrightarrow> apart (region_range (regs s) q) (region_range (regs s) p)"
    using assms(2) by (auto simp: pending_ok_def)
  with assms(1) show r: "regs s' q = regs s q" by (simp add: regions_move_def)
  then have rr: "region_range (regs s') q = region_range (regs s) q" by (simp add: region_range_def)
  have "apart (region_range (regs s) q) (region_range (regs s') p)" if p: "p \<in> set (act' @ rsv')" for p
  proof -
    from assms(1) p obtain r where "r \<in> set (act @ rsv)" "inside (region_range (regs s') p) (region_range (regs s) r)"
      unfolding regions_move_def by blast
    with q(5) show ?thesis by (blast intro: apart_inside2 inside_refl)
  qed
  moreover have "q \<notin> set (act' @ rsv' @ fre')" using assms(1) q(1) unfolding regions_move_def by blast
  ultimately show "pending_ok E s' act' rsv' fre' q" using q(2-4) r rr by (auto simp: pending_ok_def)
qed

lemma parts_commit:
  assumes ok: "parts_ok w rs" and s: "part w p = Some s" and c: "map l_sc (locals s') = map l_sc (locals s)" "pid s' = pid s"
      "root_addr s' = root_addr (common w)"
    and cov: "covers (nobody (common w)) rs s' rs'" and mp: "all_mapped s' rs' (vmap s')"
  shows "parts_ok (commit p s' w) rs'" "parts_ok ((commit p s' w)\<lparr>owned := W\<rparr>) rs'"
proof -
  have o: "all_mapped (nobody (common_of s')) rs' (vmap t)" if "part w q = Some t" for q t
  proof -
    have "all_mapped (nobody (common w)) rs (vmap t)" using ok that by (simp add: parts_ok_def)
    from all_mapped_covers [OF cov this] show ?thesis by (simp add: shared_views)
  qed
  have "parts_ok w rs \<Longrightarrow> map l_sc (locals s) = [root_addr (common w)] \<and> pid s = p" using s by (simp add: parts_ok_def)
  with ok c mp o show "parts_ok (commit p s' w) rs'" by (auto simp: parts_ok_def shared_views)
  then show "parts_ok ((commit p s' w)\<lparr>owned := W\<rparr>) rs'" by (simp add: parts_ok_def)
qed

lemma procs_calm:
  assumes "procs_ok w ps" "part w p = Some s" "procs s' = procs (common w)" "proc_list (rt s') = proc_list (rt (common w))"
    "proc_count (rt s') = proc_count (rt (common w))" "prealloc_proc (rt s') = prealloc_proc (rt (common w))"
  shows "procs_ok (commit p s' w) ps" "procs_ok ((commit p s' w)\<lparr>owned := W\<rparr>) ps"
proof -
  have "insert p (dom (part w)) = dom (part w)" using assms(2) by auto
  with assms show "procs_ok (commit p s' w) ps" "procs_ok ((commit p s' w)\<lparr>owned := W\<rparr>) ps"
    by (simp_all add: procs_ok_def proc_chain_def)
qed

lemma log_calm:
  assumes log: "log_ok E w act rsv fre G" and s: "part w p = Some s" and c: "calm w s s'"
    and mv: "cleanupLog (rt (common w)) = 0 \<or> regions_move E (nobody (common w)) act rsv fre s' act' rsv' fre'"
  shows "log_ok E ((commit p s' w)\<lparr>owned := W\<rparr>) act' rsv' fre' G"
proof -
  let ?w = "(commit p s' w)\<lparr>owned := W\<rparr>"
  have r: "rt_rest (rt s') = rt_rest (rt (common w))" using c by (simp add: calm_def)
  note rf = rt_rest_fields [OF r]
  have fl: "flushed ?w = flushed w" by (rule flushed_commit [OF s]) (use c rf in \<open>simp_all add: calm_def lastSeq_def\<close>)
  have ls: "lastSeq ?w = lastSeq w" using rf by (simp add: lastSeq_def)
  have d: "dom (part ?w) = dom (part w)" using s by auto
  from log consider (idle) "log_idle w" "G = {#}"
    | (busy) q k g n where "log_busy E w act rsv fre q k g" "G = {#(cleanupLog (rt (common w)), n)#}"
    unfolding log_ok_def by blast
  then show ?thesis
  proof cases
    case idle
    then have "log_idle ?w" using rf fl d by (simp add: log_idle_def)
    with idle show ?thesis by (simp add: log_ok_def)
  next
    case busy
    then have "regions_move E (nobody (common w)) act rsv fre s' act' rsv' fre'" "pending_ok E (nobody (common w)) act rsv fre q"
      using mv by (auto simp: log_busy_def)
    from pending_move [OF this] have q: "pending_ok E s' act' rsv' fre' q" "region_range (regs s') q = region_range (regs (common w)) q"
      by (simp_all add: region_range_def)
    have "log_busy E ?w act' rsv' fre' q k g"
      unfolding log_busy_def fl ls d
    proof (intro conjI allI impI)
      fix p' t assume "part ?w p' = Some t" "p' \<notin> flushed w"
      then show "flushed_to t + 1 = lastSeq w"
        using busy(1) s c by (auto simp: log_busy_def calm_def flushed_to_def split: if_splits)
    next
      fix p' t x assume t: "part ?w p' = Some t" "p' \<in> flushed w" "in_block x (step_range k)"
      show "vmap t x \<noteq> None"
      proof (cases "p' = p")
        case True
        then have "vmap s x \<noteq> None" using busy(1) s t by (auto simp: log_busy_def)
        with True t(1) c show ?thesis by (auto simp: calm_def)
      qed (use busy(1) t in \<open>auto simp: log_busy_def\<close>)
    qed (use busy(1) q rf c in \<open>auto simp: log_busy_def calm_def shared_views\<close>)
    then show ?thesis using busy(2) rf by (auto simp: log_ok_def)
  qed
qed

lemma calm_ok:
  assumes core: "region_core E (nobody (common w)) act rsv fre" and parts: "parts_ok w (act @ rsv)"
    and procs: "procs_ok w ps" and log: "log_ok E w act rsv fre G"
    and first: "region_range (regs (common w)) (active_regions (rt (common w))) = (root_addr (common w), getpagesize E)"
      "root_dest E (rt (common w)) = root_addr (common w)"
    and s: "part w p = Some s" and c: "calm w s s'"
    and core': "region_core E s' act' rsv' fre'" and cov: "covers (nobody (common w)) (act @ rsv) s' (act' @ rsv')"
    and rng: "region_range (regs s') (active_regions (rt (common w))) = region_range (regs (common w)) (active_regions (rt (common w)))"
    and mv: "cleanupLog (rt (common w)) = 0 \<or> regions_move E (nobody (common w)) act rsv fre s' act' rsv' fre'"
    and heap: "alloc_inv E s' (W + proc_bufs sz (rt (common w)) ps + G)"
  shows "world_ok E ((commit p s' w)\<lparr>owned := W\<rparr>)"
proof -
  have r: "rt_rest (rt s') = rt_rest (rt (common w))" using c by (simp add: calm_def)
  note rf = rt_rest_fields [OF r]
  have "all_mapped (nobody (common w)) (act @ rsv) (vmap s)" using parts s by (simp add: parts_ok_def)
  from all_mapped_covers [OF cov this] c have mp: "all_mapped s' (act' @ rsv') (vmap s')"
    by (auto simp: calm_def intro: all_mapped_mono)
  have "proc_bufs sz (rt s') ps = proc_bufs sz (rt (common w)) ps" using rf by (simp add: proc_bufs_def)
  with heap have heap': "alloc_inv E s' (W + proc_bufs sz (rt s') ps + G)" by simp
  show ?thesis
    unfolding world_ok_def
  proof (intro exI conjI)
    show "region_core E (nobody (common ((commit p s' w)\<lparr>owned := W\<rparr>))) act' rsv' fre'" using core' by (simp add: shared_views)
    show "parts_ok ((commit p s' w)\<lparr>owned := W\<rparr>) (act' @ rsv')"
      by (rule parts_commit [OF parts s _ _ _ cov mp]) (use c in \<open>simp_all add: calm_def\<close>)
    show "procs_ok ((commit p s' w)\<lparr>owned := W\<rparr>) ps"
      by (rule procs_calm [OF procs s]) (use c rf in \<open>simp_all add: calm_def\<close>)
    show "log_ok E ((commit p s' w)\<lparr>owned := W\<rparr>) act' rsv' fre' G" by (rule log_calm [OF log s c mv])
    show "alloc_inv E (nobody (common ((commit p s' w)\<lparr>owned := W\<rparr>))) (owned ((commit p s' w)\<lparr>owned := W\<rparr>) +
        proc_bufs sz (rt (common ((commit p s' w)\<lparr>owned := W\<rparr>))) ps + G)" using heap' by (simp add: shared_views)
  qed (use first rng rf c in \<open>simp_all add: calm_def\<close>)
qed

text \<open>The steps that leave the log and the process list alone.\<close>

lemma view_covers: "covers (view c s) ps t qs = covers (nobody c) ps t qs"
  by (simp add: covers_def)

lemma laid_same [simp]: "laid (view c s) act = laid (nobody c) act" "laid (nobody (common_of s)) act = laid s act"
  "laid (log_lock e s) act = laid s act"
  by (rule laid_cong; simp)+

lemma view_move: "regions_move E (view c s) act rsv fre t act' rsv' fre' = regions_move E (nobody c) act rsv fre t act' rsv' fre'"
  by (simp add: regions_move_def)

lemma move_ok:
  assumes ok: "world_ok E w" and s: "part w p = Some s" and c: "calm w s s'"
    and mv: "\<And>act rsv fre. region_core E (nobody (common w)) act rsv fre \<Longrightarrow>
       \<exists>act' rsv' fre'. region_core E s' act' rsv' fre' \<and> regions_move E (nobody (common w)) act rsv fre s' act' rsv' fre'"
    and heap: "\<And>X. alloc_inv E (nobody (common w)) (owned w + X) \<Longrightarrow> alloc_inv E s' (W + X)"
  shows "world_ok E ((commit p s' w)\<lparr>owned := W\<rparr>)"
  using ok
proof (rule world_okE)
  fix act rsv fre ps sz G
  assume core: "region_core E (nobody (common w)) act rsv fre" and o: "parts_ok w (act @ rsv)" "procs_ok w ps"
    "log_ok E w act rsv fre G" and h: "alloc_inv E (nobody (common w)) (owned w + proc_bufs sz (rt (common w)) ps + G)"
    and f: "region_range (regs (common w)) (active_regions (rt (common w))) = (root_addr (common w), getpagesize E)"
    "root_dest E (rt (common w)) = root_addr (common w)"
  from mv [OF core] obtain act' rsv' fre' where core': "region_core E s' act' rsv' fre'"
    and mv': "regions_move E (nobody (common w)) act rsv fre s' act' rsv' fre'" by blast
  have "active_regions (rt (common w)) \<in> set act" using first_active [OF core] by simp
  with mv' have rng: "region_range (regs s') (active_regions (rt (common w))) = region_range (regs (common w)) (active_regions (rt (common w)))"
    by (simp add: regions_move_def)
  have "alloc_inv E s' (W + proc_bufs sz (rt (common w)) ps + G)"
    using heap [of "proc_bufs sz (rt (common w)) ps + G"] h by (simp add: add.assoc)
  then show ?thesis
    by (rule calm_ok [OF core o f s c core' covers_move [OF mv', simplified] rng disjI2 [OF mv']])
qed

text \<open>A step that does not touch the lists of regions.\<close>

lemma still_ok:
  assumes ok: "world_ok E w" and s: "part w p = Some s" and c: "calm w s s'"
    and r: "regs s' = regs (common w)" "rt s' = rt (common w)"
    and heap: "\<And>X. alloc_inv E (nobody (common w)) (owned w + X) \<Longrightarrow> alloc_inv E s' (W + X)"
  shows "world_ok E ((commit p s' w)\<lparr>owned := W\<rparr>)"
proof (rule move_ok [OF ok s c _ heap])
  fix act rsv fre assume "region_core E (nobody (common w)) act rsv fre"
  then have "region_core E s' act rsv fre" by (subst region_core_cong [of _ "nobody (common w)"]) (simp_all add: r)
  moreover have "regions_move E (nobody (common w)) act rsv fre s' act rsv fre" by (rule regions_move_refl) (simp_all add: r)
  ultimately show "\<exists>act' rsv' fre'. region_core E s' act' rsv' fre' \<and> regions_move E (nobody (common w)) act rsv fre s' act' rsv' fre'"
    by blast
qed

lemma own_same: "(commit p s w)\<lparr>owned := owned w\<rparr> = commit p s w"
  by (simp add: commit_def)

lemma do_malloc_ok:
  assumes ok: "world_ok E w" and s: "part w p = Some s" and run: "sc_malloc E n (view (common w) s) = (Inr a, s')"
  shows "world_ok E ((commit p s' w)\<lparr>owned := (if a = 0 then owned w else add_mset (a, usable s' a) (owned w))\<rparr>)"
proof (rule move_ok [OF ok s])
  show "calm w s s'" by (rule keeps_calm [OF sc_malloc_keeps [OF run]])
  show "\<exists>act' rsv' fre'. region_core E s' act' rsv' fre' \<and> regions_move E (nobody (common w)) act rsv fre s' act' rsv' fre'"
    if "region_core E (nobody (common w)) act rsv fre" for act rsv fre
    using sc_malloc_move [OF _ run] that by (simp add: shared_views view_move)
  show "alloc_inv E s' ((if a = 0 then owned w else add_mset (a, usable s' a) (owned w)) + X)"
    if "alloc_inv E (nobody (common w)) (owned w + X)" for X
  proof (cases "a = 0")
    case True
    with sc_heap.alloc_failed [of E "view (common w) s" "owned w + X" n s'] run that show ?thesis by (simp add: shared_views)
  next
    case False
    with sc_heap.alloc_ok [OF _ run, of "owned w + X"] that show ?thesis by (simp add: shared_views)
  qed
qed

lemma do_free_ok:
  assumes ok: "world_ok E w" and s: "part w p = Some s" and b: "b \<in># owned w"
    and run: "sc_free (fst b) (view (common w) s) = (Inr (), s')"
  shows "world_ok E ((commit p s' w)\<lparr>owned := owned w - {#b#}\<rparr>)"
proof (rule still_ok [OF ok s])
  note f = sc_free_frame [OF run]
  show "calm w s s'" "regs s' = regs (common w)" "rt s' = rt (common w)" using f by (simp_all add: calm_def)
  show "alloc_inv E s' (owned w - {#b#} + X)" if "alloc_inv E (nobody (common w)) (owned w + X)" for X
  proof -
    have "owned w + X = add_mset b (owned w - {#b#} + X)" using b by simp
    with that have "alloc_inv E (view (common w) s) (add_mset b (owned w - {#b#} + X))" by (simp add: shared_views)
    from sc_heap.release_ok [OF this] run show ?thesis by auto
  qed
qed

lemma do_write_ok:
  assumes ok: "world_ok E w" and s: "part w p = Some s" and b: "b \<in># owned w" "same_outside b (mem (common w)) m"
  shows "world_ok E (commit p ((view (common w) s)\<lparr>mem := m\<rparr>) w)"
proof -
  let ?s = "(view (common w) s)\<lparr>mem := m\<rparr>"
  have "world_ok E ((commit p ?s w)\<lparr>owned := owned w\<rparr>)"
  proof (rule still_ok [OF ok s])
    show "alloc_inv E ?s (owned w + X)" if "alloc_inv E (nobody (common w)) (owned w + X)" for X
      using sc_heap.put_ok [of E "view (common w) s" "owned w + X" b m] that b by (simp add: shared_views)
  qed (simp_all add: calm_def)
  then show ?thesis by (simp add: own_same)
qed

text \<open>New pages do not touch the heap.\<close>

lemma heap_apart:
  assumes wf: "heap_wf m fl ns live" and same: "same_outside b m m'"
    and ap: "\<And>x. x \<in> set ns \<Longrightarrow> apart (blk m x) b" "\<And>c. c \<in># live \<Longrightarrow> apart c b"
  shows "heap_wf m' fl ns live" "\<And>x. x \<in> set ns \<Longrightarrow> blk m' x = blk m x"
proof -
  have okn: "\<And>x. x \<in> set ns \<Longrightarrow> block_ok (blk m x)" and okl: "\<And>c. c \<in># live \<Longrightarrow> block_ok c \<and> intact m c"
    using wf by (auto simp: heap_wf_def)
  show b: "\<And>x. x \<in> set ns \<Longrightarrow> blk m' x = blk m x" using node_frame(4) [OF okn same ap(1)] by blast
  have "\<And>x. x \<in> set ns \<Longrightarrow> node_next m' x = node_next m x" using node_frame(2) [OF okn same ap(1)] by blast
  then have "chain (node_next m') fl ns 0" using wf by (auto simp: heap_wf_def intro: chain_frame)
  moreover have "image_mset (blk m') (mset ns) = image_mset (blk m) (mset ns)" using b by (intro image_mset_cong) auto
  moreover have "\<forall>c \<in># live. block_ok c \<and> intact m' c" using okl ap(2) intact_frame [OF _ same] by blast
  ultimately show "heap_wf m' fl ns live" using wf okn b by (simp add: heap_wf_def)
qed

lemma sc_mmap_heap:
  assumes "alloc_inv E s L" and run: "sc_mmap E 0 n prot flags (- 1) 0 s = (Inr p, s')"
  shows "alloc_inv E s' L"
proof -
  from assms(1) obtain ns live R where inv: "malloc_inv E s ns live R" and L: "L = image_mset payload live"
    by (auto simp: alloc_inv_def)
  then have act: "active_inv E s R" and wf: "heap_wf (mem s) (freeList s) ns live"
    and ins: "\<forall>b \<in># mset (map (blk (mem s)) ns) + live. \<exists>r \<in># R. inside b r" by (auto simp: malloc_inv_def)
  have fl: "freeList s' = freeList s" by (rule sc_mmap_freeList [OF act run])
  have "\<exists>R'. malloc_inv E s' ns live R'"
  proof (cases "p = MAP_FAILED")
    case True
    with mmap_pages.grab_failed [OF act] run have "active_inv E s' R" "mem s' = mem s" by auto
    with wf ins fl show ?thesis by (auto simp: malloc_inv_def)
  next
    case False
    have "\<forall>r \<in># R. apart (p, n) r" using mmap_pages.grab_apart [OF act run False] by auto
    note ap = malloc_inv_apart [OF inv this]
    have same: "same_outside (p, n) (mem s) (mem s')"
      using mmap_pages.grab_frame [OF act run False] by (simp add: same_outside_def)
    note h = heap_apart [OF wf same ap]
    have "map (blk (mem s')) ns = map (blk (mem s)) ns" using h(2) by simp
    then have "\<forall>b \<in># mset (map (blk (mem s')) ns) + live. \<exists>r \<in># add_mset (p, n) R. inside b r" using ins by auto
    with h(1) fl mmap_pages.grab_fresh [OF act run False] show ?thesis by (auto simp: malloc_inv_def)
  qed
  then show ?thesis using L by (auto simp: alloc_inv_def)
qed

lemma do_mmap_ok:
  assumes ok: "world_ok E w" and s: "part w p = Some s"
    and run: "sc_mmap E 0 n prot flags (- 1) 0 (view (common w) s) = (Inr r, s')"
  shows "world_ok E (commit p s' w)"
proof -
  have "world_ok E ((commit p s' w)\<lparr>owned := owned w\<rparr>)"
  proof (rule move_ok [OF ok s])
    show "calm w s s'" by (rule keeps_calm [OF sc_mmap_keeps [OF run]])
    show "\<exists>act' rsv' fre'. region_core E s' act' rsv' fre' \<and> regions_move E (nobody (common w)) act rsv fre s' act' rsv' fre'"
      if "region_core E (nobody (common w)) act rsv fre" for act rsv fre
      using sc_mmap_move [OF _ run] that by (simp add: shared_views view_move)
    show "alloc_inv E s' (owned w + X)" if "alloc_inv E (nobody (common w)) (owned w + X)" for X
      using sc_mmap_heap [OF _ run] that by (simp add: shared_views)
  qed
  then show ?thesis by (simp add: own_same)
qed

lemma killLocal_traps: "sc_killLocalProc s \<noteq> (Inr x, s')"
  using kill_all_traps by (auto simp: sc_killLocalProc_def)

lemma segv_map_InrD:
  assumes "segv_map E l info r s = (Inr u, s')"
  shows "\<exists>vm. s' = s\<lparr>vmap := vm\<rparr> \<and> (\<forall>x. vmap s x \<noteq> None \<longrightarrow> vm x \<noteq> None) \<and>
     (r_vaddr r \<noteq> MAP_FAILED \<longrightarrow> vm = vm_map (vmap s) (r_vaddr r) (fault_req l r))"
proof -
  from guard_InrD [OF assms [unfolded segv_map_def]] killLocal_traps
  have "(let (map_p, s) = sys_mmap E (fault_req l r) s in if map_p \<noteq> r_vaddr r then (Inl (Exit 3), s) else (Inr (), s)) = (Inr u, s')"
    by (auto split: if_splits)
  then have s': "s' = (if r_vaddr r = MAP_FAILED then s else s\<lparr>vmap := vm_map (vmap s) (r_vaddr r) (fault_req l r)\<rparr>)"
    by (auto simp: sys_mmap_def Let_def split: if_splits)
  show ?thesis
  proof (cases "r_vaddr r = MAP_FAILED")
    case False
    have "\<forall>x. vmap s x \<noteq> None \<longrightarrow> vm_map (vmap s) (r_vaddr r) (fault_req l r) x \<noteq> None" by (intro allI impI vm_map_keeps)
    with s' False show ?thesis by (intro exI [of _ "vm_map (vmap s) (r_vaddr r) (fault_req l r)"]) simp
  qed (use s' in \<open>auto intro: exI [of _ "vmap s"]\<close>)
qed

lemma segv_InrD:
  assumes "sc_signal_handler_SEGV E signum info s = (Inr u, s')"
  shows "\<exists>vm tr v. s' = s\<lparr>vmap := vm, lk := tr, prev_vaddr := v\<rparr> \<and> (\<forall>x. vmap s x \<noteq> None \<longrightarrow> vm x \<noteq> None) \<and>
     (\<exists>l a r k tr'. locals s = [l] \<and> a \<noteq> 0 \<and> regs s a = Some r \<and>
        segv_walk (regs s) (si_addr info) LRoot (active_regions (rt s)) [] = Some (Inr (k, a), tr') \<and>
        (r_vaddr r \<noteq> MAP_FAILED \<longrightarrow> vm = vm_map (vmap s) (r_vaddr r) (fault_req l r)))"
proof -
  let ?s = "s\<lparr>prev_vaddr := si_addr info\<rparr>"
  from guard_InrD [OF assms [unfolded sc_signal_handler_SEGV_def]] killLocal_traps
  have "segv_lookup E info ?s = (Inr u, s')" by (auto split: if_splits)
  then obtain l t tr tr' r k a k' s2 where lo: "locals ?s = [l]"
    and a: "a \<noteq> 0" "regs ?s a = Some r" "segv_walk (regs ?s) (si_addr info) LRoot (active_regions (rt ?s)) [] = Some (Inr (k', a), tr')"
    and m: "segv_map E l info r (t\<lparr>lk := tr\<rparr>) = (Inr (), s2)" and t: "t = ?s" and s': "s' = s2\<lparr>lk := lk s2 @ [k], prev_vaddr := 0\<rparr>"
    using killLocal_traps
    by (auto simp: segv_lookup_def Let_def loops_def deref_def guard_def log_lock_def
        split: list.splits if_splits option.splits sum.splits prod.splits elim!: call_InrE)
  from segv_map_InrD [OF m] obtain vm where "s2 = t\<lparr>lk := tr, vmap := vm\<rparr>" "\<forall>x. vmap t x \<noteq> None \<longrightarrow> vm x \<noteq> None"
    "r_vaddr r \<noteq> MAP_FAILED \<longrightarrow> vm = vm_map (vmap t) (r_vaddr r) (fault_req l r)" by auto
  with t s' lo a show ?thesis by (intro exI [of _ vm] exI [of _ "tr @ [k]"] exI [of _ 0]) auto
qed

lemma do_fault_ok:
  assumes ok: "world_ok E w" and s: "part w p = Some s"
    and run: "sc_signal_handler_SEGV E signum info (view (common w) s) = (Inr (), s')"
  shows "world_ok E (commit p s' w)"
proof -
  from segv_InrD [OF run] obtain vm tr v where s': "s' = (view (common w) s)\<lparr>vmap := vm, lk := tr, prev_vaddr := v\<rparr>"
    and vm: "\<forall>x. vmap s x \<noteq> None \<longrightarrow> vm x \<noteq> None" by (auto simp del: not_None_eq)
  have "world_ok E ((commit p s' w)\<lparr>owned := owned w\<rparr>)"
  proof (rule still_ok [OF ok s])
    show "alloc_inv E s' (owned w + X)" if "alloc_inv E (nobody (common w)) (owned w + X)" for X
      using that alloc_inv_rt [of s' "nobody (common w)"] by (simp add: s')
  qed (use vm in \<open>simp_all add: calm_def s'\<close>)
  then show ?thesis by (simp add: own_same)
qed

text \<open>Posting a reservation.\<close>

lemma log_pending: "log_ok E w act rsv fre G \<Longrightarrow> pending_reservation (rt (common w)) = 0 \<Longrightarrow> log_idle w \<and> G = {#}"
  by (auto simp: log_ok_def log_busy_def pending_ok_def)

lemma lastSeq_commit [simp]: "lastSeq (commit p s w) = cleanupLog_lastSeqNum (rt s)"
  by (simp add: lastSeq_def)

lemma idle_flushed:
  assumes "log_idle w" "part w p = Some s" shows "flushed_to s = lastSeq w"
proof -
  have "p \<in> flushed w" using assms by (auto simp: log_idle_def)
  with assms(2) show ?thesis by (simp add: flushed_def)
qed

lemma flushed_posted:
  assumes "part w p = Some s" "log_idle w" "flushed_to s' = flushed_to s + 1"
    "cleanupLog_lastSeqNum (rt s') = lastSeq w + 1"
  shows "flushed (commit p s' w) = {p}"
  using assms idle_flushed [OF assms(2)] by (auto simp: flushed_def)

lemma posted_log:
  assumes s: "part w p = Some s" and idle: "log_idle w" and procs: "procs_ok w ps"
    and post: "posted E (lock_exclusive LRoot (view (common w) s)) act0 rsv0 L s' q c a n"
    and pend: "pending_ok E s' act rsv fre q"
    and fp: "flushed_to s' = flushed_to s + 1" and two: "1 < card (dom (part w))" "lastSeq w + 1 \<noteq> 0" "finite (dom (part w))"
  shows "log_busy E (commit p s' w) act rsv fre q (new_step (view (common w) s) a n) 0"
proof -
  let ?w = "commit p s' w" and ?k = "new_step (view (common w) s) a n"
  have ns: "new_step (lock_exclusive LRoot (view (common w) s)) a n = ?k" by (simp add: new_step_def)
  have ls: "cleanupLog_lastSeqNum (rt s') = lastSeq w + 1" using post by (simp add: posted_def lastSeq_def)
  have fl: "flushed ?w = {p}" by (rule flushed_posted [OF s idle fp ls])
  have d: "dom (part ?w) = dom (part w)" using s by auto
  have dp: "p \<in> dom (part w)" using s by auto
  have sub: "{p} \<subset> dom (part w)"
  proof -
    have "dom (part w) \<noteq> {p}" using two(1) by auto
    with dp show ?thesis by blast
  qed
  have ls': "lastSeq ?w = lastSeq w + 1" using ls by (simp add: lastSeq_def)
  have k: "c_seqNum ?k = lastSeq w + 1" "c_next ?k = 0" "c_op ?k = SC_CLS_RESERVE_MEMORY" "c_ack_count ?k = 1"
    "c_ack_targ ?k = proc_count (rt (common w))" "step_range ?k = (a, n)"
    by (simp_all add: new_step_def step_range_def lastSeq_def)
  have rq: "region_range (regs s') q = (a, n)" using post by (simp add: posted_def region_range_def pending_region_def)
  have vm: "vmap s' = vm_map (vmap s) a (reserve_req 0 n)" using post by (simp add: posted_def)
  show ?thesis
    unfolding log_busy_def fl d ls' k
  proof (intro conjI allI impI)
    fix p' t assume t: "part ?w p' = Some t" "p' \<notin> {p}"
    then have "p' \<in> flushed w" using idle by (auto simp: log_idle_def)
    with t show "flushed_to t + 1 = lastSeq w + 1" by (auto simp: flushed_def)
  next
    fix p' t x assume "part ?w p' = Some t" "p' \<in> {p}" "in_block x (a, n)"
    then show "vmap t x \<noteq> None" using vm by (auto simp: vm_map_def)
  qed (use post pend ns two sub procs rq in \<open>auto simp: posted_def procs_ok_def shared_views word_neq_0_conv\<close>)
qed

lemma posted_ok:
  assumes parts: "parts_ok w (act @ rsv)" and procs: "procs_ok w ps" and idle: "log_idle w"
    and first: "region_range (regs (common w)) (active_regions (rt (common w))) = (root_addr (common w), getpagesize E)"
      "root_dest E (rt (common w)) = root_addr (common w)"
    and s: "part w p = Some s" and two: "1 < card (dom (part w))" "lastSeq w + 1 \<noteq> 0"
    and post: "posted E (lock_exclusive LRoot (view (common w) s)) act rsv (owned w + proc_bufs sz (rt (common w)) ps) s' q c a n"
  shows "world_ok E (commit p s' w)"
proof -
  let ?v = "lock_exclusive LRoot (view (common w) s)"
  from post obtain act' rsv' fre' where core: "region_core E s' act' rsv' fre'" and pend: "pending_ok E s' act' rsv' fre' q"
    and cov: "covers (nobody (common w)) (act @ rsv) s' (act' @ rsv')" by (auto simp: posted_def covers_def)
  from post obtain k where heap: "alloc_inv E s' (add_mset (c, k) (owned w + proc_bufs sz (rt (common w)) ps))"
    by (auto simp: posted_def)
  have r: "rt_rest (rt s') = rt_rest (post_rt q c (rt (common w)))" using post by (simp add: posted_def)
  note rf = rt_rest_fields [OF r]
  from parts s obtain l where l: "locals s = [l]" "l_sc l = root_addr (common w)" "flushed_to s = l_flushPoint l"
    "all_mapped (nobody (common w)) (act @ rsv) (vmap s)" "my_local (view (common w) s) = Some l" by (rule part_local)
  have ml: "map l_sc (locals s') = map l_sc (locals s)" and ra: "root_addr s' = root_addr (common w)"
    and my: "my_local s' = Some (l\<lparr>l_flushPoint := l_flushPoint l + 1\<rparr>)" using post l(5) by (simp_all add: posted_def)
  have "locals s' = [l\<lparr>l_flushPoint := l_flushPoint l + 1\<rparr>]"
    using ml my l(1) by (cases "locals s'") (auto simp: my_local_def split: if_splits)
  then have fp: "flushed_to s' = flushed_to s + 1" using l(3) by (simp add: flushed_to_def)
  have busy: "log_busy E (commit p s' w) act' rsv' fre' q (new_step (view (common w) s) a n) 0"
    by (rule posted_log [OF s idle procs post pend fp two]) (use parts in \<open>simp add: parts_ok_def\<close>)
  have cl: "cleanupLog (rt s') = c" using post by (simp add: posted_def)
  have log: "log_ok E (commit p s' w) act' rsv' fre' {#(c, k)#}" using busy cl by (auto simp: log_ok_def)
  have vm: "vmap s' = vm_map (vmap s) a (reserve_req 0 n)" using post by (simp add: posted_def)
  have mp: "all_mapped s' (act' @ rsv') (vmap s')"
    by (rule all_mapped_mono [OF all_mapped_covers [OF cov l(4)]]) (simp add: vm vm_map_keeps)
  have pb: "proc_bufs sz (rt s') ps = proc_bufs sz (rt (common w)) ps" using rf by (simp add: proc_bufs_def post_rt_def)
  show ?thesis
    unfolding world_ok_def
  proof (intro exI conjI)
    show "region_core E (nobody (common (commit p s' w))) act' rsv' fre'" using core by (simp add: shared_views)
    show "parts_ok (commit p s' w) (act' @ rsv')"
      by (rule parts_commit [OF parts s ml _ ra cov mp]) (use post in \<open>simp add: posted_def\<close>)
    show "procs_ok (commit p s' w) ps"
      by (rule procs_calm [OF procs s]) (use post rf in \<open>simp_all add: posted_def post_rt_def\<close>)
    show "log_ok E (commit p s' w) act' rsv' fre' {#(c, k)#}" by (rule log)
    show "alloc_inv E (nobody (common (commit p s' w))) (owned (commit p s' w) + proc_bufs sz (rt (common (commit p s' w))) ps + {#(c, k)#})"
      using heap pb by (simp add: shared_views)
    show "region_range (regs (common (commit p s' w))) (active_regions (rt (common (commit p s' w)))) =
        (root_addr (common (commit p s' w)), getpagesize E)"
      using post first ra rf by (simp add: posted_def post_rt_def)
    show "root_dest E (rt (common (commit p s' w))) = root_addr (common (commit p s' w))"
      using first ra rf by (simp add: post_rt_def root_dest_def)
  qed
qed

lemma posted_lock: "posted E s act rsv L (log_lock e t) q c a n = posted E s act rsv L t q c a n"
proof -
  have "region_core E (log_lock e t) act rsv fre = region_core E t act rsv fre" for act rsv fre
    by (rule region_core_cong) simp_all
  moreover have "alloc_inv E (log_lock e t) M = alloc_inv E t M" for M by (rule alloc_inv_rt) simp_all
  ultimately show ?thesis by (simp add: posted_def pending_ok_def covers_def)
qed

lemma post_guard:
  assumes "sc_postNewReservation E n s = (Inr rc, s')" shows "1 < sint (proc_count (rt s))"
  using guard_InrD [OF assms [unfolded sc_postNewReservation_def]] by (auto split: if_splits)

text \<open>A post that returns has run out of memory for the entry of the log, or it has posted.\<close>

lemma ctl_post_InrD:
  assumes core: "region_core E (nobody (common w)) act rsv fre" and parts: "parts_ok w (act @ rsv)"
    and h: "alloc_inv E (nobody (common w)) L" and idle: "log_idle w" and s: "part w p = Some s" and K: "kernel_ok E"
    and run: "ctl_addReserved E others pages (view (common w) s) = (Inr (), s')"
  obtains (nomem) act' rsv' fre' where "calm w s s'" "region_core E s' act' rsv' fre'" "alloc_inv E s' L" "same_in L (mem (common w)) (mem s')"
      "covers (nobody (common w)) (act @ rsv) s' (act' @ rsv')" "grown (regs (common w)) act rsv (regs s') act' rsv'"
      "region_range (regs s') (active_regions (rt (common w))) = region_range (regs (common w)) (active_regions (rt (common w)))"
      "rt_rest (rt s') = rt_rest (rt (common w))" "vmap s' = vmap s"
      "file_grows E \<longrightarrow> laid (nobody (common w)) act \<longrightarrow> laid s' act'"
    | (posted) q c a n where "posted E (lock_exclusive LRoot (view (common w) s)) act rsv L s' q c a n" "1 < sint (proc_count (rt (common w)))"
proof -
  let ?v = "lock_exclusive LRoot (view (common w) s)"
  have pr: "pending_reservation (rt (common w)) = 0" using idle by (simp add: log_idle_def)
  have pos: "0 < sint pages" using guard_InrD [OF run [unfolded ctl_addReserved_def]] by (auto split: if_splits)
  from run obtain rc s1 where post: "sc_postNewReservation E (scast pages) ?v = (Inr rc, s1)" and s': "s' = unlock_exclusive LRoot s1"
    using ctl_addReserved_eq [of "view (common w) s" pages E others] pr pos by (auto elim!: call_InrE)
  have core_v: "region_core E ?v act rsv fre" using core region_core_cong [of ?v "nobody (common w)"] by simp
  have heap_v: "alloc_inv E ?v L" using h alloc_inv_rt [of ?v "nobody (common w)"] by simp
  have "all_mapped (nobody (common w)) (act @ rsv) (vmap s)" using parts s by (simp add: parts_ok_def)
  then have mp_v: "all_mapped ?v (act @ rsv) (vmap ?v)" by (simp add: all_mapped_def)
  have e: "cleanupLog (rt ?v) = 0" using idle by (simp add: log_idle_def)
  from core_v heap_v post e K mp_v show thesis
  proof (cases rule: post_InrD)
    case (nomem act' rsv' fre')
    show thesis
    proof (rule that(1) [of act' rsv' fre'])
      show "calm w s s'" using nomem(2) by (simp add: s' calm_def keeps_def)
      show "region_core E s' act' rsv' fre'" using nomem(3) region_core_cong [of s' s1] by (simp add: s')
      show "alloc_inv E s' L" using nomem(4) alloc_inv_rt [of s' s1] by (simp add: s')
      show "covers (nobody (common w)) (act @ rsv) s' (act' @ rsv')" using nomem(6) by (simp add: covers_def s')
      show "file_grows E \<longrightarrow> laid (nobody (common w)) act \<longrightarrow> laid s' act'" using nomem by (simp add: s')
      show "rt_rest (rt s') = rt_rest (rt (common w))" "vmap s' = vmap s" using nomem(2) by (simp_all add: keeps_def s')
    qed (use nomem in \<open>simp_all add: s'\<close>)
  next
    case (posted q c a n)
    show thesis by (rule that(2) [of q c a n]) (use posted(2) post_guard [OF post] in \<open>simp_all add: s' posted_lock\<close>)
  qed
qed

lemma do_post_ok:
  assumes ok: "world_ok E w" and s: "part w p = Some s" and K: "kernel_ok E" and ls: "lastSeq w + 1 \<noteq> 0"
    and pr: "pending_reservation (rt (common w)) = 0"
    and run: "ctl_addReserved E others pages (view (common w) s) = (Inr (), s')"
  shows "world_ok E (commit p s' w) \<and> (cleanupLog_lastSeqNum (rt s') = lastSeq w \<or> cleanupLog_lastSeqNum (rt s') = lastSeq w + 1) \<and>
     same_in (owned w) (mem (common w)) (mem s')"
  using ok
proof (rule world_okE)
  fix act rsv fre ps sz G
  assume core: "region_core E (nobody (common w)) act rsv fre" and parts: "parts_ok w (act @ rsv)" and procs: "procs_ok w ps"
    and log: "log_ok E w act rsv fre G" and h: "alloc_inv E (nobody (common w)) (owned w + proc_bufs sz (rt (common w)) ps + G)"
    and f: "region_range (regs (common w)) (active_regions (rt (common w))) = (root_addr (common w), getpagesize E)"
    "root_dest E (rt (common w)) = root_addr (common w)"
  from log_pending [OF log pr] have idle: "log_idle w" and G: "G = {#}" by simp_all
  let ?L = "owned w + proc_bufs sz (rt (common w)) ps"
  have h': "alloc_inv E (nobody (common w)) ?L" using h G by simp
  from core parts h' idle s K run show ?thesis
  proof (cases rule: ctl_post_InrD)
    case (nomem act' rsv' fre')
    have e: "cleanupLog (rt (common w)) = 0" using idle by (simp add: log_idle_def)
    have "alloc_inv E s' (?L + G)" using nomem(3) G by simp
    with calm_ok [OF core parts procs log f s nomem(1,2,5,7) disjI1 [OF e]]
    have "world_ok E ((commit p s' w)\<lparr>owned := owned w\<rparr>)" by simp
    then show ?thesis using rt_rest_fields(7) [OF nomem(8)] same_in_mono [OF nomem(4), of "owned w"] by (simp add: own_same lastSeq_def)
  next
    case (posted q c a n)
    have "1 < card (dom (part w))" using posted(2) procs by (simp add: procs_ok_def)
    then have "world_ok E (commit p s' w)" using posted_ok [OF parts procs idle f s _ ls posted(1)] by simp
    moreover have "same_in ?L (mem (common w)) (mem s')" using posted(1) by (simp add: posted_def)
    then have "same_in (owned w) (mem (common w)) (mem s')" by (rule same_in_mono) simp
    ultimately show ?thesis using posted(1) by (simp add: posted_def lastSeq_def)
  qed
qed

text \<open>A turn of a background thread.\<close>

lemma bg_turn_nothing:
  assumes "my_local s = Some l" "l_flushPoint l = cleanupLog_lastSeqNum (rt s)"
  shows "bg_turn E s = (Inr (), unlock_shared LRoot (lock_shared LRoot s))"
proof -
  have "bg_find E s = (Inr 0, unlock_shared LRoot (lock_shared LRoot s))" using assms by (simp add: bg_find_def Let_def)
  then have "bg_flush E s = (Inr False, unlock_shared LRoot (lock_shared LRoot s))" by (simp add: bg_flush_def)
  then show ?thesis by (simp add: bg_turn_def call_def)
qed

lemma handle_granted_rev:
  assumes "sc_handleCleanupLogStep E a s = (Inr u, s')" "steps s a = Some c" "c_op c = SC_CLS_RESERVE_MEMORY"
    "c_vaddr c \<noteq> MAP_FAILED"
  shows "reserve_granted E (vmap s) c"
  using assms by (auto simp: sc_handleCleanupLogStep_def reserve_granted_def sys_mmap_def Let_def split: if_splits)

lemma range_not_failed:
  assumes "page_ok E" "range_ok E r" shows "r_vaddr r \<noteq> MAP_FAILED"
proof
  assume "r_vaddr r = MAP_FAILED"
  with assms have "8 dvd unat MAP_FAILED" using page_dvd8 by (metis range_ok_def)
  then show False by (simp add: unat_MAP_FAILED)
qed

text \<open>The whole log is the entry at \<open>a\<close>, which the process has not handled.\<close>

lemma log_one:
  assumes "cleanupLog (rt s) = a" "cleanupLog_tail (rt s) = a" "a \<noteq> 0" "steps s a = Some c" "c_next c = 0"
      "c_seqNum c = cleanupLog_lastSeqNum (rt s)" "0 < cleanupLog_lastSeqNum (rt s)"
    and l: "f + 1 = cleanupLog_lastSeqNum (rt s)"
  shows "log_chain s [a]" "f < cleanupLog_lastSeqNum (rt s)" "step_seq s (hd [a]) \<le> Suc (unat f)" "log_pos s f [a] = 0"
proof -
  have "f = cleanupLog_lastSeqNum (rt s) - 1" using l by (metis add_diff_cancel_right')
  then have u: "unat (cleanupLog_lastSeqNum (rt s)) = Suc (unat f)"
    using assms(7) by (simp add: unat_sub word_le_nat_alt word_less_nat_alt)
  then show "f < cleanupLog_lastSeqNum (rt s)" by (simp add: word_less_nat_alt)
  show "log_chain s [a]" using assms(1-6) by (simp add: log_chain_def step_next_def step_seq_def dom_def)
  show "step_seq s (hd [a]) \<le> Suc (unat f)" "log_pos s f [a] = 0" using assms(4,6) u by (simp_all add: log_pos_def step_seq_def)
qed

lemma bg_flush_granted:
  assumes log: "cleanupLog (rt s) = a" "cleanupLog_tail (rt s) = a" "a \<noteq> 0" "steps s a = Some c" "c_next c = 0"
      "c_seqNum c = cleanupLog_lastSeqNum (rt s)" "0 < cleanupLog_lastSeqNum (rt s)"
    and l: "l_flushPoint l + 1 = cleanupLog_lastSeqNum (rt s)" and my: "my_local s = Some l"
    and lq: "lock_query_ok E" "lk s = []" and ack: "sint (c_ack_count c) < sint (c_ack_targ c)"
    and gr: "reserve_granted E (vmap s) c"
  obtains s1 where "bg_flush E s = (Inr (c_ack_count c + 1 = c_ack_targ c), s1)" "drained s [a] s1"
    "map_option l_flushPoint (my_local s1) = Some (cleanupLog_lastSeqNum (rt s))"
proof -
  let ?f = "l_flushPoint l"
  note o = log_one [OF log l]
  have held: "\<And>k. 0 \<le> heldX (lk s) (LStep k)" using lq(2) by (simp add: heldX_def)
  have gs: "all_granted E (vmap s) (map (\<lambda>d. the (steps s d)) (drop (log_pos s ?f [a]) [a]))" using o(4) log gr by simp
  have ak: "\<forall>d \<in> set (drop (log_pos s ?f [a]) [a]). sint (c_ack_count (the (steps s d))) < sint (c_ack_targ (the (steps s d)))"
    using o(4) log ack by simp
  from bg_flush_ok [OF o(1) my o(2) _ o(3) lq(1) held ak gs] o(4) log show thesis by (auto intro: that)
qed

lemma bg_flush_one:
  assumes log: "cleanupLog (rt s) = a" "cleanupLog_tail (rt s) = a" "a \<noteq> 0" "steps s a = Some c" "c_next c = 0"
      "c_seqNum c = cleanupLog_lastSeqNum (rt s)" "0 < cleanupLog_lastSeqNum (rt s)"
    and l: "l_flushPoint l + 1 = cleanupLog_lastSeqNum (rt s)" and my: "my_local s = Some l"
    and lq: "lock_query_ok E" "lk s = []" and ack: "sint (c_ack_count c) < sint (c_ack_targ c)"
    and op: "c_op c = SC_CLS_RESERVE_MEMORY" "c_vaddr c \<noteq> MAP_FAILED"
    and run: "bg_turn E s = (Inr (), s')"
  obtains s1 where "drained s [a] s1" "map_option l_flushPoint (my_local s1) = Some (cleanupLog_lastSeqNum (rt s))"
    "(if c_ack_count c + 1 = c_ack_targ c then bg_cleanup s1 else (Inr (), s1)) = (Inr (), s')"
proof -
  note o = log_one [OF log l]
  have held: "\<And>k. 0 \<le> heldX (lk s) (LStep k)" using lq(2) by (simp add: heldX_def)
  from bg_find_ok [OF o(1) my o(2) _ o(3) lq(1) held] o(4) obtain tr where
    find: "bg_find E s = (Inr a, s\<lparr>lk := lk s @ tr\<rparr>)" by (auto simp: log_pos_def)
  let ?s = "s\<lparr>lk := lk s @ tr\<rparr>"
  obtain u t where "sc_handleCleanupLogStep E a ?s = (Inr u, t)"
  proof (cases "sc_handleCleanupLogStep E a ?s")
    case (Pair r t)
    show thesis
    proof (cases r)
      case (Inl e)
      then have "bg_drain E a False a ?s = Some (Inl e, t)" using Pair by (subst bg_drain.simps) simp
      then have "bg_turn E s = (Inl e, t)" using find log by (simp add: bg_turn_def bg_flush_def loops_def)
      with run show thesis by simp
    qed (use Pair that in simp)
  qed
  from handle_granted_rev [OF this] log op have "reserve_granted E (vmap s) c" by simp
  from bg_flush_granted [OF log l my lq ack this] obtain s1 where s1: "bg_flush E s = (Inr (c_ack_count c + 1 = c_ack_targ c), s1)"
    "drained s [a] s1" "map_option l_flushPoint (my_local s1) = Some (cleanupLog_lastSeqNum (rt s))" by blast
  with run show thesis by (intro that [of s1]) (simp_all add: bg_turn_def)
qed

lemma sint_bounds: "sint (x :: u32) < 2 ^ 31" "- (2 ^ 31) \<le> sint (x :: u32)"
  using sint_lt [of x] sint_ge [of x] by simp_all

lemma sint_add32:
  assumes "- (2 ^ 31) \<le> sint (x :: u32) + sint y" "sint x + sint y < 2 ^ 31" shows "sint (x + y) = sint x + sint y"
  using assms by (simp add: sint_word_ariths signed_take_bit_int_eq_self)

lemma sint_succ: "sint (x :: u32) < sint (y :: u32) \<Longrightarrow> sint (x + 1) = sint x + 1"
  using sint_bounds [of x] sint_bounds [of y] by (simp add: sint_add32)

lemma sint_pred: "sint (y :: u32) < sint (x :: u32) \<Longrightarrow> sint (x - 1) = sint x - 1"
  using sint_bounds [of x] sint_bounds [of y] sint_add32 [of x "- 1"] by simp

text \<open>One more process has handled the entry.\<close>

lemma flushed_turn:
  assumes "part w p = Some s" "flushed_to s' = lastSeq w" "cleanupLog_lastSeqNum (rt s') = lastSeq w"
  shows "flushed (commit p s' w) = insert p (flushed w)"
  using assms by (auto simp: flushed_def lastSeq_def)

lemma busy_turn:
  assumes busy: "log_busy E w act rsv fre q c g" and s: "part w p = Some s" "p \<notin> flushed w" and fin: "finite (dom (part w))"
    and d: "drained (view (common w) s) [cleanupLog (rt (common w))] s1" and fp: "flushed_to s1 = lastSeq w"
    and nl: "c_ack_count c + 1 \<noteq> c_ack_targ c"
  shows "log_busy E (commit p s1 w) act rsv fre q (acked c) g"
proof -
  let ?w = "commit p s1 w" and ?a = "cleanupLog (rt (common w))"
  have rt1: "rt s1 = rt (common w)" "regs s1 = regs (common w)" using d by (simp_all add: drained_def)
  have ls: "lastSeq ?w = lastSeq w" by (simp add: rt1 lastSeq_def)
  have fl: "flushed ?w = insert p (flushed w)" by (rule flushed_turn [OF s(1) fp]) (simp add: rt1 lastSeq_def)
  have dm: "dom (part ?w) = dom (part w)" using s by auto
  have st: "steps s1 ?a = Some (acked c)" using d busy by (simp add: drained_def log_busy_def)
  have sub: "flushed w \<subset> dom (part w)" and pd: "p \<in> dom (part w)" using busy s by (auto simp: log_busy_def)
  have finf: "finite (flushed w)" using sub fin finite_subset by blast
  have cf: "card (insert p (flushed w)) = card (flushed w) + 1" using finf s(2) by simp
  have lt: "card (flushed w) < card (dom (part w))" using sub fin by (simp add: psubset_card_mono)
  have ack: "sint (c_ack_count c + 1) = sint (c_ack_count c) + 1"
    by (rule sint_succ [of _ "c_ack_targ c"]) (use busy lt in \<open>simp add: log_busy_def\<close>)
  have neq: "insert p (flushed w) \<noteq> dom (part w)"
  proof
    assume "insert p (flushed w) = dom (part w)"
    then have "sint (c_ack_count c + 1) = sint (c_ack_targ c)" using ack busy cf by (simp add: log_busy_def)
    with nl show False using signed_word_eqI by blast
  qed
  have sr: "step_range (acked c) = step_range c" by (simp add: step_range_def acked_def)
  show ?thesis
    unfolding log_busy_def fl ls dm sr
  proof (intro conjI allI impI)
    show "insert p (flushed w) \<subset> dom (part w)" using neq sub pd by blast
    fix p' t assume t: "part ?w p' = Some t" "p' \<notin> insert p (flushed w)"
    then show "flushed_to t + 1 = lastSeq w" using busy by (auto simp: log_busy_def split: if_splits)
  next
    fix p' t x assume t: "part ?w p' = Some t" "p' \<in> insert p (flushed w)" "in_block x (step_range c)"
    show "vmap t x \<noteq> None"
    proof (cases "p' = p")
      case True
      have "steps (common w) ?a = Some c" using busy by (simp add: log_busy_def)
      with d True t show ?thesis by (auto simp: drained_def)
    qed (use busy t in \<open>auto simp: log_busy_def\<close>)
  qed (use busy st cf ack rt1 in \<open>auto simp: log_busy_def shared_views pending_ok_def acked_def\<close>)
qed

text \<open>The last process has handled the entry, and the log has been cleaned.\<close>

lemma busy_last:
  assumes busy: "log_busy E w act rsv fre q c g" and s: "part w p = Some s" "p \<notin> flushed w" and fin: "finite (dom (part w))"
    and last: "c_ack_count c + 1 = c_ack_targ c"
  shows "insert p (flushed w) = dom (part w)"
proof -
  have sub: "flushed w \<subset> dom (part w)" and pd: "p \<in> dom (part w)" using busy s by (auto simp: log_busy_def)
  have finf: "finite (flushed w)" using sub fin finite_subset by blast
  have lt: "card (flushed w) < card (dom (part w))" using sub fin by (simp add: psubset_card_mono)
  have "sint (c_ack_count c + 1) = sint (c_ack_count c) + 1"
    by (rule sint_succ [of _ "c_ack_targ c"]) (use busy lt in \<open>simp add: log_busy_def\<close>)
  with last busy have "card (insert p (flushed w)) = card (dom (part w))" using finf s(2) by (simp add: log_busy_def)
  moreover have "insert p (flushed w) \<subseteq> dom (part w)" using sub pd by blast
  ultimately show ?thesis using fin by (metis card_subset_eq)
qed

lemma turn_cleans:
  assumes core: "region_core E (nobody (common w)) act rsv fre" and busy: "log_busy E w act rsv fre q c g"
    and heap: "alloc_inv E (nobody (common w)) (L + {#(cleanupLog (rt (common w)), n)#})"
    and d: "drained (view (common w) s) [cleanupLog (rt (common w))] s1" and last: "c_ack_count c + 1 = c_ack_targ c"
  shows "\<exists>s'. bg_cleanup s1 = (Inr (), s') \<and> cleaned E s1 act rsv fre L s'"
proof -
  let ?a = "cleanupLog (rt (common w))"
  have b: "pending_reservation (rt (common w)) = q" "pending_ok E (nobody (common w)) act rsv fre q" "?a \<noteq> 0"
    "cleanupLog_tail (rt (common w)) = ?a" "steps (common w) ?a = Some c" "c_next c = 0" "c_op c = SC_CLS_RESERVE_MEMORY"
    "step_range c = region_range (regs (common w)) q" using busy by (simp_all add: log_busy_def)
  from b(2) obtain r where r: "regs (common w) q = Some r" by (auto simp: pending_ok_def)
  have e: "rt s1 = rt (common w)" "regs s1 = regs (common w)" "mem s1 = mem (common w)"
    "freeList s1 = freeList (common w)" "steps s1 ?a = Some (acked c)"
    using d b(5) by (simp_all add: drained_def)
  have core1: "region_core E s1 act rsv fre" using core region_core_cong [of s1 "nobody (common w)"] by (simp add: e)
  have pend1: "pending_ok E s1 act rsv fre (pending_reservation (rt s1))" using b by (simp add: pending_ok_def e)
  have q1: "regs s1 (pending_reservation (rt s1)) = Some r" "step_range (acked c) = (r_vaddr r, r_len r)"
    using b r by (simp_all add: e step_range_def acked_def region_range_def)
  have heap1: "alloc_inv E s1 (add_mset (cleanupLog (rt s1), n) L)" using heap alloc_inv_rt [of s1 "nobody (common w)"] by (simp add: e)
  from bg_cleanup_ok [OF core1 pend1 q1 _ _ _ _ _ _ heap1] b e last show ?thesis by (simp add: acked_def)
qed

lemma last_turn_ok:
  assumes core: "region_core E (nobody (common w)) act rsv fre" and parts: "parts_ok w (act @ rsv)" and procs: "procs_ok w ps"
    and busy: "log_busy E w act rsv fre q c g"
    and heap: "alloc_inv E (nobody (common w)) (owned w + proc_bufs sz (rt (common w)) ps + {#(cleanupLog (rt (common w)), n)#})"
    and f: "region_range (regs (common w)) (active_regions (rt (common w))) = (root_addr (common w), getpagesize E)"
    "root_dest E (rt (common w)) = root_addr (common w)"
    and s: "part w p = Some s" "p \<notin> flushed w"
    and d: "drained (view (common w) s) [cleanupLog (rt (common w))] s1" and fp: "flushed_to s1 = lastSeq w"
    and last: "c_ack_count c + 1 = c_ack_targ c" and run: "bg_cleanup s1 = (Inr (), s')"
  shows "world_ok E (commit p s' w)" "cleanupLog_lastSeqNum (rt s') = lastSeq w" "same_in (owned w) (mem (common w)) (mem s')"
proof -
  let ?a = "cleanupLog (rt (common w))" and ?L = "owned w + proc_bufs sz (rt (common w)) ps"
  have b: "pending_reservation (rt (common w)) = q" "pending_ok E (nobody (common w)) act rsv fre q" "?a \<noteq> 0"
    "cleanupLog_tail (rt (common w)) = ?a" "steps (common w) ?a = Some c" "c_next c = 0" "c_op c = SC_CLS_RESERVE_MEMORY"
    "step_range c = region_range (regs (common w)) q" using busy by (simp_all add: log_busy_def)
  have e: "rt s1 = rt (common w)" "regs s1 = regs (common w)" "procs s1 = procs (common w)" "mem s1 = mem (common w)"
    "freeList s1 = freeList (common w)" "root_addr s1 = root_addr (common w)" "pid s1 = pid s"
    "map l_sc (locals s1) = map l_sc (locals s)"
    using d by (simp_all add: drained_def)
  have cl: "cleaned E s1 act rsv fre ?L s'" using turn_cleans [OF core busy heap d last] run by auto
  have rt': "rt s' = (rt (common w))\<lparr>pending_reservation := 0, reserved_regions := q, cleanupLog := 0, cleanupLog_tail := 0\<rparr>"
    using cl b by (simp add: cleaned_def e)
  have core': "region_core E s' act (q # rsv) fre" and heap': "alloc_inv E s' ?L" and rr: "region_range (regs s') = region_range (regs (common w))"
    and o: "procs s' = procs (common w)" "locals s' = locals s1" "root_addr s' = root_addr (common w)" "vmap s' = vmap s1" "pid s' = pid s"
    using cl b by (simp_all add: cleaned_def e fun_eq_iff)
  have fp': "flushed_to s' = lastSeq w" using fp o by (simp add: flushed_to_def)
  have fl: "flushed (commit p s' w) = dom (part w)"
    using flushed_turn [OF s(1) fp'] busy_last [OF busy s _ last] parts by (simp add: rt' lastSeq_def parts_ok_def)
  have dm: "dom (part (commit p s' w)) = dom (part w)" using s by auto
  have "log_idle (commit p s' w)" using fl dm by (simp add: log_idle_def rt')
  then have log: "log_ok E (commit p s' w) act (q # rsv) fre {#}" by (simp add: log_ok_def)
  have mono: "vmap s x \<noteq> None \<Longrightarrow> vmap s' x \<noteq> None" and new: "in_block x (region_range (regs (common w)) q) \<Longrightarrow> vmap s' x \<noteq> None" for x
    using d b(5,8) by (simp_all add: drained_def o)
  have old: "vmap t x \<noteq> None" if "part w p' = Some t" "p' \<noteq> p" "in_block x (region_range (regs (common w)) q)" for p' t x
  proof -
    have "p' \<in> flushed w" using busy_last [OF busy s _ last] parts that by (auto simp: parts_ok_def)
    with busy that b(8) show ?thesis by (simp add: log_busy_def)
  qed
  have "parts_ok (commit p s' w) (act @ q # rsv)"
    unfolding parts_ok_def
  proof (intro conjI allI impI)
    show "finite (dom (part (commit p s' w)))" using parts dm by (simp add: parts_ok_def)
    fix p' t assume t: "part (commit p s' w) p' = Some t"
    show "pid t = p'" "map l_sc (locals t) = [root_addr (common (commit p s' w))]"
      using t parts s o e(7,8) by (auto simp: parts_ok_def split: if_splits)
    obtain t0 where t0: "part w p' = Some t0" "\<And>x. vmap t0 x \<noteq> None \<Longrightarrow> vmap t x \<noteq> None" using t s mono by (cases "p' = p") auto
    have "all_mapped (nobody (common w)) (act @ rsv) (vmap t0)" using parts t0(1) by (rule part_local)
    then have "all_mapped (nobody (common w)) (act @ rsv) (vmap t)" by (rule all_mapped_mono) (rule t0(2))
    moreover have "vmap t x \<noteq> None" if "in_block x (region_range (regs (common w)) q)" for x
      using that t new old by (cases "p' = p") auto
    ultimately show "all_mapped (nobody (common (commit p s' w))) (act @ q # rsv) (vmap t)" by (auto simp: all_mapped_def rr)
  qed
  moreover have "procs_ok (commit p s' w) ps" by (rule procs_calm [OF procs s(1)]) (simp_all add: o rt')
  moreover have "proc_bufs sz (rt s') ps = proc_bufs sz (rt (common w)) ps" by (simp add: proc_bufs_def rt')
  ultimately show "world_ok E (commit p s' w)"
    unfolding world_ok_def using core' log heap' f
    by (intro exI [of _ act] exI [of _ "q # rsv"] exI [of _ fre] exI [of _ ps] exI [of _ sz] exI [of _ "{#}"])
      (simp add: shared_views rr rt' o root_dest_def)
  show "cleanupLog_lastSeqNum (rt s') = lastSeq w" by (simp add: rt' lastSeq_def)
  have "same_in ?L (mem (common w)) (mem s')" using cl by (simp add: cleaned_def e)
  then show "same_in (owned w) (mem (common w)) (mem s')" by (rule same_in_mono) simp
qed

text \<open>A process that has not handled all of the log lags by the one entry of a pending reservation.\<close>

lemma behindE:
  assumes core: "region_core E (nobody (common w)) act rsv fre" and parts: "parts_ok w (act @ rsv)" and log: "log_ok E w act rsv fre G"
    and h: "alloc_inv E (nobody (common w)) L" and s: "part w p = Some s" "p \<notin> flushed w"
  obtains q c g n l where "log_busy E w act rsv fre q c g" "G = {#(cleanupLog (rt (common w)), n)#}"
    "my_local (view (common w) s) = Some l" "l_flushPoint l + 1 = lastSeq w"
    "cleanupLog (rt (common w)) \<noteq> 0" "cleanupLog_tail (rt (common w)) = cleanupLog (rt (common w))"
    "steps (common w) (cleanupLog (rt (common w))) = Some c" "c_next c = 0" "c_op c = SC_CLS_RESERVE_MEMORY" "c_seqNum c = lastSeq w"
    "0 < lastSeq w" "sint (c_ack_count c) < sint (c_ack_targ c)" "c_vaddr c \<noteq> MAP_FAILED"
    "pending_reservation (rt (common w)) = q" "step_range c = region_range (regs (common w)) q"
proof -
  from parts s(1) obtain l where l: "flushed_to s = l_flushPoint l" "my_local (view (common w) s) = Some l" by (rule part_local)
  have "\<not> log_idle w" using s by (auto simp: log_idle_def)
  with log obtain q c g n where busy: "log_busy E w act rsv fre q c g" and G: "G = {#(cleanupLog (rt (common w)), n)#}"
    by (auto simp: log_ok_def)
  have "finite (dom (part w))" using parts by (simp add: parts_ok_def)
  then have "card (flushed w) < card (dom (part w))" using busy by (simp add: log_busy_def psubset_card_mono)
  then have ack: "sint (c_ack_count c) < sint (c_ack_targ c)" using busy by (simp add: log_busy_def)
  have b: "flushed_to s + 1 = lastSeq w" "pending_ok E (nobody (common w)) act rsv fre q" "step_range c = region_range (regs (common w)) q"
    using busy s by (simp_all add: log_busy_def)
  have pg: "page_ok E" using h core by (simp add: alloc_inv_core)
  have va: "c_vaddr c \<noteq> MAP_FAILED"
    using range_not_failed [OF pg, of "the (regs (common w) q)"] b(2,3)
    by (auto simp: pending_ok_def step_range_def region_range_def)
  show thesis
    by (rule that [OF busy G l(2) _ _ _ _ _ _ _ _ ack va]) (use busy b l(1) in \<open>simp_all add: log_busy_def\<close>)
qed

lemma drained_flushed:
  assumes parts: "parts_ok w rs" and s: "part w p = Some s" and d: "drained (view (common w) s) ds s1"
    and fp: "map_option l_flushPoint (my_local s1) = Some f"
  shows "flushed_to s1 = f"
proof -
  from parts s obtain l where l: "locals s = [l]" "l_sc l = root_addr (common w)" by (rule part_local)
  have "root_addr s1 = root_addr (common w)" "map l_sc (locals s1) = map l_sc (locals s)" using d by (simp_all add: drained_def)
  with fp l show ?thesis by (cases "locals s1") (auto simp: my_local_def flushed_to_def split: if_splits)
qed

text \<open>A turn that finds nothing to do, and one that others have to follow.\<close>

lemma idle_turn_ok:
  assumes ok: "world_ok E w" and s: "part w p = Some s" and s': "s' = unlock_shared LRoot (lock_shared LRoot (view (common w) s))"
  shows "world_ok E (commit p s' w)" "cleanupLog_lastSeqNum (rt s') = lastSeq w" "same_in (owned w) (mem (common w)) (mem s')"
proof -
  have "world_ok E ((commit p s' w)\<lparr>owned := owned w\<rparr>)"
  proof (rule still_ok [OF ok s])
    show "alloc_inv E s' (owned w + X)" if "alloc_inv E (nobody (common w)) (owned w + X)" for X
      using that alloc_inv_rt [of s' "nobody (common w)"] by (simp add: s')
  qed (simp_all add: calm_def s')
  then show "world_ok E (commit p s' w)" "cleanupLog_lastSeqNum (rt s') = lastSeq w" "same_in (owned w) (mem (common w)) (mem s')"
    by (simp_all add: own_same s' lastSeq_def)
qed

lemma early_turn_ok:
  assumes core: "region_core E (nobody (common w)) act rsv fre" and parts: "parts_ok w (act @ rsv)" and procs: "procs_ok w ps"
    and busy: "log_busy E w act rsv fre q c g"
    and h: "alloc_inv E (nobody (common w)) (owned w + proc_bufs sz (rt (common w)) ps + {#(cleanupLog (rt (common w)), n)#})"
    and f: "region_range (regs (common w)) (active_regions (rt (common w))) = (root_addr (common w), getpagesize E)"
    "root_dest E (rt (common w)) = root_addr (common w)"
    and s: "part w p = Some s" "p \<notin> flushed w"
    and d: "drained (view (common w) s) [cleanupLog (rt (common w))] s'" and fp: "flushed_to s' = lastSeq w"
    and nl: "c_ack_count c + 1 \<noteq> c_ack_targ c"
  shows "world_ok E (commit p s' w)" "cleanupLog_lastSeqNum (rt s') = lastSeq w" "same_in (owned w) (mem (common w)) (mem s')"
proof -
  let ?G = "{#(cleanupLog (rt (common w)), n)#}"
  have e: "rt s' = rt (common w)" "regs s' = regs (common w)" "procs s' = procs (common w)" "mem s' = mem (common w)"
    "freeList s' = freeList (common w)" "root_addr s' = root_addr (common w)" "pid s' = pid s"
    "map l_sc (locals s') = map l_sc (locals s)"
    using d by (simp_all add: drained_def)
  have "finite (dom (part w))" using parts by (simp add: parts_ok_def)
  then have log': "log_ok E (commit p s' w) act rsv fre ?G"
    using busy_turn [OF busy s _ d fp nl] by (auto simp: log_ok_def e)
  have cov: "covers (nobody (common w)) (act @ rsv) s' (act @ rsv)" by (auto simp: covers_def e intro: inside_refl)
  have "all_mapped (nobody (common w)) (act @ rsv) (vmap s)" using parts s by (simp add: parts_ok_def)
  then have mp: "all_mapped s' (act @ rsv) (vmap s')" using d by (simp add: drained_def all_mapped_def e)
  have "region_core E s' act rsv fre" using core region_core_cong [of s' "nobody (common w)"] by (simp add: e)
  moreover have "parts_ok (commit p s' w) (act @ rsv)" by (rule parts_commit [OF parts s(1) _ _ _ cov mp]) (simp_all add: e)
  moreover have "procs_ok (commit p s' w) ps" by (rule procs_calm [OF procs s(1)]) (simp_all add: e)
  moreover have "alloc_inv E s' (owned w + proc_bufs sz (rt (common w)) ps + ?G)"
    using h alloc_inv_rt [of s' "nobody (common w)"] by (simp add: e)
  ultimately show "world_ok E (commit p s' w)"
    unfolding world_ok_def using log' f
    by (intro exI [of _ act] exI [of _ rsv] exI [of _ fre] exI [of _ ps] exI [of _ sz] exI [of _ ?G]) (simp add: shared_views e)
  show "cleanupLog_lastSeqNum (rt s') = lastSeq w" "same_in (owned w) (mem (common w)) (mem s')" by (simp_all add: e lastSeq_def)
qed

text \<open>What a turn does: nothing, or it handles the one entry of the log, and then cleans the log when it is the last to
  do so.\<close>

lemma turn_InrD:
  assumes core: "region_core E (nobody (common w)) act rsv fre" and parts: "parts_ok w (act @ rsv)" and log: "log_ok E w act rsv fre G"
    and h: "alloc_inv E (nobody (common w)) L" and s: "part w p = Some s" and lq: "lock_query_ok E"
    and run: "bg_turn E (view (common w) s) = (Inr (), s')"
  obtains (settled) "p \<in> flushed w" "s' = unlock_shared LRoot (lock_shared LRoot (view (common w) s))"
    | (early) q c g n where "p \<notin> flushed w" "log_busy E w act rsv fre q c g" "G = {#(cleanupLog (rt (common w)), n)#}"
      "drained (view (common w) s) [cleanupLog (rt (common w))] s'" "flushed_to s' = lastSeq w" "c_ack_count c + 1 \<noteq> c_ack_targ c"
    | (last) q c g n s1 where "p \<notin> flushed w" "log_busy E w act rsv fre q c g" "G = {#(cleanupLog (rt (common w)), n)#}"
      "drained (view (common w) s) [cleanupLog (rt (common w))] s1" "flushed_to s1 = lastSeq w" "c_ack_count c + 1 = c_ack_targ c"
      "bg_cleanup s1 = (Inr (), s')"
proof (cases "p \<in> flushed w")
  case True
  from parts s obtain l where l: "flushed_to s = l_flushPoint l" "my_local (view (common w) s) = Some l" by (rule part_local)
  with True s have "l_flushPoint l = cleanupLog_lastSeqNum (rt (view (common w) s))" by (simp add: flushed_def lastSeq_def)
  from bg_turn_nothing [OF l(2) this] run have "s' = unlock_shared LRoot (lock_shared LRoot (view (common w) s))" by auto
  with True show thesis by (rule settled)
next
  case False
  let ?a = "cleanupLog (rt (common w))"
  from core parts log h s False show thesis
  proof (rule behindE)
    fix q c g n l
    assume busy: "log_busy E w act rsv fre q c g" and G: "G = {#(?a, n)#}" and l: "my_local (view (common w) s) = Some l"
      "l_flushPoint l + 1 = lastSeq w" and b: "?a \<noteq> 0" "cleanupLog_tail (rt (common w)) = ?a" "steps (common w) ?a = Some c"
      "c_next c = 0" "c_op c = SC_CLS_RESERVE_MEMORY" "c_seqNum c = lastSeq w" "0 < lastSeq w"
      and ack: "sint (c_ack_count c) < sint (c_ack_targ c)" and va: "c_vaddr c \<noteq> MAP_FAILED"
    obtain s1 where d: "drained (view (common w) s) [?a] s1" and "map_option l_flushPoint (my_local s1) = Some (lastSeq w)"
      and rest: "(if c_ack_count c + 1 = c_ack_targ c then bg_cleanup s1 else (Inr (), s1)) = (Inr (), s')"
      by (rule bg_flush_one [OF _ _ b(1) _ b(4) _ _ _ l(1) lq _ ack b(5) va run]) (use b l(2) in \<open>simp_all add: lastSeq_def\<close>)
    then have fp: "flushed_to s1 = lastSeq w" by (intro drained_flushed [OF parts s])
    from rest show thesis using early [OF False busy G] last [OF False busy G d fp] d fp by (auto split: if_splits)
  qed
qed

lemma do_turn_ok:
  assumes ok: "world_ok E w" and s: "part w p = Some s" and lq: "lock_query_ok E"
    and run: "bg_turn E (view (common w) s) = (Inr (), s')"
  shows "world_ok E (commit p s' w) \<and> cleanupLog_lastSeqNum (rt s') = lastSeq w \<and> same_in (owned w) (mem (common w)) (mem s')"
  using ok
proof (rule world_okE)
  fix act rsv fre ps sz G
  assume o: "region_core E (nobody (common w)) act rsv fre" "parts_ok w (act @ rsv)" and procs: "procs_ok w ps"
    and log: "log_ok E w act rsv fre G" and h: "alloc_inv E (nobody (common w)) (owned w + proc_bufs sz (rt (common w)) ps + G)"
    and f: "region_range (regs (common w)) (active_regions (rt (common w))) = (root_addr (common w), getpagesize E)"
    "root_dest E (rt (common w)) = root_addr (common w)"
  from o log h s lq run show ?thesis
  proof (cases rule: turn_InrD)
    case settled
    from idle_turn_ok [OF ok s settled(2)] show ?thesis by blast
  next
    case (early q c g n)
    from early_turn_ok [OF o procs early(2) h [unfolded early(3)] f s early(1,4-6)] show ?thesis by blast
  next
    case (last q c g n s1)
    from last_turn_ok [OF o procs last(2) h [unfolded last(3)] f s last(1,4-7)] show ?thesis by blast
  qed
qed

lemma without_simps [simp]:
  "common (without p s w) = common_of s" "part (without p s w) = (part w)(p := None)" "owned (without p s w) = owned w"
  by (simp_all add: without_def)

lemma kill_flushed:
  assumes "kill_one l s = (r, s')" "\<And>e. r = Inl e \<Longrightarrow> \<exists>n. e = Exit n"
  shows "l_flushPoint l = cleanupLog_lastSeqNum (rt s)"
proof (rule ccontr)
  assume "l_flushPoint l \<noteq> cleanupLog_lastSeqNum (rt s)"
  with assms show False by (auto simp: kill_one_def Let_def guard_def split: if_splits)
qed

lemma flushed_without:
  assumes "cleanupLog_lastSeqNum (rt s) = lastSeq w" shows "flushed (without p s w) = flushed w - {p}"
  using assms by (auto simp: flushed_def lastSeq_def)

lemma log_without:
  assumes log: "log_ok E w act rsv fre G" and p: "p \<in> flushed w" "finite (dom (part w))"
    and s': "regs s' = regs (common w)" "steps s' = steps (common w)"
      "rt s' = (rt (common w))\<lparr>proc_count := n, proc_list := a\<rparr>"
  shows "log_ok E (without p s' w) act rsv fre G"
proof -
  have ls: "lastSeq (without p s' w) = lastSeq w" by (simp add: lastSeq_def s')
  have fl: "flushed (without p s' w) = flushed w - {p}" by (rule flushed_without) (simp add: s' lastSeq_def)
  have dm: "dom (part (without p s' w)) = dom (part w) - {p}" by auto
  from log consider (idle) "log_idle w" "G = {#}"
    | (busy) q k g n where "log_busy E w act rsv fre q k g" "G = {#(cleanupLog (rt (common w)), n)#}"
    unfolding log_ok_def by blast
  then show ?thesis
  proof cases
    case idle
    then have "log_idle (without p s' w)" using fl dm by (simp add: log_idle_def s')
    with idle show ?thesis by (simp add: log_ok_def)
  next
    case busy
    have sub: "flushed w \<subset> dom (part w)" using busy(1) by (simp add: log_busy_def)
    then have fin: "finite (flushed w)" using p(2) finite_subset by blast
    have "p \<in> dom (part w)" using sub p(1) by blast
    then have c: "card (flushed w) = Suc (card (flushed w - {p}))" "card (dom (part w)) = Suc (card (dom (part w) - {p}))"
      using p fin by (metis card_Suc_Diff1)+
    have "log_busy E (without p s' w) act rsv fre q k (Suc g)"
      unfolding log_busy_def fl dm ls
    proof (intro conjI allI impI)
      show "flushed w - {p} \<subset> dom (part w) - {p}" using sub p(1) by blast
      show "sint (c_ack_count k) = int (card (flushed w - {p}) + Suc g)" "sint (c_ack_targ k) = int (card (dom (part w) - {p}) + Suc g)"
        using busy(1) c by (simp_all add: log_busy_def)
    qed (use busy(1) in \<open>auto simp: log_busy_def s' pending_ok_def split: if_splits\<close>)
    then show ?thesis using busy(2) by (auto simp: log_ok_def s')
  qed
qed

lemma procs_without:
  assumes procs: "procs_ok w (xs @ a # ys)" and s: "part w p = Some s" and wa: "walk_pid (procs (common w)) a = p"
    and fin: "finite (dom (part w))" and pc: "proc_chain s1 (xs @ ys)"
    and wp: "\<forall>x. x \<noteq> a \<longrightarrow> walk_pid (procs s1) x = walk_pid (procs (common w)) x \<and> (x \<in> dom (procs s1) \<longleftrightarrow> x \<in> dom (procs (common w)))"
    and r: "prealloc_proc (rt s1) = prealloc_proc (rt (common w))" "proc_count (rt s1) = proc_count (rt (common w)) - 1"
  shows "procs_ok (without p s1 w) (xs @ ys)"
proof -
  let ?m = "procs (common w)" and ?pre = "prealloc_proc (rt (common w))"
  have dist: "distinct (map (walk_pid ?m) (xs @ a # ys))" and all: "set (map (walk_pid ?m) (xs @ a # ys)) = dom (part w)"
    and cnt: "sint (proc_count (rt (common w))) = int (card (dom (part w)))"
    and pre: "?pre \<noteq> 0 \<longrightarrow> ?pre \<notin> set (xs @ a # ys) \<and> ?pre \<in> dom ?m"
    using procs by (simp_all add: procs_ok_def)
  have an: "a \<notin> set (xs @ ys)" using dist by auto
  then have mw: "map (walk_pid (procs s1)) (xs @ ys) = map (walk_pid ?m) (xs @ ys)" using wp by (intro map_cong) auto
  have pd: "p \<in> dom (part w)" using s by auto
  have c: "card (dom (part w)) = Suc (card (dom (part w) - {p}))" using pd fin by (metis card_Suc_Diff1)
  then have "sint (proc_count (rt s1)) = int (card (dom (part w) - {p}))"
    using sint_pred [of 0 "proc_count (rt (common w))"] cnt r(2) by simp
  moreover have "set (map (walk_pid ?m) (xs @ ys)) = dom (part w) - {p}" using all dist wa by auto
  moreover have "dom (part (without p s1 w)) = dom (part w) - {p}" by auto
  moreover have "distinct (map (walk_pid ?m) (xs @ ys))" using dist by auto
  moreover have "?pre \<noteq> 0 \<longrightarrow> ?pre \<notin> set (xs @ ys) \<and> ?pre \<in> dom (procs s1)" using pre wp by auto
  moreover have "proc_chain (nobody (common (without p s1 w))) (xs @ ys)" using pc by (simp add: shared_views)
  ultimately show ?thesis
    unfolding procs_ok_def without_simps common_of_simps r(1) mw by (intro conjI; simp only:)
qed

lemma do_leave_facts:
  assumes ok: "world_ok E w" and s: "part w p = Some s"
    and run: "sc_killLocalProc (view (common w) s) = (Inl (Exit (- 1)), s')"
  shows "(world_ok E (without p s' w) \<and> cleanupLog_lastSeqNum (rt s') = lastSeq w \<and> same_in (owned w) (mem (common w)) (mem s')) \<and>
     (\<exists>n a. rt s' = (rt (common w))\<lparr>proc_count := n, proc_list := a\<rparr>) \<and> regs s' = regs (common w)"
  using ok
proof (rule world_okE)
  fix act rsv fre ps sz G
  let ?v = "lock_shared LLocalList (view (common w) s)"
  assume core: "region_core E (nobody (common w)) act rsv fre" and parts: "parts_ok w (act @ rsv)" and procs: "procs_ok w ps"
    and log: "log_ok E w act rsv fre G" and h: "alloc_inv E (nobody (common w)) (owned w + proc_bufs sz (rt (common w)) ps + G)"
    and f: "region_range (regs (common w)) (active_regions (rt (common w))) = (root_addr (common w), getpagesize E)"
    "root_dest E (rt (common w)) = root_addr (common w)"
  let ?m = "procs (common w)"
  from parts s obtain l where l: "locals s = [l]" "l_sc l = root_addr (common w)" "flushed_to s = l_flushPoint l" "pid s = p"
    by (rule part_local)
  have k: "call (kill_one l) (\<lambda>_. kill_all []) ?v = (Inl (Exit (- 1)), s')"
    using run l by (simp add: sc_killLocalProc_def)
  obtain r t where kr: "kill_one l ?v = (r, t)" by (cases "kill_one l ?v")
  have "\<exists>n. e = Exit n" if "r = Inl e" for e using k kr that by (auto simp: call_def)
  from kill_flushed [OF kr this] have fp: "l_flushPoint l = cleanupLog_lastSeqNum (rt ?v)" by blast
  then have pf: "p \<in> flushed w" using s l by (simp add: flushed_def lastSeq_def)
  have "p \<in> set (map (walk_pid ?m) ps)" using procs s by (auto simp: procs_ok_def)
  then obtain a where "a \<in> set ps" and wa: "walk_pid ?m a = p" by auto
  then obtain xs ys where ps: "ps = xs @ a # ys" by (auto simp: in_set_conv_decomp)
  have dist: "distinct (map (walk_pid ?m) ps)" and pc: "proc_chain (nobody (common w)) ps"
    and cnt: "sint (proc_count (rt (common w))) = int (card (dom (part w)))" using procs by (simp_all add: procs_ok_def)
  have pc': "proc_chain ?v (xs @ a # ys)" using pc ps by (simp add: proc_chain_def)
  have pb: "proc_bufs sz (rt (common w)) ps = add_mset (a, sz a) (proc_bufs sz (rt (common w)) (xs @ ys))"
    by (simp add: proc_bufs_def ps)
  have "alloc_inv E ?v (add_mset (a, sz a) (owned w + proc_bufs sz (rt (common w)) (xs @ ys) + G))"
    using h pb alloc_inv_rt [of ?v "nobody (common w)"] by simp
  moreover have "\<forall>x \<in> set xs. walk_pid (procs ?v) x \<noteq> pid ?v" using wa dist ps l(4) by (auto simp: image_iff)
  moreover have "walk_pid (procs ?v) a = pid ?v" using wa l(4) by simp
  ultimately obtain s1 where
    s1: "kill_one l ?v = (Inr (), s1)" and pc1: "proc_chain s1 (xs @ ys)" and h1: "alloc_inv E s1 (owned w + proc_bufs sz (rt (common w)) (xs @ ys) + G)"
    and o: "root_addr s1 = root_addr (common w)" "regs s1 = regs (common w)" "steps s1 = steps (common w)"
    and wp: "\<forall>x. x \<noteq> a \<longrightarrow> walk_pid (procs s1) x = walk_pid ?m x \<and> (x \<in> dom (procs s1) \<longleftrightarrow> x \<in> dom ?m)"
    and r1: "rt s1 = (rt (common w))\<lparr>proc_count := proc_count (rt (common w)) - 1, proc_list := proc_list (rt s1)\<rparr>"
    and sm: "same_in (owned w + proc_bufs sz (rt (common w)) (xs @ ys) + G) (mem (common w)) (mem s1)"
    using kill_one_found [OF pc' _ _ fp] by fastforce
  have s': "s' = s1" using k s1 by (simp add: call_def)
  have rf: "active_regions (rt s1) = active_regions (rt (common w))" "active_regionsTail (rt s1) = active_regionsTail (rt (common w))"
    "reserved_regions (rt s1) = reserved_regions (rt (common w))" "free_structs (rt s1) = free_structs (rt (common w))"
    "prealloc_proc (rt s1) = prealloc_proc (rt (common w))" "proc_count (rt s1) = proc_count (rt (common w)) - 1"
    by (subst r1, simp)+
  have fin: "finite (dom (part w))" using parts by (simp add: parts_ok_def)
  have log': "log_ok E (without p s1 w) act rsv fre G" by (rule log_without [OF log pf fin o(2,3) r1])
  have parts': "parts_ok (without p s1 w) (act @ rsv)"
    using parts fin by (auto simp: parts_ok_def o all_mapped_def split: if_splits)
  have "region_core E s1 act rsv fre" using core region_core_cong [of s1 "nobody (common w)"] by (simp add: o rf)
  moreover have "procs_ok (without p s1 w) (xs @ ys)" by (rule procs_without [OF procs [unfolded ps] s wa fin pc1 wp rf(5,6)])
  moreover have "proc_bufs sz (rt s1) (xs @ ys) = proc_bufs sz (rt (common w)) (xs @ ys)" by (simp add: proc_bufs_def rf)
  ultimately have "world_ok E (without p s' w)"
    unfolding world_ok_def s' using log' parts' f h1
    by (intro exI [of _ act] exI [of _ rsv] exI [of _ fre] exI [of _ "xs @ ys"] exI [of _ sz] exI [of _ G])
      (simp add: shared_views o rf root_dest_def)
  moreover have "cleanupLog_lastSeqNum (rt s') = lastSeq w" unfolding s' by (subst r1) (simp add: lastSeq_def)
  moreover have "same_in (owned w) (mem (common w)) (mem s')" unfolding s' by (rule same_in_mono [OF sm]) simp
  moreover have "\<exists>n a. rt s' = (rt (common w))\<lparr>proc_count := n, proc_list := a\<rparr>" "regs s' = regs (common w)"
    using r1 o by (auto simp: s')
  ultimately show ?thesis by blast
qed

lemma do_leave_ok:
  assumes "world_ok E w" "part w p = Some s" "sc_killLocalProc (view (common w) s) = (Inl (Exit (- 1)), s')"
  shows "world_ok E (without p s' w) \<and> cleanupLog_lastSeqNum (rt s') = lastSeq w \<and> same_in (owned w) (mem (common w)) (mem s')"
  by (rule conjunct1 [OF do_leave_facts [OF assms]])

lemma remapped_I:
  "remapped s s" "remapped s t \<Longrightarrow> remapped s (log_lock e t)"
  "remapped s t \<Longrightarrow> (\<And>x. vmap t x \<noteq> None \<Longrightarrow> vm x \<noteq> None) \<Longrightarrow> remapped s (t\<lparr>vmap := vm\<rparr>)"
  by (cases s; cases t; simp add: remapped_def log_lock_def)+

lemma remapped_trans: "remapped s t \<Longrightarrow> remapped t u \<Longrightarrow> remapped s u"
  by (cases s; cases t; cases u; simp add: remapped_def)

lemma remapped_frame:
  assumes "remapped s s'"
  shows "rt s' = rt s" "regs s' = regs s" "procs s' = procs s" "steps s' = steps s" "mem s' = mem s" "freeList s' = freeList s"
    "root_addr s' = root_addr s" "pid s' = pid s" "locals s' = locals s"
  using assms by (cases s; cases s'; simp add: remapped_def)+

lemma remapped_mmap: "sys_mmap E q s = (r, s') \<Longrightarrow> remapped s s'"
  by (auto simp: sys_mmap_def Let_def vm_map_def split: if_splits intro!: remapped_I)

lemma join_root_maps:
  assumes run: "join_root E B fd s = (True, s')" and K: "kernel_ok E" and d: "root_dest E (rt s) \<noteq> MAP_FAILED"
  shows "\<exists>vm tr. s' = s\<lparr>vmap := vm, lk := tr\<rparr> \<and>
     (\<forall>x. in_block x (root_dest E (rt s), getpagesize E) \<longrightarrow> vm x = Some (root_page fd (root_dest E (rt s)) x))"
proof -
  let ?dest = "root_dest E (rt s)" and ?tmp = "os_mmap E (vmap s) (root_req E 0 fd)"
  from run have g: "root_granted E fd (vmap s) ?dest"
    using d by (auto simp: join_root_def root_granted_def Let_def sys_mmap_def lookupScLocal_eq split: if_splits)
  from run have "\<forall>l \<in> set (locals s). l_sc l \<noteq> ?dest" "malloc_ok B" "magic (rt s) = SUBCONTEXTS_ROOT_MAGIC"
    by (auto simp: join_root_def Let_def sys_mmap_def lookupScLocal_eq find_None_iff split: if_splits)
  from join_root_ok [OF this(2,3) g this(1)] run have
    "s' = s\<lparr>vmap := root_vm E fd (vmap s) ?dest, lk := lk s @ [LkShared LRoot, LkShared LLocalList, UnShared LLocalList]\<rparr>" by simp
  with root_vm_page [OF K g] show ?thesis by auto
qed

lemma join_req_simps [simp]: "q_len (join_req fd i r) = r_len r" "q_flags (join_req fd i r) AND MAP_FIXED = 0"
  by (simp_all add: join_req_def anon_req_def mman_defs)

lemma joined_mapped: "joined fd i m ps vm \<Longrightarrow> p \<in> set ps \<Longrightarrow> in_block x (region_range m p) \<Longrightarrow> m p \<noteq> None \<Longrightarrow> vm x \<noteq> None"
  unfolding joined_def by (auto simp: vm_map_def region_range_def split: if_splits)

lemma join_walk_maps:
  assumes K: "kernel_ok E"
  shows "chain (region_next (regs s)) cur ps 0 \<Longrightarrow> set ps \<subseteq> dom (regs s) \<Longrightarrow> join_walk E fd i cur s = Some (Inr True, s') \<Longrightarrow>
     remapped s s' \<and> extends (vmap s) (vmap s') \<and> joined fd i (regs s) ps (vmap s')"
proof (induction ps arbitrary: cur s)
  case Nil
  then show ?case by (subst (asm) join_walk.simps) (auto simp: joined_def extends_def remapped_I)
next
  case (Cons p ps)
  from Cons.prems obtain r where r: "regs s p = Some r" and p: "cur = p" "p \<noteq> 0"
    and ch: "chain (region_next (regs s)) (r_next r) ps 0" by (auto simp: region_next_at)
  let ?q = "join_req fd i r"
  obtain m s1 where mm: "sys_mmap E ?q s = (m, s1)" by (cases "sys_mmap E ?q s")
  define s2 where "s2 = unlock_shared (LRegion p) (if r_next r \<noteq> 0 then lock_shared (LRegion (r_next r)) s1 else s1)"
  from Cons.prems(3) r p mm have go: "join_walk E fd i (r_next r) s2 = Some (Inr True, s')" and m: "m = r_vaddr r" "m \<noteq> MAP_FAILED"
    by (subst (asm) join_walk.simps; auto simp: guard_def s2_def Let_def split: option.splits if_splits)+
  have rm: "remapped s s2" unfolding s2_def using remapped_mmap [OF mm] by (auto intro!: remapped_I)
  have vm: "vmap s2 = vm_map (vmap s) (r_vaddr r) ?q" and om: "os_mmap E (vmap s) ?q = r_vaddr r"
    using mm m by (auto simp: sys_mmap_def Let_def s2_def split: if_splits)
  have ext: "extends (vmap s) (vmap s2)" using extends_mmap [OF K, of "vmap s" ?q] m by (simp add: vm om)
  note fr = remapped_frame [OF rm]
  from Cons.IH [OF _ _ go] ch Cons.prems(2) fr
  have IH: "remapped s2 s'" "extends (vmap s2) (vmap s')" "joined fd i (regs s) ps (vmap s')" by auto
  have "vmap s' x = vm_map (vmap s') (r_vaddr r) ?q x" if "in_block x (region_range (regs s) p)" for x
  proof -
    have "vmap s2 x = vm_map (vmap s') (r_vaddr r) ?q x" "vmap s2 x \<noteq> None" using that r by (simp_all add: vm vm_map_def region_range_def)
    with IH(2) show ?thesis by (simp add: extends_def)
  qed
  then have "joined fd i (regs s) (p # ps) (vmap s')" using IH(3) r by (simp add: joined_def)
  with remapped_trans [OF rm IH(1)] extends_trans [OF ext IH(2)] show ?case by blast
qed

lemma join_maps_all:
  assumes K: "kernel_ok E" and core: "region_core E s act rsv fre" and run: "join_maps E fd s = (Inr True, s')"
    and first: "\<And>x. in_block x (region_range (regs s) (active_regions (rt s))) \<Longrightarrow> vmap s x \<noteq> None"
  shows "remapped s s' \<and> extends (vmap s) (vmap s') \<and> all_mapped s (act @ rsv) (vmap s') \<and>
     joined fd 0 (regs s) (tl act) (vmap s') \<and> joined fd 1 (regs s) rsv (vmap s')"
proof -
  from core have lists: "region_lists s act rsv fre" by (simp add: region_core_def)
  then obtain a as where act: "act = a # as" "active_regions (rt s) = a" by (cases act) (auto simp: region_lists_def)
  with lists obtain r where r: "regs s a = Some r" and ch: "chain (region_next (regs s)) (r_next r) as 0" "set as \<subseteq> dom (regs s)"
    by (auto simp: region_lists_def region_next_at)
  have rv: "chain (region_next (regs s)) (reserved_regions (rt s)) rsv 0" "set rsv \<subseteq> dom (regs s)" using lists by (auto simp: region_lists_def)
  define s1 where "s1 = unlock_shared LRoot (unlock_shared (LRegion a) (lock_shared (LRegion (reserved_regions (rt s)))
    (lock_shared (LRegion (r_next r)) (lock_shared (LRegion a) s))))"
  from run r act obtain s2 where
    w0: "join_walk E fd 0 (r_next r) s1 = Some (Inr True, s2)" and w1: "join_walk E fd 1 (reserved_regions (rt s)) s2 = Some (Inr True, s')"
    by (auto simp: join_maps_def Let_def deref_def guard_def loops_def s1_def split: option.splits sum.splits bool.splits if_splits)
  have s1: "remapped s s1" by (simp add: s1_def remapped_I)
  note f1 = remapped_frame [OF s1]
  have m0: "remapped s1 s2" "extends (vmap s1) (vmap s2)" "joined fd 0 (regs s) as (vmap s2)"
    using join_walk_maps [OF K _ _ w0] ch f1 by auto
  note f2 = remapped_frame [OF m0(1)]
  have m1: "remapped s2 s'" "extends (vmap s2) (vmap s')" "joined fd 1 (regs s) rsv (vmap s')"
    using join_walk_maps [OF K _ _ w1] rv f1 f2 by auto
  have v1: "vmap s1 = vmap s" by (simp add: s1_def)
  have j0: "joined fd 0 (regs s) as (vmap s')"
    unfolding joined_def
  proof (intro ballI allI impI)
    fix p x assume px: "p \<in> set as" "in_block x (region_range (regs s) p)"
    then have "vmap s2 x = vm_map (vmap s2) (r_vaddr (the (regs s p))) (join_req fd 0 (the (regs s p))) x"
      using m0(3) unfolding joined_def by blast
    moreover have "vmap s2 x \<noteq> None" using joined_mapped [OF m0(3) px] px(1) ch(2) by auto
    moreover have "in_block x (r_vaddr (the (regs s p)), r_len (the (regs s p)))" using px ch(2) by (auto simp: region_range_def)
    ultimately show "vmap s' x = vm_map (vmap s') (r_vaddr (the (regs s p))) (join_req fd 0 (the (regs s p))) x"
      using m1(2) by (simp add: extends_def vm_map_def)
  qed
  have "all_mapped s (act @ rsv) (vmap s')"
    unfolding all_mapped_def
  proof (intro ballI allI impI)
    fix p x assume p: "p \<in> set (act @ rsv)" and x: "in_block x (region_range (regs s) p)"
    then consider "p = a" | "p \<in> set as" | "p \<in> set rsv" using act by auto
    then show "vmap s' x \<noteq> None"
    proof cases
      case 1
      with first x act have "vmap s1 x \<noteq> None" by (simp add: v1)
      with m0(1) m1(1) show ?thesis by (simp add: remapped_def)
    next
      case 2
      with joined_mapped [OF j0 _ x] ch(2) show ?thesis by auto
    next
      case 3
      with joined_mapped [OF m1(3) _ x] rv(2) show ?thesis by auto
    qed
  qed
  moreover have "extends (vmap s) (vmap s')" using extends_trans [OF m0(2) m1(2)] by (simp add: v1)
  ultimately show ?thesis using remapped_trans [OF s1 remapped_trans [OF m0(1) m1(1)]] j0 m1(3) act by simp
qed

text \<open>What the walks have mapped stands for the right pages of the file.\<close>

lemma joined_sees:
  assumes core: "region_core E s act rsv fre" and j: "joined fd 0 (regs s) (tl act) vm" "joined fd 1 (regs s) rsv vm"
    and sl: "sealed (regs s) rsv" and first: "region_range (regs s) (active_regions (rt s)) = (dest, n)"
    and off: "r_tmpfile_offset (the (regs s (active_regions (rt s)))) = 0"
    and page: "\<And>x. in_block x (dest, n) \<Longrightarrow> vm x = Some (root_page fd dest x)"
  shows "sees fd (regs s) act rsv vm"
  unfolding sees_def
proof (intro conjI ballI allI impI)
  from core have lists: "region_lists s act rsv fre" by (simp add: region_core_def)
  then obtain a as where act: "act = a # as" "active_regions (rt s) = a" by (cases act) (auto simp: region_lists_def)
  have dm: "set (act @ rsv) \<subseteq> dom (regs s)" using lists by (simp add: region_lists_def)
  {
    fix p x assume p: "p \<in> set act" and x: "in_block x (region_range (regs s) p)"
    from p dm obtain r where r: "regs s p = Some r" by auto
    show "stands_for fd (the (regs s p)) x (vm x)"
    proof (cases "p = a")
      case True
      then have "vm x = Some (root_page fd dest x)" "r_vaddr r = dest" "r_tmpfile_offset r = 0"
        using page x first off act r by (auto simp: region_range_def)
      then show ?thesis by (simp add: stands_for_def root_page_def r)
    next
      case False
      with p act have "p \<in> set (tl act)" by simp
      then have "vm x = vm_map vm (r_vaddr r) (join_req fd 0 r) x" using j(1) x r unfolding joined_def by fastforce
      then show ?thesis using x r
        by (auto simp: stands_for_def vm_map_def region_range_def join_req_def anon_req_def mman_defs split: if_splits)
    qed
  }
  fix p x assume p: "p \<in> set rsv" and x: "in_block x (region_range (regs s) p)"
  from p dm obtain r where r: "regs s p = Some r" by auto
  have "vm x = vm_map vm (r_vaddr r) (join_req fd 1 r) x" using j(2) p x r unfolding joined_def by fastforce
  moreover have "r_prot r = 0" using sl p r by (auto simp: sealed_def)
  ultimately show "inert (vm x)" using x r by (auto simp: inert_def vm_map_def region_range_def join_req_def anon_req_def mman_defs)
qed

lemma handlers_remap: "sc_init_register_signal_handlers E B s = (0, s') \<Longrightarrow> remapped s s'"
  by (auto simp: sc_init_register_signal_handlers_def Let_def split: prod.splits if_splits dest: remapped_mmap)

lemma thread_remap: "scInit_setup_backgroundThread E B s = (Inr (0, tid), s') \<Longrightarrow> remapped s s'"
  by (auto simp: scInit_setup_backgroundThread_def Let_def guard_def split: prod.splits if_splits option.splits
      dest!: remapped_mmap intro: remapped_trans)

lemma handlers_extend:
  assumes K: "kernel_ok E" and run: "sc_init_register_signal_handlers E B s = (0, s')"
  shows "extends (vmap s) (vmap s')"
proof -
  let ?q = "anon_req 0 (1024 * 1024) (PROT_READ OR PROT_WRITE) MAP_NORESERVE"
  have "os_mmap E (vmap s) ?q \<noteq> MAP_FAILED" "vmap s' = vm_map (vmap s) (os_mmap E (vmap s) ?q) ?q"
    using run by (auto simp: sc_init_register_signal_handlers_def sys_mmap_def Let_def split: if_splits)
  with extends_mmap [OF K, of "vmap s" ?q] show ?thesis by (simp add: anon_req_def mman_defs)
qed

lemma thread_extend:
  assumes K: "kernel_ok E" "unat (getpagesize E) \<le> 2 ^ 20" and run: "scInit_setup_backgroundThread E B s = (Inr (0, tid), s')"
  shows "extends (vmap s) (vmap s')"
proof -
  have t: "thread_ok E B (vmap s)" "vmap s' = thread_vm E (vmap s)"
    using run by (auto simp: scInit_setup_backgroundThread_def thread_ok_def thread_vm_def sys_mmap_def Let_def guard_def
        split: prod.splits if_splits option.splits)
  show ?thesis unfolding t(2) by (rule thread_vm_extends [OF K t(1)])
qed

lemma live_distinct:
  assumes "alloc_inv E s (add_mset b L)" "c \<in># L" shows "fst b \<noteq> fst c"
proof -
  from assms(1) obtain ns live R where inv: "malloc_inv E s ns live R" and L: "add_mset b L = image_mset payload live" by (auto simp: alloc_inv_def)
  from msed_map_invR [OF L [symmetric]] obtain b' M where b: "live = add_mset b' M" "payload b' = b" "image_mset payload M = L" by blast
  with assms(2) obtain c' where c: "c' \<in># M" "c = payload c'" by auto
  have "heap_wf (mem s) (freeList s) ns (add_mset b' M)" using inv b by (simp add: malloc_inv_def)
  from heap_wf_live(1,5) [OF this] c(1) have "block_ok b'" "apart c' b'" by auto
  moreover have "block_ok c'" using inv b c by (auto simp: malloc_inv_def heap_wf_def)
  ultimately have "fst b' \<noteq> fst c'" by (auto simp: block_ok_def apart_def)
  then show ?thesis using b(2) c(2) by (auto simp: payload_def)
qed

text \<open>The last part of \<^verbatim>\<open>sc_join\<close>: the next process struct is in a heap buffer of its own.\<close>

lemma join_finish_InrD:
  assumes run: "join_finish E B fd root fp s = (Inr r, s')" and r: "r \<noteq> 0" and core: "region_core E s act rsv fre" and h: "alloc_inv E s L"
    and K: "kernel_ok E"
  obtains n t k l where "sc_malloc E (sizeof_sc_process E) s = (Inr n, t)" "n \<noteq> 0" "r = root" "keeps s t" "alloc_inv E s' (add_mset (n, k) L)"
    "procs s' = (procs t)(n \<mapsto> \<lparr>p_next = 0, p_state = SUBCONTEXTS_PROC_STATE_PREALLOC, p_pid = 0\<rparr>)"
    "rt s' = (rt t)\<lparr>prealloc_proc := n\<rparr>" "locals s' = l # locals s" "l_sc l = root" "l_flushPoint l = fp"
    "\<And>x. vmap s x \<noteq> None \<Longrightarrow> vmap s' x \<noteq> None" "regs s' = regs t" "steps s' = steps s" "root_addr s' = root_addr s" "pid s' = pid s" "same_in L (mem s) (mem s')"
    "l_shm_file l = fd" "unat (getpagesize E) \<le> 2 ^ 20 \<Longrightarrow> extends (vmap s) (vmap s')"
proof -
  from run [unfolded join_finish_def] obtain rc s1 where pe: "scInit_setup_procListEntry E s = (Inr rc, s1)"
    and r1: "(if rc \<noteq> 0 then (Inr 0, s1) else call (scInit_setup_backgroundThread E B) (\<lambda>(rc, tid) s.
              if rc \<noteq> 0 then (Inr 0, s)
              else
                let s = lock_exclusive LLocalList s;
                    s = s\<lparr>locals := \<lparr>l_sc = root, l_shm_file = fd, l_flushPoint = fp,
                          l_tid = tid, l_recent_vaddr = 0, l_recent_len = 0\<rparr> # locals s\<rparr>;
                    s = unlock_exclusive LLocalList s
                in (Inr root, s)) s1) = (Inr r, s')" by (auto elim: call_InrE)
  from pe obtain n t where m: "sc_malloc E (sizeof_sc_process E) s = (Inr n, t)" and n: "n \<noteq> 0" and p0: "prealloc_proc (rt t) = 0"
    unfolding scInit_setup_procListEntry_def by (auto elim!: call_InrE simp: Let_def guard_def split: if_splits option.splits)
  from procListEntry_eq [OF m n p0] pe have rc: "rc = 0"
    and s1: "s1 = unlock_exclusive LRoot (upd_rt (\<lambda>c. c\<lparr>prealloc_proc := n\<rparr>) (lock_exclusive LRoot
     (put_proc n \<lparr>p_next = 0, p_state = SUBCONTEXTS_PROC_STATE_PREALLOC, p_pid = 0\<rparr> (lock_init (LProc n) t))))" by auto
  from r1 rc r obtain tid s2 where bt: "scInit_setup_backgroundThread E B s1 = (Inr (0, tid), s2)" and root: "r = root"
    and s': "s' = unlock_exclusive LLocalList ((lock_exclusive LLocalList s2)\<lparr>locals := \<lparr>l_sc = root, l_shm_file = fd, l_flushPoint = fp,
                          l_tid = tid, l_recent_vaddr = 0, l_recent_len = 0\<rparr> # locals s2\<rparr>)"
    by (auto elim!: call_InrE simp: Let_def split: if_splits)
  note k = sc_malloc_keeps [OF m]
  note rm = thread_remap [OF bt] and fr = remapped_frame [OF thread_remap [OF bt]]
  have a: "alloc_inv E t (add_mset (n, usable t n) L)" using sc_heap.alloc_ok [OF h m n] by auto
  have "alloc_inv E s' (add_mset (n, usable t n) L)" using a alloc_inv_rt [of s' t] by (simp add: s' fr s1)
  moreover have "vmap s' x \<noteq> None" if "vmap s x \<noteq> None" for x
  proof -
    have "vmap s1 x \<noteq> None" using that k by (simp add: s1 keeps_def put_proc_def)
    with rm show ?thesis by (simp add: remapped_def s')
  qed
  moreover have "same_in L (mem s) (mem s')" using sc_heap.alloc_frame [OF h m] by (simp add: same_in_def s' fr s1)
  moreover have "extends (vmap s) (vmap s')" if "unat (getpagesize E) \<le> 2 ^ 20"
    using thread_extend [OF K that bt] k by (simp add: s' s1 keeps_def put_proc_def)
  ultimately show thesis
    using m n root k
    by (intro that [of n t "usable t n" "\<lparr>l_sc = root, l_shm_file = fd, l_flushPoint = fp, l_tid = tid, l_recent_vaddr = 0, l_recent_len = 0\<rparr>"])
      (simp_all add: s' fr s1 keeps_def put_proc_def)
qed

lemma sc_join_InrD:
  assumes run: "sc_join E B fd s = (Inr r, s')" and r: "r \<noteq> 0" and K: "kernel_ok E"
    and core: "region_core E s act rsv fre" and pre: "prealloc_proc (rt s) \<noteq> 0 \<Longrightarrow> prealloc_proc (rt s) \<in> dom (procs s)"
    and d: "root_dest E (rt s) \<noteq> MAP_FAILED"
    and first: "region_range (regs s) (active_regions (rt s)) = (root_dest E (rt s), getpagesize E)"
  obtains pr t where "prealloc_proc (rt s) \<noteq> 0" "listed s (prealloc_proc (rt s)) pr t" "pending_reservation (rt s) = 0"
    "all_mapped s (act @ rsv) (vmap t)" "join_finish E B fd (root_dest E (rt s)) (cleanupLog_lastSeqNum (rt s)) t = (Inr r, s')"
    "sealed (regs s) rsv \<Longrightarrow> r_tmpfile_offset (the (regs s (active_regions (rt s)))) = 0 \<Longrightarrow> sees fd (regs s) act rsv (vmap t)"
proof -
  let ?my = "prealloc_proc (rt s)"
  from run r obtain s1 where s1: "join_root E B fd s = (True, s1)" by (auto simp: sc_join_def split: prod.splits if_splits)
  from join_root_maps [OF s1 K d] obtain vm tr where e1: "s1 = s\<lparr>vmap := vm, lk := tr\<rparr>"
    and page: "\<And>x. in_block x (root_dest E (rt s), getpagesize E) \<Longrightarrow> vm x = Some (root_page fd (root_dest E (rt s)) x)" by blast
  have my: "?my \<noteq> 0"
  proof
    assume "?my = 0"
    then have "fst (join_take_proc s1) = 0" by (simp add: join_take_proc_def Let_def e1)
    with run r s1 show False by (auto simp: sc_join_def split: prod.splits if_splits)
  qed
  define s2 where "s2 = s1\<lparr>rt := (rt s1)\<lparr>prealloc_proc := 0\<rparr>, lk := lk s1 @ [UnShared LRoot, LkExcl LRoot, Downgrade LRoot]\<rparr>"
  have t2: "join_take_proc s1 = (?my, s2)" using join_take_proc_ok [of s1] my by (simp add: e1 s2_def)
  from run s1 t2 my r obtain s3 fp s4 s5 where maps: "join_maps E fd s2 = (Inr True, s3)" and rec: "join_record ?my s3 = (Inr fp, s4)"
    and sig: "sc_init_register_signal_handlers E B s4 = (0, s5)" and fin: "join_finish E B fd (root_dest E (rt s)) fp s5 = (Inr r, s')"
    by (auto simp: sc_join_def Let_def e1 elim!: call_InrE split: prod.splits if_splits)
  have core2: "region_core E s2 act rsv fre" using core region_core_cong [of s2 s] by (simp add: s2_def e1)
  have f2: "vmap s2 x \<noteq> None" if "in_block x (region_range (regs s2) (active_regions (rt s2)))" for x
    using that page first by (simp add: s2_def e1)
  from join_maps_all [OF K core2 maps f2] have m: "remapped s2 s3" "all_mapped s2 (act @ rsv) (vmap s3)"
    and jo: "extends (vmap s2) (vmap s3)" "joined fd 0 (regs s2) (tl act) (vmap s3)" "joined fd 1 (regs s2) rsv (vmap s3)" by auto
  note f3 = remapped_frame [OF m(1)]
  from pre my obtain pr where pr: "procs s ?my = Some pr" by auto
  then have p3: "procs s3 ?my = Some pr" using f3 by (simp add: s2_def e1)
  have pend: "pending_reservation (rt s3) = 0" using rec p3 by (auto simp: join_record_def Let_def split: if_splits)
  let ?pr = "pr\<lparr>p_state := SUBCONTEXTS_PROC_STATE_ALIVE, p_pid := pid s3, p_next := proc_list (rt s3)\<rparr>"
  from join_record_ok [OF p3 pend] rec have fp: "fp = cleanupLog_lastSeqNum (rt s3)"
    and e4: "s4 = s3\<lparr>procs := (procs s3)(?my \<mapsto> ?pr),
       rt := (rt s3)\<lparr>proc_count := proc_count (rt s3) + 1, proc_list := ?my\<rparr>, lk := lk s3 @ [LkExcl LRoot, UnExcl LRoot]\<rparr>" by simp_all
  note m5 = handlers_remap [OF sig] and f5 = remapped_frame [OF handlers_remap [OF sig]]
  have "listed s ?my ?pr s5" by (simp add: listed_def f5 e4 f3 s2_def e1)
  moreover have "all_mapped s (act @ rsv) (vmap s5)"
  proof -
    have "all_mapped s (act @ rsv) (vmap s3)" using m(2) by (simp add: all_mapped_def s2_def e1)
    then show ?thesis using m5 by (auto simp: all_mapped_def remapped_def e4)
  qed
  moreover have "pending_reservation (rt s) = 0" "fp = cleanupLog_lastSeqNum (rt s)" using pend fp f3 by (simp_all add: s2_def e1)
  moreover have "sees fd (regs s) act rsv (vmap s5)"
    if sl: "sealed (regs s) rsv" "r_tmpfile_offset (the (regs s (active_regions (rt s)))) = 0"
  proof -
    have "sees fd (regs s2) act rsv (vmap s3)"
    proof (rule joined_sees [OF core2 jo(2,3)])
      show "vmap s3 x = Some (root_page fd (root_dest E (rt s)) x)" if "in_block x (root_dest E (rt s), getpagesize E)" for x
        using page [OF that] jo(1) by (simp add: s2_def e1 extends_def)
    qed (use sl first in \<open>simp_all add: s2_def e1\<close>)
    moreover have "extends (vmap s3) (vmap s5)" using handlers_extend [OF K sig] by (simp add: e4)
    ultimately show ?thesis using sees_extends by (simp add: s2_def e1)
  qed
  ultimately show thesis using my fin by (intro that [of ?pr s5]) auto
qed

lemma procs_joined:
  assumes procs: "procs_ok w ps" and new: "part w p = None" and my: "my = prealloc_proc (rt (common w))" "my \<noteq> 0"
    and fin: "finite (dom (part w))" and lim: "card (dom (part w)) + 1 < 2 ^ 31"
    and pr: "p_pid pr = p" "p_next pr = proc_list (rt (common w))"
    and n: "n \<noteq> 0" "n \<notin> set (my # ps)" and s': "procs s' = (procs (common w))(my \<mapsto> pr, n \<mapsto> x)" "proc_list (rt s') = my"
      "proc_count (rt s') = proc_count (rt (common w)) + 1" "prealloc_proc (rt s') = n"
  shows "procs_ok (commit p s' w) (my # ps)"
proof -
  let ?m = "procs (common w)"
  have pc: "proc_chain (nobody (common w)) ps" and dist: "distinct (map (walk_pid ?m) ps)" and all: "set (map (walk_pid ?m) ps) = dom (part w)"
    and cnt: "sint (proc_count (rt (common w))) = int (card (dom (part w)))" and mn: "my \<notin> set ps"
    using procs my by (simp_all add: procs_ok_def)
  have w: "walk_pid (procs s') y = walk_pid ?m y" "proc_next (procs s') y = proc_next ?m y" if "y \<in> set ps" for y
    using that mn n by (auto simp: s' walk_pid_upd proc_next_def)
  have wm: "walk_pid (procs s') my = p" "proc_next (procs s') my = proc_list (rt (common w))"
    using n pr by (auto simp: s' walk_pid_upd proc_next_def)
  have "chain (proc_next (procs s')) (proc_list (rt (common w))) ps 0"
    using pc w(2) chain_cong [of ps "proc_next (procs s')" "proc_next ?m"] by (simp add: proc_chain_def)
  then have "proc_chain s' (my # ps)" using pc my wm by (auto simp: proc_chain_def s')
  moreover have mw: "map (walk_pid (procs s')) ps = map (walk_pid ?m) ps" using w(1) by simp
  have pn: "p \<notin> dom (part w)" using new by auto
  have "distinct (map (walk_pid (procs s')) (my # ps))" "set (map (walk_pid (procs s')) (my # ps)) = insert p (dom (part w))"
    using dist all pn by (simp_all add: wm mw)
  moreover have "sint (proc_count (rt s')) = int (card (insert p (dom (part w))))"
    using sint_add32 [of "proc_count (rt (common w))" 1] cnt lim fin pn by (simp add: s')
  moreover have "n \<in> dom (procs s')" by (simp add: s')
  ultimately show ?thesis using n s' by (simp add: procs_ok_def shared_views)
qed

lemma idle_joined:
  assumes idle: "log_idle w" and new: "part w p = None" and s': "flushed_to s' = lastSeq w" "pending_reservation (rt s') = 0" "cleanupLog (rt s') = 0"
    "cleanupLog_tail (rt s') = 0" "cleanupLog_lastSeqNum (rt s') = lastSeq w"
  shows "log_idle (commit p s' w)"
proof -
  have "flushed (commit p s' w) = insert p (flushed w)" using s' new by (auto simp: flushed_def)
  with idle s' show ?thesis by (simp add: log_idle_def)
qed

lemma parts_joined:
  assumes ok: "parts_ok w rs" and new: "part w p = None" and s': "map l_sc (locals s') = [root_addr (common w)]" "pid s' = p"
      "root_addr s' = root_addr (common w)"
    and cov: "covers (nobody (common w)) rs s' rs'" and mp: "all_mapped s' rs' (vmap s')"
  shows "parts_ok (commit p s' w) rs'"
proof -
  have "all_mapped (nobody (common_of s')) rs' (vmap t)" if "part w q = Some t" for q t
  proof -
    have "all_mapped (nobody (common w)) rs (vmap t)" using ok that by (rule part_local)
    from all_mapped_covers [OF cov this] show ?thesis by (simp add: shared_views)
  qed
  with ok s' mp show ?thesis by (auto simp: parts_ok_def shared_views)
qed

lemma do_join_facts:
  assumes ok: "world_ok E w" and new: "part w p = None" and K: "kernel_ok E" and s: "pid s = p" "locals s = []"
    and lim: "card (dom (part w)) + 1 < 2 ^ 31"
    and run: "sc_join E B fd (view (common w) s) = (Inr r, s')" and r: "r \<noteq> 0"
  shows "(world_ok E (commit p s' w) \<and> cleanupLog_lastSeqNum (rt s') = lastSeq w \<and> same_in (owned w) (mem (common w)) (mem s')) \<and>
     (\<exists>act rsv fre act' rsv' fre'. region_core E (nobody (common w)) act rsv fre \<and> region_core E s' act' rsv' fre' \<and>
        grown (regs (common w)) act rsv (regs s') act' rsv' \<and> pending_reservation (rt (common w)) = 0 \<and> pending_reservation (rt s') = 0 \<and>
        active_regions (rt s') = active_regions (rt (common w)) \<and>
        (file_grows E \<longrightarrow> laid (nobody (common w)) act \<longrightarrow> laid s' act') \<and>
        (unat (getpagesize E) \<le> 2 ^ 20 \<longrightarrow> sealed (regs (common w)) rsv \<longrightarrow>
           r_tmpfile_offset (the (regs (common w) (active_regions (rt (common w))))) = 0 \<longrightarrow>
           sees (l_shm_file (hd (locals s'))) (regs s') act' rsv' (vmap s')))"
  using ok
proof (rule world_okE)
  fix act rsv fre ps sz G
  let ?v = "view (common w) s" and ?my = "prealloc_proc (rt (common w))"
  assume core: "region_core E (nobody (common w)) act rsv fre" and parts: "parts_ok w (act @ rsv)" and procs: "procs_ok w ps"
    and log: "log_ok E w act rsv fre G" and h: "alloc_inv E (nobody (common w)) (owned w + proc_bufs sz (rt (common w)) ps + G)"
    and f: "region_range (regs (common w)) (active_regions (rt (common w))) = (root_addr (common w), getpagesize E)"
    "root_dest E (rt (common w)) = root_addr (common w)"
  have fin: "finite (dom (part w))" using parts by (simp add: parts_ok_def)
  have pg: "page_ok E" using h core by (simp add: alloc_inv_core)
  have fa: "active_regions (rt (common w)) \<in> set act" using first_active [OF core] by simp
  then have "active_regions (rt (common w)) \<in> dom (regs (common w))" "range_ok E (the (regs (common w) (active_regions (rt (common w)))))"
    using core by (auto simp: region_core_def region_lists_def list_all_iff)
  then obtain a where a: "regs (common w) (active_regions (rt (common w))) = Some a" "range_ok E a" by auto
  have d: "root_dest E (rt (common w)) \<noteq> MAP_FAILED" using range_not_failed [OF pg a(2)] f a by (simp add: region_range_def)
  have cv: "region_core E ?v act rsv fre" using core by (simp add: shared_views)
  obtain pr t where my: "?my \<noteq> 0" and li: "listed ?v ?my pr t" and pend: "pending_reservation (rt (common w)) = 0"
    and mp: "all_mapped ?v (act @ rsv) (vmap t)"
    and fj: "join_finish E B fd (root_addr (common w)) (lastSeq w) t = (Inr r, s')"
    and se: "sealed (regs (common w)) rsv \<Longrightarrow> r_tmpfile_offset (the (regs (common w) (active_regions (rt (common w))))) = 0 \<Longrightarrow>
       sees fd (regs (common w)) act rsv (vmap t)"
    by (rule sc_join_InrD [OF run r K cv]) (use procs d f in \<open>auto simp: procs_ok_def lastSeq_def\<close>)
  from log_pending [OF log pend] have idle: "log_idle w" and G: "G = {#}" by simp_all
  have ct: "region_core E t act rsv fre" using core region_core_cong [of t "nobody (common w)"] li by (simp add: listed_def)
  let ?L = "owned w + proc_bufs sz (rt (common w)) ps"
  have ht: "alloc_inv E t ?L" using h G alloc_inv_rt [of t "nobody (common w)"] li by (simp add: listed_def)
  obtain n u k l where mal: "sc_malloc E (sizeof_sc_process E) t = (Inr n, u)" and n0: "n \<noteq> 0" and ku: "keeps t u" and h': "alloc_inv E s' (add_mset (n, k) ?L)"
    and s': "procs s' = (procs u)(n \<mapsto> \<lparr>p_next = 0, p_state = SUBCONTEXTS_PROC_STATE_PREALLOC, p_pid = 0\<rparr>)"
    "rt s' = (rt u)\<lparr>prealloc_proc := n\<rparr>" "locals s' = l # locals t" "l_sc l = root_addr (common w)" "l_flushPoint l = lastSeq w"
    "regs s' = regs u" "steps s' = steps t" "root_addr s' = root_addr t" "pid s' = pid t"
    and mono: "\<And>x. vmap t x \<noteq> None \<Longrightarrow> vmap s' x \<noteq> None" and sm: "same_in ?L (mem t) (mem s')"
    and lf: "l_shm_file l = fd" and ext: "unat (getpagesize E) \<le> 2 ^ 20 \<Longrightarrow> extends (vmap t) (vmap s')"
    by (rule join_finish_InrD [OF fj r ct ht K]) blast
  from sc_malloc_move [OF ct mal] obtain act' rsv' fre' where cu: "region_core E u act' rsv' fre'"
    and mv: "regions_move E t act rsv fre u act' rsv' fre'" by blast
  have core': "region_core E s' act' rsv' fre'" using cu region_core_cong [of s' u] by (simp add: s')
  note ur = keeps_rt [OF ku]
  have cov: "covers (nobody (common w)) (act @ rsv) s' (act' @ rsv')"
    using covers_move [OF mv] li by (simp add: covers_def listed_def s')
  have mp': "all_mapped s' (act' @ rsv') (vmap s')"
    by (rule all_mapped_mono [OF all_mapped_covers [OF cov] mono]) (use mp in \<open>simp add: shared_views\<close>)
  have pb: "proc_bufs sz (rt (common w)) ps = image_mset (\<lambda>a. (a, sz a)) (mset (?my # ps))" using my by (simp add: proc_bufs_def)
  have nn: "n \<notin> set (?my # ps)"
  proof
    assume "n \<in> set (?my # ps)"
    then have "(n, sz n) \<in># ?L" by (auto simp: pb)
    from live_distinct [OF h' this] show False by simp
  qed
  have nb: "add_mset (n, k) ?L = owned w + proc_bufs (sz(n := k)) (rt s') (?my # ps) + {#}"
  proof -
    have "image_mset (\<lambda>a. (a, (sz(n := k)) a)) (mset (?my # ps)) = image_mset (\<lambda>a. (a, sz a)) (mset (?my # ps))"
      using nn by (intro image_mset_cong) auto
    then show ?thesis using n0 unfolding pb by (simp add: proc_bufs_def s')
  qed
  have procs': "procs_ok (commit p s' w) (?my # ps)"
    by (rule procs_joined [OF procs new refl my fin lim, of pr n]) (use li s ku nn n0 ur in \<open>simp_all add: listed_def s' keeps_def\<close>)
  have "log_idle (commit p s' w)"
    by (rule idle_joined [OF idle new]) (use idle li ur in \<open>simp_all add: s' listed_def log_idle_def flushed_to_def lastSeq_def\<close>)
  then have log': "log_ok E (commit p s' w) act' rsv' fre' {#}" by (simp add: log_ok_def)
  have parts': "parts_ok (commit p s' w) (act' @ rsv')"
    by (rule parts_joined [OF parts new _ _ _ cov mp']) (use li s in \<open>simp_all add: s' listed_def\<close>)
  have first': "region_range (regs s') (active_regions (rt s')) = (root_addr s', getpagesize E)"
    using mv fa f li ur by (simp add: regions_move_def listed_def s')
  have "root_dest E (rt s') = root_addr s'" using f li ur by (simp add: root_dest_def s' listed_def)
  with core' procs' log' parts' first' h' nb have "world_ok E (commit p s' w)"
    unfolding world_ok_def
    by (intro exI [of _ act'] exI [of _ rsv'] exI [of _ fre'] exI [of _ "?my # ps"] exI [of _ "sz(n := k)"] exI [of _ "{#}"])
      (simp add: shared_views)
  moreover have "cleanupLog_lastSeqNum (rt s') = lastSeq w" using ur li by (simp add: s' listed_def lastSeq_def)
  moreover have "same_in (owned w) (mem t) (mem s')" by (rule same_in_mono [OF sm]) simp
  then have "same_in (owned w) (mem (common w)) (mem s')" using li by (simp add: listed_def)
  moreover have gr: "grown (regs (common w)) act rsv (regs s') act' rsv'" using mv li by (simp add: regions_move_def listed_def s')
  moreover have "laid t act = laid (nobody (common w)) act" "laid s' act' = laid u act'"
    by (rule laid_cong; use li in \<open>simp add: s' listed_def\<close>)+
  then have "file_grows E \<longrightarrow> laid (nobody (common w)) act \<longrightarrow> laid s' act'" using mv by (simp add: regions_move_def)
  moreover have "pending_reservation (rt s') = 0" "active_regions (rt s') = active_regions (rt (common w))"
    using ur li pend by (simp_all add: s' listed_def)
  moreover have "sees (l_shm_file (hd (locals s'))) (regs s') act' rsv' (vmap s')"
    if "unat (getpagesize E) \<le> 2 ^ 20" "sealed (regs (common w)) rsv"
      "r_tmpfile_offset (the (regs (common w) (active_regions (rt (common w))))) = 0"
    using sees_extends [OF sees_grown [OF gr se [OF that(2,3)]] ext [OF that(1)]] by (simp add: s' lf)
  ultimately show ?thesis using core core' pend by blast
qed

lemma do_join_ok:
  assumes "world_ok E w" "part w p = None" "kernel_ok E" "pid s = p" "locals s = []" "card (dom (part w)) + 1 < 2 ^ 31"
    "sc_join E B fd (view (common w) s) = (Inr r, s')" "r \<noteq> 0"
  shows "world_ok E (commit p s' w) \<and> cleanupLog_lastSeqNum (rt s') = lastSeq w \<and> same_in (owned w) (mem (common w)) (mem s')"
  by (rule conjunct1 [OF do_join_facts [OF assms]])

section \<open>Every step keeps the invariant\<close>

lemma lastSeq_own [simp]: "lastSeq (w\<lparr>owned := W\<rparr>) = lastSeq w"
  by (simp add: lastSeq_def)

lemma leave_without: "w\<lparr>common := common_of s, part := (part w)(p := None)\<rparr> = without p s w"
  by (simp add: without_def)

lemma step_world_ok:
  assumes "world_step E B w e w'" "world_ok E w" "kernel_ok E" "lock_query_ok E" "lastSeq w + 1 \<noteq> 0" "card (dom (part w)) + 1 < 2 ^ 31"
  shows "world_ok E w' \<and> (lastSeq w' = lastSeq w \<or> lastSeq w' = lastSeq w + 1)"
  using assms
proof cases
  case (do_mmap p s len prot r s')
  then show ?thesis using do_mmap_ok [OF assms(2)] keeps_rt [OF sc_mmap_keeps] by (fastforce simp: lastSeq_def)
next
  case (do_malloc p s n a s')
  then show ?thesis using do_malloc_ok [OF assms(2)] keeps_rt [OF sc_malloc_keeps] by (fastforce simp: lastSeq_def)
next
  case (do_free p s b s')
  then show ?thesis using do_free_ok [OF assms(2)] sc_free_frame(1) by (fastforce simp: lastSeq_def)
next
  case (do_write p s b m)
  then show ?thesis using do_write_ok [OF assms(2)] by (simp add: lastSeq_def)
next
  case (do_fault p s info s')
  then show ?thesis using do_fault_ok [OF assms(2)] segv_InrD by (fastforce simp: lastSeq_def)
next
  case (do_post p s pages s')
  then show ?thesis using do_post_ok [OF assms(2) _ assms(3,5)] by simp
next
  case (do_turn p s s')
  then show ?thesis using do_turn_ok [OF assms(2) _ assms(4)] by simp
next
  case (do_join p s fd r s')
  then show ?thesis using do_join_ok [OF assms(2) _ assms(3) _ _ assms(6)] by simp
next
  case (do_leave p s s')
  then show ?thesis using do_leave_ok [OF assms(2)] by (simp add: leave_without lastSeq_def)
qed

lemma step_parts:
  assumes "world_step E B w e w'" "world_ok E w" shows "card (dom (part w')) \<le> card (dom (part w)) + 1"
proof -
  have fin: "finite (dom (part w))" using assms(2) by (auto simp: world_ok_def parts_ok_def)
  from assms(1) obtain p x where "part w' = (part w)(p := x)" by cases auto
  then have "dom (part w') \<subseteq> insert p (dom (part w))" by auto
  then have "card (dom (part w')) \<le> card (insert p (dom (part w)))" using fin by (intro card_mono) auto
  also have "\<dots> \<le> card (dom (part w)) + 1" using fin by (simp add: card_insert_if)
  finally show ?thesis .
qed

lemma world_inv_Suc:
  assumes "world_inv E (Suc n) w"
  shows "world_ok E w" "lastSeq w + 1 \<noteq> 0" "card (dom (part w)) + 1 < 2 ^ 31"
proof -
  from assms have "unat (lastSeq w) + 1 < 2 ^ 64" by (simp add: world_inv_def)
  then have "unat (lastSeq w + 1) = unat (lastSeq w) + 1" by (simp add: unat_word_ariths)
  then show "lastSeq w + 1 \<noteq> 0" by (metis Suc_eq_plus1 nat.simps(3) unat_0)
  show "world_ok E w" "card (dom (part w)) + 1 < 2 ^ 31" using assms by (simp_all add: world_inv_def)
qed

lemma step_world_inv:
  assumes "world_step E B w e w'" "world_inv E (Suc n) w" "kernel_ok E" "lock_query_ok E"
  shows "world_inv E n w'"
proof -
  from assms(2) have ls: "unat (lastSeq w) + Suc n < 2 ^ 64" and c: "card (dom (part w)) + Suc n < 2 ^ 31"
    by (simp_all add: world_inv_def)
  note i = world_inv_Suc [OF assms(2)]
  have "unat (lastSeq w + 1) = unat (lastSeq w) + 1" using ls by (simp add: unat_word_ariths)
  with step_world_ok [OF assms(1) i(1) assms(3,4) i(2,3)] have "world_ok E w'" "unat (lastSeq w') \<le> unat (lastSeq w) + 1" by auto
  with step_parts [OF assms(1) i(1)] ls c show ?thesis by (simp add: world_inv_def)
qed

lemma run_world_inv:
  assumes "world_run E B w es w'" "world_inv E (length es + n) w" "kernel_ok E" "lock_query_ok E"
  shows "world_inv E n w'"
  using assms(1,2)
proof (induction arbitrary: n)
  case (step w es w' e w'')
  then have "world_inv E (Suc n) w'" by simp
  with step_world_inv [OF step.hyps(2) _ assms(3,4)] show ?case by blast
qed simp

section \<open>Buffers keep their bytes\<close>

lemma sc_mmap_same:
  assumes inv: "alloc_inv E s L" and run: "sc_mmap E 0 n prot flags (- 1) 0 s = (Inr p, s')"
  shows "same_in L (mem s) (mem s')"
proof (cases "p = MAP_FAILED")
  case True
  from inv obtain R where "active_inv E s R" by (auto simp: alloc_inv_def malloc_inv_def)
  from mmap_pages.grab_failed [OF this] run True show ?thesis by auto
next
  case False
  from inv obtain ns live R where m: "malloc_inv E s ns live R" and L: "L = image_mset payload live" by (auto simp: alloc_inv_def)
  then have act: "active_inv E s R" by (simp add: malloc_inv_def)
  have "\<forall>r \<in># R. apart (p, n) r" using mmap_pages.grab_apart [OF act run False] by auto
  note ap = malloc_inv_apart(2) [OF m this]
  have "mem s' x = mem s x" if "b \<in># live" "in_block x (payload b)" for b x
  proof -
    have "in_block x b" using that(2) payload_facts(3) [OF m that(1)] by (rule in_block_inside)
    with ap [OF that(1)] show ?thesis using mmap_pages.grab_frame [OF act run False] apart_not_in by blast
  qed
  then show ?thesis by (auto simp: same_in_def L)
qed

lemma world_heap:
  assumes "world_ok E w"
  obtains X where "alloc_inv E (nobody (common w)) (owned w + X)"
  using assms unfolding world_ok_def by (metis add.assoc)

lemma step_same:
  assumes "world_step E B w e w'" "world_ok E w" "kernel_ok E" "lock_query_ok E" "lastSeq w + 1 \<noteq> 0" "card (dom (part w)) + 1 < 2 ^ 31"
    and b: "b \<in># owned w" "\<not> touches e b"
  shows "b \<in># owned w' \<and> same_in {#b#} (mem (common w)) (mem (common w'))"
proof -
  from assms(2) obtain X where h: "alloc_inv E (nobody (common w)) (owned w + X)" by (rule world_heap)
  then have v: "alloc_inv E (view (common w) s) (owned w + X)" for s by (simp add: shared_views)
  have one: "{#b#} \<subseteq># owned w" "b \<in># owned w + X" using b by simp_all
  note mono = same_in_mono [OF _ one(1)]
  from assms(1) show ?thesis
  proof cases
    case (do_mmap p s len prot r s')
    have "same_in (owned w + X) (mem (common w)) (mem s')" using sc_mmap_same [OF v] do_mmap by fastforce
    with do_mmap b show ?thesis by (auto simp: same_in_def)
  next
    case (do_malloc p s n a s')
    have "same_in {#b#} (mem (common w)) (mem s')" using sc_heap.alloc_frame [OF v do_malloc(4) one(2)] by (simp add: same_in_def)
    with do_malloc b show ?thesis by simp
  next
    case (do_free p s c s')
    then have c: "c \<noteq> b" using b by simp
    have "owned w + X = add_mset c (owned w - {#c#} + X)" using do_free by simp
    with v have "alloc_inv E (view (common w) s) (add_mset c (owned w - {#c#} + X))" by simp
    moreover have "b \<in># owned w - {#c#} + X" using b c by (simp add: in_diff_count)
    ultimately have "same_in {#b#} (mem (common w)) (mem s')" using sc_heap.release_ok do_free by (fastforce simp: same_in_def)
    with do_free b c show ?thesis by (simp add: in_diff_count)
  next
    case (do_write p s c m)
    then have c: "c \<noteq> b" using b by simp
    have "c \<in># owned w + X - {#b#}" using do_write c by (simp add: in_diff_count)
    then have "apart b c" using sc_heap.live_apart [OF h] one(2) by (simp add: apart_all_def)
    then have "\<not> in_block x c" if "in_block x b" for x using apart_not_in that by blast
    then have "same_in {#b#} (mem (common w)) m" using do_write(5) by (simp add: same_in_def same_outside_def)
    with do_write b show ?thesis by simp
  next
    case (do_fault p s info s')
    with segv_InrD b show ?thesis by fastforce
  next
    case (do_post p s pages s')
    with do_post_ok [OF assms(2) _ assms(3,5)] b mono show ?thesis by simp
  next
    case (do_turn p s s')
    with do_turn_ok [OF assms(2) _ assms(4)] b mono show ?thesis by simp
  next
    case (do_join p s fd r s')
    with do_join_ok [OF assms(2) _ assms(3) _ _ assms(6)] b mono show ?thesis by simp
  next
    case (do_leave p s s')
    with do_leave_ok [OF assms(2)] b mono show ?thesis by simp
  qed
qed

lemma run_same:
  assumes "world_run E B w es w'" "world_inv E (length es + n) w" "\<forall>e \<in> set es. \<not> touches e b" "b \<in># owned w" "kernel_ok E" "lock_query_ok E"
  shows "b \<in># owned w' \<and> same_in {#b#} (mem (common w)) (mem (common w'))"
  using assms(1-4)
proof (induction arbitrary: n)
  case (step w es w' e w'')
  from step.prems step.IH [of "Suc n"] have b: "b \<in># owned w'" "same_in {#b#} (mem (common w)) (mem (common w'))" by simp_all
  have "world_inv E (Suc n) w'" using run_world_inv [OF step.hyps(1) _ assms(5,6)] step.prems(1) by simp
  note i = world_inv_Suc [OF this]
  have "\<not> touches e b" using step.prems by simp
  from step_same [OF step.hyps(2) i(1) assms(5,6) i(2,3) b(1) this] b(2) show ?case using same_in_trans by blast
qed simp

section \<open>The first world, and turns that complete a reservation\<close>

lemma first_world_simps [simp]:
  "common (first_world s) = common_of s" "part (first_world s) = [pid s \<mapsto> s]" "owned (first_world s) = {#}"
  by (simp_all add: first_world_def)

lemma initialised_world:
  assumes init: "initialised E fd tid page (pid s) s" and l: "map l_sc (locals s) = [page]"
  shows "world_inv E n (first_world s) \<longleftrightarrow> n + 1 < 2 ^ 31" "flushed (first_world s) = {pid s}"
proof -
  let ?w = "first_world s"
  from init obtain p1 p2 n1 n2 where sub: "subcontext_ok E s [p1] {#(p1, n1), (p2, n2)#}"
    and pr: "procs s p1 = Some \<lparr>p_next = 0, p_state = SUBCONTEXTS_PROC_STATE_ALIVE, p_pid = pid s\<rparr>"
    and r: "prealloc_proc (rt s) = p2" "p2 \<noteq> 0" "p2 \<noteq> p1" "cleanupLog (rt s) = 0" "pending_reservation (rt s) = 0"
      "cleanupLog_tail (rt s) = 0" "cleanupLog_lastSeqNum (rt s) = 1" "p2 \<in> dom (procs s)" "root_dest E (rt s) = page"
      "my_local s = Some (fresh_local page fd tid)" "root_addr s = page"
    unfolding initialised_def by blast
  from sub obtain act rsv fre where core: "region_core E s act rsv fre" and mp: "all_mapped s (act @ rsv) (vmap s)"
    and first: "region_range (regs s) (active_regions (rt s)) = (page, getpagesize E)"
    and sb: "alloc_inv E s {#(p1, n1), (p2, n2)#}" "proc_chain s [p1]" "sint (proc_count (rt s)) = 1"
    using r(11) by (auto simp: subcontext_ok_def region_wf_def)
  have "locals s = [fresh_local page fd tid]"
    using l r(10,11) by (cases "locals s") (auto simp: my_local_def split: if_splits)
  then have fl: "flushed ?w = {pid s}" using r(7) by (auto simp: flushed_def flushed_to_def lastSeq_def fresh_local_def split: if_splits)
  then show "flushed ?w = {pid s}" .
  have "parts_ok ?w (act @ rsv)" using l mp r(11) by (auto simp: parts_ok_def shared_views split: if_splits)
  moreover have "procs_ok ?w [p1]" using sb pr r by (auto simp: procs_ok_def shared_views walk_pid_def)
  moreover have "log_idle ?w" using fl r by (simp add: log_idle_def)
  moreover have "proc_bufs (\<lambda>x. if x = p1 then n1 else n2) (rt s) [p1] = {#(p1, n1), (p2, n2)#}"
    using r by (simp add: proc_bufs_def add_mset_commute)
  ultimately have "world_ok E ?w"
    unfolding world_ok_def using core sb first r(9,11)
    by (intro exI [of _ act] exI [of _ rsv] exI [of _ fre] exI [of _ "[p1]"] exI [of _ "\<lambda>x. if x = p1 then n1 else n2"] exI [of _ "{#}"])
      (simp add: shared_views log_ok_def)
  then show "world_inv E n ?w \<longleftrightarrow> n + 1 < 2 ^ 31" using r(7) by (auto simp: world_inv_def lastSeq_def)
qed

lemma first_world_turn:
  assumes "initialised E fd tid page (pid s) s" "map l_sc (locals s) = [page]"
  shows "\<exists>w. world_run E' B (first_world s) [Turn (pid s)] w"
proof -
  let ?w = "first_world s"
  have "my_local s = Some (fresh_local page fd tid)" "cleanupLog_lastSeqNum (rt s) = 1" using assms(1) unfolding initialised_def by blast+
  then have "my_local (view (common ?w) s) = Some (fresh_local page fd tid)"
    "l_flushPoint (fresh_local page fd tid) = cleanupLog_lastSeqNum (rt (view (common ?w) s))" by (simp_all add: my_local_def fresh_local_def)
  from bg_turn_nothing [OF this, of E'] have "world_step E' B ?w (Turn (pid s)) (commit (pid s) (unlock_shared LRoot (lock_shared LRoot (view (common ?w) s))) ?w)"
    by (intro world_step.do_turn) simp_all
  from world_run.step [OF world_run.stop this] show ?thesis by auto
qed

lemma run_Cons: "world_run E B w' es w'' \<Longrightarrow> world_step E B w e w' \<Longrightarrow> world_run E B w (e # es) w''"
proof (induction rule: world_run.induct)
  case (stop w')
  then show ?case using world_run.step [OF world_run.stop] by fastforce
next
  case (step w' es w1 e1 w2)
  then show ?case using world_run.step [of E B w "e # es" w1 e1 w2] by simp
qed

lemma turn_nothing:
  assumes ok: "world_ok E w" and p: "p \<in> flushed w" and lq: "lock_query_ok E"
  shows "\<exists>w'. world_step E B w (Turn p) w' \<and> world_ok E w' \<and> common w' = common w \<and> flushed w' = flushed w \<and>
     dom (part w') = dom (part w) \<and> (\<forall>p'. p' \<noteq> p \<longrightarrow> part w' p' = part w p')"
proof -
  from p obtain s where s: "part w p = Some s" "flushed_to s = lastSeq w" by (auto simp: flushed_def)
  from ok obtain rs where "parts_ok w rs" by (auto simp: world_ok_def)
  from part_local [OF this s(1)] obtain l where l: "locals s = [l]" "flushed_to s = l_flushPoint l" "my_local (view (common w) s) = Some l" by blast
  let ?s = "unlock_shared LRoot (lock_shared LRoot (view (common w) s))"
  have run: "bg_turn E (view (common w) s) = (Inr (), ?s)" by (rule bg_turn_nothing [OF l(3)]) (use s l in \<open>simp add: lastSeq_def\<close>)
  let ?w = "commit p ?s w"
  have "world_step E B w (Turn p) ?w" by (rule world_step.do_turn [OF s(1) run])
  moreover have "world_ok E ?w" using do_turn_ok [OF ok s(1) lq run] by blast
  moreover have "common ?w = common w" by (cases w; cases "common w") (simp add: common_of_def)
  moreover have "flushed ?w = flushed w" by (rule flushed_commit(2) [OF s(1)]) (simp_all add: lastSeq_def)
  moreover have "dom (part ?w) = dom (part w)" using s by auto
  ultimately show ?thesis by (intro exI [of _ ?w]) simp
qed

text \<open>The result of a turn of a process that lags, which the kernel lets block the range.\<close>

lemma turn_runs:
  assumes core: "region_core E (nobody (common w)) act rsv fre" and busy: "log_busy E w act rsv fre q c g"
    and h: "alloc_inv E (nobody (common w)) (L + {#(cleanupLog (rt (common w)), n)#})"
    and flush: "bg_flush E (view (common w) s) = (Inr (c_ack_count c + 1 = c_ack_targ c), s1)"
    "drained (view (common w) s) [cleanupLog (rt (common w))] s1"
  obtains (early) "c_ack_count c + 1 \<noteq> c_ack_targ c" "bg_turn E (view (common w) s) = (Inr (), s1)"
    | (last) s' where "bg_turn E (view (common w) s) = (Inr (), s')" "cleaned E s1 act rsv fre L s'"
proof (cases "c_ack_count c + 1 = c_ack_targ c")
  case True
  from turn_cleans [OF core busy h flush(2) True] obtain s' where "bg_cleanup s1 = (Inr (), s')" "cleaned E s1 act rsv fre L s'" by blast
  then show thesis using flush(1) True by (intro last) (simp_all add: bg_turn_def call_def)
next
  case False
  then show thesis using flush(1) by (intro early) (simp_all add: bg_turn_def call_def)
qed

lemma turn_blocks:
  assumes ok: "world_ok E w" and s: "part w p = Some s" "p \<notin> flushed w" and lq: "lock_query_ok E"
    and aw: "awaited w q b" and gr: "grants E w b"
  shows "\<exists>s'. bg_turn E (view (common w) s) = (Inr (), s') \<and>
     (awaited (commit p s' w) q b \<and> flushed (commit p s' w) = insert p (flushed w) \<or> published (commit p s' w) q b)"
  using ok
proof (rule world_okE)
  fix act rsv fre ps sz G
  let ?v = "view (common w) s" and ?a = "cleanupLog (rt (common w))" and ?L = "owned w + proc_bufs sz (rt (common w)) ps"
  assume core: "region_core E (nobody (common w)) act rsv fre" and parts: "parts_ok w (act @ rsv)"
    and log: "log_ok E w act rsv fre G" and h: "alloc_inv E (nobody (common w)) (?L + G)"
  from core parts log h s show ?thesis
  proof (rule behindE)
    fix q' c g n l
    assume busy: "log_busy E w act rsv fre q' c g" and G: "G = {#(?a, n)#}" and l: "my_local ?v = Some l" "l_flushPoint l + 1 = lastSeq w"
      and bs: "?a \<noteq> 0" "cleanupLog_tail (rt (common w)) = ?a" "steps (common w) ?a = Some c" "c_next c = 0" "c_op c = SC_CLS_RESERVE_MEMORY"
        "c_seqNum c = lastSeq w" "0 < lastSeq w" and ack: "sint (c_ack_count c) < sint (c_ack_targ c)" and va: "c_vaddr c \<noteq> MAP_FAILED"
      and q': "pending_reservation (rt (common w)) = q'" "step_range c = region_range (regs (common w)) q'"
    have "b = (c_vaddr c, c_len c)" using aw q' by (simp add: awaited_def step_range_def)
    then have grc: "reserve_granted E (vmap ?v) c" using gr s bs(5) va by (simp add: grants_def reserve_granted_def)
    obtain s1 where flush: "bg_flush E ?v = (Inr (c_ack_count c + 1 = c_ack_targ c), s1)" "drained ?v [?a] s1"
      "map_option l_flushPoint (my_local s1) = Some (lastSeq w)"
      by (rule bg_flush_granted [OF _ _ bs(1) _ bs(4) _ _ _ l(1) lq _ ack grc]) (use bs l(2) in \<open>simp_all add: lastSeq_def\<close>)
    have fp: "flushed_to s1 = lastSeq w" by (rule drained_flushed [OF parts s(1) flush(2,3)])
    have e: "rt s1 = rt (common w)" "regs s1 = regs (common w)" using flush(2) by (simp_all add: drained_def)
    from core busy h [unfolded G] flush(1,2) show ?thesis
    proof (cases rule: turn_runs)
      case early
      then show ?thesis using aw flushed_turn [OF s(1) fp] e by (simp add: awaited_def lastSeq_def)
    next
      case (last s')
      then have "pending_reservation (rt s') = 0" "reserved_regions (rt s') = q" "region_range (regs s') q = b"
        using aw e by (simp_all add: cleaned_def awaited_def)
      moreover from do_turn_ok [OF ok s(1) lq last(1)] obtain act' rsv' fre' G' where "log_ok E (commit p s' w) act' rsv' fre' G'"
        by (auto simp: world_ok_def)
      with calculation(1) have "log_idle (commit p s' w)" using log_pending by fastforce
      ultimately show ?thesis using last(1) by (simp add: published_def)
    qed
  qed
qed

lemma turn_advances:
  assumes ok: "world_ok E w" and s: "part w p = Some s" "p \<notin> flushed w" and lq: "lock_query_ok E"
    and aw: "awaited w q b" and gr: "grants E w b"
  shows "\<exists>w'. world_step E B w (Turn p) w' \<and> world_ok E w' \<and> dom (part w') = dom (part w) \<and> (\<forall>p'. p' \<noteq> p \<longrightarrow> part w' p' = part w p') \<and>
     (awaited w' q b \<and> flushed w' = insert p (flushed w) \<or> published w' q b)"
proof -
  from turn_blocks [OF assms] obtain s' where run: "bg_turn E (view (common w) s) = (Inr (), s')"
    and res: "awaited (commit p s' w) q b \<and> flushed (commit p s' w) = insert p (flushed w) \<or> published (commit p s' w) q b" by blast
  have "world_step E B w (Turn p) (commit p s' w)" by (rule world_step.do_turn [OF s(1) run])
  moreover have "world_ok E (commit p s' w)" using do_turn_ok [OF ok s(1) lq run] by blast
  moreover have "dom (part (commit p s' w)) = dom (part w)" using s by auto
  ultimately show ?thesis using res by (intro exI [of _ "commit p s' w"]) simp
qed

lemma turns_published:
  assumes "world_ok E w" "published w q b" "lock_query_ok E" "set ps \<subseteq> dom (part w)"
  shows "\<exists>w'. world_run E B w (map Turn ps) w' \<and> world_ok E w' \<and> published w' q b"
  using assms
proof (induction ps arbitrary: w)
  case Nil
  then show ?case using world_run.stop by fastforce
next
  case (Cons p ps)
  have "p \<in> flushed w" using Cons.prems by (auto simp: published_def log_idle_def)
  from turn_nothing [OF Cons.prems(1) this Cons.prems(3), of B] obtain w1 where
    w1: "world_step E B w (Turn p) w1" "world_ok E w1" "common w1 = common w" "flushed w1 = flushed w" "dom (part w1) = dom (part w)" by blast
  have "published w1 q b" using Cons.prems(2) w1 by (simp add: published_def log_idle_def)
  from Cons.IH [OF w1(2) this Cons.prems(3)] Cons.prems(4) w1(5) obtain w' where
    "world_run E B w1 (map Turn ps) w'" "world_ok E w'" "published w' q b" by auto
  with run_Cons [OF _ w1(1)] show ?case by auto
qed

lemma turns_publish:
  assumes "world_ok E w" "awaited w q b" "grants E w b" "lock_query_ok E" "set ps \<subseteq> dom (part w)" "dom (part w) \<subseteq> flushed w \<union> set ps"
  shows "\<exists>w'. world_run E B w (map Turn ps) w' \<and> world_ok E w' \<and> published w' q b"
  using assms
proof (induction ps arbitrary: w)
  case Nil
  from Nil.prems(1) obtain act rsv fre G where "log_ok E w act rsv fre G" by (auto simp: world_ok_def)
  moreover have "\<not> log_idle w" using Nil.prems(2) by (auto simp: log_idle_def awaited_def)
  ultimately have "flushed w \<subset> dom (part w)" by (auto simp: log_ok_def log_busy_def)
  with Nil.prems(6) show ?case by auto
next
  case (Cons p ps)
  show ?case
  proof (cases "p \<in> flushed w")
    case True
    from turn_nothing [OF Cons.prems(1) True Cons.prems(4), of B] obtain w1 where
      w1: "world_step E B w (Turn p) w1" "world_ok E w1" "common w1 = common w" "flushed w1 = flushed w" "dom (part w1) = dom (part w)"
        "\<And>p'. p' \<noteq> p \<Longrightarrow> part w1 p' = part w p'" by blast
    have "awaited w1 q b" "grants E w1 b" using Cons.prems(2,3) w1 True by (auto simp: awaited_def grants_def) metis
    from Cons.IH [OF w1(2) this Cons.prems(4)] Cons.prems(5,6) True w1(4,5) obtain w' where
      "world_run E B w1 (map Turn ps) w'" "world_ok E w'" "published w' q b" by auto
    with run_Cons [OF _ w1(1)] show ?thesis by auto
  next
    case False
    from Cons.prems(5) obtain s where s: "part w p = Some s" by auto
    from turn_advances [OF Cons.prems(1) s False Cons.prems(4,2,3), of B] obtain w1 where
      w1: "world_step E B w (Turn p) w1" "world_ok E w1" "dom (part w1) = dom (part w)" "\<And>p'. p' \<noteq> p \<Longrightarrow> part w1 p' = part w p'"
      and r: "awaited w1 q b \<and> flushed w1 = insert p (flushed w) \<or> published w1 q b" by blast
    from r show ?thesis
    proof
      assume a: "awaited w1 q b \<and> flushed w1 = insert p (flushed w)"
      then have "grants E w1 b" using Cons.prems(3) w1(4) by (auto simp: grants_def)
      from Cons.IH [OF w1(2) _ this Cons.prems(4)] a Cons.prems(5,6) w1(3) obtain w' where
        "world_run E B w1 (map Turn ps) w'" "world_ok E w'" "published w' q b" by auto
      with run_Cons [OF _ w1(1)] show ?thesis by auto
    next
      assume "published w1 q b"
      from turns_published [OF w1(2) this Cons.prems(4), of ps B] Cons.prems(5) w1(3) obtain w' where
        "world_run E B w1 (map Turn ps) w'" "world_ok E w'" "published w' q b" by auto
      with run_Cons [OF _ w1(1)] show ?thesis by auto
    qed
  qed
qed

lemma two_common_sel [simp]:
  "root_addr two_common = 0x1000" "freeList two_common = 0"
  "rt two_common = demo_root\<lparr>proc_list := 0x2010, proc_count := 2, cleanupLog := 0x2090, cleanupLog_tail := 0x2090,
       cleanupLog_lastSeqNum := 1, pending_reservation := 0x1300\<rparr>"
  "regs two_common = demo_regs(0x1300 \<mapsto> demo_region 0 0x700000 0x2000 0 (- 1))"
  "procs two_common = [0x2010 \<mapsto> \<lparr>p_next = 0x2050, p_state = SUBCONTEXTS_PROC_STATE_ALIVE, p_pid = 7\<rparr>,
               0x2050 \<mapsto> \<lparr>p_next = 0, p_state = SUBCONTEXTS_PROC_STATE_ALIVE, p_pid = 9\<rparr>]"
  "steps two_common = [0x2090 \<mapsto> demo_step 1 0 1 2 0x700000 0x2000]"
  "mem two_common = live_block 0x20c0 (live_block 0x2080 (live_block 0x2040 (live_block 0x2000 (\<lambda>_. 0))))"
  by (simp_all add: two_common_def)

lemma two_part_sel [simp]:
  "pid (two_part p f) = p" "locals (two_part p f) = [demo_local\<lparr>l_flushPoint := f\<rparr>]" "flushed_to (two_part p f) = f"
  by (simp_all add: two_part_def flushed_to_def)

lemma two_vmap: "vmap (two_part p f) x = (if f = 1 \<and> in_block x (0x700000, 0x2000) then demo_vmap 0 else demo_vmap x)"
  by (simp add: two_part_def)

lemma two_world_sel [simp]:
  "common two_world = two_common" "part two_world = [7 \<mapsto> two_part 7 1, 9 \<mapsto> two_part 9 0]" "owned two_world = {#(0x20d0, 40)#}"
  "lastSeq two_world = 1"
  by (simp_all add: two_world_def lastSeq_def)

lemma two_partE:
  assumes "part two_world p = Some s"
  obtains "p = 7" "s = two_part 7 1" | "p = 9" "s = two_part 9 0"
  using assms by (auto split: if_splits)

lemma two_dom: "dom (part two_world) = {7, 9}" "finite (dom (part two_world))" "card (dom (part two_world)) = 2"
  by (simp_all add: insert_commute)

lemma two_flushed: "flushed two_world = {7}"
  by (auto simp: flushed_def split: if_splits)

lemma two_core: "region_core kern_env (nobody two_common) [0x1100, 0x1140] [0x1180] [0x11c0, 0x1200, 0x1240]"
  unfolding region_core_def region_lists_def
  by (simp add: demo_defs region_next_def range_ok_def region_range_def fits_def apart_def)

lemma two_heap: "alloc_inv kern_env (nobody two_common) {#(0x2010, 40), (0x2050, 40), (0x2090, 40), (0x20d0, 40)#}"
proof -
  let ?m = "\<lambda>_. 0 :: u8"
  have ok: "block_ok (0x2000, 64)" "block_ok (0x2040, 64)" "block_ok (0x2080, 64)" "block_ok (0x20c0, 64)" by (simp_all add: block_ok_def fits_def)
  have i1: "intact (live_block 0x2000 ?m) (0x2000, 64)" unfolding live_block_def by (rule header_footer(1) [OF ok(1)])
  have i2: "intact (live_block 0x2040 m) (0x2040, 64)" "same_outside (0x2040, 64) m (live_block 0x2040 m)" for m
    unfolding live_block_def by (rule header_footer [OF ok(2)])+
  have i3: "intact (live_block 0x2080 m) (0x2080, 64)" "same_outside (0x2080, 64) m (live_block 0x2080 m)" for m
    unfolding live_block_def by (rule header_footer [OF ok(3)])+
  have i4: "intact (live_block 0x20c0 m) (0x20c0, 64)" "same_outside (0x20c0, 64) m (live_block 0x20c0 m)" for m
    unfolding live_block_def by (rule header_footer [OF ok(4)])+
  have ap: "apart (0x2000 :: u64, 64 :: u64) (0x2040, 64)" "apart (0x2000 :: u64, 64 :: u64) (0x2080, 64)"
    "apart (0x2040 :: u64, 64 :: u64) (0x2080, 64)" "apart (0x2000 :: u64, 64 :: u64) (0x20c0, 64)"
    "apart (0x2040 :: u64, 64 :: u64) (0x20c0, 64)" "apart (0x2080 :: u64, 64 :: u64) (0x20c0, 64)" by (simp_all add: apart_def)
  have "heap_wf (mem two_common) 0 [] {#(0x2000, 64), (0x2040, 64), (0x2080, 64), (0x20c0, 64)#}"
    using ok ap i1 i2 i3 i4 intact_frame [OF ok(1) i2(2) ap(1)] intact_frame [OF ok(1) i3(2) ap(2)] intact_frame [OF ok(2) i3(2) ap(3)]
      intact_frame [OF ok(1) i4(2) ap(4)] intact_frame [OF ok(2) i4(2) ap(5)] intact_frame [OF ok(3) i4(2) ap(6)]
    by (simp add: heap_wf_def)
  then have "heap_in (nobody two_common) [0x1100, 0x1140] {#(0x2010, 40), (0x2050, 40), (0x2090, 40), (0x20d0, 40)#}"
    unfolding heap_in_def
    by (intro exI [of _ "[]"] exI [of _ "{#(0x2000, 64), (0x2040, 64), (0x2080, 64), (0x20c0, 64)#}"])
      (simp add: payload_def demo_ranges inside_def)
  then show ?thesis using alloc_inv_core [OF two_core] kern_ok(3) by simp
qed

lemma two_mapped: "demo_vmap x \<noteq> None \<Longrightarrow> vmap (two_part p f) x \<noteq> None"
  by (simp add: two_vmap demo_vmap_def)

lemma two_parts: "parts_ok two_world [0x1100, 0x1140, 0x1180]"
proof -
  have d: "demo_vmap x \<noteq> None" if "p \<in> set [0x1100, 0x1140, 0x1180]" "in_block x (region_range (regs two_common) p)" for p x
    using demo_post_mapped that unfolding all_mapped_def by (auto simp: demo_post_st_def)
  have "all_mapped (nobody two_common) [0x1100, 0x1140, 0x1180] (vmap (two_part p f))" for p f
    unfolding all_mapped_def nobody_simps using d two_mapped by blast
  then show ?thesis unfolding parts_ok_def by (auto elim!: two_partE simp: two_dom simp del: two_world_sel(2))
qed

lemma two_busy: "log_busy kern_env two_world [0x1100, 0x1140] [0x1180] [0x11c0, 0x1200, 0x1240] 0x1300 (demo_step 1 0 1 2 0x700000 0x2000) 0"
proof -
  let ?c = "demo_step 1 0 1 2 0x700000 0x2000"
  have "pending_ok kern_env (nobody two_common) [0x1100, 0x1140] [0x1180] [0x11c0, 0x1200, 0x1240] 0x1300"
    by (simp add: pending_ok_def range_ok_def fits_def region_range_def demo_regs_def demo_region_def apart_def)
  moreover have "flushed two_world \<subset> dom (part two_world)" unfolding two_dom two_flushed by (rule psubsetI) (simp_all add: set_eq_iff exI [of _ 9])
  moreover have "flushed_to s + 1 = lastSeq two_world" if "part two_world p = Some s" "p \<notin> flushed two_world" for p s
    using that by (auto elim: two_partE simp: two_flushed simp del: two_world_sel(2))
  moreover have "vmap s x \<noteq> None" if "part two_world p = Some s" "p \<in> flushed two_world" "in_block x (step_range ?c)" for p s x
    using that by (auto elim!: two_partE simp: two_vmap two_flushed demo_step_def step_range_def demo_vmap_def simp del: two_world_sel(2))
  moreover have "c_ack_count ?c = 1" "c_ack_targ ?c = 2" "c_next ?c = 0" "c_op ?c = SC_CLS_RESERVE_MEMORY" "c_seqNum ?c = 1"
    "step_range ?c = region_range (regs two_common) 0x1300" by (simp_all add: demo_step_def step_range_def demo_region_def)
  ultimately show ?thesis
    unfolding log_busy_def by (intro conjI allI impI) (simp_all add: two_flushed two_dom del: two_world_sel(2))
qed

lemma two_ok: "world_ok kern_env two_world"
proof -
  have "procs_ok two_world [0x2010, 0x2050]"
    by (auto simp: procs_ok_def proc_chain_def proc_next_def walk_pid_def demo_root_def)
  moreover have "log_ok kern_env two_world [0x1100, 0x1140] [0x1180] [0x11c0, 0x1200, 0x1240] {#(0x2090, 40)#}"
    using two_busy by (auto simp: log_ok_def)
  moreover have "proc_bufs (\<lambda>_. 40) (rt two_common) [0x2010, 0x2050] = {#(0x2010, 40), (0x2050, 40)#}"
    by (simp add: proc_bufs_def demo_root_def)
  ultimately show ?thesis
    unfolding world_ok_def using two_core two_heap two_parts
    by (intro exI [of _ "[0x1100, 0x1140]"] exI [of _ "[0x1180]"] exI [of _ "[0x11c0, 0x1200, 0x1240]"] exI [of _ "[0x2010, 0x2050]"]
        exI [of _ "\<lambda>_. 40"] exI [of _ "{#(0x2090, 40)#}"]) (simp add: demo_ranges root_dest_def add_mset_commute)
qed

lemma two_awaited: "awaited two_world 0x1300 (0x700000, 0x2000)"
  by (simp add: awaited_def demo_region_def)

lemma two_grants: "grants kern_env two_world (0x700000, 0x2000)"
  by (auto elim!: two_partE simp: two_vmap grants_def two_flushed kern_env_def reserve_req_def mman_defs demo_vmap_def in_block_def fits_def word_less_nat_alt simp del: two_world_sel(2))

lemma two_turns: "\<exists>w. world_run kern_env demo_boot two_world [Turn 9, Turn 7] w"
  using turns_publish [OF two_ok two_awaited two_grants kern_ok(2), of "[9, 7]" demo_boot] by (auto simp: two_flushed)

section \<open>Properties\<close>

text \<open>C1: Whatever the processes of a subcontext do, the subcontext and every process stay consistent. After
  \<^verbatim>\<open>sc_init\<close> any number of processes may join, map pages, allocate, free and write buffers, take page
  faults, post reservations, run their background threads and leave, in any order, and after every
  step: the region lists and the heap are well formed, every process has every active and every
  reserved range in its address space, the process list has exactly the live processes and the
  count is right, and the acknowledgements of a pending reservation count exactly the processes that
  have blocked it, with those of them that have left since.\<close>

theorem world_stays_ok:
  assumes "file_len s = 0" and "init_granted E B fd (vmap s)" and "layout_ok E B" and "5 \<le> first_count E B"
    and "kernel_ok E" and "page_ok E" and "unat (getpagesize E) dvd 2 ^ 20" and "lock_query_ok E"
    and "0 < sint (sizeof_sc_process E)" and "2 * unat (grow_size E (sizeof_sc_process E)) < 2 ^ 20" and "locals s = []"
  shows "\<exists>page s'. sc_init E B fd s = (Inr page, s') \<and> page \<noteq> 0 \<and>
     (\<forall>es w. length es + 1 < 2 ^ 31 \<longrightarrow> world_run E B (first_world s') es w \<longrightarrow> world_ok E w)"
proof -
  from sc_init_ok [OF assms(1-10)] obtain page s' where i: "sc_init E B fd s = (Inr page, s')" "page \<noteq> 0"
    "initialised E fd (os_child_tid B) page (pid s') s'" "map l_sc (locals s') = [page]" using assms(11) by auto
  have "world_ok E w" if "length es + 1 < 2 ^ 31" "world_run E B (first_world s') es w" for es w
  proof -
    have "world_inv E (length es + 0) (first_world s')" using initialised_world(1) [OF i(3,4)] that(1) by simp
    from run_world_inv [OF that(2) this assms(5,8)] show ?thesis by (simp add: world_inv_def)
  qed
  with i(1,2) show ?thesis by blast
qed

theorem world_stays_ok_witness:
  "\<exists>page s' w. sc_init boot_env demo_boot 5 (demo_none_st\<lparr>locals := []\<rparr>) = (Inr page, s') \<and>
     world_run boot_env demo_boot (first_world s') [Turn (pid s')] w \<and> world_ok boot_env w"
proof -
  let ?s = "demo_none_st\<lparr>locals := []\<rparr>"
  have lay: "layout_ok boot_env demo_boot" "5 \<le> first_count boot_env demo_boot"
    by (simp_all add: layout_ok_def first_count_def demo_boot_def)
  have sz: "unat (getpagesize boot_env) dvd 2 ^ 20" "0 < sint (sizeof_sc_process boot_env)"
    "2 * unat (grow_size boot_env (sizeof_sc_process boot_env)) < 2 ^ 20"
    by (simp_all add: malloc_mmap_size_def malloc_alloc_size_def)
  have st: "file_len ?s = 0" "init_granted boot_env demo_boot 5 (vmap ?s)" "locals ?s = []"
    using boot_granted by (simp_all add: demo_none_st_def demo_defs)
  from world_stays_ok [OF st(1,2) lay boot_env_ok(1,2) sz(1) boot_env_ok(3) sz(2,3) st(3)] obtain page s' where
    i: "sc_init boot_env demo_boot 5 ?s = (Inr page, s')"
    and ok: "\<And>es w. length es + 1 < 2 ^ 31 \<Longrightarrow> world_run boot_env demo_boot (first_world s') es w \<Longrightarrow> world_ok boot_env w" by blast
  from sc_init_ok [OF st(1,2) lay boot_env_ok(1,2) sz(1) boot_env_ok(3) sz(2,3)] i st(3)
  have "initialised boot_env 5 (os_child_tid demo_boot) page (pid s') s'" "map l_sc (locals s') = [page]" by auto
  from first_world_turn [OF this, of boot_env demo_boot] obtain w where
    run: "world_run boot_env demo_boot (first_world s') [Turn (pid s')] w" by blast
  with ok [OF _ run] i show ?thesis by auto
qed

text \<open>C2: A posted reservation completes. Once every process has had a turn of its background thread, in any
  order and however often, the proposed range is the first on the list of reserved regions, the log is
  empty and everybody has acknowledged it; no turn fails on the way. The kernel has to grant the
  range in every process that has not blocked it yet.\<close>

theorem reservation_completes:
  assumes "world_ok E w" and "awaited w q b" and "grants E w b" and "lock_query_ok E" and "set ps = dom (part w)"
  shows "\<exists>w'. world_run E B w (map Turn ps) w' \<and> world_ok E w' \<and> published w' q b"
  by (rule turns_publish [OF assms(1-4)]) (use assms(5) in auto)

theorem reservation_completes_witness:
  "\<exists>w'. world_run kern_env demo_boot two_world [Turn 9, Turn 7] w' \<and> published w' 0x1300 (0x700000, 0x2000)"
  using reservation_completes [OF two_ok two_awaited two_grants kern_ok(2), of "[9, 7]" demo_boot] by fastforce

text \<open>C3: A buffer of the heap belongs to those who use it. Whatever the processes of a subcontext do, in any
  order, as long as nobody writes to the buffer or frees it, it stays allocated and every byte of
  it keeps its value: no allocation, page mapping, fault, join, departure or reservation of any process
  reaches into it.\<close>

theorem world_keeps_buffers:
  assumes "world_inv E (length es) w" and "world_run E B w es w'" and "kernel_ok E" and "lock_query_ok E"
    and "b \<in># owned w" and "\<forall>e \<in> set es. \<not> touches e b"
  shows "b \<in># owned w' \<and> (\<forall>x. in_block x b \<longrightarrow> mem (common w') x = mem (common w) x)"
  using run_same [OF assms(2) _ assms(6,5,3,4), of 0] assms(1) by (simp add: same_in_def)

theorem world_keeps_buffers_witness:
  "\<exists>w'. world_run kern_env demo_boot two_world [Turn 9, Turn 7] w' \<and> (0x20d0, 40) \<in># owned w' \<and>
     mem (common w') 0x20d8 = mem (common two_world) 0x20d8"
proof -
  from two_turns obtain w where run: "world_run kern_env demo_boot two_world [Turn 9, Turn 7] w" by blast
  have "world_inv kern_env (length [Turn 9, Turn 7]) two_world" using two_ok two_dom(3) by (simp add: world_inv_def del: two_world_sel(2))
  from world_keeps_buffers [OF this run kern_ok(1,2), of "(0x20d0, 40)"] run show ?thesis by (auto simp: in_block_def)
qed

end
