(* ===== verification/SC_Coherence.thy ===== *)
theory SC_Coherence
  imports SC_World
begin

text \<open>
  One memory in many address spaces.

  A pointer into the subcontext has to mean the same in every process. Each process maps the backing
  file for itself: the creator its first page, one that joins every region at once, and the fault
  handler a region at a time. Here the mappings of all processes are followed through every run: what
  a process can touch at an address of an active region is the byte of the backing file that the
  region's struct names, and nobody can touch a byte of a reserved range, or of a proposed range once it
  has acknowledged it.
\<close>

section \<open>Definitions\<close>

text \<open>The descriptor of the backing file in a process.\<close>

definition file_of :: "st \<Rightarrow> u32" where
  "file_of s = l_shm_file (hd (locals s))"

text \<open>Reserved and pending ranges have no access rights, and the first region is the start of the file.\<close>

definition shielded :: "shared \<Rightarrow> u64 list \<Rightarrow> bool" where
  "shielded c rsv \<longleftrightarrow> sealed (regs c) rsv \<and> r_tmpfile_offset (the (regs c (active_regions (rt c)))) = 0 \<and>
     (pending_reservation (rt c) \<noteq> 0 \<longrightarrow> r_prot (the (regs c (pending_reservation (rt c)))) = 0)"

text \<open>\<open>f\<close> tells whether the process has handled all of the cleanup log.\<close>

definition proc_sees :: "shared \<Rightarrow> u64 list \<Rightarrow> u64 list \<Rightarrow> bool \<Rightarrow> st \<Rightarrow> bool" where
  "proc_sees c act rsv f s \<longleftrightarrow> sees (file_of s) (regs c) act rsv (vmap s) \<and>
     (f \<longrightarrow> pending_reservation (rt c) \<noteq> 0 \<longrightarrow>
        (\<forall>x. in_block x (region_range (regs c) (pending_reservation (rt c))) \<longrightarrow> inert (vmap s x)))"

definition coherent :: "env \<Rightarrow> world \<Rightarrow> bool" where
  "coherent E w \<longleftrightarrow> (\<exists>act rsv fre. region_core E (nobody (common w)) act rsv fre \<and> shielded (common w) rsv \<and>
     (file_grows E \<longrightarrow> laid (nobody (common w)) act) \<and>
     (\<forall>p s. part w p = Some s \<longrightarrow> proc_sees (common w) act rsv (p \<in> flushed w) s))"

text \<open>If two processes can both touch the address \<open>x\<close>, they touch the same byte of the backing file.\<close>

definition same_byte :: "st \<Rightarrow> st \<Rightarrow> u64 \<Rightarrow> bool" where
  "same_byte s t x \<longleftrightarrow> (\<forall>m n. vmap s x = Some m \<longrightarrow> vmap t x = Some n \<longrightarrow> m_prot m \<noteq> PROT_NONE \<longrightarrow> m_prot n \<noteq> PROT_NONE \<longrightarrow>
     (\<exists>i. m_shared m \<and> m_backing m = FileBacked (file_of s) i \<and> m_shared n \<and> m_backing n = FileBacked (file_of t) i))"

text \<open>The subcontext is one memory: an address of an active region is the same byte in every process, and a
  reserved range cannot be touched.\<close>

definition one_memory :: "env \<Rightarrow> world \<Rightarrow> bool" where
  "one_memory E w \<longleftrightarrow> (\<exists>act rsv fre. region_core E (nobody (common w)) act rsv fre \<and>
     (\<forall>p s q t a x. part w p = Some s \<longrightarrow> part w q = Some t \<longrightarrow> a \<in> set act \<longrightarrow>
        in_block x (region_range (regs (common w)) a) \<longrightarrow> same_byte s t x) \<and>
     (\<forall>p s a x. part w p = Some s \<longrightarrow> a \<in> set rsv \<longrightarrow> in_block x (region_range (regs (common w)) a) \<longrightarrow> inert (vmap s x)))"

text \<open>If two processes can touch the addresses \<open>x\<close> and \<open>y\<close>, they touch different bytes of the backing file.\<close>

definition other_byte :: "st \<Rightarrow> st \<Rightarrow> u64 \<Rightarrow> u64 \<Rightarrow> bool" where
  "other_byte s t x y \<longleftrightarrow> (\<forall>m n i j. vmap s x = Some m \<longrightarrow> vmap t y = Some n \<longrightarrow> m_prot m \<noteq> PROT_NONE \<longrightarrow> m_prot n \<noteq> PROT_NONE \<longrightarrow>
     m_backing m = FileBacked (file_of s) i \<longrightarrow> m_backing n = FileBacked (file_of t) j \<longrightarrow> i \<noteq> j)"

text \<open>No two addresses of active regions share a byte of the file, in whichever processes, and what can be touched is
  within the size that the subcontext records for the file.\<close>

definition own_bytes :: "env \<Rightarrow> world \<Rightarrow> bool" where
  "own_bytes E w \<longleftrightarrow> (\<exists>act rsv fre. region_core E (nobody (common w)) act rsv fre \<and>
     (\<forall>p s q t a b x y. part w p = Some s \<longrightarrow> part w q = Some t \<longrightarrow> a \<in> set act \<longrightarrow> b \<in> set act \<longrightarrow>
        in_block x (region_range (regs (common w)) a) \<longrightarrow> in_block y (region_range (regs (common w)) b) \<longrightarrow> x \<noteq> y \<longrightarrow> other_byte s t x y) \<and>
     (\<forall>p s a x m i. part w p = Some s \<longrightarrow> a \<in> set act \<longrightarrow> in_block x (region_range (regs (common w)) a) \<longrightarrow> vmap s x = Some m \<longrightarrow>
        m_prot m \<noteq> PROT_NONE \<longrightarrow> m_backing m = FileBacked (file_of s) i \<longrightarrow> unat i < unat (tmpfile_size (rt (common w)))))"

section \<open>Lemmas\<close>

lemma core_unique:
  assumes "region_core E s act rsv fre" "region_core E s act' rsv' fre'" shows "act' = act" "rsv' = rsv"
  using assms by (auto simp: region_core_def region_lists_def intro: chain_unique)

lemma coherentD:
  assumes "coherent E w" and core: "region_core E (nobody (common w)) act rsv fre"
  shows "shielded (common w) rsv" "\<And>p s. part w p = Some s \<Longrightarrow> proc_sees (common w) act rsv (p \<in> flushed w) s"
    "file_grows E \<longrightarrow> laid (nobody (common w)) act"
proof -
  from assms(1) obtain a r f where c: "region_core E (nobody (common w)) a r f" "shielded (common w) r"
    "\<forall>p s. part w p = Some s \<longrightarrow> proc_sees (common w) a r (p \<in> flushed w) s" "file_grows E \<longrightarrow> laid (nobody (common w)) a"
    by (auto simp: coherent_def)
  from core_unique [OF core c(1)] c(2-4)
  show "shielded (common w) rsv" "\<And>p s. part w p = Some s \<Longrightarrow> proc_sees (common w) act rsv (p \<in> flushed w) s"
    "file_grows E \<longrightarrow> laid (nobody (common w)) act" by simp_all
qed

lemma coherentI:
  assumes "region_core E (nobody (common w)) act rsv fre" "shielded (common w) rsv" "file_grows E \<longrightarrow> laid (nobody (common w)) act"
    "\<And>p s. part w p = Some s \<Longrightarrow> proc_sees (common w) act rsv (p \<in> flushed w) s"
  shows "coherent E w"
  using assms unfolding coherent_def by blast

lemma coherent_own [simp]: "coherent E (w\<lparr>owned := W\<rparr>) = coherent E w"
  by (simp add: coherent_def flushed_def lastSeq_def)

lemma stands_blocked: "stands_for fd r x (Some blocked_page)" "inert (Some blocked_page)"
  by (simp_all add: stands_for_def inert_def blocked_page_def)

text \<open>Blocking pages harms nothing.\<close>

lemma proc_sees_block:
  assumes "proc_sees c act rsv f s" "file_of s' = file_of s" "\<And>x. vmap s' x = (if x \<in> X then Some blocked_page else vmap s x)"
    "f' \<Longrightarrow> pending_reservation (rt c) \<noteq> 0 \<Longrightarrow> f \<or> (\<forall>x. in_block x (region_range (regs c) (pending_reservation (rt c))) \<longrightarrow> x \<in> X)"
  shows "proc_sees c act rsv f' s'"
  using assms by (auto simp: proc_sees_def sees_def stands_blocked)

lemma vm_map_reserve: "vm_map vm a (reserve_req b n) x = (if x \<in> {x. in_block x (a, n)} then Some blocked_page else vm x)"
  by (simp add: vm_map_def reserve_req_def blocked_page_def mman_defs)

text \<open>The lists grow; what is pending stays.\<close>

lemma proc_sees_grown:
  assumes "proc_sees c act rsv f s" "grown (regs c) act rsv (regs c') act' rsv'" "pending_reservation (rt c') = pending_reservation (rt c)"
    "pending_reservation (rt c) \<noteq> 0 \<Longrightarrow> regs c' (pending_reservation (rt c)) = regs c (pending_reservation (rt c))"
  shows "proc_sees c' act' rsv' f s"
proof -
  have "region_range (regs c') (pending_reservation (rt c)) = region_range (regs c) (pending_reservation (rt c))"
    if "pending_reservation (rt c) \<noteq> 0" using assms(4) [OF that] by (simp add: region_range_def)
  then show ?thesis using assms(1,3) sees_grown [OF assms(2)] by (auto simp: proc_sees_def)
qed

lemma shielded_grown:
  assumes "shielded c rsv" "grown (regs c) act rsv (regs c') act' rsv'" "pending_reservation (rt c') = pending_reservation (rt c)"
    "pending_reservation (rt c) \<noteq> 0 \<Longrightarrow> regs c' (pending_reservation (rt c)) = regs c (pending_reservation (rt c))"
    "active_regions (rt c') = active_regions (rt c)" "region_core E (nobody c) act rsv fre"
  shows "shielded c' rsv'"
proof -
  let ?a = "active_regions (rt c)"
  have "?a \<in> set act" using first_active [OF assms(6)] by simp
  then have "map_option unlinked (regs c' ?a) = map_option unlinked (regs c ?a)" "?a \<in> dom (regs c)"
    using assms(2,6) by (auto simp: grown_def region_core_def region_lists_def)
  then obtain r r' where "regs c ?a = Some r" "regs c' ?a = Some r'" "unlinked r' = unlinked r" by auto
  then have "r_tmpfile_offset (the (regs c' ?a)) = r_tmpfile_offset (the (regs c ?a))" using unlinked_fields(4) [of r' r] by simp
  then show ?thesis using assms(1,3-5) sealed_grown [OF assms(2)] by (simp add: shielded_def)
qed

lemma log_pending_ok:
  assumes "log_ok E w act rsv fre G" "pending_reservation (rt (common w)) \<noteq> 0"
  shows "pending_ok E (nobody (common w)) act rsv fre (pending_reservation (rt (common w)))"
  using assms by (auto simp: log_ok_def log_idle_def log_busy_def)

lemma coherent_commit:
  assumes co: "coherent E w" and core: "region_core E (nobody (common w)) act rsv fre" and core': "region_core E s' act' rsv' fre'"
    and gr: "grown (regs (common w)) act rsv (regs s') act' rsv'"
    and pend: "pending_reservation (rt s') = pending_reservation (rt (common w))"
      "pending_reservation (rt (common w)) \<noteq> 0 \<Longrightarrow> regs s' (pending_reservation (rt (common w))) = regs (common w) (pending_reservation (rt (common w)))"
    and first: "active_regions (rt s') = active_regions (rt (common w))"
    and fl: "flushed (commit p s' w) \<subseteq> insert p (flushed w)"
    and own: "proc_sees (common_of s') act' rsv' (p \<in> flushed (commit p s' w)) s'"
    and la: "file_grows E \<longrightarrow> laid (nobody (common w)) act \<longrightarrow> laid s' act'"
  shows "coherent E (commit p s' w)"
proof (rule coherentI)
  show "region_core E (nobody (common (commit p s' w))) act' rsv' fre'" using core' by (simp add: shared_views)
  show "file_grows E \<longrightarrow> laid (nobody (common (commit p s' w))) act'" using la coherentD(3) [OF co core] by simp
  show "shielded (common (commit p s' w)) rsv'"
    unfolding commit_simps by (rule shielded_grown [OF coherentD(1) [OF co core] _ _ _ _ core]) (use gr pend first in simp_all)
  fix p' t assume t: "part (commit p s' w) p' = Some t"
  show "proc_sees (common (commit p s' w)) act' rsv' (p' \<in> flushed (commit p s' w)) t"
  proof (cases "p' = p")
    case False
    then have "proc_sees (common w) act rsv (p' \<in> flushed w) t" using coherentD(2) [OF co core] t by simp
    then have "proc_sees (common_of s') act' rsv' (p' \<in> flushed w) t" by (rule proc_sees_grown) (use gr pend in simp_all)
    with fl False show ?thesis by (auto simp: proc_sees_def)
  qed (use own t in simp)
qed

text \<open>A step that leaves the address space of its process alone.\<close>

lemma coherent_calm:
  assumes ok: "world_ok E w" and co: "coherent E w" and s: "part w p = Some s" and c: "calm w s s'" and vm: "vmap s' = vmap s"
    and mv: "\<And>act rsv fre. region_core E (nobody (common w)) act rsv fre \<Longrightarrow>
       \<exists>act' rsv' fre'. region_core E s' act' rsv' fre' \<and> regions_move E (nobody (common w)) act rsv fre s' act' rsv' fre'"
  shows "coherent E (commit p s' w)"
  using ok
proof (rule world_okE)
  fix act rsv fre ps sz G
  assume core: "region_core E (nobody (common w)) act rsv fre" and log: "log_ok E w act rsv fre G"
  from mv [OF core] obtain act' rsv' fre' where core': "region_core E s' act' rsv' fre'"
    and mv': "regions_move E (nobody (common w)) act rsv fre s' act' rsv' fre'" by blast
  have r: "rt_rest (rt s') = rt_rest (rt (common w))" using c by (simp add: calm_def)
  note rf = rt_rest_fields [OF r]
  have gr: "grown (regs (common w)) act rsv (regs s') act' rsv'" using mv' by (simp add: regions_move_def)
  have keep: "regs s' (pending_reservation (rt (common w))) = regs (common w) (pending_reservation (rt (common w)))"
    if "pending_reservation (rt (common w)) \<noteq> 0" using pending_move(2) [OF mv' log_pending_ok [OF log that]] by simp
  have fl: "flushed (commit p s' w) = flushed w" by (rule flushed_commit(2) [OF s]) (use c rf in \<open>simp_all add: calm_def lastSeq_def\<close>)
  have "proc_sees (common_of s') act' rsv' (p \<in> flushed w) s"
    by (rule proc_sees_grown [OF coherentD(2) [OF co core s]]) (use gr keep rf in simp_all)
  then have "proc_sees (common_of s') act' rsv' (p \<in> flushed w) s'" using c vm by (simp add: proc_sees_def file_of_def calm_def)
  moreover have "file_grows E \<longrightarrow> laid (nobody (common w)) act \<longrightarrow> laid s' act'" using mv' by (simp add: regions_move_def)
  ultimately show ?thesis using fl by (intro coherent_commit [OF co core core' gr _ keep]) (use rf in auto)
qed

lemma still_move:
  assumes "regs s' = regs (common w)" "rt s' = rt (common w)" "region_core E (nobody (common w)) act rsv fre"
  shows "\<exists>act' rsv' fre'. region_core E s' act' rsv' fre' \<and> regions_move E (nobody (common w)) act rsv fre s' act' rsv' fre'"
proof -
  have "region_core E s' act rsv fre" using assms by (subst region_core_cong [of _ "nobody (common w)"]) simp_all
  moreover have "regions_move E (nobody (common w)) act rsv fre s' act rsv fre" by (rule regions_move_refl) (simp_all add: assms)
  ultimately show ?thesis by blast
qed

lemma keeps_vmap: "keeps (view (common w) s) s' \<Longrightarrow> vmap s' = vmap s"
  by (simp add: keeps_def)

lemma coherent_mmap:
  assumes "world_ok E w" "coherent E w" "part w p = Some s" and run: "sc_mmap E 0 n prot flags (- 1) 0 (view (common w) s) = (Inr r, s')"
  shows "coherent E (commit p s' w)"
proof (rule coherent_calm [OF assms(1-3)])
  show "calm w s s'" "vmap s' = vmap s" using keeps_calm keeps_vmap sc_mmap_keeps [OF run] by blast+
qed (use sc_mmap_move [OF _ run] in \<open>simp add: shared_views view_move\<close>)

lemma coherent_malloc:
  assumes "world_ok E w" "coherent E w" "part w p = Some s" and run: "sc_malloc E n (view (common w) s) = (Inr a, s')"
  shows "coherent E (commit p s' w)"
proof (rule coherent_calm [OF assms(1-3)])
  show "calm w s s'" "vmap s' = vmap s" using keeps_calm keeps_vmap sc_malloc_keeps [OF run] by blast+
qed (use sc_malloc_move [OF _ run] in \<open>simp add: shared_views view_move\<close>)

lemma coherent_free:
  assumes "world_ok E w" "coherent E w" "part w p = Some s" and run: "sc_free b (view (common w) s) = (Inr (), s')"
  shows "coherent E (commit p s' w)"
  by (rule coherent_calm [OF assms(1-3) _ _ still_move]) (use sc_free_frame [OF run] in \<open>simp_all add: calm_def\<close>)

lemma coherent_write:
  assumes "world_ok E w" "coherent E w" "part w p = Some s"
  shows "coherent E (commit p ((view (common w) s)\<lparr>mem := m\<rparr>) w)"
  by (rule coherent_calm [OF assms _ _ still_move]) (simp_all add: calm_def)

text \<open>The region that the handler finds is on the list.\<close>

lemma segv_walk_mem:
  "chain (region_next m) p xs 0 \<Longrightarrow> set xs \<subseteq> dom m \<Longrightarrow> segv_walk m v k p tr = Some (Inr (k', a), tr') \<Longrightarrow> a \<noteq> 0 \<Longrightarrow> a \<in> set xs"
proof (induction xs arbitrary: p k tr)
  case Nil
  then show ?case by (subst (asm) segv_walk.simps) auto
next
  case (Cons x xs)
  then obtain r where r: "m x = Some r" by auto
  have c: "chain (region_next m) (r_next r) xs 0" "p = x" "x \<noteq> 0" using Cons.prems(1) r by (auto simp: region_next_at)
  show ?case
  proof (cases "region_hit v r")
    case True
    with Cons.prems(3) r c show ?thesis by (subst (asm) segv_walk.simps) auto
  next
    case False
    with Cons.prems(3) r c have "segv_walk m v (LRegion x) (r_next r) (tr @ [LkSharedRec (LRegion x), UnSharedRec k]) = Some (Inr (k', a), tr')"
      by (subst (asm) segv_walk.simps) auto
    from Cons.IH [OF c(1) _ this] Cons.prems(2,4) show ?thesis by auto
  qed
qed

lemma fault_sees:
  assumes core: "region_core E s act rsv fre" and see: "sees (l_shm_file l) (regs s) act rsv vm" and a: "a \<in> set act" "regs s a = Some r"
  shows "sees (l_shm_file l) (regs s) act rsv (vm_map vm (r_vaddr r) (fault_req l r))"
proof -
  let ?vm = "vm_map vm (r_vaddr r) (fault_req l r)"
  have rr: "region_range (regs s) a = (r_vaddr r, r_len r)" using a by (simp add: region_range_def)
  have old: "?vm x = vm x" if "q \<in> set (act @ rsv)" "q \<noteq> a" "in_block x (region_range (regs s) q)" for q x
    using core_apart [OF core that(1) _ that(2)] a that(3) apart_not_in rr by (fastforce simp: vm_map_def fault_req_def)
  have "distinct (act @ rsv)" using core by (auto simp: region_core_def region_lists_def)
  then have na: "a \<notin> set rsv" using a(1) by auto
  have new: "stands_for (l_shm_file l) r x (?vm x)" if "in_block x (region_range (regs s) a)" for x
    using that rr by (simp add: stands_for_def vm_map_def fault_req_def mman_defs)
  show ?thesis
    unfolding sees_def
  proof (intro conjI ballI allI impI)
    fix q x assume q: "q \<in> set act" "in_block x (region_range (regs s) q)"
    show "stands_for (l_shm_file l) (the (regs s q)) x (?vm x)"
      using q new old [of q x] a(2) see by (cases "q = a") (auto simp: sees_def)
  next
    fix q x assume q: "q \<in> set rsv" "in_block x (region_range (regs s) q)"
    with na have "?vm x = vm x" by (intro old [of q]) auto
    with q see show "inert (?vm x)" by (simp add: sees_def)
  qed
qed

lemma coherent_fault:
  assumes ok: "world_ok E w" and co: "coherent E w" and s: "part w p = Some s"
    and run: "sc_signal_handler_SEGV E signum info (view (common w) s) = (Inr (), s')"
  shows "coherent E (commit p s' w)"
  using ok
proof (rule world_okE)
  fix act rsv fre ps sz G
  assume core: "region_core E (nobody (common w)) act rsv fre" and log: "log_ok E w act rsv fre G"
    and h: "alloc_inv E (nobody (common w)) (owned w + proc_bufs sz (rt (common w)) ps + G)"
  from segv_InrD [OF run] obtain vm tr v l a r k tr' where s': "s' = (view (common w) s)\<lparr>vmap := vm, lk := tr, prev_vaddr := v\<rparr>"
    and l: "locals s = [l]" and a: "a \<noteq> 0" "regs (common w) a = Some r"
      "segv_walk (regs (common w)) (si_addr info) LRoot (active_regions (rt (common w))) [] = Some (Inr (k, a), tr')"
    and vm: "r_vaddr r \<noteq> MAP_FAILED \<longrightarrow> vm = vm_map (vmap s) (r_vaddr r) (fault_req l r)"
    unfolding view_simps by blast
  have ch: "chain (region_next (regs (common w))) (active_regions (rt (common w))) act 0" "set act \<subseteq> dom (regs (common w))"
    using core by (auto simp: region_core_def region_lists_def)
  have am: "a \<in> set act" by (rule segv_walk_mem [OF ch a(3,1)])
  have "page_ok E" using h core by (simp add: alloc_inv_core)
  moreover have "range_ok E (the (regs (common w) a))" using core am by (auto simp: region_core_def list_all_iff)
  then have "range_ok E r" using a(2) by simp
  ultimately have vm': "vm = vm_map (vmap s) (r_vaddr r) (fault_req l r)" using vm range_not_failed by blast
  have fl: "flushed (commit p s' w) = flushed w" by (rule flushed_commit(2) [OF s]) (simp_all add: s' lastSeq_def)
  have ps: "proc_sees (common w) act rsv (p \<in> flushed w) s" by (rule coherentD(2) [OF co core s])
  have "sees (file_of s) (regs (common w)) act rsv vm"
    using fault_sees [OF core, of l "vmap s" a r] ps am a(2) l by (simp add: proc_sees_def file_of_def vm')
  moreover have "inert (vm x)" if pf: "p \<in> flushed w" "pending_reservation (rt (common w)) \<noteq> 0"
      "in_block x (region_range (regs (common w)) (pending_reservation (rt (common w))))" for x
  proof -
    have "apart (region_range (regs (common w)) (pending_reservation (rt (common w)))) (region_range (regs (common w)) a)"
      using log_pending_ok [OF log pf(2)] am by (simp add: pending_ok_def)
    then have "\<not> in_block x (r_vaddr r, r_len r)" using apart_not_in pf(3) a(2) by (fastforce simp: region_range_def)
    then have "vm x = vmap s x" by (simp add: vm' vm_map_def fault_req_def)
    with ps pf show ?thesis by (simp add: proc_sees_def)
  qed
  ultimately have own: "proc_sees (common_of s') act rsv (p \<in> flushed w) s'" by (simp add: proc_sees_def file_of_def s')
  have core': "region_core E s' act rsv fre" using core by (subst region_core_cong [of _ "nobody (common w)"]) (simp_all add: s')
  show ?thesis
    by (rule coherent_commit [OF co core core']) (use own fl laid_cong [of s' "nobody (common w)" act] in \<open>auto simp: s' grown_refl\<close>)
qed

text \<open>A process posts a reservation, with the range blocked in its own address space only.\<close>

lemma coherent_post:
  assumes ok: "world_ok E w" and co: "coherent E w" and s: "part w p = Some s" and K: "kernel_ok E"
    and pr: "pending_reservation (rt (common w)) = 0"
    and run: "ctl_addReserved E others pages (view (common w) s) = (Inr (), s')"
  shows "coherent E (commit p s' w)"
  using ok
proof (rule world_okE)
  fix act rsv fre ps sz G
  assume core: "region_core E (nobody (common w)) act rsv fre" and parts: "parts_ok w (act @ rsv)"
    and log: "log_ok E w act rsv fre G" and h: "alloc_inv E (nobody (common w)) (owned w + proc_bufs sz (rt (common w)) ps + G)"
  from log_pending [OF log pr] have idle: "log_idle w" by simp
  note see = coherentD [OF co core]
  from core parts h idle s K run show ?thesis
  proof (cases rule: ctl_post_InrD)
    case (nomem act' rsv' fre')
    note rf = rt_rest_fields [OF nomem(8)]
    have fl: "flushed (commit p s' w) = flushed w" by (rule flushed_commit(2) [OF s]) (use nomem(1) rf in \<open>simp_all add: calm_def lastSeq_def\<close>)
    have "proc_sees (common_of s') act' rsv' (p \<in> flushed w) s" by (rule proc_sees_grown [OF see(2) [OF s]]) (use nomem(6) rf pr in simp_all)
    then have "proc_sees (common_of s') act' rsv' (p \<in> flushed w) s'" using nomem(1,9) by (simp add: proc_sees_def file_of_def calm_def)
    with fl nomem(10) show ?thesis by (intro coherent_commit [OF co core nomem(2,6)]) (use rf pr in auto)
  next
    case (posted q c a n)
    note post = posted(1)
    from post obtain act' rsv' fre' where core': "region_core E s' act' rsv' fre'" and gr: "grown (regs (common w)) act rsv (regs s') act' rsv'"
      and la: "file_grows E \<longrightarrow> laid (nobody (common w)) act \<longrightarrow> laid s' act'"
      by (auto simp: posted_def)
    have q: "pending_reservation (rt s') = q" "regs s' q = Some (pending_region a n)" and vm: "vmap s' = vm_map (vmap s) a (reserve_req 0 n)"
      and ls: "cleanupLog_lastSeqNum (rt s') = lastSeq w + 1" using post by (simp_all add: posted_def lastSeq_def)
    have r: "rt_rest (rt s') = rt_rest (post_rt q c (rt (common w)))" using post by (simp add: posted_def)
    note rf = rt_rest_fields [OF r]
    from parts s obtain l where l: "locals s = [l]" "l_sc l = root_addr (common w)" "my_local (view (common w) s) = Some l" by (rule part_local)
    have "map l_sc (locals s') = map l_sc (locals s)" "root_addr s' = root_addr (common w)"
      "my_local s' = Some (l\<lparr>l_flushPoint := l_flushPoint l + 1\<rparr>)" using post l(3) by (simp_all add: posted_def)
    then have loc: "locals s' = [l\<lparr>l_flushPoint := l_flushPoint l + 1\<rparr>]"
      using l(1) by (cases "locals s'") (auto simp: my_local_def split: if_splits)
    have fl: "flushed (commit p s' w) = {p}"
      by (rule flushed_posted [OF s idle _ ls]) (simp add: flushed_to_def loc l(1))
    show ?thesis
    proof (rule coherentI)
      show "region_core E (nobody (common (commit p s' w))) act' rsv' fre'" using core' by (simp add: shared_views)
      show "file_grows E \<longrightarrow> laid (nobody (common (commit p s' w))) act'" using la see(3) by simp
      have "shielded (common w) rsv" by (rule see(1))
      then have "shielded (common_of s'\<lparr>rt := rt (common w)\<rparr>) rsv'" by (rule shielded_grown [OF _ _ _ _ _ core]) (use gr pr in simp_all)
      then show "shielded (common (commit p s' w)) rsv'" using q rf by (simp add: shielded_def pending_region_def post_rt_def)
      fix p' t assume t: "part (commit p s' w) p' = Some t"
      show "proc_sees (common (commit p s' w)) act' rsv' (p' \<in> flushed (commit p s' w)) t"
      proof (cases "p' = p")
        case True
        have "sees (file_of s) (regs s') act' rsv' (vmap s)" using see(2) [OF s] sees_grown [OF gr] by (simp add: proc_sees_def)
        then have "proc_sees (common_of s') act' rsv' False s" by (simp add: proc_sees_def)
        then have "proc_sees (common_of s') act' rsv' True s'"
          by (rule proc_sees_block [where X = "{x. in_block x (a, n)}"])
            (use vm q vm_map_reserve in \<open>simp_all add: file_of_def loc l(1) region_range_def pending_region_def\<close>)
        with True t fl show ?thesis by simp
      next
        case False
        with t have "part w p' = Some t" by simp
        from see(2) [OF this] have "sees (file_of t) (regs s') act' rsv' (vmap t)" using sees_grown [OF gr] by (simp add: proc_sees_def)
        with False fl show ?thesis by (simp add: proc_sees_def)
      qed
    qed
  qed
qed

text \<open>A turn blocks the proposed range, and the last one moves it to the reserved list.\<close>

lemma drained_sees:
  assumes see: "proc_sees (common w) act rsv f s" and d: "drained (view (common w) s) [cleanupLog (rt (common w))] s1"
    and b: "steps (common w) (cleanupLog (rt (common w))) = Some c"
      "step_range c = region_range (regs (common w)) (pending_reservation (rt (common w)))" and l: "locals s = [l]"
  shows "proc_sees (common w) act rsv True s1" "file_of s1 = file_of s"
proof -
  have f: "map l_shm_file (locals s1) = [l_shm_file l]" using d l by (simp add: drained_def)
  then show fo: "file_of s1 = file_of s" using l by (cases "locals s1") (auto simp: file_of_def)
  have vm: "vmap s1 x = (if x \<in> {x. in_block x (step_range c)} then Some blocked_page else vmap s x)" for x
    using d b(1) by (simp add: drained_def)
  show "proc_sees (common w) act rsv True s1" by (rule proc_sees_block [OF see fo vm]) (simp add: b(2))
qed

lemma unlinked_sees:
  assumes "\<forall>p. map_option unlinked (m' p) = map_option unlinked (m p)" "set act \<subseteq> dom m" and see: "sees fd m act rsv vm"
    and q: "\<forall>x. in_block x (region_range m q) \<longrightarrow> inert (vm x)"
  shows "sees fd m' act (q # rsv) vm"
proof -
  have rr: "region_range m' p = region_range m p" for p using assms(1) unlinked_range by blast
  have "stands_for fd (the (m' p)) x v = stands_for fd (the (m p)) x v" if p: "p \<in> set act" for p x v
  proof -
    from p assms(2) obtain r where r: "m p = Some r" by auto
    with assms(1) have "map_option unlinked (m' p) = Some (unlinked r)" by simp
    then obtain r' where "m' p = Some r'" "unlinked r' = unlinked r" by auto
    then show ?thesis using r unlinked_fields [of r' r] by (simp add: stands_for_def)
  qed
  then show ?thesis using see q by (simp add: sees_def rr)
qed

lemma coherent_cleaned:
  assumes co: "coherent E w" and core: "region_core E (nobody (common w)) act rsv fre" and s: "part w p = Some s" "locals s = [l]"
    and b: "steps (common w) (cleanupLog (rt (common w))) = Some c" "pending_reservation (rt (common w)) \<noteq> 0"
      "step_range c = region_range (regs (common w)) (pending_reservation (rt (common w)))"
    and all: "insert p (flushed w) = dom (part w)"
    and d: "drained (view (common w) s) [cleanupLog (rt (common w))] s1" and cl: "cleaned E s1 act rsv fre L s'"
  shows "coherent E (commit p s' w)"
proof -
  let ?q = "pending_reservation (rt (common w))" and ?m = "regs (common w)"
  note see = coherentD [OF co core] and ds = drained_sees [OF coherentD(2) [OF co core s(1)] d b(1,3) s(2)]
  have e: "rt s1 = rt (common w)" "regs s1 = ?m" using d by (simp_all add: drained_def)
  have un: "\<forall>p. map_option unlinked (regs s' p) = map_option unlinked (?m p)" and core': "region_core E s' act (?q # rsv) fre"
    and rt': "rt s' = (rt (common w))\<lparr>pending_reservation := 0, reserved_regions := ?q, cleanupLog := 0, cleanupLog_tail := 0\<rparr>"
    and o: "locals s' = locals s1" "vmap s' = vmap s1" using cl by (simp_all add: cleaned_def e)
  have dm: "set (act @ rsv) \<subseteq> dom ?m" using core by (auto simp: region_core_def region_lists_def)
  have same: "r_prot (the (regs s' x)) = r_prot (the (?m x)) \<and> r_tmpfile_offset (the (regs s' x)) = r_tmpfile_offset (the (?m x))" for x
  proof (cases "?m x")
    case None
    then have "map_option unlinked (regs s' x) = None" using un by simp
    with None show ?thesis by simp
  next
    case (Some r)
    then have "map_option unlinked (regs s' x) = Some (unlinked r)" using un by simp
    then obtain r' where "regs s' x = Some r'" "unlinked r' = unlinked r" by auto
    with Some show ?thesis using unlinked_fields [of r' r] by simp
  qed
  have ps: "sees (file_of t) (regs s') act (?q # rsv) (vmap t)" if "proc_sees (common w) act rsv True t" for t
    by (rule unlinked_sees [OF un]) (use that dm b(2) in \<open>auto simp: proc_sees_def\<close>)
  show ?thesis
  proof (rule coherentI)
    show "region_core E (nobody (common (commit p s' w))) act (?q # rsv) fre" using core' by (simp add: shared_views)
    have "laid s' act = laid (nobody (common w)) act" by (rule laid_unlinked) (use un dm in \<open>simp_all add: rt'\<close>)
    then show "file_grows E \<longrightarrow> laid (nobody (common (commit p s' w))) act" using see(3) by simp
    show "shielded (common (commit p s' w)) (?q # rsv)" using see(1) b(2) same by (auto simp: shielded_def sealed_def rt')
    fix p' t assume t: "part (commit p s' w) p' = Some t"
    have "sees (file_of t) (regs s') act (?q # rsv) (vmap t)"
    proof (cases "p' = p")
      case True
      from ps [OF ds(1)] show ?thesis using True t o by (simp add: file_of_def)
    next
      case False
      then have "part w p' = Some t" "p' \<in> flushed w" using t all by auto
      with see(2) [of p' t] show ?thesis by (intro ps) simp
    qed
    then show "proc_sees (common (commit p s' w)) act (?q # rsv) (p' \<in> flushed (commit p s' w)) t" by (simp add: proc_sees_def rt')
  qed
qed

lemma coherent_turn:
  assumes ok: "world_ok E w" and co: "coherent E w" and s: "part w p = Some s" and lq: "lock_query_ok E"
    and run: "bg_turn E (view (common w) s) = (Inr (), s')"
  shows "coherent E (commit p s' w)"
  using ok
proof (rule world_okE)
  fix act rsv fre ps sz G
  assume core: "region_core E (nobody (common w)) act rsv fre" and parts: "parts_ok w (act @ rsv)"
    and log: "log_ok E w act rsv fre G" and h: "alloc_inv E (nobody (common w)) (owned w + proc_bufs sz (rt (common w)) ps + G)"
  from parts s obtain l where l: "locals s = [l]" by (rule part_local)
  have fin: "finite (dom (part w))" using parts by (simp add: parts_ok_def)
  note see = coherentD [OF co core]
  from core parts log h s lq run show ?thesis
  proof (cases rule: turn_InrD)
    case settled
    show ?thesis by (rule coherent_calm [OF ok co s _ _ still_move]) (simp_all add: settled(2) calm_def)
  next
    case (early q c g n)
    have b: "steps (common w) (cleanupLog (rt (common w))) = Some c"
      "step_range c = region_range (regs (common w)) (pending_reservation (rt (common w)))" using early(2) by (simp_all add: log_busy_def)
    note ds = drained_sees [OF see(2) [OF s] early(4) b l]
    have e: "rt s' = rt (common w)" "regs s' = regs (common w)" using early(4) by (simp_all add: drained_def)
    have core': "region_core E s' act rsv fre" using core by (subst region_core_cong [of _ "nobody (common w)"]) (simp_all add: e)
    have fl: "flushed (commit p s' w) = insert p (flushed w)" by (rule flushed_turn [OF s early(5)]) (simp add: e lastSeq_def)
    have "proc_sees (common_of s') act rsv True s'" using ds(1) by (simp add: proc_sees_def e)
    moreover have "laid s' act = laid (nobody (common w)) act" by (rule laid_cong) (simp_all add: e)
    ultimately show ?thesis using fl by (intro coherent_commit [OF co core core']) (auto simp: e grown_refl)
  next
    case (last q c g n s1)
    have b: "steps (common w) (cleanupLog (rt (common w))) = Some c" "pending_reservation (rt (common w)) \<noteq> 0"
      "step_range c = region_range (regs (common w)) (pending_reservation (rt (common w)))"
      using last(2) by (auto simp: log_busy_def pending_ok_def)
    have h': "alloc_inv E (nobody (common w)) (owned w + proc_bufs sz (rt (common w)) ps + {#(cleanupLog (rt (common w)), n)#})"
      using h last(3) by simp
    have "cleaned E s1 act rsv fre (owned w + proc_bufs sz (rt (common w)) ps) s'"
      using turn_cleans [OF core last(2) h' last(4,6)] last(7) by auto
    from coherent_cleaned [OF co core s l b busy_last [OF last(2) s last(1) fin last(6)] last(4) this] show ?thesis .
  qed
qed

lemma coherent_join:
  assumes ok: "world_ok E w" and co: "coherent E w" and new: "part w p = None" and K: "kernel_ok E" "unat (getpagesize E) \<le> 2 ^ 20"
    and s: "pid s = p" "locals s = []" and lim: "card (dom (part w)) + 1 < 2 ^ 31"
    and run: "sc_join E B fd (view (common w) s) = (Inr r, s')" and r: "r \<noteq> 0"
  shows "coherent E (commit p s' w)"
proof -
  note jf = do_join_facts [OF ok new K(1) s lim run r]
  from jf obtain act rsv fre act' rsv' fre' where
    core: "region_core E (nobody (common w)) act rsv fre" and core': "region_core E s' act' rsv' fre'"
    and gr: "grown (regs (common w)) act rsv (regs s') act' rsv'"
    and pend: "pending_reservation (rt (common w)) = 0" "pending_reservation (rt s') = 0"
    and first: "active_regions (rt s') = active_regions (rt (common w))"
    and la: "file_grows E \<longrightarrow> laid (nobody (common w)) act \<longrightarrow> laid s' act'"
    and see: "sealed (regs (common w)) rsv \<Longrightarrow> r_tmpfile_offset (the (regs (common w) (active_regions (rt (common w))))) = 0 \<Longrightarrow>
       sees (l_shm_file (hd (locals s'))) (regs s') act' rsv' (vmap s')" using K(2) by blast
  have "sees (file_of s') (regs s') act' rsv' (vmap s')"
    unfolding file_of_def by (rule see) (use coherentD(1) [OF co core] in \<open>simp_all add: shielded_def\<close>)
  then have own: "proc_sees (common_of s') act' rsv' f s'" for f by (simp add: proc_sees_def pend)
  have "cleanupLog_lastSeqNum (rt s') = lastSeq w" using jf by blast
  then have fl: "flushed (commit p s' w) \<subseteq> insert p (flushed w)" by (auto simp: flushed_def lastSeq_def)
  show ?thesis by (rule coherent_commit [OF co core core' gr _ _ first fl own la]) (use pend in simp_all)
qed

lemma coherent_leave:
  assumes ok: "world_ok E w" and co: "coherent E w" and s: "part w p = Some s"
    and run: "sc_killLocalProc (view (common w) s) = (Inl (Exit (- 1)), s')"
  shows "coherent E (without p s' w)"
proof -
  from do_leave_facts [OF ok s run] obtain n a where r: "rt s' = (rt (common w))\<lparr>proc_count := n, proc_list := a\<rparr>"
    and regs: "regs s' = regs (common w)" by blast
  from co obtain act rsv fre where core: "region_core E (nobody (common w)) act rsv fre" by (auto simp: coherent_def)
  note see = coherentD [OF co core]
  have "region_core E s' act rsv fre" using core by (subst region_core_cong [of _ "nobody (common w)"]) (simp_all add: r regs)
  then have core': "region_core E (nobody (common (without p s' w))) act rsv fre" by (simp add: shared_views)
  have fl: "flushed (without p s' w) = flushed w - {p}" by (rule flushed_without) (simp add: r lastSeq_def)
  show ?thesis
  proof (rule coherentI [OF core'])
    have "laid s' act = laid (nobody (common w)) act" by (rule laid_cong) (simp_all add: r regs)
    then show "file_grows E \<longrightarrow> laid (nobody (common (without p s' w))) act" using see(3) by simp
    show "shielded (common (without p s' w)) rsv" using see(1) by (simp add: shielded_def r regs)
    fix p' t assume "part (without p s' w) p' = Some t"
    then have "part w p' = Some t" "p' \<noteq> p" by (auto split: if_splits)
    with see(2) [of p' t] show "proc_sees (common (without p s' w)) act rsv (p' \<in> flushed (without p s' w)) t"
      by (simp add: proc_sees_def fl r regs)
  qed
qed

section \<open>Every step keeps the mappings coherent\<close>

lemma step_coherent:
  assumes "world_step E B w e w'" "world_ok E w" "coherent E w" "kernel_ok E" "unat (getpagesize E) \<le> 2 ^ 20" "lock_query_ok E"
    "card (dom (part w)) + 1 < 2 ^ 31"
  shows "coherent E w'"
  using assms(1)
proof cases
  case (do_mmap p s len prot r s')
  then show ?thesis using coherent_mmap [OF assms(2,3)] by simp
next
  case (do_malloc p s n a s')
  then show ?thesis using coherent_malloc [OF assms(2,3)] by simp
next
  case (do_free p s b s')
  then show ?thesis using coherent_free [OF assms(2,3)] by simp
next
  case (do_write p s b m)
  then show ?thesis using coherent_write [OF assms(2,3)] by simp
next
  case (do_fault p s info s')
  then show ?thesis using coherent_fault [OF assms(2,3)] by simp
next
  case (do_post p s pages s')
  then show ?thesis using coherent_post [OF assms(2,3) _ assms(4)] by simp
next
  case (do_turn p s s')
  then show ?thesis using coherent_turn [OF assms(2,3) _ assms(6)] by simp
next
  case (do_join p s fd r s')
  then show ?thesis using coherent_join [OF assms(2,3) _ assms(4,5) _ _ assms(7)] by simp
next
  case (do_leave p s s')
  then show ?thesis using coherent_leave [OF assms(2,3)] by (simp add: leave_without)
qed

lemma run_coherent:
  assumes "world_run E B w es w'" "world_inv E (length es + n) w" "coherent E w" "kernel_ok E" "unat (getpagesize E) \<le> 2 ^ 20" "lock_query_ok E"
  shows "coherent E w'"
  using assms(1-3)
proof (induction arbitrary: n)
  case (step w es w' e w'')
  then have co: "coherent E w'" using step.IH [of "Suc n"] by simp
  have "world_inv E (Suc n) w'" using run_world_inv [OF step.hyps(1) _ assms(4,6)] step.prems(1) by simp
  note i = world_inv_Suc [OF this]
  show ?case by (rule step_coherent [OF step.hyps(2) i(1) co assms(4-6) i(3)])
qed

lemma initialised_coherent:
  assumes init: "initialised E fd tid page (pid s) s" and l: "map l_sc (locals s) = [page]"
  shows "coherent E (first_world s)"
proof -
  let ?w = "first_world s"
  from init obtain act rsv fre where core: "region_core E s act rsv fre" and see: "sees fd (regs s) act rsv (vmap s)" "sealed (regs s) rsv" "laid s act"
    "r_tmpfile_offset (the (regs s (active_regions (rt s)))) = 0" and r: "pending_reservation (rt s) = 0" "my_local s = Some (fresh_local page fd tid)"
    unfolding initialised_def by blast
  have "file_of s = fd" using l r(2) by (cases "locals s") (auto simp: my_local_def file_of_def fresh_local_def split: if_splits)
  then have "proc_sees (common_of s) act rsv f s" for f using see r by (simp add: proc_sees_def)
  then show ?thesis by (intro coherentI [of _ _ act rsv fre]) (use core see r in \<open>auto simp: shared_views shielded_def split: if_splits\<close>)
qed

lemma coherent_same_byte:
  assumes co: "coherent E w" and core: "region_core E (nobody (common w)) act rsv fre"
    and s: "part w p = Some s" "part w q = Some t" and a: "a \<in> set act" "in_block x (region_range (regs (common w)) a)"
  shows "same_byte s t x"
proof -
  have "proc_sees (common w) act rsv (p \<in> flushed w) s" "proc_sees (common w) act rsv (q \<in> flushed w) t"
    using coherentD(2) [OF co core] s by blast+
  then have "stands_for (file_of s) (the (regs (common w) a)) x (vmap s x)" "stands_for (file_of t) (the (regs (common w) a)) x (vmap t x)"
    using a by (simp_all add: proc_sees_def sees_def)
  then show ?thesis by (auto simp: same_byte_def stands_for_def)
qed

lemma coherent_reserved:
  assumes co: "coherent E w" and core: "region_core E (nobody (common w)) act rsv fre"
    and s: "part w p = Some s" and a: "a \<in> set rsv" "in_block x (region_range (regs (common w)) a)"
  shows "inert (vmap s x)"
  using coherentD(2) [OF co core s] a by (simp add: proc_sees_def sees_def)

lemma coherent_one_memory:
  assumes "coherent E w" shows "one_memory E w"
proof -
  from assms obtain act rsv fre where core: "region_core E (nobody (common w)) act rsv fre" by (auto simp: coherent_def)
  show ?thesis
    unfolding one_memory_def
    by (intro exI [of _ act] exI [of _ rsv] exI [of _ fre] conjI allI impI core coherent_same_byte [OF assms core] coherent_reserved [OF assms core])
qed

text \<open>Within a region the offset follows the address, and different regions have different pages of the file.\<close>

lemma stands_offset:
  assumes core: "region_core E (nobody c) act rsv fre" and la: "laid (nobody c) act" and a: "a \<in> set act" "in_block x (region_range (regs c) a)"
    and st: "stands_for fd (the (regs c a)) x (Some m)" "m_prot m \<noteq> PROT_NONE" "m_backing m = FileBacked fd i"
  shows "in_block i (file_block (regs c) a)" "unat i < unat (tmpfile_size (rt c))" "x = i - r_tmpfile_offset (the (regs c a)) + r_vaddr (the (regs c a))"
proof -
  let ?r = "the (regs c a)"
  have i: "i = r_tmpfile_offset ?r + (x - r_vaddr ?r)" using st by (simp add: stands_for_def)
  then show "x = i - r_tmpfile_offset ?r + r_vaddr ?r" by simp
  have "a \<in> dom (regs c)" using core a(1) by (auto simp: region_core_def region_lists_def)
  then have x: "unat (r_vaddr ?r) \<le> unat x" "unat x < unat (r_vaddr ?r) + unat (r_len ?r)"
    using a(2) by (auto simp: in_block_def region_range_def)
  have le: "unat (r_tmpfile_offset ?r) + unat (r_len ?r) \<le> unat (tmpfile_size (rt c))"
    using bspec [OF conjunct1 [OF conjunct2 [OF la [unfolded laid_def]]] a(1)] by (simp add: file_block_def)
  have "unat (x - r_vaddr ?r) = unat x - unat (r_vaddr ?r)" using x by (simp add: unat_sub word_le_nat_alt)
  moreover have "unat (tmpfile_size (rt c)) < 2 ^ 64" using unsigned_less [of "tmpfile_size (rt c)"] by simp
  ultimately have "unat i = unat (r_tmpfile_offset ?r) + (unat x - unat (r_vaddr ?r))" using x le by (simp add: i unat_word_ariths)
  then show "in_block i (file_block (regs c) a)" "unat i < unat (tmpfile_size (rt c))"
    using x le by (auto simp: in_block_def file_block_def)
qed

lemma coherent_own_bytes:
  assumes co: "coherent E w" and grows: "file_grows E" shows "own_bytes E w"
proof -
  from co obtain act rsv fre where core: "region_core E (nobody (common w)) act rsv fre" by (auto simp: coherent_def)
  have la: "laid (nobody (common w)) act" using coherentD(3) [OF co core] grows by simp
  have st: "stands_for (file_of s) (the (regs (common w) a)) x (vmap s x)"
    if "part w p = Some s" "a \<in> set act" "in_block x (region_range (regs (common w)) a)" for p s a x
    using coherentD(2) [OF co core that(1)] that(2,3) by (simp add: proc_sees_def sees_def)
  have "other_byte s t x y" if h: "part w p = Some s" "part w q = Some t" "a \<in> set act" "b \<in> set act"
    "in_block x (region_range (regs (common w)) a)" "in_block y (region_range (regs (common w)) b)" "x \<noteq> y" for p s q t a b x y
    unfolding other_byte_def
  proof (intro allI impI notI)
    fix m n i j assume v: "vmap s x = Some m" "vmap t y = Some n" "m_prot m \<noteq> PROT_NONE" "m_prot n \<noteq> PROT_NONE"
      "m_backing m = FileBacked (file_of s) i" "m_backing n = FileBacked (file_of t) j" "i = j"
    have i: "in_block i (file_block (regs (common w)) a)" "x = i - r_tmpfile_offset (the (regs (common w) a)) + r_vaddr (the (regs (common w) a))"
      using stands_offset [OF core la h(3,5) st [OF h(1,3,5), unfolded v(1)] v(3,5)] by simp_all
    have j: "in_block j (file_block (regs (common w)) b)" "y = j - r_tmpfile_offset (the (regs (common w) b)) + r_vaddr (the (regs (common w) b))"
      using stands_offset [OF core la h(4,6) st [OF h(2,4,6), unfolded v(2)] v(4,6)] by simp_all
    have "a \<noteq> b" using i(2) j(2) v(7) h(7) by auto
    then have "apart (file_block (regs (common w)) a) (file_block (regs (common w)) b)" using la h(3,4) by (simp add: laid_def)
    then show False using apart_not_in i(1) j(1) v(7) by blast
  qed
  moreover have "unat i < unat (tmpfile_size (rt (common w)))" if "part w p = Some s" "a \<in> set act"
    "in_block x (region_range (regs (common w)) a)" "vmap s x = Some m" "m_prot m \<noteq> PROT_NONE" "m_backing m = FileBacked (file_of s) i" for p s a x m i
    using stands_offset(2) [OF core la that(2,3) st [OF that(1-3), unfolded that(4)] that(5,6)] .
  ultimately show ?thesis unfolding own_bytes_def using core by blast
qed

section \<open>Properties\<close>

text \<open>C4: The same address means the same byte in every process. After any run of any processes on a
  subcontext that a process has created, two processes that can touch an address of an active region
  touch the same byte of the backing file there, whether a process mapped the page when it created the
  subcontext, when it joined or in its fault handler; and no process can touch a reserved range. If the
  file system has room for the file to grow, different addresses of active regions are different bytes of
  the file, in whichever processes, and no access goes beyond the recorded size of the file.\<close>

theorem same_address_same_byte:
  assumes "file_len s = 0" and "init_granted E B fd (vmap s)" and "layout_ok E B" and "5 \<le> first_count E B"
    and "kernel_ok E" and "page_ok E" and "unat (getpagesize E) dvd 2 ^ 20" and "lock_query_ok E"
    and "0 < sint (sizeof_sc_process E)" and "2 * unat (grow_size E (sizeof_sc_process E)) < 2 ^ 20" and "locals s = []"
  shows "\<exists>page s'. sc_init E B fd s = (Inr page, s') \<and> page \<noteq> 0 \<and>
     (\<forall>es w. length es + 1 < 2 ^ 31 \<longrightarrow> world_run E B (first_world s') es w \<longrightarrow>
        one_memory E w \<and> (file_grows E \<longrightarrow> own_bytes E w))"
proof -
  from sc_init_ok [OF assms(1-10)] obtain page s' where i: "sc_init E B fd s = (Inr page, s')" "page \<noteq> 0"
    "initialised E fd (os_child_tid B) page (pid s') s'" "map l_sc (locals s') = [page]" using assms(11) by auto
  have pg: "unat (getpagesize E) \<le> 2 ^ 20" using dvd_imp_le [OF assms(7)] by simp
  have "one_memory E w \<and> (file_grows E \<longrightarrow> own_bytes E w)" if "length es + 1 < 2 ^ 31" "world_run E B (first_world s') es w" for es w
  proof -
    have "world_inv E (length es + 0) (first_world s')" using initialised_world(1) [OF i(3,4)] that(1) by simp
    from run_coherent [OF that(2) this initialised_coherent [OF i(3,4)] assms(5) pg assms(8)] have "coherent E w" .
    then show ?thesis using coherent_one_memory coherent_own_bytes by blast
  qed
  with i(1,2) show ?thesis by blast
qed

theorem same_address_same_byte_witness:
  "\<exists>page s' w. sc_init boot_env demo_boot 5 (demo_none_st\<lparr>locals := []\<rparr>) = (Inr page, s') \<and>
     world_run boot_env demo_boot (first_world s') [Turn (pid s')] w \<and> one_memory boot_env w \<and> own_bytes boot_env w"
proof -
  let ?s = "demo_none_st\<lparr>locals := []\<rparr>"
  have lay: "layout_ok boot_env demo_boot" "5 \<le> first_count boot_env demo_boot"
    by (simp_all add: layout_ok_def first_count_def demo_boot_def)
  have sz: "unat (getpagesize boot_env) dvd 2 ^ 20" "0 < sint (sizeof_sc_process boot_env)"
    "2 * unat (grow_size boot_env (sizeof_sc_process boot_env)) < 2 ^ 20"
    by (simp_all add: malloc_mmap_size_def malloc_alloc_size_def)
  have st: "file_len ?s = 0" "init_granted boot_env demo_boot 5 (vmap ?s)" "locals ?s = []"
    using boot_granted by (simp_all add: demo_none_st_def demo_defs)
  from same_address_same_byte [OF st(1,2) lay boot_env_ok(1,2) sz(1) boot_env_ok(3) sz(2,3) st(3)] obtain page s' where
    i: "sc_init boot_env demo_boot 5 ?s = (Inr page, s')"
    and ok: "\<And>es w. length es + 1 < 2 ^ 31 \<Longrightarrow> world_run boot_env demo_boot (first_world s') es w \<Longrightarrow>
      one_memory boot_env w \<and> own_bytes boot_env w"
    by (auto simp: file_grows_def)
  from sc_init_ok [OF st(1,2) lay boot_env_ok(1,2) sz(1) boot_env_ok(3) sz(2,3)] i st(3)
  have "initialised boot_env 5 (os_child_tid demo_boot) page (pid s') s'" "map l_sc (locals s') = [page]" by auto
  from first_world_turn [OF this, of boot_env demo_boot] obtain w where
    run: "world_run boot_env demo_boot (first_world s') [Turn (pid s')] w" by blast
  with ok [OF _ run] i show ?thesis by auto
qed

end
