(* ===== verification/SC_Maps.thy ===== *)
theory SC_Maps
  imports SC_Text
begin

text \<open>
  The maps parser (\<^verbatim>\<open>src/mem/map.c\<close>, \<^verbatim>\<open>src/mem/map.h\<close>): a snapshot of \<^verbatim>\<open>/proc/[pid]/maps\<close> as a list of entries, and
  the difference of two snapshots, with which \<^verbatim>\<open>scon_create\<close> finds the mappings of a library.

  The linked list of a \<^verbatim>\<open>Map\<close> is private to its owner and is modelled as a list. The directives of the format
  of \<^verbatim>\<open>MapEntry_parse\<close> are modelled as the C standard and the GNU C library define them: a conversion that
  fails ends the scan and leaves the remaining targets as they were. A path too long for its array
  and flags that were never read are undefined behaviour in C and have results of their own.
\<close>

section \<open>Definitions\<close>

record MapEntry =
  start_addr :: u64
  end_addr :: u64
  e_r :: bool
  e_w :: bool
  e_e :: bool
  e_p :: bool
  e_offset :: u32
  dev_major :: u32
  dev_minor :: u32
  e_inode :: u32
  pathname :: string

record MemMap =
  entries :: "MapEntry list"
  map_size :: u64

datatype map_error = Unreadable | PathOverflow | FlagsUnset

subsection \<open>Scanning\<close>

definition skip_ws :: "string \<Rightarrow> string" where
  "skip_ws cs = dropWhile isspace cs"

definition hex_digit :: "char \<Rightarrow> nat option" where
  "hex_digit c = (let n = of_char c :: nat in
     if 48 \<le> n \<and> n \<le> 57 then Some (n - 48)
     else if 97 \<le> n \<and> n \<le> 102 then Some (n - 87)
     else if 65 \<le> n \<and> n \<le> 70 then Some (n - 55)
     else None)"

definition dec_digit :: "char \<Rightarrow> nat option" where
  "dec_digit c = (let n = of_char c :: nat in if 48 \<le> n \<and> n \<le> 57 then Some (n - 48) else None)"

text \<open>The longest run of digits, its value in the given base, and the rest; none without a digit.\<close>

fun digits :: "(char \<Rightarrow> nat option) \<Rightarrow> nat \<Rightarrow> nat \<Rightarrow> string \<Rightarrow> nat \<times> string" where
  "digits d base acc [] = (acc, [])"
| "digits d base acc (c # cs) = (case d c of None \<Rightarrow> (acc, c # cs) | Some k \<Rightarrow> digits d base (acc * base + k) cs)"

definition number :: "(char \<Rightarrow> nat option) \<Rightarrow> nat \<Rightarrow> string \<Rightarrow> (nat \<times> string) option" where
  "number d base cs = (case cs of [] \<Rightarrow> None | c # _ \<Rightarrow> if d c = None then None else Some (digits d base 0 cs))"

text \<open>An optional sign, as \<^verbatim>\<open>strtoul\<close> and \<^verbatim>\<open>strtol\<close> take it, and for hexadecimal the optional prefix.\<close>

definition sign :: "string \<Rightarrow> bool \<times> string" where
  "sign cs = (case cs of [] \<Rightarrow> (False, cs) | c # r \<Rightarrow> if c = CHR ''-'' then (True, r) else if c = CHR ''+'' then (False, r) else (False, cs))"

definition hex_prefix :: "string \<Rightarrow> string" where
  "hex_prefix cs = (case cs of a # b # r \<Rightarrow> if a = CHR ''0'' \<and> (b = CHR ''x'' \<or> b = CHR ''X'') then r else cs | _ \<Rightarrow> cs)"

text \<open>\<^verbatim>\<open>%x\<close> and \<^verbatim>\<open>%p\<close> convert with \<^verbatim>\<open>strtoul\<close>, which saturates; the value is then cut to the target.\<close>

definition scan_hex :: "string \<Rightarrow> (u64 \<times> string) option" where
  "scan_hex cs = (let (neg, r) = sign (skip_ws cs) in
     case number hex_digit 16 (hex_prefix r) of None \<Rightarrow> None
     | Some (n, r) \<Rightarrow> Some (if n < 2 ^ 64 then if neg then - of_nat n else of_nat n else - 1, r))"

definition scan_dec :: "string \<Rightarrow> (int \<times> string) option" where
  "scan_dec cs = (let (neg, r) = sign (skip_ws cs) in
     case number dec_digit 10 r of None \<Rightarrow> None
     | Some (n, r) \<Rightarrow> Some (if neg then - int (min n (2 ^ 63)) else int (min n (2 ^ 63 - 1)), r))"

definition scan_lit :: "char \<Rightarrow> string \<Rightarrow> string option" where
  "scan_lit c cs = (case cs of [] \<Rightarrow> None | b # r \<Rightarrow> if b = c then Some r else None)"

definition scan_chars :: "nat \<Rightarrow> string \<Rightarrow> (string \<times> string) option" where
  "scan_chars n cs = (if length cs < n then None else Some (take n cs, drop n cs))"

definition scan_word :: "string \<Rightarrow> (string \<times> string) option" where
  "scan_word cs = (let r = skip_ws cs in if r = [] then None else Some (takeWhile (\<lambda>c. \<not> isspace c) r, dropWhile (\<lambda>c. \<not> isspace c) r))"

subsection \<open>Entries\<close>

definition blank_entry :: MapEntry where
  "blank_entry = \<lparr>start_addr = 0, end_addr = 0, e_r = False, e_w = False, e_e = False, e_p = False, e_offset = 0,
     dev_major = 0, dev_minor = 0, e_inode = 0, pathname = []\<rparr>"

text \<open>The conversions of \<^verbatim>\<open>sscanf(buffer, "%p-%p %4c %x %x:%x %d %s", ...)\<close> one after the other; each either stores its value
  and goes on or ends the scan. The flags are none as long as nothing was stored in them.\<close>

type_synonym scanned_entry = "MapEntry \<times> string option"

definition conv :: "('a \<times> string) option \<Rightarrow> ('a \<Rightarrow> scanned_entry \<Rightarrow> scanned_entry) \<Rightarrow>
    (string \<Rightarrow> scanned_entry \<Rightarrow> scanned_entry) \<Rightarrow> scanned_entry \<Rightarrow> scanned_entry" where
  "conv r upd k e = (case r of None \<Rightarrow> e | Some (v, rest) \<Rightarrow> k rest (upd v e))"

definition lit :: "string option \<Rightarrow> (string \<Rightarrow> scanned_entry \<Rightarrow> scanned_entry) \<Rightarrow> scanned_entry \<Rightarrow> scanned_entry" where
  "lit r k e = (case r of None \<Rightarrow> e | Some rest \<Rightarrow> k rest e)"

definition scan_line :: "string \<Rightarrow> scanned_entry" where
  "scan_line buffer =
     conv (scan_hex buffer) (\<lambda>v (e, f). (e\<lparr>start_addr := v\<rparr>, f)) (\<lambda>cs.
     lit (scan_lit (CHR ''-'') cs) (\<lambda>cs.
     conv (scan_hex cs) (\<lambda>v (e, f). (e\<lparr>end_addr := v\<rparr>, f)) (\<lambda>cs.
     conv (scan_chars 4 (skip_ws cs)) (\<lambda>v (e, f). (e, Some v)) (\<lambda>cs.
     conv (scan_hex (skip_ws cs)) (\<lambda>v (e, f). (e\<lparr>e_offset := ucast v\<rparr>, f)) (\<lambda>cs.
     conv (scan_hex (skip_ws cs)) (\<lambda>v (e, f). (e\<lparr>dev_major := ucast v\<rparr>, f)) (\<lambda>cs.
     lit (scan_lit (CHR '':'') cs) (\<lambda>cs.
     conv (scan_hex cs) (\<lambda>v (e, f). (e\<lparr>dev_minor := ucast v\<rparr>, f)) (\<lambda>cs.
     conv (scan_dec (skip_ws cs)) (\<lambda>v (e, f). (e\<lparr>e_inode := of_int v\<rparr>, f)) (\<lambda>cs.
     conv (scan_word (skip_ws cs)) (\<lambda>v (e, f). (e\<lparr>pathname := v\<rparr>, f)) (\<lambda>_ e. e)))))))))) (blank_entry, None)"

definition MapEntry_parse :: "string \<Rightarrow> map_error + MapEntry" where
  "MapEntry_parse buffer =
     (let (e, f) = scan_line buffer
      in if 128 \<le> length (pathname e) then Inl PathOverflow
         else case f of
           None \<Rightarrow> Inl FlagsUnset
         | Some flags \<Rightarrow> Inr (e\<lparr>e_r := (flags ! 0 = CHR ''r''), e_w := (flags ! 1 = CHR ''w''),
                                e_e := (flags ! 2 = CHR ''e''), e_p := (flags ! 3 = CHR ''p'')\<rparr>))"

definition MapEntry_equal :: "MapEntry \<Rightarrow> MapEntry \<Rightarrow> bool" where
  "MapEntry_equal a b \<longleftrightarrow> start_addr a = start_addr b \<and> end_addr a = end_addr b"

subsection \<open>Maps\<close>

definition Map_new :: MemMap where "Map_new = \<lparr>entries = [], map_size = 0\<rparr>"

text \<open>\<^verbatim>\<open>fgets\<close>: at most \<open>n\<close> characters, up to and with the newline.\<close>

fun fgets :: "nat \<Rightarrow> string \<Rightarrow> string \<times> string" where
  "fgets 0 cs = ([], cs)"
| "fgets (Suc n) [] = ([], [])"
| "fgets (Suc n) (c # cs) = (if c = CHR 0x0A then ([c], cs) else let (a, b) = fgets n cs in (c # a, b))"

function parse_lines :: "string \<Rightarrow> MemMap \<Rightarrow> map_error + MemMap" where
  "parse_lines cs m =
     (if cs = [] then Inr m
      else let (line, rest) = fgets 255 cs
           in case MapEntry_parse line of
                Inl e \<Rightarrow> Inl e
              | Inr entry \<Rightarrow> parse_lines rest (m\<lparr>entries := entries m @ [entry], map_size := map_size m + 1\<rparr>))"
  by pat_completeness auto

termination
proof (relation "measure (\<lambda>(cs, m). length cs)")
  have le: "length (snd (fgets n cs)) \<le> length cs" for n cs
    by (induction n cs rule: fgets.induct) (auto simp: Let_def split: prod.splits)
  have lt: "length (snd (fgets n cs)) < length cs" if "cs \<noteq> []" "0 < n" for n cs
    using that le [of "n - 1" "tl cs"] by (cases cs; cases n) (auto simp: Let_def split: prod.splits)
  show "((rest, m'), (cs, m)) \<in> measure (\<lambda>(cs, m). length cs)"
    if "cs \<noteq> []" "x = fgets 255 cs" "(line, rest) = x" for rest m' cs m x line
    using lt [OF that(1), of 255] by (simp flip: that(2,3))
qed auto

text \<open>\<^verbatim>\<open>Map_parse\<close> on the contents of the file, none when it cannot be opened.\<close>

definition Map_parse :: "string option \<Rightarrow> map_error + MemMap" where
  "Map_parse file = (case file of None \<Rightarrow> Inl Unreadable | Some cs \<Rightarrow> parse_lines cs Map_new)"

definition Map_diff :: "MemMap \<Rightarrow> MemMap \<Rightarrow> MemMap" where
  "Map_diff before after = fold (\<lambda>acurr diff.
     if \<exists>bcurr \<in> set (entries before). MapEntry_equal bcurr acurr then diff
     else diff\<lparr>entries := entries diff @ [acurr]\<rparr>) (entries after) Map_new"

section \<open>The lines of a maps file\<close>

text \<open>A mapping as the kernel reports it, and its line, as \<^verbatim>\<open>proc(5)\<close> describes it: the path, if any, follows the
  inode after at least one blank. How many blanks there are is up to the kernel and can differ from line to line; \<open>pad\<close> gives
  the number beyond the first. \<open>column_pad\<close> is the choice of Linux: paths start in one column, and a line without a
  path ends in one blank.\<close>

record proc_map =
  k_start :: u64
  k_end :: u64
  k_r :: bool
  k_w :: bool
  k_x :: bool
  k_p :: bool
  k_offset :: u64
  k_major :: u32
  k_minor :: u32
  k_inode :: nat
  k_path :: string

definition flag_str :: "proc_map \<Rightarrow> string" where
  "flag_str k = [if k_r k then CHR ''r'' else CHR ''-'', if k_w k then CHR ''w'' else CHR ''-'',
     if k_x k then CHR ''x'' else CHR ''-'', if k_p k then CHR ''p'' else CHR ''s'']"

definition kernel_head :: "proc_map \<Rightarrow> string" where
  "kernel_head k = hex_str 8 (unat (k_start k)) @ CHR ''-'' # hex_str 8 (unat (k_end k)) @ CHR '' '' # flag_str k @
     CHR '' '' # hex_str 8 (unat (k_offset k)) @ CHR '' '' # hex_str 2 (unat (k_major k)) @ CHR '':'' # hex_str 2 (unat (k_minor k)) @
     CHR '' '' # numeral_str 10 (k_inode k)"

definition kernel_line :: "(proc_map \<Rightarrow> nat) \<Rightarrow> proc_map \<Rightarrow> string" where
  "kernel_line pad k = kernel_head k @ replicate (Suc (pad k)) (CHR '' '') @ k_path k @ [CHR 0x0A]"

definition column_pad :: "nat \<Rightarrow> proc_map \<Rightarrow> nat" where
  "column_pad c k = (if k_path k = [] then 0 else c - Suc (length (kernel_head k)))"

definition demo_map :: proc_map where
  "demo_map = \<lparr>k_start = 0x400000, k_end = 0x452000, k_r = True, k_w = False, k_x = True, k_p = True, k_offset = 0x1000,
     k_major = 8, k_minor = 2, k_inode = 173521, k_path = ''/usr/bin/dbus-daemon''\<rparr>"

text \<open>The entry that a line stands for, as far as the fields can hold it; of the path only what precedes its first blank,
  where \<^verbatim>\<open>%s\<close> stops, as in \<^verbatim>\<open>/tmp/lib.so (deleted)\<close>.\<close>

definition entry_of :: "bool \<Rightarrow> proc_map \<Rightarrow> MapEntry" where
  "entry_of x k = \<lparr>start_addr = k_start k, end_addr = k_end k, e_r = k_r k, e_w = k_w k, e_e = x, e_p = k_p k,
     e_offset = ucast (k_offset k), dev_major = k_major k, dev_minor = k_minor k, e_inode = of_nat (k_inode k), pathname = takeWhile (\<lambda>c. \<not> isspace c) (k_path k)\<rparr>"

text \<open>Lines that the buffers of the parser can hold: at most 255 characters, with a path that has fewer than 128 up to
  its first blank. A path does not begin with a blank, and the kernel writes a newline in it as \<^verbatim>\<open>\012\<close>.\<close>

definition map_ok :: "(proc_map \<Rightarrow> nat) \<Rightarrow> proc_map \<Rightarrow> bool" where
  "map_ok pad k \<longleftrightarrow> (k_path k \<noteq> [] \<longrightarrow> \<not> isspace (hd (k_path k))) \<and> CHR 0x0A \<notin> set (k_path k) \<and>
     length (takeWhile (\<lambda>c. \<not> isspace c) (k_path k)) < 128 \<and> k_inode k < 2 ^ 63 \<and> length (kernel_line pad k) \<le> 255"

section \<open>Lemmas\<close>

lemma hexchar_digit:
  "k < 16 \<Longrightarrow> hex_digit (hexchar k) = Some k" "k < 10 \<Longrightarrow> dec_digit (hexchar k) = Some k"
  by (auto simp: hexchar_def hex_digit_def dec_digit_def Let_def of_char_of)

lemma digits_append:
  assumes "\<forall>c \<in> set ds. d c \<noteq> None" "r = [] \<or> d (hd r) = None"
  shows "digits d b acc (ds @ r) = (foldl (\<lambda>a c. a * b + the (d c)) acc ds, r)"
  using assms
proof (induction ds arbitrary: acc)
  case Nil
  then show ?case by (cases r) auto
qed auto

lemma numeral_str_value:
  assumes "2 \<le> b" "\<And>k. k < b \<Longrightarrow> d (hexchar k) = Some k"
  shows "foldl (\<lambda>a c. a * b + the (d c)) 0 (numeral_str b n) = n" "\<forall>c \<in> set (numeral_str b n). d c \<noteq> None" "numeral_str b n \<noteq> []"
proof -
  have "foldl (\<lambda>a c. a * b + the (d c)) 0 (numeral_str b n) = n \<and> (\<forall>c \<in> set (numeral_str b n). d c \<noteq> None) \<and> numeral_str b n \<noteq> []"
  proof (induction n rule: less_induct)
    case (less n)
    show ?case
    proof (cases "n < b")
      case True
      then show ?thesis using assms by (subst (1 2 3) numeral_str.simps) simp
    next
      case False
      with assms(1) have "n div b < n" by simp
      from less [OF this] False assms show ?thesis by (subst (1 2 3) numeral_str.simps) auto
    qed
  qed
  then show "foldl (\<lambda>a c. a * b + the (d c)) 0 (numeral_str b n) = n" "\<forall>c \<in> set (numeral_str b n). d c \<noteq> None" "numeral_str b n \<noteq> []" by auto
qed

lemma number_value:
  assumes "\<forall>c \<in> set ds. d c \<noteq> None" "ds \<noteq> []" "r = [] \<or> d (hd r) = None"
  shows "number d b (ds @ r) = Some (foldl (\<lambda>a c. a * b + the (d c)) 0 ds, r)"
  using assms digits_append [OF assms(1,3), of b 0] by (cases ds) (auto simp: number_def)

lemma hex_str_facts:
  "foldl (\<lambda>a c. a * 16 + the (hex_digit c)) 0 (hex_str w n) = n" "\<forall>c \<in> set (hex_str w n). hex_digit c \<noteq> None" "hex_str w n \<noteq> []"
proof -
  note v = numeral_str_value [of 16 hex_digit, OF _ hexchar_digit(1)]
  have z: "hex_digit (CHR ''0'') = Some 0" by (simp add: hex_digit_def Let_def)
  then have "foldl (\<lambda>a c. a * 16 + the (hex_digit c)) 0 (replicate k (CHR ''0'')) = 0" for k by (induction k) auto
  with v z show "foldl (\<lambda>a c. a * 16 + the (hex_digit c)) 0 (hex_str w n) = n" "\<forall>c \<in> set (hex_str w n). hex_digit c \<noteq> None" "hex_str w n \<noteq> []"
    by (auto simp: hex_str_def Let_def)
qed

lemma digit_not_special:
  "hex_digit c \<noteq> None \<Longrightarrow> \<not> isspace c \<and> c \<noteq> CHR ''-'' \<and> c \<noteq> CHR ''+'' \<and> c \<noteq> CHR ''x'' \<and> c \<noteq> CHR ''X''"
  "dec_digit c \<noteq> None \<Longrightarrow> hex_digit c \<noteq> None"
  by (auto simp: isspace_def hex_digit_def dec_digit_def Let_def split: if_splits)

lemma scan_hex_str:
  assumes "n < 2 ^ 64" "hex_digit c = None" "c \<noteq> CHR ''x''" "c \<noteq> CHR ''X''"
  shows "scan_hex (hex_str w n @ c # r) = Some (of_nat n, c # r)"
proof -
  note f = hex_str_facts [of w n]
  obtain a s where h: "hex_str w n = a # s" using f(3) by (cases "hex_str w n") auto
  with f(2) have a: "\<not> isspace a" "a \<noteq> CHR ''-''" "a \<noteq> CHR ''+''" using digit_not_special(1) [of a] by auto
  have "hex_prefix (a # s @ c # r) = a # s @ c # r"
    using f(2) h assms(3,4) digit_not_special(1) [of "hd s"] by (cases s) (auto simp: hex_prefix_def)
  moreover have "number hex_digit 16 (hex_str w n @ c # r) = Some (n, c # r)"
    using number_value [OF f(2,3), of "c # r" 16] f(1) assms(2) by simp
  ultimately show ?thesis using a assms(1) by (simp add: scan_hex_def skip_ws_def sign_def h)
qed

lemma scan_dec_str:
  assumes "n < 2 ^ 63" "isspace c"
  shows "scan_dec (numeral_str 10 n @ c # r) = Some (int n, c # r)"
proof -
  note f = numeral_str_value [of 10 dec_digit n, OF _ hexchar_digit(2)]
  have c: "dec_digit c = None" using assms(2) digit_not_special by blast
  obtain a s where h: "numeral_str 10 n = a # s" using f(3) by (cases "numeral_str 10 n") auto
  with f(2) have a: "\<not> isspace a" "a \<noteq> CHR ''-''" "a \<noteq> CHR ''+''" using digit_not_special [of a] by auto
  have "number dec_digit 10 (numeral_str 10 n @ c # r) = Some (n, c # r)"
    using number_value [OF f(2,3), of "c # r" 10] f(1) c by simp
  then show ?thesis using a assms(1) by (simp add: scan_dec_def skip_ws_def sign_def h)
qed

lemma blank_chars:
  "isspace (CHR '' '')" "isspace (CHR 0x0A)" "hex_digit (CHR '' '') = None" "hex_digit (CHR ''-'') = None" "hex_digit (CHR '':'') = None"
  by (simp_all add: isspace_def hex_digit_def Let_def)

lemma skip_ws_str:
  "skip_ws (CHR '' '' # cs) = skip_ws cs" "skip_ws (hex_str w n @ cs) = hex_str w n @ cs" "skip_ws (numeral_str 10 n @ cs) = numeral_str 10 n @ cs"
  "skip_ws (flag_str k @ cs) = flag_str k @ cs"
proof -
  have d: "skip_ws (ds @ cs) = ds @ cs" if "ds \<noteq> []" "\<not> isspace (hd ds)" for ds using that by (cases ds) (auto simp: skip_ws_def)
  show "skip_ws (CHR '' '' # cs) = skip_ws cs" by (simp add: skip_ws_def isspace_def)
  show "skip_ws (hex_str w n @ cs) = hex_str w n @ cs" using hex_str_facts [of w n] digit_not_special by (intro d) auto
  show "skip_ws (numeral_str 10 n @ cs) = numeral_str 10 n @ cs"
    using numeral_str_value [of 10 dec_digit n, OF _ hexchar_digit(2)] digit_not_special by (intro d) auto
  show "skip_ws (flag_str k @ cs) = flag_str k @ cs" by (rule d) (simp_all add: flag_str_def isspace_def)
qed

lemma scan_word_path:
  assumes "p \<noteq> [] \<longrightarrow> \<not> isspace (hd p)"
  obtains r where "scan_word (skip_ws (replicate j (CHR '' '') @ p @ [CHR 0x0A])) =
    (if p = [] then None else Some (takeWhile (\<lambda>c. \<not> isspace c) p, r))"
proof -
  have s: "skip_ws (replicate j (CHR '' '') @ p @ [CHR 0x0A]) = (if p = [] then [] else p @ [CHR 0x0A])"
    using assms by (induction j) (cases p, auto simp: skip_ws_def isspace_def)
  have "takeWhile (\<lambda>c. \<not> isspace c) (p @ [CHR 0x0A]) = takeWhile (\<lambda>c. \<not> isspace c) p" by (induction p) (auto simp: isspace_def)
  moreover have "skip_ws (p @ [CHR 0x0A]) = p @ [CHR 0x0A]" if "p \<noteq> []" using that assms by (cases p) (auto simp: skip_ws_def)
  moreover have "skip_ws [] = []" by (simp add: skip_ws_def)
  ultimately have "scan_word (skip_ws (replicate j (CHR '' '') @ p @ [CHR 0x0A])) =
      (if p = [] then None else Some (takeWhile (\<lambda>c. \<not> isspace c) p, dropWhile (\<lambda>c. \<not> isspace c) (p @ [CHR 0x0A])))"
    unfolding s scan_word_def Let_def by auto
  then show thesis by (rule that)
qed

lemma scan_line_kernel:
  assumes "k_path k \<noteq> [] \<longrightarrow> \<not> isspace (hd (k_path k))" "k_inode k < 2 ^ 63"
  shows "scan_line (kernel_line pad k) = ((entry_of False k)\<lparr>e_r := False, e_w := False, e_p := False\<rparr>, Some (flag_str k))"
proof -
  have u: "unat (x :: u64) < 2 ^ 64" "unat (y :: u32) < 2 ^ 64" for x y
    using unsigned_less [of x, where ?'a = nat] unsigned_less [of y, where ?'a = nat] by simp_all
  have hx: "scan_hex (hex_str w (unat (x :: u64)) @ c # r) = Some (x, c # r)" "scan_hex (hex_str w (unat (y :: u32)) @ c # r) = Some (ucast y, c # r)"
    if "hex_digit c = None" "c \<noteq> CHR ''x''" "c \<noteq> CHR ''X''" for w x y c r
    using scan_hex_str [OF u(1) that] scan_hex_str [OF u(2) that] by simp_all
  have fl: "scan_chars 4 (flag_str k @ r) = Some (flag_str k, r)" for r by (simp add: scan_chars_def flag_str_def)
  have c: "ucast (ucast y :: u64) = (y :: u32)" for y by (auto intro!: bit_word_eqI simp: bit_simps)
  have w: "replicate (Suc (pad k)) (CHR '' '') @ q = CHR '' '' # replicate (pad k) (CHR '' '') @ q" for q by simp
  from scan_word_path [OF assms(1), of "pad k"] obtain r where
    sw: "scan_word (skip_ws (replicate (pad k) (CHR '' '') @ k_path k @ [CHR 0x0A])) =
      (if k_path k = [] then None else Some (takeWhile (\<lambda>c. \<not> isspace c) (k_path k), r))" by blast
  note simps = hx scan_dec_str [OF assms(2)] skip_ws_str blank_chars fl c conv_def lit_def scan_lit_def sw
  show ?thesis unfolding scan_line_def kernel_line_def kernel_head_def w
    by (simp add: simps blank_entry_def entry_of_def)
qed

lemma parse_kernel_line: "map_ok pad k \<Longrightarrow> MapEntry_parse (kernel_line pad k) = Inr (entry_of False k)"
  using scan_line_kernel [of k pad] by (auto simp: MapEntry_parse_def map_ok_def entry_of_def flag_str_def)

lemma fgets_line:
  assumes "CHR 0x0A \<notin> set l" "length l < n" shows "fgets n (l @ CHR 0x0A # r) = (l @ [CHR 0x0A], r)"
  using assms
proof (induction l arbitrary: n)
  case Nil then show ?case by (cases n) auto
next
  case (Cons c l) then show ?case by (cases n) auto
qed

lemma kernel_line_split:
  assumes "map_ok pad k" obtains l where "kernel_line pad k = l @ [CHR 0x0A]" "CHR 0x0A \<notin> set l" "length l < 255"
proof -
  have no: "CHR 0x0A \<notin> set xs" if "\<forall>c \<in> set xs. \<not> isspace c" for xs using that by (auto simp: isspace_def)
  have h: "CHR 0x0A \<notin> set (hex_str w n)" for w n using hex_str_facts(2) [of w n] digit_not_special by (intro no) blast
  have d: "CHR 0x0A \<notin> set (numeral_str 10 n)" for n
    using numeral_str_value(2) [of 10 dec_digit n, OF _ hexchar_digit(2)] digit_not_special by (intro no) auto
  obtain l where l: "kernel_line pad k = l @ [CHR 0x0A]" by (simp add: kernel_line_def)
  moreover have "CHR 0x0A \<notin> set l"
  proof -
    have "CHR 0x0A \<notin> set (butlast (kernel_line pad k))" unfolding kernel_line_def kernel_head_def
      using h d assms by (auto simp: butlast_append flag_str_def map_ok_def in_set_replicate simp del: set_replicate)
    then show ?thesis using l by simp
  qed
  ultimately show thesis using that assms by (auto simp: map_ok_def)
qed

lemma parse_lines_kernel:
  assumes "\<forall>k \<in> set ks. map_ok pad k"
  shows "parse_lines (concat (map (kernel_line pad) ks)) m =
     Inr (m\<lparr>entries := entries m @ map (entry_of False) ks, map_size := map_size m + of_nat (length ks)\<rparr>)"
  using assms
proof (induction ks arbitrary: m)
  case Nil
  then show ?case by (subst parse_lines.simps) simp
next
  case (Cons k ks)
  from Cons.prems obtain l where l: "kernel_line pad k = l @ [CHR 0x0A]" "CHR 0x0A \<notin> set l" "length l < 255"
    using kernel_line_split [of pad k] by auto
  have "fgets 255 (kernel_line pad k @ r) = (kernel_line pad k, r)" for r using fgets_line [OF l(2,3)] by (simp add: l(1))
  moreover have "kernel_line pad k \<noteq> []" by (simp add: l(1))
  ultimately show ?case using parse_kernel_line [of pad k] Cons.prems Cons.IH
    by (subst parse_lines.simps) (simp add: add.assoc)
qed

lemma Map_diff_entries:
  "fold (\<lambda>acurr diff. if P acurr then diff else diff\<lparr>entries := entries diff @ [acurr]\<rparr>) as m = m\<lparr>entries := entries m @ filter (\<lambda>a. \<not> P a) as\<rparr>"
  by (induction as arbitrary: m) auto

section \<open>Properties\<close>

text \<open>C32: Reading back a maps file gives its mappings in order, however many blanks the kernel puts before the path of each
  line, provided that no line has more than 255 characters and no path more than 127 before its first
  blank. Addresses, permissions and device are those that the kernel wrote, the offset and the inode are cut to 32
  bits, the path is cut at its first blank, and the executable flag is lost, because the parser
  compares the flag character with \<open>e\<close> where the kernel writes \<open>x\<close>.\<close>

theorem Map_parse_roundtrip:
  assumes "\<forall>k \<in> set ks. map_ok pad k"
  shows "Map_parse (Some (concat (map (kernel_line pad) ks))) =
     Inr \<lparr>entries = map (entry_of False) ks, map_size = of_nat (length ks)\<rparr>"
  using parse_lines_kernel [OF assms, of Map_new] by (simp add: Map_parse_def Map_new_def)

text \<open>A file as Linux aligns it, with a line that has no path and one whose path has a blank.\<close>

definition demo_maps :: "proc_map list" where
  "demo_maps = [demo_map, demo_map\<lparr>k_inode := 0, k_path := []\<rparr>, demo_map\<lparr>k_path := ''/tmp/a (deleted)''\<rparr>]"

theorem Map_parse_roundtrip_witness:
  "\<exists>m. Map_parse (Some (concat (map (kernel_line (column_pad 73)) demo_maps))) = Inr m \<and> map_size m = 3 \<and>
     map pathname (entries m) = [''/usr/bin/dbus-daemon'', [], ''/tmp/a''] \<and> map (column_pad 73) demo_maps = [28, 0, 28]"
proof -
  have h: "length (kernel_head (demo_map\<lparr>k_path := p\<rparr>)) = 44" "length (kernel_head (demo_map\<lparr>k_inode := 0, k_path := p\<rparr>)) = 39" for p
    by (simp_all add: kernel_head_def demo_map_def hex_str_def numeral_str.simps flag_str_def Let_def)
  have d: "demo_map = demo_map\<lparr>k_path := ''/usr/bin/dbus-daemon''\<rparr>" by (simp add: demo_map_def)
  have p: "map (column_pad 73) demo_maps = [28, 0, 28]"
    unfolding demo_maps_def by (subst d) (simp add: column_pad_def h)
  have "map_ok (column_pad 73) k" if "k \<in> set demo_maps" for k
  proof -
    have "column_pad 73 k \<le> 28" using that p by (auto simp: demo_maps_def)
    moreover have "length (kernel_head k) \<le> 45"
      using that h h(1) [of "''/usr/bin/dbus-daemon''", folded d] by (auto simp: demo_maps_def)
    moreover have "length (k_path k) \<le> 20 \<and> k_inode k < 2 ^ 63 \<and> CHR 0x0A \<notin> set (k_path k) \<and> (k_path k \<noteq> [] \<longrightarrow> \<not> isspace (hd (k_path k)))"
      using that by (auto simp: demo_maps_def demo_map_def isspace_def)
    ultimately show ?thesis using length_takeWhile_le [of "\<lambda>c. \<not> isspace c" "k_path k"]
      by (auto simp: map_ok_def kernel_line_def)
  qed
  moreover note p
  ultimately show ?thesis using Map_parse_roundtrip [of demo_maps "column_pad 73"]
    by (simp add: demo_maps_def entry_of_def demo_map_def isspace_def)
qed

text \<open>The difference of two snapshots has exactly the entries of the second whose range is not that of an entry of the
  first, in their order; its size field stays 0.\<close>

theorem Map_diff_exact:
  "Map_diff before after = \<lparr>entries = filter (\<lambda>a. \<forall>b \<in> set (entries before). (start_addr b, end_addr b) \<noteq> (start_addr a, end_addr a)) (entries after), map_size = 0\<rparr>"
  unfolding Map_diff_def Map_diff_entries by (simp add: Map_new_def MapEntry_equal_def)

end
