(* ===== verification/SC_Scon.thy ===== *)
theory SC_Scon
  imports SC_Maps SC_Control
begin

text \<open>
  Subcontexts as libraries whose pages are inaccessible between calls (\<^verbatim>\<open>src/scon.c\<close>, \<^verbatim>\<open>src/_scbtable.c\<close>): the table of control
  blocks, the three operations on a subcontext and the handler for segmentation faults.

  The state has the table and, for each address, the protection of its page. The dynamic linker, the
  maps file, \<^verbatim>\<open>realloc\<close>, \<^verbatim>\<open>mprotect\<close> and the code of the library are parameters. The result of \<^verbatim>\<open>mprotect\<close> is not looked
  at by the code. A control block that is reached through a table that has been reallocated since,
  and a map that has been freed, are memory errors and end in \<open>Segv\<close>.
\<close>

section \<open>Definitions\<close>

datatype map_ptr = NullMap | LiveMap MemMap | FreedMap

record scb =
  libhandle :: u64
  memhandle :: u32
  memmap :: map_ptr

record scons =
  tab_length :: u32
  tab_capacity :: u32
  tab :: "scb list option"
  tab_gen :: nat
  prot_of :: "u64 \<Rightarrow> u32"

record host_os =
  os_realloc :: "nat \<Rightarrow> bool"
  junk_scb :: scb
  os_mprotect :: "u64 \<Rightarrow> u64 \<Rightarrow> bool"
  os_getcwd :: string
  junk_path :: string
  os_dlopen :: "string \<Rightarrow> u64"
  os_dlsym :: "u64 \<Rightarrow> string \<Rightarrow> u64"

definition zero_scb :: scb where "zero_scb = \<lparr>libhandle = 0, memhandle = 0, memmap = NullMap\<rparr>"

text \<open>The constructor of the library, given the result of \<^verbatim>\<open>malloc\<close>.\<close>

definition scb_init :: "host_os \<Rightarrow> bool \<Rightarrow> (u64 \<Rightarrow> u32) \<Rightarrow> scons" where
  "scb_init H malloc_ok p = \<lparr>tab_length = 0, tab_capacity = 10,
     tab = (if malloc_ok then Some (replicate 10 (junk_scb H)) else None), tab_gen = 0, prot_of = p\<rparr>"

definition realloc_tab :: "host_os \<Rightarrow> scons \<Rightarrow> scons" where
  "realloc_tab H s =
     (let n = unat (tab_capacity s)
      in if os_realloc H n
         then s\<lparr>tab := Some (take n ((case tab s of None \<Rightarrow> [] | Some tb \<Rightarrow> tb) @ replicate n (junk_scb H))), tab_gen := tab_gen s + 1\<rparr>
         else s\<lparr>tab := None\<rparr>)"

definition put_scb :: "u32 \<Rightarrow> scb \<Rightarrow> scons \<Rightarrow> (unit, scons) res" where
  "put_scb i b s = (case tab s of
     None \<Rightarrow> (Inl Segv, s)
   | Some tb \<Rightarrow> if unat i < length tb then (Inr (), s\<lparr>tab := Some (tb[unat i := b])\<rparr>) else (Inl Segv, s))"

definition allocate_scb :: "host_os \<Rightarrow> scons \<Rightarrow> (u32, scons) res" where
  "allocate_scb H s =
     (let scon = tab_length s;
          s = s\<lparr>tab_length := tab_length s + 1\<rparr>;
          s = (if tab_length s \<ge> tab_capacity s div 2 then realloc_tab H (s\<lparr>tab_capacity := tab_capacity s * 2\<rparr>) else s)
      in call (put_scb scon zero_scb) (\<lambda>_ s. (Inr scon, s)) s)"

text \<open>\<^verbatim>\<open>get_scb\<close>, and the control block that a pointer from it leads to.\<close>

definition get_scb :: "u32 \<Rightarrow> scons \<Rightarrow> (u32, scons) res" where
  "get_scb scon = (\<lambda>s. guard [(33, scon < tab_length s)] (\<lambda>s. (Inr scon, s)) s)"

definition read_scb :: "u32 \<Rightarrow> scons \<Rightarrow> scb option" where
  "read_scb i s = (case tab s of None \<Rightarrow> None | Some tb \<Rightarrow> if unat i < length tb then Some (tb ! unat i) else None)"

definition mprotect :: "host_os \<Rightarrow> u64 \<Rightarrow> u64 \<Rightarrow> u32 \<Rightarrow> scons \<Rightarrow> scons" where
  "mprotect H a n p s =
     (if os_mprotect H a n then s\<lparr>prot_of := (\<lambda>x. if in_block x (a, n) then p else prot_of s x)\<rparr> else s)"

text \<open>\<^verbatim>\<open>int length = end_addr - start_addr\<close>, passed on as a \<^verbatim>\<open>size_t\<close>.\<close>

definition int_length :: "MapEntry \<Rightarrow> u64" where
  "int_length e = scast (ucast (end_addr e - start_addr e) :: u32)"

definition protect_map :: "host_os \<Rightarrow> u32 \<Rightarrow> MapEntry list \<Rightarrow> scons \<Rightarrow> scons" where
  "protect_map H p es s = fold (\<lambda>e. mprotect H (start_addr e) (int_length e) p) es s"

definition with_map :: "map_ptr \<Rightarrow> (MapEntry list \<Rightarrow> scons \<Rightarrow> ('a, scons) res) \<Rightarrow> scons \<Rightarrow> ('a, scons) res" where
  "with_map p k s = (case p of LiveMap m \<Rightarrow> k (entries m) s | _ \<Rightarrow> (Inl Segv, s))"

text \<open>The path handed to \<^verbatim>\<open>dlopen\<close>: an absolute path is copied without its terminator, so the bytes that happen to
  follow it in the array become part of the name.\<close>

definition abs_path :: "host_os \<Rightarrow> string \<Rightarrow> string" where
  "abs_path H libpath =
     (if libpath \<noteq> [] \<and> hd libpath = CHR ''/'' then libpath @ junk_path H
      else os_getcwd H @ ''/'' @ libpath)"

text \<open>\<open>before\<close> and \<open>after\<close> are the contents of \<^verbatim>\<open>/proc/self/maps\<close> at the two calls of \<^verbatim>\<open>Map_parse\<close>; a snapshot that cannot be
  taken is a NULL pointer, which \<^verbatim>\<open>Map_diff\<close> dereferences.\<close>

definition scon_create :: "host_os \<Rightarrow> string option \<Rightarrow> string option \<Rightarrow> string \<Rightarrow> scons \<Rightarrow> (u32, scons) res" where
  "scon_create H before after libpath =
     call (allocate_scb H) (\<lambda>handle.
     call (get_scb handle) (\<lambda>i s.
       let before_map = Map_parse before; lib = os_dlopen H (abs_path H libpath)
       in call (put_scb i (zero_scb\<lparr>libhandle := lib\<rparr>)) (\<lambda>_ s.
            if lib = 0 then (Inl (Exit 1), s)
            else case (before_map, Map_parse after) of
              (Inr b, Inr a) \<Rightarrow>
                let d = Map_diff b a
                in call (put_scb i (zero_scb\<lparr>libhandle := lib, memmap := LiveMap d\<rparr>)) (\<lambda>_ s.
                     (Inr handle, protect_map H PROT_NONE (entries d) s)) s
            | _ \<Rightarrow> (Inl Segv, s)) s))"

text \<open>\<open>run\<close> is the code of the library function at an address.\<close>

definition scon_callf :: "host_os \<Rightarrow> (u64 \<Rightarrow> u64 \<Rightarrow> scons \<Rightarrow> (u64, scons) res) \<Rightarrow> u32 \<Rightarrow> string \<Rightarrow> u64 \<Rightarrow> scons \<Rightarrow> (u64, scons) res" where
  "scon_callf H run handle funcname arg =
     call (get_scb handle) (\<lambda>i s.
       deref (read_scb i s) (\<lambda>scon s.
         let func = os_dlsym H (libhandle scon) funcname; gen = tab_gen s
         in if func = 0 then (Inl Segv, s)
            else call (run func arg) (\<lambda>ret s.
                   if tab_gen s \<noteq> gen then (Inl Segv, s)
                   else deref (read_scb i s) (\<lambda>scon.
                     with_map (memmap scon) (\<lambda>es s. (Inr ret, protect_map H PROT_NONE es s))) s) s) s)"

definition PROT_ALL :: u32 where "PROT_ALL = PROT_READ OR PROT_WRITE OR PROT_EXEC"

definition scon_close :: "host_os \<Rightarrow> u32 \<Rightarrow> scons \<Rightarrow> (unit, scons) res" where
  "scon_close H handle =
     call (get_scb handle) (\<lambda>i s.
       deref (read_scb i s) (\<lambda>scon.
         with_map (memmap scon) (\<lambda>es s.
           let s = protect_map H PROT_ALL es s
           in put_scb i (scon\<lparr>memmap := FreedMap\<rparr>) s)) s)"

text \<open>The search of the handler through the table from entry \<open>i\<close> on.\<close>

function segv_search :: "u64 \<Rightarrow> nat \<Rightarrow> scons \<Rightarrow> (MapEntry option, scons) res" where
  "segv_search addr i s =
     (if i \<ge> unat (tab_length s) then (Inr None, s)
      else case read_scb (of_nat i) s of
        None \<Rightarrow> (Inl Segv, s)
      | Some scon \<Rightarrow>
          (case memmap scon of
             LiveMap m \<Rightarrow>
               (case find (\<lambda>e. addr \<ge> start_addr e \<and> addr < end_addr e) (entries m) of
                  Some e \<Rightarrow> (Inr (Some e), s)
                | None \<Rightarrow> segv_search addr (Suc i) s)
           | _ \<Rightarrow> (Inl Segv, s)))"
  by pat_completeness auto

termination
  by (relation "measure (\<lambda>(addr, i, s). unat (tab_length s) - i)") auto

definition sigsegv_handler :: "host_os \<Rightarrow> u32 \<Rightarrow> u64 \<Rightarrow> scons \<Rightarrow> (unit, scons) res" where
  "sigsegv_handler H si_errno si_addr s =
     (if si_errno \<noteq> 0 then (Inl (Exit 1), s)
      else call (segv_search si_addr 0) (\<lambda>found s.
        case found of
          None \<Rightarrow> (Inl (Exit 1), s)
        | Some e \<Rightarrow> (Inr (), mprotect H (start_addr e) (int_length e) PROT_ALL s)) s)"

section \<open>Invariant\<close>

text \<open>The table has as many blocks as the capacity says, and less than half of them are in use.\<close>

definition table_ok :: "scons \<Rightarrow> bool" where
  "table_ok s \<longleftrightarrow> (\<exists>tb. tab s = Some tb \<and> length tb = unat (tab_capacity s)) \<and> 2 * unat (tab_length s) < unat (tab_capacity s) \<and>
     2 \<le> unat (tab_capacity s)"

text \<open>Every block in use has a map.\<close>

definition maps_live :: "scons \<Rightarrow> bool" where
  "maps_live s \<longleftrightarrow> (\<forall>i < unat (tab_length s). \<exists>b m. read_scb (of_nat i) s = Some b \<and> memmap b = LiveMap m)"

definition scb_entries :: "scons \<Rightarrow> nat \<Rightarrow> MapEntry list" where
  "scb_entries s i = (case read_scb (of_nat i) s of Some b \<Rightarrow> (case memmap b of LiveMap m \<Rightarrow> entries m | _ \<Rightarrow> []) | None \<Rightarrow> [])"

definition all_entries :: "scons \<Rightarrow> MapEntry list" where
  "all_entries s = concat (map (scb_entries s) [0..<unat (tab_length s)])"

definition in_entry :: "u64 \<Rightarrow> MapEntry \<Rightarrow> bool" where
  "in_entry x e \<longleftrightarrow> start_addr e \<le> x \<and> x < end_addr e"

text \<open>An entry whose length an \<^verbatim>\<open>int\<close> holds and for which \<^verbatim>\<open>mprotect\<close> works.\<close>

definition entry_ok :: "host_os \<Rightarrow> MapEntry \<Rightarrow> bool" where
  "entry_ok H e \<longleftrightarrow> start_addr e \<le> end_addr e \<and> end_addr e - start_addr e < 2 ^ 31 \<and> os_mprotect H (start_addr e) (end_addr e - start_addr e)"

definition demo_host :: host_os where
  "demo_host = \<lparr>os_realloc = (\<lambda>_. True), junk_scb = \<lparr>libhandle = 7, memhandle = 7, memmap = FreedMap\<rparr>, os_mprotect = (\<lambda>_ _. True),
     os_getcwd = ''/home'', junk_path = [], os_dlopen = (\<lambda>_. 1), os_dlsym = (\<lambda>_ _. 1)\<rparr>"

text \<open>The entries of the mappings of the second list whose range is not that of a mapping of the first. The code looks at
  ranges, not at pages, so a mapping that has grown is among them.\<close>

definition new_maps :: "proc_map list \<Rightarrow> proc_map list \<Rightarrow> MapEntry list" where
  "new_maps bs as = map (entry_of False) (filter (\<lambda>a. \<forall>b \<in> set bs. (k_start b, k_end b) \<noteq> (k_start a, k_end a)) as)"

definition in_map :: "u64 \<Rightarrow> proc_map \<Rightarrow> bool" where
  "in_map x k \<longleftrightarrow> k_start k \<le> x \<and> x < k_end k"

text \<open>Mappings have been added and nothing else: those of the first list are all in the second, whose mappings do not overlap.\<close>

definition only_added :: "proc_map list \<Rightarrow> proc_map list \<Rightarrow> bool" where
  "only_added bs as \<longleftrightarrow> (\<forall>b \<in> set bs. \<exists>a \<in> set as. k_start a = k_start b \<and> k_end a = k_end b) \<and>
     (\<forall>a \<in> set as. \<forall>c \<in> set as. (k_start a, k_end a) \<noteq> (k_start c, k_end c) \<longrightarrow> k_end a \<le> k_start c \<or> k_end c \<le> k_start a)"

definition maps_file :: "(proc_map \<Rightarrow> nat) \<Rightarrow> proc_map list \<Rightarrow> string" where
  "maps_file pad ks = concat (map (kernel_line pad) ks)"

definition demo_block :: scb where
  "demo_block = \<lparr>libhandle = 1, memhandle = 0, memmap = LiveMap \<lparr>entries = [entry_of False demo_map], map_size = 0\<rparr>\<rparr>"

definition demo_sealed :: scons where
  "demo_sealed = \<lparr>tab_length = 1, tab_capacity = 10, tab = Some (demo_block # replicate 9 zero_scb), tab_gen = 0, prot_of = (\<lambda>_. 0)\<rparr>"

definition demo_libc :: proc_map where
  "demo_libc = demo_map\<lparr>k_start := 0x700000, k_end := 0x701000, k_path := ''/lib/libc.so.6''\<rparr>"

section \<open>Lemmas\<close>

lemma demo_maps_ok: "map_ok (column_pad 73) demo_map" "map_ok (column_pad 73) demo_libc"
proof -
  have "length (kernel_head demo_map) = 44" "length (kernel_head demo_libc) = 44"
    by (simp_all add: kernel_head_def demo_libc_def demo_map_def hex_str_def numeral_str.simps flag_str_def Let_def)
  then show "map_ok (column_pad 73) demo_map" "map_ok (column_pad 73) demo_libc"
    by (simp_all add: map_ok_def kernel_line_def column_pad_def demo_libc_def demo_map_def isspace_def)
qed

lemma int_length_ok: "entry_ok H e \<Longrightarrow> int_length e = end_addr e - start_addr e"
proof -
  let ?d = "end_addr e - start_addr e"
  assume "entry_ok H e"
  then have d: "uint ?d < 2 ^ 31" "0 \<le> uint ?d" by (simp_all add: entry_ok_def word_less_alt)
  have "uint (ucast ?d :: u32) = uint ?d" unfolding unsigned_ucast_eq using d by (simp add: take_bit_int_eq_self_iff)
  then have "sint (ucast ?d :: u32) = uint ?d" unfolding sint_uint using d by (simp add: signed_take_bit_int_eq_self_iff order_trans [of _ 0])
  then have "scast (ucast ?d :: u32) = ?d" by (metis of_int_sint word_of_int_uint)
  then show ?thesis by (simp add: int_length_def)
qed

lemma in_entry_block: "start_addr e \<le> end_addr e \<Longrightarrow> in_block x (start_addr e, end_addr e - start_addr e) \<longleftrightarrow> in_entry x e"
  by (auto simp: in_block_def in_entry_def word_le_nat_alt word_less_nat_alt unat_sub)

lemma protect_map_prot:
  assumes "\<forall>e \<in> set es. entry_ok H e"
  shows "prot_of (protect_map H p es s) x = (if \<exists>e \<in> set es. in_entry x e then p else prot_of s x)"
    "tab (protect_map H p es s) = tab s" "tab_length (protect_map H p es s) = tab_length s"
    "tab_capacity (protect_map H p es s) = tab_capacity s" "tab_gen (protect_map H p es s) = tab_gen s"
proof -
  have "prot_of (protect_map H p es s) x = (if \<exists>e \<in> set es. in_entry x e then p else prot_of s x) \<and>
    tab (protect_map H p es s) = tab s \<and> tab_length (protect_map H p es s) = tab_length s \<and>
    tab_capacity (protect_map H p es s) = tab_capacity s \<and> tab_gen (protect_map H p es s) = tab_gen s"
    using assms
  proof (induction es arbitrary: s)
    case Nil then show ?case by (simp add: protect_map_def)
  next
    case (Cons e es)
    have e: "entry_ok H e" and es: "\<forall>e \<in> set es. entry_ok H e" using Cons.prems by auto
    have fold: "protect_map H p (e # es) s = protect_map H p es (mprotect H (start_addr e) (int_length e) p s)" by (simp add: protect_map_def)
    show ?case unfolding fold using Cons.IH [OF es, of "mprotect H (start_addr e) (int_length e) p s"] e
      by (auto simp: int_length_ok [OF e] mprotect_def entry_ok_def in_entry_block)
  qed
  then show "prot_of (protect_map H p es s) x = (if \<exists>e \<in> set es. in_entry x e then p else prot_of s x)"
    "tab (protect_map H p es s) = tab s" "tab_length (protect_map H p es s) = tab_length s"
    "tab_capacity (protect_map H p es s) = tab_capacity s" "tab_gen (protect_map H p es s) = tab_gen s" by auto
qed

lemma read_scb_cong: "tab s' = tab s \<Longrightarrow> read_scb i s' = read_scb i s"
  by (simp add: read_scb_def)

lemma put_scb_ok:
  assumes "table_ok s" "unat i < unat (tab_capacity s)"
  shows "\<exists>s'. put_scb i b s = (Inr (), s') \<and> table_ok s' \<and> read_scb i s' = Some b \<and> (\<forall>j. j \<noteq> i \<longrightarrow> read_scb j s' = read_scb j s) \<and>
     tab_length s' = tab_length s \<and> tab_capacity s' = tab_capacity s \<and> prot_of s' = prot_of s \<and> tab_gen s' = tab_gen s"
  using assms by (auto simp: put_scb_def table_ok_def read_scb_def nth_list_update word_unat_eq_iff)

lemma allocate_ok:
  assumes ok: "table_ok s" and cap: "unat (tab_capacity s) < 2 ^ 31" and re: "\<forall>n. os_realloc H n"
  shows "\<exists>s'. allocate_scb H s = (Inr (tab_length s), s') \<and> table_ok s' \<and> unat (tab_length s') = unat (tab_length s) + 1 \<and>
     read_scb (tab_length s) s' = Some zero_scb \<and> (\<forall>j < tab_length s. read_scb j s' = read_scb j s) \<and> prot_of s' = prot_of s"
proof -
  let ?n = "unat (tab_length s)" and ?c = "unat (tab_capacity s)"
  from ok obtain tb where tb: "tab s = Some tb" "length tb = ?c" and lt: "2 * ?n < ?c" "2 \<le> ?c" by (auto simp: table_ok_def)
  have n1: "unat (tab_length s + 1) = ?n + 1" using lt cap by (simp add: unat_word_ariths)
  have c2: "unat (tab_capacity s * 2) = ?c * 2" using cap by (simp add: unat_word_ariths)
  have half: "unat (tab_capacity s div 2) = ?c div 2" by (simp add: unat_div_distrib)
  define s1 where "s1 = (if tab_length s + 1 \<ge> tab_capacity s div 2
      then realloc_tab H (s\<lparr>tab_length := tab_length s + 1, tab_capacity := tab_capacity s * 2\<rparr>) else s\<lparr>tab_length := tab_length s + 1\<rparr>)"
  have s1: "table_ok s1" "tab_length s1 = tab_length s + 1" "?c \<le> unat (tab_capacity s1)" "prot_of s1 = prot_of s"
    "\<forall>j. unat j < ?c \<longrightarrow> read_scb j s1 = read_scb j s"
  proof -
    show "table_ok s1" using tb lt n1 c2 half re
      by (auto simp: s1_def table_ok_def realloc_tab_def Let_def word_le_nat_alt)
    show "tab_length s1 = tab_length s + 1" "prot_of s1 = prot_of s" using re by (auto simp: s1_def realloc_tab_def Let_def)
    show "?c \<le> unat (tab_capacity s1)" using c2 re by (auto simp: s1_def realloc_tab_def Let_def)
    show "\<forall>j. unat j < ?c \<longrightarrow> read_scb j s1 = read_scb j s" using tb c2 re
      by (auto simp: s1_def realloc_tab_def Let_def read_scb_def nth_append)
  qed
  have i: "unat (tab_length s) < unat (tab_capacity s1)" using s1(3) lt by linarith
  from put_scb_ok [OF s1(1) i, of zero_scb] obtain s2 where s2: "put_scb (tab_length s) zero_scb s1 = (Inr (), s2)" "table_ok s2"
    "read_scb (tab_length s) s2 = Some zero_scb" "\<forall>j. j \<noteq> tab_length s \<longrightarrow> read_scb j s2 = read_scb j s1"
    "tab_length s2 = tab_length s1" "prot_of s2 = prot_of s1" by blast
  have "allocate_scb H s = (Inr (tab_length s), s2)" using s2(1) by (cases "tab_length s + 1 \<ge> tab_capacity s div 2") (simp_all add: allocate_scb_def Let_def s1_def)
  moreover have "read_scb j s2 = read_scb j s" if j: "j < tab_length s" for j
  proof -
    have "unat j < ?n" "j \<noteq> tab_length s" using j by (auto simp: word_less_nat_alt)
    then show ?thesis using s2(4) s1(5) lt by simp
  qed
  ultimately show ?thesis using s2 s1 n1 by auto
qed

lemma segv_search_all:
  assumes "maps_live s"
  shows "segv_search addr i s = (Inr (find (in_entry addr) (concat (map (scb_entries s) [i..<unat (tab_length s)]))), s)"
proof (induction "unat (tab_length s) - i" arbitrary: i)
  case 0
  then show ?case by (subst segv_search.simps) simp
next
  case (Suc d)
  then have i: "i < unat (tab_length s)" by simp
  from assms i obtain b m where b: "read_scb (of_nat i) s = Some b" "memmap b = LiveMap m" by (auto simp: maps_live_def)
  have e: "scb_entries s i = entries m" using b by (simp add: scb_entries_def)
  have up: "[i..<unat (tab_length s)] = i # [Suc i..<unat (tab_length s)]" using i by (simp add: upt_conv_Cons)
  have IH: "segv_search addr (Suc i) s = (Inr (find (in_entry addr) (concat (map (scb_entries s) [Suc i..<unat (tab_length s)]))), s)"
    using Suc by (intro Suc.hyps) simp
  have f: "find P (xs @ ys) = (case find P xs of None \<Rightarrow> find P ys | Some x \<Rightarrow> Some x)" for P :: "MapEntry \<Rightarrow> bool" and xs ys
    by (induction xs) auto
  have g: "(\<lambda>e. start_addr e \<le> addr \<and> addr < end_addr e) = in_entry addr" by (simp add: in_entry_def fun_eq_iff)
  show ?case using i b IH by (subst segv_search.simps) (simp add: up e f g split: option.splits)
qed

lemma seg_found: "find P xs = Some e \<Longrightarrow> e \<in> set xs \<and> P e"
  by (induction xs) (auto split: if_splits)

section \<open>Properties\<close>

lemma demo_table: "table_ok (scb_init demo_host True (\<lambda>_. 7))"
  by (simp add: table_ok_def scb_init_def)

text \<open>C36: \<^verbatim>\<open>allocate_scb\<close> never indexes outside the table: whenever the table is well formed and far from the size at which
  its 32-bit capacity would wrap, the new handle is the old length, its block is zeroed inside the
  table, the blocks in use keep their contents when the table moves, and the table is well formed
  again, less than half full.\<close>

theorem allocate_scb_in_table:
  assumes "table_ok s" and "unat (tab_capacity s) < 2 ^ 31" and "\<forall>n. os_realloc H n"
  shows "\<exists>s'. allocate_scb H s = (Inr (tab_length s), s') \<and> table_ok s' \<and> unat (tab_length s') = unat (tab_length s) + 1 \<and>
     read_scb (tab_length s) s' = Some zero_scb \<and> (\<forall>j < tab_length s. read_scb j s' = read_scb j s) \<and> prot_of s' = prot_of s"
  by (rule allocate_ok [OF assms])

theorem allocate_scb_in_table_witness:
  "\<exists>s'. allocate_scb demo_host (scb_init demo_host True (\<lambda>_. 7)) = (Inr 0, s') \<and> table_ok s' \<and> tab_length s' = 1"
  using allocate_scb_in_table [OF demo_table, of demo_host] by (force simp: scb_init_def demo_host_def word_unat_eq_iff)

lemma diff_new_maps:
  "Map_diff \<lparr>entries = map (entry_of False) bs, map_size = m\<rparr> \<lparr>entries = map (entry_of False) as, map_size = n\<rparr> =
     \<lparr>entries = new_maps bs as, map_size = 0\<rparr>"
  unfolding Map_diff_def Map_diff_entries
  by (simp add: Map_new_def MapEntry_equal_def new_maps_def filter_map entry_of_def comp_def)

lemma parse_maps_file:
  "\<forall>k \<in> set ks. map_ok pad k \<Longrightarrow> Map_parse (Some (maps_file pad ks)) = Inr \<lparr>entries = map (entry_of False) ks, map_size = of_nat (length ks)\<rparr>"
  using parse_lines_kernel [of ks pad Map_new] by (simp add: Map_parse_def Map_new_def maps_file_def)

lemma protect_map_table:
  "\<forall>e \<in> set es. entry_ok H e \<Longrightarrow> table_ok (protect_map H p es s) = table_ok s" "\<forall>e \<in> set es. entry_ok H e \<Longrightarrow> read_scb i (protect_map H p es s) = read_scb i s"
  by (simp_all add: table_ok_def read_scb_def protect_map_prot)

text \<open>The mappings with a new range are recorded and sealed, and nothing else changes.\<close>

lemma scon_create_run:
  assumes "table_ok s" and "unat (tab_capacity s) < 2 ^ 31" and "\<forall>n. os_realloc H n"
    and "os_dlopen H (abs_path H libpath) \<noteq> 0" and "\<forall>k \<in> set (bs @ as). map_ok pad k" and "\<forall>e \<in> set (new_maps bs as). entry_ok H e"
  shows "\<exists>s' b. scon_create H (Some (maps_file pad bs)) (Some (maps_file pad as)) libpath s = (Inr (tab_length s), s') \<and> table_ok s' \<and>
     (\<forall>x. prot_of s' x = (if \<exists>e \<in> set (new_maps bs as). in_entry x e then PROT_NONE else prot_of s x)) \<and>
     read_scb (tab_length s) s' = Some b \<and> memmap b = LiveMap \<lparr>entries = new_maps bs as, map_size = 0\<rparr> \<and>
     (\<forall>j < tab_length s. read_scb j s' = read_scb j s)"
proof -
  let ?i = "tab_length s" and ?lib = "os_dlopen H (abs_path H libpath)"
  let ?d = "\<lparr>entries = new_maps bs as, map_size = 0\<rparr> :: MemMap" let ?b = "zero_scb\<lparr>libhandle := ?lib, memmap := LiveMap ?d\<rparr>"
  from allocate_ok [OF assms(1-3)] obtain s1 where s1: "allocate_scb H s = (Inr ?i, s1)" "table_ok s1" "unat (tab_length s1) = unat ?i + 1"
    "\<forall>j < ?i. read_scb j s1 = read_scb j s" "prot_of s1 = prot_of s" by blast
  have i: "unat ?i < unat (tab_capacity s1)" "?i < tab_length s1" using s1(2,3) by (auto simp: table_ok_def word_less_nat_alt)
  from put_scb_ok [OF s1(2) i(1)] obtain s2 where s2: "put_scb ?i (zero_scb\<lparr>libhandle := ?lib\<rparr>) s1 = (Inr (), s2)" "table_ok s2"
    "\<forall>j. j \<noteq> ?i \<longrightarrow> read_scb j s2 = read_scb j s1" "tab_capacity s2 = tab_capacity s1" "prot_of s2 = prot_of s1" by blast
  have i2: "unat ?i < unat (tab_capacity s2)" using i(1) s2(4) by simp
  from put_scb_ok [OF s2(2) i2] obtain s3 where s3: "put_scb ?i ?b s2 = (Inr (), s3)" "table_ok s3" "read_scb ?i s3 = Some ?b"
    "\<forall>j. j \<noteq> ?i \<longrightarrow> read_scb j s3 = read_scb j s2" "prot_of s3 = prot_of s2" by blast
  let ?s = "protect_map H PROT_NONE (new_maps bs as) s3"
  have "\<forall>k \<in> set bs. map_ok pad k" "\<forall>k \<in> set as. map_ok pad k" using assms(5) by auto
  then have "scon_create H (Some (maps_file pad bs)) (Some (maps_file pad as)) libpath s = (Inr ?i, ?s)"
    unfolding scon_create_def using s1(1) i(2) s2(1) s3(1) assms(4) by (simp add: get_scb_def parse_maps_file diff_new_maps Let_def)
  moreover have "\<forall>j < ?i. read_scb j ?s = read_scb j s" using s1(4) s2(3) s3(4) protect_map_table(2) [OF assms(6)] by auto
  ultimately show ?thesis using s3 s2(5) s1(5) protect_map_prot [OF assms(6)] protect_map_table [OF assms(6)]
    by (intro exI [of _ ?s] exI [of _ ?b]) simp
qed

lemma new_maps_only_added:
  assumes "only_added bs as"
  shows "(\<exists>e \<in> set (new_maps bs as). in_entry x e) \<longleftrightarrow> (\<exists>a \<in> set as. in_map x a) \<and> \<not> (\<exists>b \<in> set bs. in_map x b)"
proof -
  have e: "in_entry x (entry_of False a) = in_map x a" for a by (simp add: in_entry_def in_map_def entry_of_def)
  have "\<not> in_map x b" if a: "a \<in> set as" "in_map x a" and b: "b \<in> set bs" "(k_start b, k_end b) \<noteq> (k_start a, k_end a)" for a b
  proof -
    from assms b(1) obtain c where c: "c \<in> set as" "k_start c = k_start b" "k_end c = k_end b" unfolding only_added_def by blast
    with assms a(1) b(2) have "k_end a \<le> k_start c \<or> k_end c \<le> k_start a"
      unfolding only_added_def by (metis prod.inject)
    with a(2) c show ?thesis by (auto simp: in_map_def)
  qed
  moreover have "in_map x b" if "in_map x a" "k_start b = k_start a" "k_end b = k_end a" for a b using that by (simp add: in_map_def)
  moreover have "(\<exists>e \<in> set (new_maps bs as). in_entry x e) \<longleftrightarrow>
      (\<exists>a \<in> set as. in_map x a \<and> (\<forall>b \<in> set bs. (k_start b, k_end b) \<noteq> (k_start a, k_end a)))"
    unfolding new_maps_def by (auto simp: e)
  ultimately show ?thesis by (metis prod.inject)
qed

text \<open>C29: \<^verbatim>\<open>scon_create\<close> seals the library that it loads: when the linker finds it, the handle leads to a control block that
  records the mappings whose range the kernel lists after loading and did not list before, their
  pages are inaccessible, every other page keeps its protection and earlier handles keep their blocks. If loading has
  only added mappings, and has neither grown, split nor removed one, the sealed pages are exactly those that it
  has added.\<close>

theorem scon_create_seals:
  assumes "table_ok s" and "unat (tab_capacity s) < 2 ^ 31" and "\<forall>n. os_realloc H n"
    and "os_dlopen H (abs_path H libpath) \<noteq> 0" and "\<forall>k \<in> set (bs @ as). map_ok pad k" and "\<forall>e \<in> set (new_maps bs as). entry_ok H e"
  shows "\<exists>s' b. scon_create H (Some (maps_file pad bs)) (Some (maps_file pad as)) libpath s = (Inr (tab_length s), s') \<and> table_ok s' \<and>
     (\<forall>x. prot_of s' x = (if \<exists>e \<in> set (new_maps bs as). in_entry x e then PROT_NONE else prot_of s x)) \<and>
     (only_added bs as \<longrightarrow> (\<forall>x. prot_of s' x =
        (if (\<exists>a \<in> set as. in_map x a) \<and> \<not> (\<exists>b \<in> set bs. in_map x b) then PROT_NONE else prot_of s x))) \<and>
     read_scb (tab_length s) s' = Some b \<and> memmap b = LiveMap \<lparr>entries = new_maps bs as, map_size = 0\<rparr> \<and>
     (\<forall>j < tab_length s. read_scb j s' = read_scb j s)"
proof -
  from scon_create_run [OF assms] obtain s' b where s': "scon_create H (Some (maps_file pad bs)) (Some (maps_file pad as)) libpath s = (Inr (tab_length s), s')"
    "table_ok s'" "\<forall>x. prot_of s' x = (if \<exists>e \<in> set (new_maps bs as). in_entry x e then PROT_NONE else prot_of s x)"
    "read_scb (tab_length s) s' = Some b" "memmap b = LiveMap \<lparr>entries = new_maps bs as, map_size = 0\<rparr>"
    "\<forall>j < tab_length s. read_scb j s' = read_scb j s" by blast
  then show ?thesis using new_maps_only_added [of bs as] by (intro exI [of _ s'] exI [of _ b]) simp
qed

theorem scon_create_seals_witness:
  "\<exists>s'. scon_create demo_host (Some (maps_file (column_pad 73) [demo_libc])) (Some (maps_file (column_pad 73) [demo_map, demo_libc])) ''/lib''
       (scb_init demo_host True (\<lambda>_. 7)) = (Inr 0, s') \<and>
     prot_of s' 0x401234 = PROT_NONE \<and> prot_of s' 0x452000 = 7 \<and> prot_of s' 0x700123 = 7"
proof -
  let ?s = "scb_init demo_host True (\<lambda>_. 7)" and ?p = "column_pad 73"
  have m: "\<forall>k \<in> set ([demo_libc] @ [demo_map, demo_libc]). map_ok ?p k" using demo_maps_ok by simp
  have n: "new_maps [demo_libc] [demo_map, demo_libc] = [entry_of False demo_map]"
    by (simp add: new_maps_def demo_libc_def demo_map_def)
  have ok: "\<forall>e \<in> set (new_maps [demo_libc] [demo_map, demo_libc]). entry_ok demo_host e"
    unfolding n by (simp add: entry_ok_def entry_of_def demo_map_def demo_host_def)
  have a: "only_added [demo_libc] [demo_map, demo_libc]" by (simp add: only_added_def demo_libc_def demo_map_def)
  from scon_create_seals [OF demo_table _ _ _ m ok, of "''/lib''"] obtain s' where
    "scon_create demo_host (Some (maps_file ?p [demo_libc])) (Some (maps_file ?p [demo_map, demo_libc])) ''/lib'' ?s = (Inr (tab_length ?s), s')"
    and p: "\<And>x. prot_of s' x = (if (\<exists>a \<in> set [demo_map, demo_libc]. in_map x a) \<and> \<not> (\<exists>b \<in> set [demo_libc]. in_map x b)
      then PROT_NONE else prot_of ?s x)"
    using a by (auto simp: scb_init_def demo_host_def)
  moreover have "prot_of s' 0x401234 = PROT_NONE" "prot_of s' 0x452000 = 7" "prot_of s' 0x700123 = 7"
    unfolding p by (simp_all add: in_map_def demo_libc_def demo_map_def scb_init_def)
  ultimately show ?thesis by (auto simp: scb_init_def)
qed

text \<open>A mapping that has grown counts as new, so that its old pages, which are not the library's, are sealed with it.\<close>

lemma scon_create_seals_grown:
  assumes "table_ok s" and "unat (tab_capacity s) < 2 ^ 31" and "\<forall>n. os_realloc H n"
    and "os_dlopen H (abs_path H libpath) \<noteq> 0" and "\<forall>k \<in> set (bs @ as). map_ok pad k" and "\<forall>e \<in> set (new_maps bs as). entry_ok H e"
    and a: "a \<in> set as" "\<forall>b \<in> set bs. (k_start b, k_end b) \<noteq> (k_start a, k_end a)"
    and grown: "b \<in> set bs" "k_start a \<le> k_start b" "k_end b < k_end a" and x: "in_map x b"
  shows "\<exists>s'. scon_create H (Some (maps_file pad bs)) (Some (maps_file pad as)) libpath s = (Inr (tab_length s), s') \<and> prot_of s' x = PROT_NONE"
proof -
  have "entry_of False a \<in> set (new_maps bs as)" using a by (auto simp: new_maps_def)
  moreover have "in_entry x (entry_of False a)" using grown x by (auto simp: in_entry_def in_map_def entry_of_def)
  ultimately show ?thesis using scon_create_run [OF assms(1-6)] by metis
qed

lemma protect_map_tab: "tab (protect_map H p es s) = tab s"
  unfolding protect_map_def by (induction es arbitrary: s) (auto simp: mprotect_def)

text \<open>C37: A fault inside a mapping of a subcontext opens that mapping, and only that one, for every access, and a fault
  anywhere else ends the process: the search through the table finds what a search through all
  recorded mappings in order finds.\<close>

theorem scon_fault_opens_one:
  assumes "maps_live s" and "\<forall>e \<in> set (all_entries s). entry_ok H e"
  shows "case find (in_entry addr) (all_entries s) of
       None \<Rightarrow> sigsegv_handler H 0 addr s = (Inl (Exit 1), s)
     | Some e \<Rightarrow> \<exists>s'. sigsegv_handler H 0 addr s = (Inr (), s') \<and> prot_of s' addr = PROT_ALL \<and>
         (\<forall>x. prot_of s' x = (if in_entry x e then PROT_ALL else prot_of s x)) \<and> tab s' = tab s"
proof -
  have search: "segv_search addr 0 s = (Inr (find (in_entry addr) (all_entries s)), s)"
    using segv_search_all [OF assms(1), of addr 0] by (simp add: all_entries_def)
  show ?thesis
  proof (cases "find (in_entry addr) (all_entries s)")
    case None
    then show ?thesis using search by (simp add: sigsegv_handler_def)
  next
    case (Some e)
    from seg_found [OF this] assms(2) have e: "in_entry addr e" "entry_ok H e" by auto
    have m: "mprotect H (start_addr e) (int_length e) PROT_ALL s = protect_map H PROT_ALL [e] s" by (simp add: protect_map_def)
    have run: "sigsegv_handler H 0 addr s = (Inr (), protect_map H PROT_ALL [e] s)"
      using search Some by (simp add: sigsegv_handler_def m)
    with e protect_map_prot [of "[e]" H PROT_ALL s] show ?thesis by (simp add: Some)
  qed
qed

theorem scon_fault_opens_one_witness:
  "\<exists>s'. sigsegv_handler demo_host 0 0x401234 demo_sealed = (Inr (), s') \<and> prot_of s' 0x400000 = 7 \<and> prot_of s' 0x300000 = 0"
proof -
  have l: "unat (tab_length demo_sealed) = 1" "read_scb 0 demo_sealed = Some (demo_block)" "memmap demo_block = LiveMap \<lparr>entries = [entry_of False demo_map], map_size = 0\<rparr>"
    by (simp_all add: demo_sealed_def read_scb_def demo_block_def)
  have a: "all_entries demo_sealed = [entry_of False demo_map]" using l by (simp add: all_entries_def scb_entries_def)
  have m: "maps_live demo_sealed" using l by (simp add: maps_live_def)
  have e: "start_addr (entry_of False demo_map) = 0x400000" "end_addr (entry_of False demo_map) = 0x452000"
    by (simp_all add: entry_of_def demo_map_def)
  have ok: "\<forall>e \<in> set (all_entries demo_sealed). entry_ok demo_host e" by (simp add: a entry_ok_def e demo_host_def)
  have f: "find (in_entry 0x401234) (all_entries demo_sealed) = Some (entry_of False demo_map)" by (simp add: a in_entry_def e)
  from scon_fault_opens_one [OF m ok, of "0x401234", unfolded f] obtain s' where "sigsegv_handler demo_host 0 0x401234 demo_sealed = (Inr (), s')"
    and p: "\<forall>x. prot_of s' x = (if in_entry x (entry_of False demo_map) then PROT_ALL else prot_of demo_sealed x)" by auto
  then show ?thesis unfolding p [rule_format] by (auto simp: p in_entry_def e demo_sealed_def PROT_ALL_def mman_defs)
qed

text \<open>A call into the library leaves, whatever the function did, every page of the library inaccessible again,
  provided it returned and did not grow the table.\<close>

theorem scon_callf_reseals:
  assumes run: "scon_callf H run handle name arg s = (Inr r, s')" and b: "read_scb handle s' = Some b" "memmap b = LiveMap m"
    and ok: "\<forall>e \<in> set (entries m). entry_ok H e" and x: "e \<in> set (entries m)" "in_entry x e"
  shows "prot_of s' x = PROT_NONE"
proof -
  from run obtain s2 c n where s': "s' = protect_map H PROT_NONE (entries n) s2" and c: "read_scb handle s2 = Some c" "memmap c = LiveMap n"
    by (auto simp: scon_callf_def get_scb_def deref_def with_map_def Let_def elim!: call_InrE split: if_splits option.splits map_ptr.splits)
  then have "c = b" "n = m" using b by (auto simp: read_scb_def protect_map_tab)
  then show ?thesis using protect_map_prot(1) [OF ok, of PROT_NONE s2 x] x by (auto simp: s')
qed

text \<open>Closing leaves the block of the subcontext in the table with a pointer to the map it has freed, so
  the handler, which walks the blocks from the first on, fails on every later fault once the first
  subcontext is closed.\<close>

theorem scon_close_breaks_handler:
  assumes "scon_close H 0 s = (Inr (), s')" shows "sigsegv_handler H 0 addr s' = (Inl Segv, s')"
proof -
  from assms obtain b es t where t: "put_scb 0 (b\<lparr>memmap := FreedMap\<rparr>) t = (Inr (), s')" "t = protect_map H PROT_ALL es s" "0 < tab_length s"
    by (auto simp: scon_close_def get_scb_def deref_def with_map_def Let_def elim!: call_InrE split: if_splits option.splits map_ptr.splits)
  have "tab_length (protect_map H PROT_ALL es s) = tab_length s"
    unfolding protect_map_def by (induction es arbitrary: s) (auto simp: mprotect_def)
  with t have "0 < unat (tab_length s')" "\<exists>b. read_scb 0 s' = Some b \<and> memmap b = FreedMap"
    by (auto simp: put_scb_def read_scb_def word_less_nat_alt split: option.splits if_splits)
  then have "segv_search addr 0 s' = (Inl Segv, s')" by (subst segv_search.simps) auto
  then show ?thesis by (simp add: sigsegv_handler_def)
qed

end
