(* ===== verification/SC_Experiments.thy ===== *)
theory SC_Experiments
  imports SC_Lifecycle
begin

text \<open>
  The experiments of \<^verbatim>\<open>src/micro_experiments\<close> that try out memory protection: a handler for segmentation faults
  opens the page that was touched (\<^verbatim>\<open>exp1.c\<close>) or one of two buffers (\<^verbatim>\<open>exp2.c\<close>).

  A process has an address space, its private bytes by address, the bytes of the one file it uses and the
  addresses for which the handler has printed a line. An access to a page that does not permit it runs the
  handler and is tried again, as the processor does; an access that faults for ever is the trap
  \<open>Diverge\<close>. The results of \<^verbatim>\<open>mprotect\<close> are not looked at by the code. What the programs print otherwise is
  left out.
\<close>

section \<open>Definitions\<close>

subsection \<open>Processes\<close>

record pspace =
  p_maps :: vmem
  p_ram :: memory
  p_disk :: memory
  p_handled :: "u64 list"

text \<open>The place of a byte: in the file when the mapping is shared, else in the process.\<close>

definition file_place :: "'a pspace_scheme \<Rightarrow> u64 \<Rightarrow> u64 option" where
  "file_place s x = (case p_maps s x of
     Some m \<Rightarrow> if m_shared m then (case m_backing m of FileBacked fd i \<Rightarrow> Some i | Anonymous \<Rightarrow> None) else None
   | None \<Rightarrow> None)"

definition byte_at :: "'a pspace_scheme \<Rightarrow> u64 \<Rightarrow> u8" where
  "byte_at s x = (case file_place s x of Some i \<Rightarrow> p_disk s i | None \<Rightarrow> p_ram s x)"

definition set_byte :: "u64 \<Rightarrow> u8 \<Rightarrow> 'a pspace_scheme \<Rightarrow> 'a pspace_scheme" where
  "set_byte x v s = (case file_place s x of
     Some i \<Rightarrow> s\<lparr>p_disk := (p_disk s)(i := v)\<rparr> | None \<Rightarrow> s\<lparr>p_ram := (p_ram s)(x := v)\<rparr>)"

text \<open>\<^verbatim>\<open>mmap\<close>: private pages start as zeros or as the bytes of the file. \<^verbatim>\<open>mprotect\<close> refuses an address that is
  not the start of a page; the lengths are whole pages wherever it is used.\<close>

definition initial_byte :: "mmap_req \<Rightarrow> memory \<Rightarrow> u64 \<Rightarrow> u64 \<Rightarrow> u8" where
  "initial_byte q d r x = (if q_flags q AND MAP_ANONYMOUS \<noteq> 0 then 0 else d (q_off q + (x - r)))"

definition p_mmap :: "env \<Rightarrow> mmap_req \<Rightarrow> 'a pspace_scheme \<Rightarrow> u64 \<times> 'a pspace_scheme" where
  "p_mmap E q s =
     (let r = os_mmap E (p_maps s) q
      in if r = MAP_FAILED then (r, s)
         else (r, s\<lparr>p_maps := vm_map (p_maps s) r q,
                    p_ram := (if q_flags q AND MAP_SHARED \<noteq> 0 then p_ram s
                              else fill (p_ram s) (r, q_len q) (initial_byte q (p_disk s) r))\<rparr>))"

definition reprotect :: "u64 \<Rightarrow> u64 \<Rightarrow> u32 \<Rightarrow> vmem \<Rightarrow> vmem" where
  "reprotect a n p vm = (\<lambda>x. if in_block x (a, n) then map_option (\<lambda>m. m\<lparr>m_prot := p\<rparr>) (vm x) else vm x)"

definition p_mprotect :: "env \<Rightarrow> u64 \<Rightarrow> u64 \<Rightarrow> u32 \<Rightarrow> 'a pspace_scheme \<Rightarrow> 'a pspace_scheme" where
  "p_mprotect E a n p s = (if a mod getpagesize E \<noteq> 0 then s else s\<lparr>p_maps := reprotect a n p (p_maps s)\<rparr>)"

text \<open>An instruction that needs the right \<open>p\<close> at \<open>x\<close>, tried again after every return of the handler.\<close>

definition may :: "u32 \<Rightarrow> u64 \<Rightarrow> 'a pspace_scheme \<Rightarrow> bool" where
  "may p x s \<longleftrightarrow> (case p_maps s x of None \<Rightarrow> False | Some m \<Rightarrow> m_prot m AND p \<noteq> 0)"

partial_function (option) retry :: "('s \<Rightarrow> bool) \<Rightarrow> ('s \<Rightarrow> (unit, 's) res) \<Rightarrow> 's \<Rightarrow> ((unit, 's) res) option" where
  "retry ok h s =
     (if ok s then Some (Inr (), s)
      else case h s of (Inl e, s) \<Rightarrow> Some (Inl e, s) | (Inr _, s) \<Rightarrow> retry ok h s)"

definition touch :: "u32 \<Rightarrow> (u64 \<Rightarrow> 'a pspace_scheme \<Rightarrow> (unit, 'a pspace_scheme) res) \<Rightarrow> u64 \<Rightarrow>
    'a pspace_scheme \<Rightarrow> (unit, 'a pspace_scheme) res" where
  "touch p h x s = (case retry (may p x) (h x) s of None \<Rightarrow> (Inl Diverge, s) | Some r \<Rightarrow> r)"

definition load_byte :: "(u64 \<Rightarrow> 'a pspace_scheme \<Rightarrow> (unit, 'a pspace_scheme) res) \<Rightarrow> u64 \<Rightarrow>
    'a pspace_scheme \<Rightarrow> (u8, 'a pspace_scheme) res" where
  "load_byte h x = call (touch PROT_READ h x) (\<lambda>_ s. (Inr (byte_at s x), s))"

definition store_byte :: "(u64 \<Rightarrow> 'a pspace_scheme \<Rightarrow> (unit, 'a pspace_scheme) res) \<Rightarrow> u64 \<Rightarrow> u8 \<Rightarrow>
    'a pspace_scheme \<Rightarrow> (unit, 'a pspace_scheme) res" where
  "store_byte h x v = call (touch PROT_WRITE h x) (\<lambda>_ s. (Inr (), set_byte x v s))"

text \<open>A loop that runs its body for each index in turn.\<close>

fun each :: "('i \<Rightarrow> 's \<Rightarrow> (unit, 's) res) \<Rightarrow> 'i list \<Rightarrow> 's \<Rightarrow> (unit, 's) res" where
  "each f [] s = (Inr (), s)"
| "each f (i # is) s = call (f i) (\<lambda>_. each f is) s"

subsection \<open>One buffer, opened page by page\<close>

record exp1 = pspace +
  memptr :: u64
  exp1_length :: u32
  exp1_pagesize :: u32

definition exp1_handler :: "env \<Rightarrow> u32 \<Rightarrow> u64 \<Rightarrow> exp1 \<Rightarrow> (unit, exp1) res" where
  "exp1_handler E si_errno addr s =
     (if si_errno \<noteq> 0 then (Inl (Exit 1), s)
      else if addr \<ge> memptr s \<and> addr < memptr s + scast (exp1_length s)
      then (Inr (), p_mprotect E addr (scast (exp1_pagesize s)) (PROT_READ OR PROT_WRITE) (s\<lparr>p_handled := p_handled s @ [addr]\<rparr>))
      else (Inl (Exit 1), s))"

definition exp1_increment :: "env \<Rightarrow> nat \<Rightarrow> exp1 \<Rightarrow> (unit, exp1) res" where
  "exp1_increment E i s =
     (let p = memptr s + of_nat i
      in call (load_byte (exp1_handler E 0) p) (\<lambda>v. store_byte (exp1_handler E 0) p (v + 1)) s)"

definition exp1_main :: "env \<Rightarrow> exp1 \<Rightarrow> (int, exp1) res" where
  "exp1_main E s =
     (let s = s\<lparr>exp1_pagesize := ucast (getpagesize E)\<rparr>;
          s = s\<lparr>exp1_length := exp1_pagesize s * 16\<rparr>;
          (mmap_ret, s) = p_mmap E \<lparr>q_addr = 0, q_len = scast (exp1_length s), q_prot = PROT_READ OR PROT_WRITE,
             q_flags = MAP_PRIVATE OR MAP_ANONYMOUS, q_fd = - 1, q_off = 0\<rparr> s
      in if mmap_ret = MAP_FAILED then (Inr 1, s)
         else
           let s = s\<lparr>memptr := mmap_ret\<rparr>;
               s = p_mprotect E (memptr s) (scast (exp1_length s)) PROT_NONE s
           in call (each (exp1_increment E) [0..<nat (sint (exp1_length s))]) (\<lambda>_ s. (Inr 0, s)) s)"

subsection \<open>Two buffers, of which one is open\<close>








section \<open>Lemmas\<close>

lemma retry_ok: "ok s \<Longrightarrow> retry ok h s = Some (Inr (), s)"
  by (subst retry.simps) simp

lemma retry_fault: "\<not> ok s \<Longrightarrow> h s = (Inr u, s') \<Longrightarrow> retry ok h s = retry ok h s'"
  by (subst retry.simps) simp

lemma retry_never:
  assumes step: "\<And>s. I s \<Longrightarrow> \<not> ok s \<and> (\<exists>s'. h s = (Inr (), s') \<and> I s')" and "I s"
  shows "retry ok h s = None"
proof -
  have "ok' = ok \<longrightarrow> h' = h \<longrightarrow> \<not> I s" if "retry ok' h' s = Some r" for ok' h' s r
  proof (rule retry.raw_induct [where P = "\<lambda>ok' h' s r. ok' = ok \<longrightarrow> h' = h \<longrightarrow> \<not> I s", OF _ that])
    fix retry' ok' h' s r
    assume IH: "\<And>ok' h' s r. retry' ok' h' s = Some r \<Longrightarrow> ok' = ok \<longrightarrow> h' = h \<longrightarrow> \<not> I s"
      and run: "(if ok' s then Some (Inr (), s) else case h' s of (Inl e, s) \<Rightarrow> Some (Inl e, s) | (Inr _, s) \<Rightarrow> retry' ok' h' s) = Some r"
    show "ok' = ok \<longrightarrow> h' = h \<longrightarrow> \<not> I s"
    proof (intro impI notI)
      assume e: "ok' = ok" "h' = h" and "I s"
      with step obtain s' where "\<not> ok s" "h s = (Inr (), s')" "I s'" by blast
      with IH run e show False by auto
    qed
  qed
  with assms(2) show ?thesis by (cases "retry ok h s") auto
qed

lemma touch_ok: "may p x s \<Longrightarrow> touch p h x s = (Inr (), s)"
  by (simp add: touch_def retry_ok)

lemma touch_fault: "\<not> may p x s \<Longrightarrow> h x s = (Inr (), s') \<Longrightarrow> may p x s' \<Longrightarrow> touch p h x s = (Inr (), s')"
  by (simp add: touch_def retry_fault retry_ok)

lemma each_append: "each f (xs @ ys) s = call (each f xs) (\<lambda>_. each f ys) s"
  by (induction xs arbitrary: s) (auto simp: call_def split: prod.splits sum.splits)

lemma each_upt:
  assumes "\<And>i. i < n \<Longrightarrow> f i (S i) = (Inr (), S (Suc i))" shows "each f [0..<n] (S 0) = (Inr (), S n)"
  using assms by (induction n) (simp_all add: each_append)

text \<open>Sizes of at most half the range of an \<^verbatim>\<open>int\<close> survive the conversions.\<close>

lemma int_size:
  assumes "unat (n :: u64) < 2 ^ 31"
  shows "sint (ucast n :: u32) = int (unat n)" "scast (ucast n :: u32) = n"
proof -
  have i: "uint n = int (unat n)" by simp
  have "int (unat n) < int (2 ^ 31)" using assms by (simp only: of_nat_less_iff)
  with i have n: "uint n < 2 ^ 31" "0 \<le> uint n" by simp_all
  then have u: "uint (ucast n :: u32) = uint n" by (simp add: unsigned_ucast_eq take_bit_int_eq_self_iff)
  have "signed_take_bit 31 (uint n) = uint n" using n order_trans [of "- 2147483648" 0 "uint n"] by (simp add: signed_take_bit_int_eq_self_iff)
  then have s: "sint (ucast n :: u32) = uint n" by (simp add: sint_uint u)
  with i show "sint (ucast n :: u32) = int (unat n)" by simp
  show "scast (ucast n :: u32) = n" by (simp only: scast_eq s word_of_int_uint)
qed

lemma in_rangeI:
  assumes "fits (a, n)" "i < unat n" shows "a \<le> a + of_nat i" "a + of_nat i < a + n" "unat (a + of_nat i) = unat a + i"
proof -
  have "unat a + i < 2 ^ 64" using assms by (simp add: fits_def)
  then show u: "unat (a + of_nat i) = unat a + i" by (rule unat_add_fits)
  have "unat (a + n) = unat a + unat n" using assms(1) unat_add_fits [of a "unat n"] by (simp add: fits_def)
  with u assms show "a \<le> a + of_nat i" "a + of_nat i < a + n" by (simp_all add: word_le_nat_alt word_less_nat_alt)
qed


lemma mmap_placed:
  assumes "kernel_ok E" "os_mmap E vm q \<noteq> MAP_FAILED" "q_flags q AND MAP_FIXED = 0"
  shows "fits (os_mmap E vm q, q_len q)" "unat (getpagesize E) dvd unat (os_mmap E vm q)"
    "in_block x (os_mmap E vm q, q_len q) \<Longrightarrow> vm x = None"
  using assms unfolding kernel_ok_def by blast+

subsection \<open>The first experiment\<close>

text \<open>The state before byte \<open>i\<close>: the pages up to the one that byte \<open>i - 1\<close> is in have been opened, in order.\<close>

definition opened_pages :: "nat \<Rightarrow> nat \<Rightarrow> nat" where
  "opened_pages P i = (i + P - 1) div P"

definition exp1_at :: "env \<Rightarrow> u64 \<Rightarrow> exp1 \<Rightarrow> nat \<Rightarrow> exp1" where
  "exp1_at E a s i =
     (let P = unat (getpagesize E); n = getpagesize E * 16; k = opened_pages P i
      in s\<lparr>p_maps := (\<lambda>x. if in_block x (a, n)
             then Some \<lparr>m_prot = (if unat x < unat a + k * P then PROT_READ OR PROT_WRITE else PROT_NONE), m_shared = False, m_backing = Anonymous\<rparr>
             else p_maps s x),
           p_ram := (\<lambda>x. if in_block x (a, n) then if unat x < unat a + i then 1 else 0 else p_ram s x),
           p_handled := p_handled s @ map (\<lambda>j. a + of_nat (j * P)) [0..<k],
           memptr := a, exp1_length := ucast n, exp1_pagesize := ucast (getpagesize E)\<rparr>)"

lemma opened_pages_Suc:
  assumes "0 < P"
  shows "i mod P = 0 \<Longrightarrow> opened_pages P i = i div P" "opened_pages P (Suc i) = Suc (i div P)"
    "i mod P \<noteq> 0 \<Longrightarrow> opened_pages P i = Suc (i div P)"
proof -
  show s: "opened_pages P (Suc i) = Suc (i div P)" using assms div_add_self2 [of P i] by (simp add: opened_pages_def)
  have e: "i = i div P * P + i mod P" by simp
  show "opened_pages P i = i div P" if m: "i mod P = 0"
  proof -
    have "(i div P * P + (P - 1)) div P = i div P" using assms by (subst div_mult_self3) auto
    with e m assms show ?thesis by (simp add: opened_pages_def)
  qed
  show "opened_pages P i = Suc (i div P)" if m: "i mod P \<noteq> 0"
  proof -
    have "i + P - 1 = (i mod P - 1) + Suc (i div P) * P" using m assms e by simp
    also have "\<dots> div P = Suc (i div P) + (i mod P - 1) div P" using assms by (intro div_mult_self1) simp
    also have "(i mod P - 1) div P = 0" using assms by (simp add: less_imp_diff_less)
    finally show ?thesis by (simp add: opened_pages_def)
  qed
qed

lemma exp1_at_simps:
  "p_maps (exp1_at E a s i) x = (if in_block x (a, getpagesize E * 16)
     then Some \<lparr>m_prot = (if unat x < unat a + opened_pages (unat (getpagesize E)) i * unat (getpagesize E) then PROT_READ OR PROT_WRITE
       else PROT_NONE), m_shared = False, m_backing = Anonymous\<rparr> else p_maps s x)"
  "p_ram (exp1_at E a s i) x = (if in_block x (a, getpagesize E * 16) then if unat x < unat a + i then 1 else 0 else p_ram s x)"
  "memptr (exp1_at E a s i) = a" "exp1_length (exp1_at E a s i) = ucast (getpagesize E * 16)"
  "exp1_pagesize (exp1_at E a s i) = ucast (getpagesize E)" "p_disk (exp1_at E a s i) = p_disk s"
  by (simp_all add: exp1_at_def Let_def)

lemma exp1_at_Suc:
  "exp1_at E a s (Suc i) = (exp1_at E a s i)\<lparr>p_maps := p_maps (exp1_at E a s (Suc i)), p_ram := p_ram (exp1_at E a s (Suc i)),
     p_handled := p_handled (exp1_at E a s (Suc i))\<rparr>"
  by (simp add: exp1_at_def Let_def)

text \<open>Opening the page of byte \<open>i\<close>, when it is the first of its page.\<close>

lemma exp1_fault:
  assumes P: "0 < unat (getpagesize E)" "unat (getpagesize E) < 2 ^ 27" and al: "unat (getpagesize E) dvd unat a"
    and f: "fits (a, getpagesize E * 16)" and i: "i < 16 * unat (getpagesize E)" "i mod unat (getpagesize E) = 0"
  shows "exp1_handler E 0 (a + of_nat i) (exp1_at E a s i) = (Inr (), (exp1_at E a s (Suc i))\<lparr>p_ram := p_ram (exp1_at E a s i)\<rparr>)"
proof -
  let ?P = "unat (getpagesize E)" and ?n = "getpagesize E * 16" and ?p = "a + of_nat i :: u64" and ?k = "i div unat (getpagesize E)"
  have n: "unat ?n = 16 * ?P" using P(2) by (simp add: unat_word_ariths)
  have p: "a \<le> ?p" "?p < a + ?n" "unat ?p = unat a + i" using in_rangeI [OF f, of i] i(1) n by simp_all
  have sz: "scast (ucast ?n :: u32) = ?n" "scast (ucast (getpagesize E) :: u32) = getpagesize E" using int_size n P(2) by simp_all
  have ik: "i = ?k * ?P" using i(2) by auto
  have k: "?k < 16" using i(1) P(1) by (simp add: div_less_iff_less_mult)
  then have kP: "?k * ?P + ?P \<le> 16 * ?P" by (metis Suc_leI mult.commute mult_Suc_right add.commute mult_le_mono2)
  have "?P dvd unat ?p" using al i(2) p(3) by (simp add: dvd_add mod_eq_0_iff_dvd)
  then have m: "?p mod getpagesize E = 0" by (simp add: word_mod_dvd)
  note o = opened_pages_Suc [OF P(1)]
  have "reprotect ?p (getpagesize E) (PROT_READ OR PROT_WRITE) (p_maps (exp1_at E a s i)) x = p_maps (exp1_at E a s (Suc i)) x" for x
    using p(3) ik kP n o(1) [OF i(2)] o(2) [of i] by (auto simp: reprotect_def exp1_at_simps in_block_def)
  then have maps: "reprotect ?p (getpagesize E) (PROT_READ OR PROT_WRITE) (p_maps (exp1_at E a s i)) = p_maps (exp1_at E a s (Suc i))" by (rule ext)
  have hd: "p_handled (exp1_at E a s i) @ [?p] = p_handled (exp1_at E a s (Suc i))"
    using arg_cong [OF ik, of "of_nat :: nat \<Rightarrow> u64"] by (simp add: exp1_at_def Let_def o(1) [OF i(2)] o(2))
  have "exp1_handler E 0 ?p (exp1_at E a s i) =
      (Inr (), (exp1_at E a s i)\<lparr>p_handled := p_handled (exp1_at E a s (Suc i)), p_maps := p_maps (exp1_at E a s (Suc i))\<rparr>)"
    using p(1,2) m hd maps by (simp add: exp1_handler_def exp1_at_simps(3-5) sz p_mprotect_def)
  then show ?thesis by (subst exp1_at_Suc) simp
qed

lemma exp1_step:
  assumes P: "0 < unat (getpagesize E)" "unat (getpagesize E) < 2 ^ 27" and al: "unat (getpagesize E) dvd unat a"
    and f: "fits (a, getpagesize E * 16)" and i: "i < 16 * unat (getpagesize E)"
  shows "exp1_increment E i (exp1_at E a s i) = (Inr (), exp1_at E a s (Suc i))"
proof -
  let ?P = "unat (getpagesize E)" and ?n = "getpagesize E * 16" and ?p = "a + of_nat i :: u64"
  let ?t = "(exp1_at E a s (Suc i))\<lparr>p_ram := p_ram (exp1_at E a s i)\<rparr>"
  have n: "unat ?n = 16 * ?P" using P(2) by (simp add: unat_word_ariths)
  have p: "unat ?p = unat a + i" using in_rangeI [OF f, of i] i n by simp
  then have inb: "in_block ?p (a, ?n)" using i n by (simp add: in_block_def)
  note o = opened_pages_Suc [OF P(1)]
  have lt: "i < Suc (i div ?P) * ?P" using P(1) by (metis dividend_less_div_times mult.commute mult_Suc_right add.commute)
  have may: "may q ?p ?t" if "q = PROT_READ \<or> q = PROT_WRITE" for q
    using that inb p lt by (auto simp: may_def exp1_at_simps o(2) mman_defs)
  have "touch PROT_READ (exp1_handler E 0) ?p (exp1_at E a s i) = (Inr (), ?t)"
  proof (cases "i mod ?P = 0")
    case True
    have "i div ?P * ?P = i" using True by auto
    then have "\<not> may PROT_READ ?p (exp1_at E a s i)" using inb p by (simp add: may_def exp1_at_simps o(1) [OF True] mman_defs)
    then show ?thesis using exp1_fault [OF P al f i True] may by (intro touch_fault) simp_all
  next
    case False
    then have e: "opened_pages ?P (Suc i) = opened_pages ?P i" by (simp add: o(2,3))
    have "?t = exp1_at E a s i" unfolding exp1_at_def Let_def e by simp
    then show ?thesis using may [of PROT_READ] touch_ok by metis
  qed
  moreover have "byte_at ?t ?p = 0" using inb p by (simp add: byte_at_def file_place_def exp1_at_simps)
  ultimately have load: "load_byte (exp1_handler E 0) ?p (exp1_at E a s i) = (Inr 0, ?t)" by (simp add: load_byte_def)
  have "set_byte ?p 1 ?t = exp1_at E a s (Suc i)"
  proof -
    have "(p_ram (exp1_at E a s i))(?p := 1) = p_ram (exp1_at E a s (Suc i))"
      using inb p by (intro ext) (auto simp: exp1_at_simps less_Suc_eq word_unat_eq_iff in_block_def)
    then show ?thesis using inb by (simp add: set_byte_def file_place_def exp1_at_simps)
  qed
  then show ?thesis using load touch_ok [OF may [of PROT_WRITE]] by (simp add: exp1_increment_def exp1_at_simps store_byte_def)
qed

text \<open>The first experiment as a whole.\<close>

lemma exp1_main_runs:
  assumes K: "kernel_ok E" and P: "0 < unat (getpagesize E)" "unat (getpagesize E) < 2 ^ 27"
    and q: "q = \<lparr>q_addr = 0, q_len = getpagesize E * 16, q_prot = PROT_READ OR PROT_WRITE,
       q_flags = MAP_PRIVATE OR MAP_ANONYMOUS, q_fd = - 1, q_off = 0\<rparr>"
    and m: "os_mmap E (p_maps s) q \<noteq> MAP_FAILED"
  shows "exp1_main E s = (Inr 0, exp1_at E (os_mmap E (p_maps s) q) s (16 * unat (getpagesize E)))"
proof -
  let ?P = "unat (getpagesize E)" and ?n = "getpagesize E * 16" and ?a = "os_mmap E (p_maps s) q"
  have n: "unat ?n = 16 * ?P" using P(2) by (simp add: unat_word_ariths)
  have len: "ucast (getpagesize E) * 16 = (ucast ?n :: u32)" using P(2) by (simp add: word_unat_eq_iff unat_word_ariths unsigned_ucast_eq take_bit_eq_mod)
  have small: "unat ?n < 2 ^ 31" using n P(2) by simp
  have sz: "scast (ucast ?n :: u32) = ?n" "nat (sint (ucast ?n :: u32)) = 16 * ?P"
    by (simp_all only: int_size [OF small] nat_int n)
  have "q_flags q AND MAP_FIXED = 0" by (simp add: q mman_defs)
  from mmap_placed(1,2) [OF K m this] have a: "fits (?a, ?n)" "?P dvd unat ?a" by (simp_all add: q)
  have a0: "?a mod getpagesize E = 0" using a(2) by (simp add: word_mod_dvd)
  have p0: "opened_pages ?P 0 = 0" using P(1) by (simp add: opened_pages_def)
  have maps: "reprotect ?a ?n PROT_NONE (vm_map (p_maps s) ?a q) = p_maps (exp1_at E ?a s 0)"
    by (rule ext) (simp add: exp1_at_simps p0 in_block_def reprotect_def, auto simp: vm_map_def q mman_defs in_block_def)
  have ram: "fill (p_ram s) (?a, q_len q) (initial_byte q (p_disk s) ?a) = p_ram (exp1_at E ?a s 0)"
    by (rule ext) (simp add: exp1_at_simps fill_def initial_byte_def q mman_defs in_block_def)
  have start: "s\<lparr>exp1_pagesize := ucast (getpagesize E), exp1_length := ucast ?n, p_ram := p_ram (exp1_at E ?a s 0), memptr := ?a,
      p_maps := p_maps (exp1_at E ?a s 0)\<rparr> = exp1_at E ?a s 0" by (simp add: exp1_at_def Let_def p0)
  have "each (exp1_increment E) [0..<16 * ?P] (exp1_at E ?a s 0) = (Inr (), exp1_at E ?a s (16 * ?P))"
    by (rule each_upt) (rule exp1_step [OF P a(2,1)])
  moreover have "q_flags q AND MAP_SHARED = 0" by (simp add: q mman_defs)
  ultimately show ?thesis using m a0 maps ram start
    by (simp add: exp1_main_def Let_def len sz q [symmetric] p_mmap_def p_mprotect_def)
qed

lemma exp1_end:
  assumes P: "0 < unat (getpagesize E)" "unat (getpagesize E) < 2 ^ 27" and f: "fits (a, getpagesize E * 16)"
    and s: "s' = exp1_at E a s (16 * unat (getpagesize E))"
  shows "in_block x (a, getpagesize E * 16) \<Longrightarrow> byte_at s' x = 1 \<and> may PROT_READ x s' \<and> may PROT_WRITE x s'"
    "\<not> in_block x (a, getpagesize E * 16) \<Longrightarrow> p_maps s' x = p_maps s x \<and> byte_at s' x = byte_at s x"
    "p_handled s' = p_handled s @ map (\<lambda>j. a + of_nat j * getpagesize E) [0..<16]"
proof -
  let ?P = "unat (getpagesize E)"
  have n: "unat (getpagesize E * 16) = 16 * ?P" using P(2) by (simp add: unat_word_ariths)
  have k: "opened_pages ?P (16 * ?P) = 16" using opened_pages_Suc(1) [OF P(1), of "16 * ?P"] P(1) by simp
  show "byte_at s' x = 1 \<and> may PROT_READ x s' \<and> may PROT_WRITE x s'" if "in_block x (a, getpagesize E * 16)"
    using that n by (simp add: s byte_at_def file_place_def may_def exp1_at_simps k mman_defs) (simp add: in_block_def)
  show "p_maps s' x = p_maps s x \<and> byte_at s' x = byte_at s x" if "\<not> in_block x (a, getpagesize E * 16)"
    using that by (simp add: s byte_at_def file_place_def exp1_at_simps split: option.split)
  show "p_handled s' = p_handled s @ map (\<lambda>j. a + of_nat j * getpagesize E) [0..<16]"
    by (simp only: s) (simp add: exp1_at_def Let_def k del: upt_rec_numeral)
qed

text \<open>C30: The first experiment runs to its end with result 0 when its \<^verbatim>\<open>mmap\<close> is granted: every byte of the
  sixteen pages has been incremented from 0 to 1 and is readable and writable, nothing outside the buffer has changed,
  and the handler has run exactly once for each page, in order, at the first byte of the page.\<close>

theorem exp1_correct:
  assumes K: "kernel_ok E" and P: "0 < unat (getpagesize E)" "unat (getpagesize E) < 2 ^ 27"
    and m: "os_mmap E (p_maps s) \<lparr>q_addr = 0, q_len = getpagesize E * 16, q_prot = PROT_READ OR PROT_WRITE,
       q_flags = MAP_PRIVATE OR MAP_ANONYMOUS, q_fd = - 1, q_off = 0\<rparr> = a" "a \<noteq> MAP_FAILED"
  shows "\<exists>s'. exp1_main E s = (Inr 0, s') \<and>
     (\<forall>x. if in_block x (a, getpagesize E * 16) then byte_at s' x = 1 \<and> may PROT_READ x s' \<and> may PROT_WRITE x s'
          else p_maps s' x = p_maps s x \<and> byte_at s' x = byte_at s x) \<and>
     p_handled s' = p_handled s @ map (\<lambda>j. a + of_nat j * getpagesize E) [0..<16]"
proof -
  let ?q = "\<lparr>q_addr = 0, q_len = getpagesize E * 16, q_prot = PROT_READ OR PROT_WRITE, q_flags = MAP_PRIVATE OR MAP_ANONYMOUS,
    q_fd = - 1, q_off = 0\<rparr>"
  have f: "fits (a, getpagesize E * 16)" using mmap_placed(1) [OF K, of "p_maps s" ?q] m by (simp add: mman_defs)
  have "exp1_main E s = (Inr 0, exp1_at E a s (16 * unat (getpagesize E)))"
    using exp1_main_runs [OF K P refl, of s] m by simp
  with exp1_end [OF P f refl, where s = s] show ?thesis by simp
qed

lemma exp1_correct_witness:
  "\<exists>s'. exp1_main kern_env \<lparr>p_maps = (\<lambda>_. None), p_ram = (\<lambda>_. 7), p_disk = (\<lambda>_. 0), p_handled = [], memptr = 0,
       exp1_length = 0, exp1_pagesize = 0\<rparr> = (Inr 0, s') \<and> byte_at s' 0x70ffff = 1 \<and> byte_at s' 0x710000 = 7 \<and> length (p_handled s') = 16"
proof -
  let ?s = "\<lparr>p_maps = (\<lambda>_. None), p_ram = (\<lambda>_. 7), p_disk = (\<lambda>_. 0), p_handled = [], memptr = 0, exp1_length = 0, exp1_pagesize = 0\<rparr>"
  obtain s' where s': "exp1_main kern_env ?s = (Inr 0, s')"
    "\<And>x. if in_block x (0x700000, getpagesize kern_env * 16) then byte_at s' x = 1 \<and> may PROT_READ x s' \<and> may PROT_WRITE x s'
       else p_maps s' x = p_maps ?s x \<and> byte_at s' x = byte_at ?s x"
    "p_handled s' = p_handled ?s @ map (\<lambda>j. 0x700000 + of_nat j * getpagesize kern_env) [0..<16]"
    using exp1_correct [OF kern_ok(1), where s = ?s and a = "0x700000"] by (auto simp: kern_env_def mman_defs fits_def)
  have "byte_at ?s x = 7" for x by (simp add: byte_at_def file_place_def)
  then have "byte_at s' 0x70ffff = 1" "byte_at s' 0x710000 = 7"
    using s'(2) [of "0x70ffff"] s'(2) [of "0x710000"] by (simp_all add: in_block_def)
  with s' show ?thesis by (simp del: upt_rec_numeral)
qed

text \<open>The handler hands the faulting address to \<^verbatim>\<open>mprotect\<close>, not the start of its page: a first access inside a closed
  page is tried again for ever. The loop of the program never makes one.\<close>

lemma exp1_unaligned_diverges:
  assumes "in_block x (memptr s, getpagesize E * 16)" "fits (memptr s, getpagesize E * 16)" "x mod getpagesize E \<noteq> 0"
    and "exp1_length s = ucast (getpagesize E * 16)" "unat (getpagesize E * 16) < 2 ^ 31" and closed: "\<not> may p x s"
  shows "touch p (exp1_handler E 0) x (s :: exp1) = (Inl Diverge, s)"
proof -
  let ?I = "\<lambda>t :: exp1. memptr t = memptr s \<and> exp1_length t = exp1_length s \<and> p_maps t = p_maps s"
  have r: "memptr s \<le> x \<and> x < memptr s + getpagesize E * 16"
    using assms(1,2) unat_add_fits [of "memptr s" "unat (getpagesize E * 16)"]
    by (simp add: fits_def in_block_def word_le_nat_alt word_less_nat_alt)
  have "retry (may p x) (exp1_handler E 0 x) s = None"
  proof (rule retry_never [where I = ?I])
    fix t :: exp1 assume I: "?I t"
    then have "\<not> may p x t" using closed by (simp add: may_def)
    moreover have "exp1_handler E 0 x t = (Inr (), t\<lparr>p_handled := p_handled t @ [x]\<rparr>)"
      using I r assms(3,4) int_size(2) [OF assms(5)] by (simp add: exp1_handler_def p_mprotect_def)
    ultimately show "\<not> may p x t \<and> (\<exists>t'. exp1_handler E 0 x t = (Inr (), t') \<and> ?I t')" using I by simp
  qed simp
  then show ?thesis by (simp add: touch_def)
qed

subsection \<open>The second experiment\<close>






























end
