(* ===== verification/Spec2Isabelle.thy ===== *)
theory Spec2Isabelle
  imports SC_Loader SC_Client SC_Coherence SC_Scon SC_Experiments
begin

text \<open>
  \<^bold>\<open>Subcontexts.\<close> A subcontext is a set of pages that several processes share at the same virtual
  addresses, so that pointers stored in it are valid in every process that has joined. The
  implementation is under \<^verbatim>\<open>src/archive__ancient_info_and_code/trunk\<close> (called \<^verbatim>\<open>trunk\<close> below); a
  later attempt, libraries whose pages are inaccessible between calls, is under \<^verbatim>\<open>src/src\<close>.

  \<^bold>\<open>The program.\<close> A process creates a subcontext on an empty temporary file with \<^verbatim>\<open>sc_init\<close>, or joins
  one with \<^verbatim>\<open>sc_join\<close>. The first page of the file holds the root struct \<^verbatim>\<open>sc\<close>, from which hang the lists
  of active regions, of reserved address ranges, of unused region structs and of processes, the
  cleanup log and the free list of the heap. \<^verbatim>\<open>sc_mmap\<close> carves pages out of the first reserved range and
  extends the file; \<^verbatim>\<open>sc_import\<close> moves pages a process has already into the file. \<^verbatim>\<open>sc_malloc\<close> and
  \<^verbatim>\<open>sc_free\<close> are a first-fit allocator on pages from \<^verbatim>\<open>sc_mmap\<close>. A process that touches an active region
  for the first time takes a fault, and the handler maps the region. A new reserved range must be
  blocked in every process before it is used: it is proposed in the cleanup log, the background
  thread of each process maps it and acknowledges, and the last to acknowledge moves it to the
  reserved list. The loader \<^verbatim>\<open>subcontexts_init\<close> opens an application, creates a subcontext and imports the
  application's pages; the registry is one such application, a table from names to addresses, and the IPC subcontext, which
  posts its socket operations there, another.

  \<^bold>\<open>Theories.\<close>
  \<^item> \<open>SC_Prelude\<close>: words, little-endian memory, the result type \<open>res\<close> with its trap values, the record
    of lock calls, and the locale \<open>linked_store\<close> of singly linked lists threaded through a store.
  \<^item> \<open>SC_Control\<close>: \<^verbatim>\<open>subcontexts_control.h\<close> and \<^verbatim>\<open>subcontexts_local.h\<close> as records, the state \<open>st\<close>, the kernel
    interface \<open>env\<close>, and mmap, munmap and ftruncate as operations on the state.
  \<^item> \<open>SC_Regions\<close>: \<^verbatim>\<open>sc_getFreeRegion\<close>, \<^verbatim>\<open>sc_mmap\<close>, \<^verbatim>\<open>sc_import\<close>, \<^verbatim>\<open>sc_import_protNone\<close>; invariant \<open>region_wf\<close>.
  \<^item> \<open>SC_Malloc\<close>: \<^verbatim>\<open>sc_malloc\<close>, \<^verbatim>\<open>sc_free\<close>; invariants \<open>heap_wf\<close> and \<open>malloc_inv\<close>; the sequences \<open>heap_run\<close>.
  \<^item> \<open>SC_Process\<close>: \<^verbatim>\<open>scInit_setup_procListEntry\<close>, \<^verbatim>\<open>sc_killLocalProc\<close>, \<^verbatim>\<open>sc_signal_handler_INT\<close>.
  \<^item> \<open>SC_Cleanup\<close>: \<^verbatim>\<open>sc_postNewReservation\<close>, \<^verbatim>\<open>sc_handleCleanupLogStep\<close> and one turn of \<^verbatim>\<open>sc_backgroundThread\<close>.
  \<^item> \<open>SC_Fault\<close>: \<^verbatim>\<open>sc_signal_handler_SEGV\<close>.
  \<^item> \<open>SC_Lifecycle\<close>: \<^verbatim>\<open>sc_init\<close>, \<^verbatim>\<open>sc_join\<close> and what they call; \<open>subcontext_ok\<close> joins the invariants above.
  \<^item> \<open>SC_Registry\<close>: \<^verbatim>\<open>subcontexts_registry.c\<close> and \<^verbatim>\<open>__subcontexts_registry_bootstrap\<close>.
  \<^item> \<open>SC_Ipc\<close>: \<^verbatim>\<open>subcontexts_ipc.c\<close>, with an abstract socket service as a step relation.
  \<^item> \<open>SC_Client\<close>: \<^verbatim>\<open>ipc_send.c\<close>, a client of the registry and of the IPC subcontext.
  \<^item> \<open>SC_Tools\<close>: \<^verbatim>\<open>subcontexts_ctl.c\<close>, \<^verbatim>\<open>subcontexts_dump.c\<close>, the loop of the demo, the mmap of the overrides.
  \<^item> \<open>SC_World\<close>: any number of processes on one subcontext, as the step relation \<open>world_step\<close> over a shared part and
    one private part for each process; invariant \<open>world_ok\<close>.
  \<^item> \<open>SC_Coherence\<close>: what the processes of a world see at the addresses of the subcontext, as the invariant \<open>coherent\<close>.
  \<^item> \<open>SC_Loader\<close>: \<^verbatim>\<open>subcontexts_init.c\<close>.
  \<^item> \<open>SC_Maps\<close>: \<^verbatim>\<open>src/src/mem/map.c\<close>, the parser of \<^verbatim>\<open>/proc/[pid]/maps\<close> and the difference of two snapshots.
  \<^item> \<open>SC_Scon\<close>: \<^verbatim>\<open>src/src/scon.c\<close> and \<^verbatim>\<open>src/src/_scbtable.c\<close>.
  \<^item> \<open>SC_Experiments\<close>: \<^verbatim>\<open>exp1.c\<close> and \<^verbatim>\<open>exp2.c\<close> of \<^verbatim>\<open>src/micro_experiments\<close>, each a program of its own with a fault handler.

  \<^bold>\<open>State.\<close> The record \<open>shared\<close> is what all processes of a subcontext see: the root struct \<open>rt\<close>, the typed
  stores \<open>regs\<close>, \<open>procs\<close> and \<open>steps\<close> keyed by the address of the struct, the bytes \<open>mem\<close> of the shared pages,
  the head of the allocator's free list and the length of the backing file. The record \<open>st\<close> adds what
  one process has: its \<^verbatim>\<open>sc_local\<close> entries, its address space \<open>vmap\<close> (what backs each page and with which
  protection), its private bytes, and the calls \<open>lk\<close> it has made to the lock library.
  Structs with an embedded \<^verbatim>\<open>russ_lock\<close> are in the typed stores because the size of a lock is unknown;
  the nodes, headers and footers of the allocator, the registry's entries and the sockets are bytes of \<open>mem\<close>.
  An operation runs to its end before the next one starts. \<open>SC_World\<close> runs the operations of several processes
  in any order; two operations do not overlap there, since the locks, whose code is not in the
  repository, are what orders them. Every property of an operation says which locks it leaves held.

  \<^bold>\<open>Steps of a world.\<close> A process that has joined may call \<^verbatim>\<open>sc_mmap\<close>, \<^verbatim>\<open>sc_malloc\<close> and \<^verbatim>\<open>sc_free\<close>, write to a buffer
  it has, take a page fault, post a reservation the way \<^verbatim>\<open>subcontexts_ctl\<close> does, run a turn of its background
  thread and leave by \<^verbatim>\<open>sc_killLocalProc\<close>; a new process may join. A call that ends in a trap is no step, nor is a
  join that returns NULL. The invariant is shown for runs of fewer than 2^31 steps: the process
  count and the acknowledgement counts are signed 32-bit integers, and a longer run could wrap them around.

  \<^bold>\<open>Errors.\<close> A failed assert, a call of \<^verbatim>\<open>TODO()\<close> (both with their source line), an exit, the use of a
  pointer to nothing and a loop that does not end are the values of \<open>trap\<close>. The error codes of the
  functions (NULL, -1, \<^verbatim>\<open>MAP_FAILED\<close>) are ordinary results.

  \<^bold>\<open>Loops.\<close> No definition has fuel. A walk along a list is a \<^theory_text>\<open>partial_function\<close> into \<open>option\<close>, where \<open>None\<close>
  means that the walk goes on for ever and becomes the trap \<open>Diverge\<close>; on well-formed lists each is
  shown to return. The repeated second pass of the loader, which depends on the kernel's view of the
  address space, has a termination theorem of its own. The parser and the search through the table of
  control blocks are total functions with a measure.

  \<^bold>\<open>Parameters.\<close> The kernel, the lock library, the layout of structs with locks, the dynamic linker
  and \<^verbatim>\<open>russ_parseProcMaps\<close> are not in the repository; they are fields of \<open>env\<close>, \<open>boot\<close>, \<open>host\<close> and
  \<open>host_os\<close>, or arguments. What the code relies on is stated by \<open>page_ok\<close> (the page size is a multiple of
  8 from 64 to 2^30), \<open>lock_query_ok\<close> (the lock library reports the locks that are held), \<open>kernel_ok\<close>
  (mmap rejects empty requests and, unless told where to map, answers with addresses not in use), \<open>layout_ok\<close>, \<open>thread_ok\<close>, \<open>handlers_ok\<close>, \<open>join_calls_ok\<close>
  and \<open>parse_ok\<close>. Each theorem that assumes one of them has a witness in which it holds.

  \<^bold>\<open>Interfaces.\<close> \<open>linked_store\<close> gives the laws of list segments once; it is interpreted for the region,
  process and cleanup lists and for the free list. \<open>page_source\<close> is what the allocator needs of
  \<^verbatim>\<open>sc_mmap\<close> and is interpreted on it. \<open>allocator\<close> is what users of the heap need, proved once for every
  sequence of calls; it is interpreted on \<^verbatim>\<open>sc_malloc\<close> and \<^verbatim>\<open>sc_free\<close>, and the registry and the sockets
  rest on it.

  \<^bold>\<open>What is shown.\<close>
  \<^item> Heap: a returned buffer is aligned, large enough, intact and apart from every other; any sequence
    of calls keeps the contents of the buffers; a buffer is returned whenever there is room; the
    size computations do not wrap; a write past the end is detected by \<^verbatim>\<open>sc_free\<close>.
  \<^item> Regions: mmap and import keep \<open>region_wf\<close>; regions never overlap, nor do their pages of the file;
    the failures, including two that leave a lock held or a size wrong, are stated exactly.
  \<^item> Processes: \<^verbatim>\<open>sc_init\<close> establishes \<open>subcontext_ok\<close>, \<^verbatim>\<open>sc_join\<close> keeps it and maps everything another process
    has; a dying process removes exactly its own struct.
  \<^item> Cleanup log: posting, acknowledging and retiring a reservation, each with its effect on the log, on
    the reserved list and on the address space.
  \<^item> Faults: a permitted fault maps the whole region onto its own part of the file; two addresses are
    never backed by the same byte; other faults shut the process down.
  \<^item> Registry: the linked list refines a finite map, and other users of the heap do not disturb it.
  \<^item> Sockets: every sequence of calls answers as the abstract service, whose sockets go from fresh to bound to
    listening; with room in the heap a socket gets there. The registered accept is the listen operation,
    so that the client gets a listening socket and then fails.
  \<^item> Several processes: from \<^verbatim>\<open>sc_init\<close> on, every state that any order of steps can reach is consistent: the lists
    and the heap are well formed, every process has all active and reserved ranges in its address
    space, exactly the live processes are listed and counted, and the acknowledgements count exactly those that
    have blocked the pending range, some of which may have left since. When every background thread has had a turn, the range is published. A
    heap buffer that nobody writes to or frees keeps its bytes whatever the processes do.
  \<^item> One memory: in every such state, two processes that can touch an address of an active region touch the same
    byte of the backing file, whichever way each came to map it, and nobody can touch a reserved range. While the
    file can be extended (\<open>file_grows\<close>) the active regions fill the file exactly, and different addresses are
    different bytes of it. This is what justifies that \<open>mem\<close> is keyed by virtual addresses and shared by all
    processes. Without the condition it can fail: an mmap that cannot extend the file leaves the recorded size too
    large, and the size could wrap around in the end.
  \<^item> Tools: the dump prints each list of regions exactly.
  \<^item> Loader: a pass imports exactly the wanted mappings with their bytes, and the passes come to an end. As a
    whole the loader creates the subcontext, imports the process and returns what the application returns; the
    imports cannot collide with what \<^verbatim>\<open>sc_init\<close> maps, because the maps file is read first.
  \<^item> Maps parser and library subcontexts: what the kernel prints is read back, up to two defects of the
    parser that the round trip states; a created subcontext is sealed; the table is never indexed
    out of range; a fault opens exactly one mapping.
  \<^item> Experiments: both programs run to their end with the memory they mean to leave, and how often and where their
    fault handlers run is exact; a first fault inside a page would be repeated for ever.

  \<^bold>\<open>Not modelled.\<close>
  \<^item> The connection, sending and receiving of \<^verbatim>\<open>subcontexts_ipc.c\<close>, which are a \<^verbatim>\<open>TODO\<close> in the source; the locks that the
    file leaves out are also only a note there.
  \<^item> The rest of \<^verbatim>\<open>subcontexts_v1_overrides.h\<close>: stdio wrappers that turn off buffering, and a wrapper of
    \<^verbatim>\<open>sc_munmap\<close>, which is declared in \<^verbatim>\<open>subcontexts.h\<close> and has no implementation.
  \<^item> Printing, futex waits and wakes, and the faults a process takes while it reads a control struct in a
    page it has not mapped yet.
  \<^item> The other experiments (a table of pages shared through a file, which one program fills and another prints,
    and the dynamic linker) and the interface sketch, which no part of the library uses.

  \<^bold>\<open>Beyond the model.\<close> Two operations that overlap, which only the lock library orders, and a process that ends without its
  handler, whose missing acknowledgement leaves the log waiting.
\<close>

end
